(* ===== verification/Prelude.thy ===== *)
theory Prelude
  imports Main "HOL-Library.Word" "HOL-Library.List_Lexorder" "HOL-Library.Char_ord"
    "HOL-Library.Sublist"
begin

text \<open>
  Shared vocabulary of the development. A Rust \<open>String\<close>, \<open>&str\<close>, \<open>Bytes\<close> or
  \<open>Vec<u8>\<close> is a \<open>string\<close> (an Isabelle \<open>char\<close> is one byte); the lexicographic order of
  \<open>HOL-Library.List_Lexorder\<close> over \<open>HOL-Library.Char_ord\<close> is then Rust's byte-wise string
  order. A \<open>Result<T, E>\<close> is \<open>'e + 'a\<close> with \<open>Inl\<close> the error. A \<open>BTreeMap\<close> is an
  association list sorted strictly by key. The section on text holds the standard-library
  string operations the sources use.
\<close>

named_theorems wal_simps \<open>simplification rules the component proofs share\<close>

type_synonym bytes = string
type_synonym ('e, 'a) result = "'e + 'a"

section \<open>Results\<close>

definition is_ok :: "('e, 'a) result \<Rightarrow> bool" where
  "is_ok r = (case r of Inl _ \<Rightarrow> False | Inr _ \<Rightarrow> True)"

lemma is_ok_simps [simp]: "is_ok (Inr x)" "\<not> is_ok (Inl e)"
  by (simp_all add: is_ok_def)

section \<open>Ordered maps (BTreeMap)\<close>

type_synonym ('k, 'v) btree = "('k \<times> 'v) list"

abbreviation bt_ok :: "('k::linorder, 'v) btree \<Rightarrow> bool" where
  "bt_ok t \<equiv> sorted_wrt (<) (map fst t)"

abbreviation bt_get :: "('k, 'v) btree \<Rightarrow> 'k \<Rightarrow> 'v option" where
  "bt_get t k \<equiv> map_of t k"

fun bt_insert :: "'k::linorder \<Rightarrow> 'v \<Rightarrow> ('k, 'v) btree \<Rightarrow> ('k, 'v) btree" where
  "bt_insert k v [] = [(k, v)]"
| "bt_insert k v ((a, b) # t) =
     (if k < a then (k, v) # (a, b) # t
      else if k = a then (k, v) # t
      else (a, b) # bt_insert k v t)"

definition bt_remove :: "'k \<Rightarrow> ('k, 'v) btree \<Rightarrow> ('k, 'v) btree" where
  "bt_remove k t = filter (\<lambda>e. fst e \<noteq> k) t"

lemma bt_get_insert [simp]: "bt_get (bt_insert k v t) = (bt_get t)(k \<mapsto> v)"
  by (induction t) (auto simp: fun_eq_iff)

lemma bt_get_remove [simp]: "bt_get (bt_remove k t) = (bt_get t)(k := None)"
  by (induction t) (auto simp: bt_remove_def fun_eq_iff)

lemma bt_keys_insert: "set (map fst (bt_insert k v t)) = insert k (set (map fst t))"
  by (induction k v t rule: bt_insert.induct) (auto simp del: set_map)

lemma bt_ok_insert [simp]: "bt_ok t \<Longrightarrow> bt_ok (bt_insert k v t)"
proof (induction t)
  case Nil
  then show ?case by simp
next
  case (Cons e t)
  obtain a b where e: "e = (a, b)" by (cases e)
  from Cons have ih: "bt_ok (bt_insert k v t)" and gt: "\<forall>y \<in> set (map fst t). a < y"
    by (auto simp: e)
  show ?case
  proof (cases "k < a \<or> k = a")
    case True
    then show ?thesis using Cons.prems by (auto simp: e)
  next
    case False
    then have "\<forall>y \<in> set (map fst (bt_insert k v t)). a < y"
      unfolding bt_keys_insert using gt by auto
    with False ih show ?thesis by (auto simp: e)
  qed
qed

lemma bt_ok_filter [simp]: "bt_ok t \<Longrightarrow> bt_ok (filter P t)"
  by (induction t) auto

lemma bt_ok_remove [simp]: "bt_ok t \<Longrightarrow> bt_ok (bt_remove k t)"
  by (simp add: bt_remove_def)

lemma bt_ok_distinct: "bt_ok t \<Longrightarrow> distinct (map fst t)"
  by (metis strict_sorted_iff)

lemma bt_get_iff: "bt_ok t \<Longrightarrow> bt_get t k = Some v \<longleftrightarrow> (k, v) \<in> set t"
  by (simp add: map_of_eq_Some_iff bt_ok_distinct)

lemma bt_remove_none: "bt_get t k = None \<Longrightarrow> bt_remove k t = t"
  unfolding bt_remove_def map_of_eq_None_iff by (rule filter_True) auto

section \<open>Text\<close>

abbreviation starts_with :: "string \<Rightarrow> string \<Rightarrow> bool" where
  "starts_with s p \<equiv> prefix p s"

abbreviation ends_with :: "string \<Rightarrow> string \<Rightarrow> bool" where
  "ends_with s p \<equiv> suffix p s"

abbreviation str_contains :: "string \<Rightarrow> string \<Rightarrow> bool" where
  "str_contains s p \<equiv> sublist p s"

definition strip_prefix :: "string \<Rightarrow> string \<Rightarrow> string option" where
  "strip_prefix p s = (if prefix p s then Some (drop (length p) s) else None)"

lemma strip_prefix_append [simp]: "strip_prefix p (p @ s) = Some s"
  by (simp add: strip_prefix_def)

lemma strip_prefix_Some: "strip_prefix p s = Some r \<longleftrightarrow> s = p @ r"
  by (auto simp: strip_prefix_def prefix_def)

definition strip_suffix :: "string \<Rightarrow> string \<Rightarrow> string option" where
  "strip_suffix p s = (if suffix p s then Some (take (length s - length p) s) else None)"

text \<open>\<open>str::split(c)\<close>: always at least one piece.\<close>

fun split_on :: "char \<Rightarrow> string \<Rightarrow> string list" where
  "split_on c [] = [[]]"
| "split_on c (x # xs) =
     (if x = c then [] # split_on c xs
      else (case split_on c xs of [] \<Rightarrow> [[x]] | p # ps \<Rightarrow> (x # p) # ps))"

text \<open>\<open>str::split_once(c)\<close>.\<close>

fun split_once :: "char \<Rightarrow> string \<Rightarrow> (string \<times> string) option" where
  "split_once c [] = None"
| "split_once c (x # xs) =
     (if x = c then Some ([], xs)
      else map_option (\<lambda>(a, b). (x # a, b)) (split_once c xs))"

lemma split_on_nonempty [simp]: "split_on c s \<noteq> []"
  by (induction s) (auto split: list.splits)

lemma split_on_append: "c \<notin> set a \<Longrightarrow> split_on c (a @ c # b) = a # split_on c b"
  by (induction a) auto

lemma split_on_none: "c \<notin> set a \<Longrightarrow> split_on c a = [a]"
  by (induction a) auto

lemma split_once_append [simp]: "c \<notin> set a \<Longrightarrow> split_once c (a @ c # b) = Some (a, b)"
  by (induction a) auto

lemma split_once_Some: "split_once c s = Some (a, b) \<longleftrightarrow> s = a @ c # b \<and> c \<notin> set a"
proof (induction s arbitrary: a)
  case Nil
  then show ?case by simp
next
  case (Cons x s)
  then show ?case by (cases a) (auto split: if_splits)
qed

lemma split_once_None: "split_once c s = None \<longleftrightarrow> c \<notin> set s"
  by (induction s) auto

definition is_ascii_digit :: "char \<Rightarrow> bool" where
  "is_ascii_digit c = (CHR ''0'' \<le> c \<and> c \<le> CHR ''9'')"

definition is_ascii_lowercase :: "char \<Rightarrow> bool" where
  "is_ascii_lowercase c = (CHR ''a'' \<le> c \<and> c \<le> CHR ''z'')"

definition is_ascii_uppercase :: "char \<Rightarrow> bool" where
  "is_ascii_uppercase c = (CHR ''A'' \<le> c \<and> c \<le> CHR ''Z'')"

definition is_ascii_alphanumeric :: "char \<Rightarrow> bool" where
  "is_ascii_alphanumeric c =
     (is_ascii_digit c \<or> is_ascii_lowercase c \<or> is_ascii_uppercase c)"

definition is_ascii_hexdigit :: "char \<Rightarrow> bool" where
  "is_ascii_hexdigit c =
     (is_ascii_digit c \<or> (CHR ''a'' \<le> c \<and> c \<le> CHR ''f'') \<or> (CHR ''A'' \<le> c \<and> c \<le> CHR ''F''))"

definition to_ascii_lowercase :: "string \<Rightarrow> string" where
  "to_ascii_lowercase = map (\<lambda>c. if is_ascii_uppercase c then char_of (of_char c + 32 :: nat) else c)"

lemmas ascii_defs = is_ascii_digit_def is_ascii_lowercase_def is_ascii_uppercase_def
  is_ascii_alphanumeric_def is_ascii_hexdigit_def less_eq_char_def

section \<open>Numerals\<close>

text \<open>One digit of base at most 16, lower case; the positional rendering of a number.\<close>

definition digit_char :: "nat \<Rightarrow> char" where
  "digit_char d = char_of (if d < 10 then 48 + d else 87 + d)"

fun digits :: "nat \<Rightarrow> nat \<Rightarrow> string" where
  "digits base n =
     (if base < 2 then [] else if n < base then [digit_char n]
      else digits base (n div base) @ [digit_char (n mod base)])"

declare digits.simps [simp del]

definition show_nat :: "nat \<Rightarrow> string" where
  "show_nat n = digits 10 n"

text \<open>\<open>format!("{n:0wx}")\<close>: lower-case hexadecimal, padded with zeros to width \<open>w\<close>.\<close>

definition pad_left :: "char \<Rightarrow> nat \<Rightarrow> string \<Rightarrow> string" where
  "pad_left c w s = replicate (w - length s) c @ s"

definition show_hex_pad :: "nat \<Rightarrow> nat \<Rightarrow> string" where
  "show_hex_pad w n = pad_left (CHR ''0'') w (digits 16 n)"

text \<open>The value of a digit string: the left inverse that gives injectivity.\<close>

definition digit_val :: "char \<Rightarrow> nat" where
  "digit_val c = (let n = of_char c in if n < 58 then n - 48 else n - 87)"

definition digits_val :: "nat \<Rightarrow> string \<Rightarrow> nat" where
  "digits_val base s = foldl (\<lambda>acc c. acc * base + digit_val c) 0 s"

lemma digit_val_char [simp]: "d < 16 \<Longrightarrow> digit_val (digit_char d) = d"
  by (simp add: digit_val_def digit_char_def Let_def)

lemma digit_char_0: "digit_char 0 = CHR ''0''"
  by code_simp

lemma digits_val_append [simp]: "digits_val b (s @ [c]) = digits_val b s * b + digit_val c"
  by (simp add: digits_val_def)

lemma digits_val_digits:
  assumes "2 \<le> base" "base \<le> 16"
  shows "digits_val base (digits base n) = n"
  using assms
proof (induction base n rule: digits.induct)
  case (1 base n)
  show ?case
  proof (cases "n < base")
    case True
    with 1 show ?thesis by (subst digits.simps) (simp add: digits_val_def)
  next
    case False
    with 1 have "digits_val base (digits base (n div base)) = n div base" by simp
    moreover have "digit_val (digit_char (n mod base)) = n mod base"
      using 1 by (intro digit_val_char) (metis mod_less_divisor order.strict_trans2 not_gr0 not_numeral_le_zero)
    ultimately show ?thesis using False 1 by (subst digits.simps) simp
  qed
qed

lemma show_nat_inject [simp]: "show_nat m = show_nat n \<longleftrightarrow> m = n"
proof
  assume "show_nat m = show_nat n"
  then have "digits_val 10 (show_nat m) = digits_val 10 (show_nat n)" by simp
  then show "m = n" by (simp add: show_nat_def digits_val_digits)
qed simp

lemma digits_val_pad [simp]: "digits_val b (pad_left (CHR ''0'') w s) = digits_val b s"
proof -
  have "foldl (\<lambda>acc c. acc * b + digit_val c) 0 (replicate k (CHR ''0'')) = 0" for k
    by (induction k) (simp_all add: digit_val_def)
  then show ?thesis by (simp add: digits_val_def pad_left_def)
qed

lemma show_hex_pad_inject [simp]: "show_hex_pad w m = show_hex_pad w n \<longleftrightarrow> m = n"
proof
  assume "show_hex_pad w m = show_hex_pad w n"
  then have "digits_val 16 (show_hex_pad w m) = digits_val 16 (show_hex_pad w n)" by simp
  then show "m = n" by (simp add: show_hex_pad_def digits_val_digits)
qed simp

end
