(* ===== verification/Proto.thy ===== *)
theory Proto
  imports Prelude
begin

text \<open>
  The messages of \<open>crates/walgit-proto/proto/walgit/v1/wal.proto\<close>, one record per message,
  one datatype per \<open>oneof\<close>. Unsigned integers are \<open>nat\<close>; a protobuf enum field is the raw
  \<open>i32\<close> the generated struct carries (an \<open>int\<close>), decoded by the accessor functions; a
  \<open>map<k, v>\<close> is the list of its pairs in key order (\<open>btree\<close>); an absent submessage is \<open>None\<close>. The wire encoding is generated by
  a third-party compiler and is a parameter wherever the code serialises a message.
\<close>

section \<open>Timestamps (walgit-proto/src/lib.rs, module time)\<close>

record timestamp =
  ts_seconds :: int
  ts_nanos :: int

text \<open>A \<open>SystemTime\<close> is its signed distance from the Unix epoch in nanoseconds.\<close>

type_synonym system_time = int

definition nanos_per_sec :: int where
  "nanos_per_sec = 1000000000"

definition from_system :: "system_time \<Rightarrow> timestamp" where
  "from_system t =
     (let d = max 0 t in
      \<lparr>ts_seconds = (if d div nanos_per_sec < 2 ^ 63 then d div nanos_per_sec else 2 ^ 63 - 1),
       ts_nanos = d mod nanos_per_sec\<rparr>)"

definition to_system :: "timestamp \<Rightarrow> system_time" where
  "to_system t = max 0 (ts_seconds t) * nanos_per_sec + max 0 (ts_nanos t)"

section \<open>Refs\<close>

record ref_update =
  u_name :: string
  u_old_oid :: string
  u_new_oid :: string
  u_new_symbolic_target :: string
  u_new_peeled :: string

record ref_transaction =
  tx_updates :: "ref_update list"
  tx_push_options :: "string list"
  tx_atomic :: bool

record git_ref =
  r_name :: string
  r_oid :: string
  r_peeled :: string

record ref_snapshot =
  sn_seq :: nat
  sn_object_format :: string
  sn_refs :: "git_ref list"
  sn_head_target :: string
  sn_created_at :: "timestamp option"

section \<open>Packs\<close>

record pack_group_coverage =
  cov_group :: string
  cov_ref_policy :: string
  cov_covers_seq :: nat
  cov_packs :: "string list"
  cov_refs_key :: string

record pack_ref =
  pk_checksum :: string
  pk_pack_size :: nat
  pk_idx_size :: nat
  pk_has_rev :: bool
  pk_has_bitmap :: bool
  pk_object_count :: nat
  pk_seq :: nat
  pk_tier :: nat
  pk_has_commit_graph :: bool
  pk_kind :: int
  pk_derived_from :: string
  pk_covers_seq :: nat
  pk_published_at :: "timestamp option"
  pk_audience :: int
  pk_ref_policy :: string
  pk_pack_groups :: "string list"
  pk_group_coverages :: "pack_group_coverage list"
  pk_coverage_refs_key :: string

definition PACK_KIND_OBJECTS :: int where "PACK_KIND_OBJECTS = 0"
definition PACK_KIND_HISTORY :: int where "PACK_KIND_HISTORY = 1"
definition PACK_KIND_BLOBS :: int where "PACK_KIND_BLOBS = 2"

definition default_pack_ref :: pack_ref where
  "default_pack_ref =
     \<lparr>pk_checksum = [], pk_pack_size = 0, pk_idx_size = 0, pk_has_rev = False,
      pk_has_bitmap = False, pk_object_count = 0, pk_seq = 0, pk_tier = 0,
      pk_has_commit_graph = False, pk_kind = 0, pk_derived_from = [], pk_covers_seq = 0,
      pk_published_at = None, pk_audience = 0, pk_ref_policy = [], pk_pack_groups = [],
      pk_group_coverages = [], pk_coverage_refs_key = []\<rparr>"

record retired_pack =
  rp_checksum :: string
  rp_retired_at :: "timestamp option"
  rp_retired_seq :: nat

section \<open>Repository documents\<close>

record repo_access =
  ac_visibility :: int
  ac_collaborators :: "(string, int) btree"
  ac_revision :: nat
  ac_author :: string
  ac_updated_at :: "timestamp option"
  ac_message :: string

record repo_settings =
  st_toml :: string
  st_revision :: nat
  st_author :: string
  st_updated_at :: "timestamp option"
  st_message :: string

record log_segment_ref =
  sg_key :: string
  sg_first_seq :: nat
  sg_last_seq :: nat
  sg_size :: nat
  sg_sealed :: bool

record checkpoint_ref =
  cp_seq :: nat
  cp_key :: string
  cp_created_at :: "timestamp option"
  cp_first_state_at :: "timestamp option"
  cp_as_of :: "timestamp option"
  cp_refs_key :: string
  cp_forge_key :: string
  cp_accounts_key :: string

record checkpoint =
  ck_seq :: nat
  ck_object_format :: string
  ck_packs :: "pack_ref list"
  ck_refs_key :: string
  ck_ref_count :: nat
  ck_bundle_key :: string
  ck_created_at :: "timestamp option"
  ck_writer :: string

record manifest =
  m_format_version :: nat
  m_repo :: string
  m_object_format :: string
  m_head_seq :: nat
  m_min_seq :: nat
  m_checkpoint :: "checkpoint_ref option"
  m_log_segments :: "log_segment_ref list"
  m_packs :: "pack_ref list"
  m_updated_at :: "timestamp option"
  m_writer :: string
  m_revision :: nat
  m_settings :: "repo_settings option"
  m_retired_packs :: "retired_pack list"
  m_forge_next_number :: nat
  m_access :: "repo_access option"

definition default_manifest :: manifest where
  "default_manifest =
     \<lparr>m_format_version = 0, m_repo = [], m_object_format = [], m_head_seq = 0, m_min_seq = 0,
      m_checkpoint = None, m_log_segments = [], m_packs = [], m_updated_at = None, m_writer = [],
      m_revision = 0, m_settings = None, m_retired_packs = [], m_forge_next_number = 0,
      m_access = None\<rparr>"

definition WAL_FORMAT_VERSION :: nat where
  "WAL_FORMAT_VERSION = 1"

section \<open>Forge events\<close>

record forge_opened =
  op_kind :: int
  op_title :: string
  op_body :: string
  op_labels :: "string list"
  op_assignees :: "string list"
  op_base_ref :: string
  op_head_ref :: string
  op_base_oid :: string
  op_head_oid :: string
  op_draft :: bool

datatype forge_edit_change = ETitle string | EBody string | EDeleted bool

record forge_state_change =
  sc_closed :: bool
  sc_reason :: string
  sc_base_oid :: string
  sc_head_oid :: string

record forge_set_change =
  set_add :: "string list"
  set_remove :: "string list"

record forge_line_comment =
  lc_path :: string
  lc_side :: string
  lc_line :: nat
  lc_body :: string

record forge_review =
  rv_state :: string
  rv_body :: string
  rv_commit_oid :: string
  rv_comments :: "forge_line_comment list"

record forge_merged =
  mg_method :: string
  mg_merge_commit_oid :: string
  mg_base_oid :: string
  mg_head_oid :: string

record forge_label =
  lb_name :: string
  lb_color :: string
  lb_description :: string
  lb_deleted :: bool

datatype forge_body =
    Opened forge_opened
  | Comment string
  | Edit nat "forge_edit_change option"
  | StateChange forge_state_change
  | Labels forge_set_change
  | Assignees forge_set_change
  | Review forge_review
  | Merged forge_merged
  | Draft bool
  | Label forge_label

record forge_event =
  fe_number :: nat
  fe_actor :: string
  fe_actor_id :: string
  fe_body :: "forge_body option"

record forge_record =
  fr_seq :: nat
  fr_at :: "timestamp option"
  fr_events :: "forge_event list"

record forge_history =
  fh_seq :: nat
  fh_records :: "forge_record list"

section \<open>Account events\<close>

record user_created =
  uc_user_id :: string
  uc_login :: string
  uc_email :: string
  uc_name :: string
  uc_avatar_url :: string

record identity_linked =
  il_user_id :: string
  il_issuer :: string
  il_subject :: string

record profile_changed =
  pc_user_id :: string
  pc_email :: string
  pc_name :: string
  pc_avatar_url :: string

record org_created =
  oc_org_id :: string
  oc_login :: string
  oc_owners :: "string list"

record org_owners_changed =
  oo_org_id :: string
  oo_owners :: "string list"

record password_set =
  ps_user_id :: string
  ps_phc :: string

text \<open>An \<open>AccountEvent\<close> is its optional body.\<close>

datatype account_body =
    Genesis "string list"
  | UserCreated user_created
  | IdentityLinked identity_linked
  | ProfileChanged profile_changed
  | NamespaceReserved string
  | OrgCreated org_created
  | OrgOwnersChanged org_owners_changed
  | PasswordSet password_set

type_synonym account_event = "account_body option"

record account_record =
  ar_seq :: nat
  ar_at :: "timestamp option"
  ar_events :: "account_event list"

record account_history =
  ah_seq :: nat
  ah_records :: "account_record list"

section \<open>Log entries\<close>

datatype entry_kind =
    EK_Unspecified | EK_Push | EK_Compact | EK_RefUpdate | EK_Checkpoint | EK_Settings
  | EK_Forge | EK_Account | EK_Access

record log_entry =
  le_seq :: nat
  le_kind :: entry_kind
  le_pack :: "pack_ref option"
  le_txn :: "ref_transaction option"
  le_supersedes :: "string list"
  le_checkpoint :: "checkpoint_ref option"
  le_created_at :: "timestamp option"
  le_writer :: string
  le_meta :: "(string, string) btree"
  le_settings :: "repo_settings option"
  le_forge :: "forge_event list"
  le_account :: "account_event list"
  le_access :: "repo_access option"

definition default_log_entry :: log_entry where
  "default_log_entry =
     \<lparr>le_seq = 0, le_kind = EK_Unspecified, le_pack = None, le_txn = None, le_supersedes = [],
      le_checkpoint = None, le_created_at = None, le_writer = [], le_meta = [],
      le_settings = None, le_forge = [], le_account = [], le_access = None\<rparr>"

section \<open>Leases\<close>

record lease =
  ls_holder :: string
  ls_purpose :: string
  ls_acquired_at :: "timestamp option"
  ls_expires_at :: "timestamp option"
  ls_epoch :: nat

section \<open>Lemmas\<close>

lemma to_from_system:
  assumes "0 \<le> t" "t < 2 ^ 63 * nanos_per_sec"
  shows "to_system (from_system t) = t"
proof -
  have "t div nanos_per_sec < 2 ^ 63"
    using assms by (simp add: nanos_per_sec_def div_less_iff_less_mult)
  moreover have "0 \<le> t div nanos_per_sec" "0 \<le> t mod nanos_per_sec"
    using assms by (simp_all add: nanos_per_sec_def pos_imp_zdiv_nonneg_iff)
  ultimately show ?thesis
    using assms by (simp add: to_system_def from_system_def Let_def)
qed

lemma to_system_nonneg: "0 \<le> to_system t"
  by (simp add: to_system_def nanos_per_sec_def)

end
