(* ===== verification/Keys.thy ===== *)
theory Keys
  imports Proto
begin

text \<open>
  Object keys (\<open>walgit-proto/src/lib.rs\<close>, module \<open>keys\<close>) and repository identifiers
  (\<open>walgit-git/src/lib.rs\<close>, \<open>RepoId\<close>). The lemmas: the log key of a sequence number is
  injective and its lexicographic order is the numeric order; the store prefixes of two distinct
  repositories are incomparable, so no key of one lies under the other; a repository id survives
  printing and parsing.
\<close>

section \<open>Repo-relative object keys\<close>

definition MANIFEST :: string where "MANIFEST = ''manifest.pb''"
definition LOG_DIR :: string where "LOG_DIR = ''log/''"
definition WAL_DIR :: string where "WAL_DIR = ''wal/''"
definition CHECKPOINTS_DIR :: string where "CHECKPOINTS_DIR = ''checkpoints/''"
definition LEASES_DIR :: string where "LEASES_DIR = ''leases/''"
definition MAINTAIN_DIR :: string where "MAINTAIN_DIR = ''maintain/''"
definition LFS_DIR :: string where "LFS_DIR = ''lfs/objects/''"
definition POLICY :: string where "POLICY = ''policy.json''"

definition repo_prefix :: "string \<Rightarrow> string \<Rightarrow> string" where
  "repo_prefix owner name = ''repos/'' @ owner @ ''/'' @ name @ ''/''"

definition maintainer_key :: "string \<Rightarrow> string" where
  "maintainer_key host = MAINTAIN_DIR @ host @ ''.pb''"

definition policy_key :: "string \<Rightarrow> string \<Rightarrow> string" where
  "policy_key owner name = repo_prefix owner name @ POLICY"

definition log_segment_key :: "nat \<Rightarrow> string" where
  "log_segment_key first_seq = LOG_DIR @ show_hex_pad 16 first_seq @ ''.pb''"

definition pack_key :: "string \<Rightarrow> string" where
  "pack_key checksum_hex = WAL_DIR @ checksum_hex @ ''.pack''"

definition idx_key :: "string \<Rightarrow> string" where
  "idx_key checksum_hex = WAL_DIR @ checksum_hex @ ''.idx''"

definition rev_key :: "string \<Rightarrow> string" where
  "rev_key checksum_hex = WAL_DIR @ checksum_hex @ ''.rev''"

definition bitmap_key :: "string \<Rightarrow> string" where
  "bitmap_key checksum_hex = WAL_DIR @ checksum_hex @ ''.bitmap''"

definition commit_graph_key :: "string \<Rightarrow> string" where
  "commit_graph_key checksum_hex = WAL_DIR @ checksum_hex @ ''.commit-graph''"

definition checkpoint_dir :: "nat \<Rightarrow> string" where
  "checkpoint_dir seq = CHECKPOINTS_DIR @ show_hex_pad 16 seq @ ''/''"

definition checkpoint_key :: "nat \<Rightarrow> string" where
  "checkpoint_key seq = CHECKPOINTS_DIR @ show_hex_pad 16 seq @ ''/checkpoint.pb''"

definition checkpoint_attempt_key :: "nat \<Rightarrow> string \<Rightarrow> string" where
  "checkpoint_attempt_key seq attempt =
     CHECKPOINTS_DIR @ show_hex_pad 16 seq @ ''/attempts/'' @ attempt @ ''/checkpoint.pb''"

definition checkpoint_refs_key :: "nat \<Rightarrow> string" where
  "checkpoint_refs_key seq = CHECKPOINTS_DIR @ show_hex_pad 16 seq @ ''/refs.pb''"

definition checkpoint_bundle_key :: "nat \<Rightarrow> string \<Rightarrow> string" where
  "checkpoint_bundle_key seq checksum_hex =
     CHECKPOINTS_DIR @ show_hex_pad 16 seq @ ''/'' @ checksum_hex @ ''.bundle''"

definition lease_key :: "string \<Rightarrow> string" where
  "lease_key name = LEASES_DIR @ name @ ''.pb''"

definition lfs_oid_ok :: "string \<Rightarrow> bool" where
  "lfs_oid_ok oid = (length oid = 64 \<and> list_all is_ascii_hexdigit oid)"

text \<open>\<open>str::get(a..b)\<close>: \<open>None\<close> out of range or off a UTF-8 character boundary.\<close>

definition is_continuation_byte :: "char \<Rightarrow> bool" where
  "is_continuation_byte c = (128 \<le> (of_char c :: nat) \<and> (of_char c :: nat) < 192)"

definition is_char_boundary :: "string \<Rightarrow> nat \<Rightarrow> bool" where
  "is_char_boundary s i =
     (i = 0 \<or> i = length s \<or> (i < length s \<and> \<not> is_continuation_byte (s ! i)))"

definition str_get :: "string \<Rightarrow> nat \<Rightarrow> nat \<Rightarrow> string option" where
  "str_get s a b =
     (if a \<le> b \<and> b \<le> length s \<and> is_char_boundary s a \<and> is_char_boundary s b
      then Some (take (b - a) (drop a s)) else None)"

definition lfs_key :: "string \<Rightarrow> string" where
  "lfs_key oid =
     (let (aa, bb) = (case (str_get oid 0 2, str_get oid 2 4) of
                        (Some a, Some b) \<Rightarrow> (a, b) | _ \<Rightarrow> ([], []))
      in LFS_DIR @ aa @ ''/'' @ bb @ ''/'' @ oid)"

section \<open>Repository ids\<close>

definition quoted :: "string \<Rightarrow> string" where
  "quoted s = CHR 0x27 # s @ [CHR 0x27]"

datatype git_error =
    GitInvalidInput string
  | GitProtocol string
  | GitIo string
  | GitRefConflict string string string

record repo_id =
  rid_owner :: string
  rid_name :: string

definition SYSTEM_OWNER :: string where "SYSTEM_OWNER = ''.system''"

definition validate_part :: "string \<Rightarrow> string \<Rightarrow> (git_error, unit) result" where
  "validate_part s what =
     (if s = [] \<or> 100 < length s then Inl (GitInvalidInput (what @ '' must be 1..=100 chars''))
      else if s = ''..'' then Inl (GitInvalidInput (what @ '' may not be '' @ quoted ''..''))
      else if starts_with s ''.'' then Inl (GitInvalidInput (what @ '' may not start with '' @ quoted ''.''))
      else if \<not> list_all (\<lambda>b. is_ascii_alphanumeric b \<or> b = CHR ''.'' \<or> b = CHR ''_'' \<or> b = CHR ''-'') s
      then Inl (GitInvalidInput (what @ '' must be ASCII [A-Za-z0-9._-]''))
      else Inr ())"

definition repo_id_new :: "string \<Rightarrow> string \<Rightarrow> (git_error, repo_id) result" where
  "repo_id_new owner name =
     (case validate_part owner ''owner'' of
        Inl e \<Rightarrow> Inl e
      | Inr _ \<Rightarrow> (case validate_part name ''name'' of
                   Inl e \<Rightarrow> Inl e
                 | Inr _ \<Rightarrow> Inr \<lparr>rid_owner = owner, rid_name = name\<rparr>))"

definition repo_id_system :: "string \<Rightarrow> repo_id" where
  "repo_id_system name = \<lparr>rid_owner = SYSTEM_OWNER, rid_name = name\<rparr>"

definition store_prefix :: "repo_id \<Rightarrow> string" where
  "store_prefix r =
     (if rid_owner r = SYSTEM_OWNER then ''system/'' @ rid_name r @ ''/''
      else repo_prefix (rid_owner r) (rid_name r))"

text \<open>
  \<open>str::trim\<close>: Unicode white space at either end, as the UTF-8 byte sequences of the
  \<open>White_Space\<close> code points (U+0009..U+000D, U+0020, U+0085, U+00A0, U+1680,
  U+2000..U+200A, U+2028, U+2029, U+202F, U+205F, U+3000).
\<close>

definition white_space :: "string list" where
  "white_space =
     map (\<lambda>n. [char_of (n :: nat)]) ([9..<14] @ [32]) @
     map (\<lambda>n. [char_of (194 :: nat), char_of (n :: nat)]) [133, 160] @
     [[char_of (225 :: nat), char_of (154 :: nat), char_of (128 :: nat)]] @
     map (\<lambda>n. [char_of (226 :: nat), char_of (128 :: nat), char_of (n :: nat)])
       ([128..<139] @ [168, 169, 175]) @
     [[char_of (226 :: nat), char_of (129 :: nat), char_of (159 :: nat)],
      [char_of (227 :: nat), char_of (128 :: nat), char_of (128 :: nat)]]"

fun trim_fuel :: "string list \<Rightarrow> nat \<Rightarrow> string \<Rightarrow> string" where
  "trim_fuel ws 0 s = s"
| "trim_fuel ws (Suc n) s =
     (case find (\<lambda>w. prefix w s) ws of None \<Rightarrow> s | Some w \<Rightarrow> trim_fuel ws n (drop (length w) s))"

definition trim_start :: "string \<Rightarrow> string" where
  "trim_start s = trim_fuel white_space (length s) s"

definition trim_end :: "string \<Rightarrow> string" where
  "trim_end s = rev (trim_fuel (map rev white_space) (length s) (rev s))"

definition trim :: "string \<Rightarrow> string" where
  "trim s = trim_end (trim_start s)"

definition repo_id_from_str :: "string \<Rightarrow> (git_error, repo_id) result" where
  "repo_id_from_str s0 =
     (let s1 = trim s0;
          s = (case strip_suffix ''.git'' s1 of None \<Rightarrow> s1 | Some r \<Rightarrow> r)
      in case split_once (CHR ''/'') s of
           None \<Rightarrow> Inl (GitInvalidInput (''RepoId must be '' @ quoted ''owner/name''))
         | Some (owner, name) \<Rightarrow>
             if owner = [] \<or> name = []
             then Inl (GitInvalidInput ''RepoId parts must be non-empty'')
             else repo_id_new owner name)"

definition repo_id_display :: "repo_id \<Rightarrow> string" where
  "repo_id_display r = rid_owner r @ ''/'' @ rid_name r"

section \<open>Fixed-width keys sort by their number\<close>

definition digit_str :: "nat \<Rightarrow> string \<Rightarrow> bool" where
  "digit_str b s = list_all (\<lambda>c. \<exists>d < b. c = digit_char d) s"

lemma digit_str_simps [simp]:
  "digit_str b []" "digit_str b (c # s) \<longleftrightarrow> (\<exists>d < b. c = digit_char d) \<and> digit_str b s"
  "digit_str b (s @ t) \<longleftrightarrow> digit_str b s \<and> digit_str b t"
  by (simp_all add: digit_str_def)

lemma digits_val_Cons:
  "digits_val b (c # s) = digit_val c * b ^ length s + digits_val b s"
proof -
  have "foldl (\<lambda>acc c. acc * b + digit_val c) a s = a * b ^ length s + digits_val b s" for a
  proof (induction s rule: rev_induct)
    case Nil
    then show ?case by (simp add: digits_val_def)
  next
    case (snoc x xs)
    then show ?case by (simp add: algebra_simps)
  qed
  then show ?thesis by (simp add: digits_val_def [of b "c # s"])
qed

lemma digits_val_bound:
  assumes "b \<le> 16" "digit_str b s"
  shows "digits_val b s < b ^ length s"
  using assms(2)
proof (induction s)
  case Nil
  then show ?case by (simp add: digits_val_def)
next
  case (Cons c s)
  then obtain d where d: "d < b" "c = digit_char d" by auto
  with assms(1) have v: "digit_val c = d" by simp
  have "d * b ^ length s + digits_val b s < d * b ^ length s + b ^ length s"
    using Cons by simp
  also have "\<dots> = Suc d * b ^ length s" by simp
  also have "\<dots> \<le> b * b ^ length s" using d by (intro mult_right_mono) auto
  finally show ?case by (simp add: digits_val_Cons v)
qed

lemma digit_char_less: "d < 16 \<Longrightarrow> e < 16 \<Longrightarrow> digit_char d < digit_char e \<longleftrightarrow> d < e"
  by (auto simp: digit_char_def less_char_def)

lemma digit_char_eq: "d < 16 \<Longrightarrow> e < 16 \<Longrightarrow> digit_char d = digit_char e \<longleftrightarrow> d = e"
  by (metis digit_val_char)

lemma digit_str_less_iff:
  assumes "b \<le> 16" "length s = length t" "digit_str b s" "digit_str b t"
  shows "s < t \<longleftrightarrow> digits_val b s < digits_val b t"
  using assms(2-4)
proof (induction s t rule: list_induct2)
  case Nil
  then show ?case by simp
next
  case (Cons c s c' t)
  then obtain d d' where d: "d < b" "c = digit_char d" "d' < b" "c' = digit_char d'" by auto
  with assms(1) have v: "digit_val c = d" "digit_val c' = d'" by simp_all
  have bs: "digits_val b s < b ^ length t" "digits_val b t < b ^ length t"
    using digits_val_bound [OF assms(1)] Cons by fastforce+
  consider "d < d'" | "d = d'" | "d' < d" by linarith
  then show ?case
  proof cases
    case 1
    have "d * b ^ length t + digits_val b s < Suc d * b ^ length t" using bs by simp
    also have "\<dots> \<le> d' * b ^ length t" using 1 by (intro mult_right_mono) auto
    finally show ?thesis
      using 1 d assms(1) Cons.hyps by (simp add: digits_val_Cons v digit_char_less)
  next
    case 2
    then show ?thesis using d Cons by (simp add: digits_val_Cons v)
  next
    case 3
    have "d' * b ^ length t + digits_val b t < Suc d' * b ^ length t" using bs by simp
    also have "\<dots> \<le> d * b ^ length t" using 3 by (intro mult_right_mono) auto
    finally show ?thesis
      using 3 d assms(1) Cons.hyps by (simp add: digits_val_Cons v digit_char_less digit_char_eq)
  qed
qed

lemma digit_str_digits: "2 \<le> b \<Longrightarrow> digit_str b (digits b n)"
proof (induction b n rule: digits.induct)
  case (1 b n)
  then show ?case by (subst digits.simps) (auto intro!: exI [of _ "n mod b"])
qed

lemma digits_length: "2 \<le> b \<Longrightarrow> 0 < k \<Longrightarrow> n < b ^ k \<Longrightarrow> length (digits b n) \<le> k"
proof (induction b n arbitrary: k rule: digits.induct)
  case (1 b n)
  show ?case
  proof (cases "n < b")
    case True
    with 1 show ?thesis by (subst digits.simps) simp
  next
    case False
    with 1 obtain j where k: "k = Suc j" "0 < j"
      by (cases k; cases "k = 1") auto
    with 1 have "n div b < b ^ j"
      by (simp add: div_less_iff_less_mult mult.commute)
    with 1 False k have "length (digits b (n div b)) \<le> j" by simp
    with False 1 k show ?thesis by (subst digits.simps) simp
  qed
qed

lemma show_hex_pad_less:
  assumes "m < 16 ^ w" "n < 16 ^ w" "0 < w"
  shows "show_hex_pad w m < show_hex_pad w n \<longleftrightarrow> m < n"
proof -
  have len: "length (show_hex_pad w k) = w" if "k < 16 ^ w" for k
    using digits_length [of 16 w k] that assms(3) by (simp add: show_hex_pad_def pad_left_def)
  have "\<exists>d < 16. CHR ''0'' = digit_char d"
    using digit_char_0 by (intro exI [of _ 0]) simp
  then have z: "digit_str 16 (replicate k (CHR ''0''))" for k
    by (simp add: digit_str_def list_all_iff)
  have dig: "digit_str 16 (show_hex_pad w k)" for k
    by (simp add: show_hex_pad_def pad_left_def z digit_str_digits)
  have "digits_val 16 (show_hex_pad w k) = k" for k
    by (simp add: show_hex_pad_def digits_val_digits)
  then show ?thesis
    using digit_str_less_iff [of 16 "show_hex_pad w m" "show_hex_pad w n"] dig len assms by simp
qed

lemma lex_append_same: "(p @ s < p @ t) \<longleftrightarrow> (s < (t :: string))"
  by (induction p) auto

lemma lex_append_right:
  "length s = length t \<Longrightarrow> s \<noteq> t \<Longrightarrow> (s @ u < t @ v) \<longleftrightarrow> (s < (t :: string))"
  by (induction s t rule: list_induct2) auto

lemma log_segment_key_inject [simp]: "log_segment_key m = log_segment_key n \<longleftrightarrow> m = n"
  by (simp add: log_segment_key_def)

lemma log_segment_key_less:
  assumes "m < 2 ^ 64" "n < 2 ^ 64"
  shows "log_segment_key m < log_segment_key n \<longleftrightarrow> m < n"
proof (cases "m = n")
  case False
  have "length (show_hex_pad 16 k) = 16" if "k < 2 ^ 64" for k
    using digits_length [of 16 16 k] that by (simp add: show_hex_pad_def pad_left_def)
  then show ?thesis
    using assms False show_hex_pad_less [of m 16 n]
    by (simp add: log_segment_key_def lex_append_same lex_append_right)
qed simp

lemma log_segment_key_not_manifest [simp]:
  "log_segment_key n \<noteq> MANIFEST" "MANIFEST \<noteq> log_segment_key n"
  by (simp_all add: log_segment_key_def LOG_DIR_def MANIFEST_def)

section \<open>Repository ids\<close>

lemma validate_part_ok:
  "validate_part s w = Inr () \<longleftrightarrow>
     s \<noteq> [] \<and> length s \<le> 100 \<and> \<not> starts_with s ''.'' \<and>
     list_all (\<lambda>b. is_ascii_alphanumeric b \<or> b = CHR ''.'' \<or> b = CHR ''_'' \<or> b = CHR ''-'') s"
  by (auto simp: validate_part_def)

lemma part_no_slash:
  assumes "validate_part s w = Inr ()"
  shows "CHR ''/'' \<notin> set s"
  using assms by (auto simp: validate_part_ok list_all_iff ascii_defs)

lemma repo_id_new_ok:
  "repo_id_new owner name = Inr r \<longleftrightarrow>
     validate_part owner ''owner'' = Inr () \<and> validate_part name ''name'' = Inr () \<and>
     r = \<lparr>rid_owner = owner, rid_name = name\<rparr>"
  by (auto simp: repo_id_new_def split: sum.splits)

lemma slash_prefix_eq:
  assumes "CHR ''/'' \<notin> set a" "CHR ''/'' \<notin> set b" "prefix (a @ ''/'' @ x) (b @ ''/'' @ y)"
  shows "a = b \<and> prefix x y"
  using assms
proof (induction a arbitrary: b)
  case Nil
  then show ?case by (cases b) auto
next
  case (Cons c a)
  then show ?case by (cases b) auto
qed

lemma repo_prefix_not_system: "\<not> prefix (repo_prefix o1 n1) (''system/'' @ x)"
  by (simp add: repo_prefix_def)

lemma system_not_repo_prefix: "\<not> prefix (''system/'' @ x) (repo_prefix o1 n1)"
  by (simp add: repo_prefix_def)

abbreviation part_char :: "char \<Rightarrow> bool" where
  "part_char b \<equiv> is_ascii_alphanumeric b \<or> b = CHR ''.'' \<or> b = CHR ''_'' \<or> b = CHR ''-''"

lemma white_space_ends:
  "\<forall>w \<in> set white_space. w \<noteq> [] \<and> \<not> part_char (hd w) \<and> \<not> part_char (last w)"
proof -
  have "list_all (\<lambda>w. w \<noteq> [] \<and> \<not> part_char (hd w) \<and> \<not> part_char (last w)) white_space"
    by code_simp
  then show ?thesis by (simp add: list_all_iff)
qed

lemma trim_fuel_id:
  assumes "s = [] \<or> (\<forall>w \<in> set ws. w \<noteq> [] \<and> hd w \<noteq> hd s)" "\<forall>w \<in> set ws. w \<noteq> []"
  shows "trim_fuel ws n s = s"
proof -
  have "find (\<lambda>w. prefix w s) ws = None"
    unfolding find_None_iff using assms by (auto simp: prefix_def)
  then show ?thesis by (cases n) auto
qed

lemma trim_id:
  assumes "s \<noteq> []" "part_char (hd s)" "part_char (last s)"
  shows "trim s = s"
proof -
  have h: "\<forall>w \<in> set white_space. w \<noteq> [] \<and> hd w \<noteq> hd s"
    using white_space_ends assms(2) by metis
  have l: "\<forall>w \<in> set white_space. w \<noteq> [] \<and> last w \<noteq> last s"
    using white_space_ends assms(3) by metis
  then have l': "\<forall>w \<in> set (map rev white_space). w \<noteq> [] \<and> hd w \<noteq> hd (rev s)"
    by (simp add: hd_rev)
  have "trim_fuel white_space n s = s" for n
    using h by (intro trim_fuel_id) blast+
  moreover have "trim_fuel (map rev white_space) n (rev s) = rev s" for n
    using l' by (intro trim_fuel_id) blast+
  ultimately show ?thesis by (simp add: trim_def trim_start_def trim_end_def)
qed

lemma valid_owner_not_system: "validate_part owner w = Inr () \<Longrightarrow> owner \<noteq> SYSTEM_OWNER"
  by (auto simp: validate_part_ok SYSTEM_OWNER_def)

lemma repo_prefix_eq_store:
  "validate_part (rid_owner r) w = Inr () \<Longrightarrow>
     store_prefix r = repo_prefix (rid_owner r) (rid_name r)"
  using valid_owner_not_system by (auto simp: store_prefix_def)

lemma repo_prefix_comparable:
  assumes "validate_part o1 w = Inr ()" "validate_part n1 w' = Inr ()"
    "validate_part o2 w = Inr ()" "validate_part n2 w' = Inr ()"
    "prefix (repo_prefix o1 n1) (repo_prefix o2 n2 @ k)"
  shows "o1 = o2 \<and> n1 = n2"
proof -
  have "prefix (o1 @ ''/'' @ n1 @ ''/'' @ []) (o2 @ ''/'' @ n2 @ ''/'' @ k)"
    using assms(5) by (simp add: repo_prefix_def)
  then have o: "o1 = o2" and "prefix (n1 @ ''/'' @ []) (n2 @ ''/'' @ k)"
    using slash_prefix_eq part_no_slash assms by metis+
  then have "n1 = n2"
    using slash_prefix_eq part_no_slash assms by metis
  with o show ?thesis by simp
qed

lemma repo_id_display_trim:
  assumes "validate_part owner w = Inr ()" "validate_part name w' = Inr ()"
  shows "trim (owner @ ''/'' @ name) = owner @ ''/'' @ name"
  using assms by (intro trim_id) (auto simp: validate_part_ok list_all_iff)

section \<open>Properties\<close>

text \<open>
  Log segment keys are listed in sequence order: mapping distinct 64-bit sequence numbers
  to \<open>log/<seq:016x>.pb\<close> neither merges nor reorders them.
\<close>

lemma log_segment_keys_in_sequence_order:
  assumes "list_all (\<lambda>n. n < 2 ^ 64) ns"
  shows "sorted_wrt (<) (map log_segment_key ns) \<longleftrightarrow> sorted_wrt (<) ns"
proof -
  have "(log_segment_key m < log_segment_key n) = (m < n)" if "m \<in> set ns" "n \<in> set ns" for m n
    using that assms by (intro log_segment_key_less) (auto simp: list_all_iff)
  then show ?thesis
    unfolding sorted_wrt_map by (metis (no_types, lifting) sorted_wrt_mono_rel)
qed

text \<open>
  C35. Repositories are isolated in the bucket: no object key of one repository (or of a system
  log) lies under the store prefix of a different repository, in either direction.
\<close>

theorem store_prefixes_isolated:
  assumes "repo_id_new o1 n1 = Inr r1"
    and "r2 = repo_id_system n \<or> repo_id_new o2 n2 = Inr r2"
    and "r1 \<noteq> r2"
  shows "\<not> prefix (store_prefix r1) (store_prefix r2 @ k) \<and>
    \<not> prefix (store_prefix r2) (store_prefix r1 @ k)"
proof -
  from assms(1) have v1: "validate_part o1 ''owner'' = Inr ()" "validate_part n1 ''name'' = Inr ()"
    and r1: "r1 = \<lparr>rid_owner = o1, rid_name = n1\<rparr>" by (auto simp: repo_id_new_ok)
  then have p1: "store_prefix r1 = repo_prefix o1 n1" by (simp add: repo_prefix_eq_store)
  from assms(2) show ?thesis
  proof
    assume "r2 = repo_id_system n"
    then have "store_prefix r2 = ''system/'' @ n @ ''/''"
      by (simp add: repo_id_system_def store_prefix_def)
    then show ?thesis by (simp add: p1 repo_prefix_def)
  next
    assume "repo_id_new o2 n2 = Inr r2"
    then have v2: "validate_part o2 ''owner'' = Inr ()" "validate_part n2 ''name'' = Inr ()"
      and r2: "r2 = \<lparr>rid_owner = o2, rid_name = n2\<rparr>" by (auto simp: repo_id_new_ok)
    then have p2: "store_prefix r2 = repo_prefix o2 n2" by (simp add: repo_prefix_eq_store)
    have "\<not> (o1 = o2 \<and> n1 = n2)" using assms(3) by (simp add: r1 r2)
    then show ?thesis
      unfolding p1 p2 using repo_prefix_comparable [OF v1 v2] repo_prefix_comparable [OF v2 v1]
      by blast
  qed
qed

theorem store_prefixes_isolated_witness:
  "\<not> prefix (store_prefix \<lparr>rid_owner = ''acme'', rid_name = ''app''\<rparr>)
       (store_prefix \<lparr>rid_owner = ''acme'', rid_name = ''app2''\<rparr> @ MANIFEST)"
proof -
  have a: "repo_id_new ''acme'' ''app'' = Inr \<lparr>rid_owner = ''acme'', rid_name = ''app''\<rparr>"
    by code_simp
  have b: "repo_id_new ''acme'' ''app2'' = Inr \<lparr>rid_owner = ''acme'', rid_name = ''app2''\<rparr>"
    by code_simp
  show ?thesis
    by (rule store_prefixes_isolated [OF a disjI2 [OF b], THEN conjunct1]) simp
qed

text \<open>
  Printing and parsing a repository id round-trip, except for names that end in
  \<open>.git\<close>, whose suffix the parser strips.
\<close>

lemma repo_id_parse_display:
  assumes "repo_id_new owner name = Inr r" and "\<not> ends_with name ''.git''"
  shows "repo_id_from_str (repo_id_display r) = Inr r"
proof -
  from assms(1) have v: "validate_part owner ''owner'' = Inr ()" "validate_part name ''name'' = Inr ()"
    and r: "r = \<lparr>rid_owner = owner, rid_name = name\<rparr>" by (auto simp: repo_id_new_ok)
  have "\<not> suffix ''.git'' (owner @ ''/'' @ name)"
  proof
    assume "suffix ''.git'' (owner @ ''/'' @ name)"
    then have "suffix ''.git'' name \<or> (\<exists>z. ''.git'' = z @ CHR ''/'' # name)"
      by (auto simp: suffix_append suffix_Cons)
    moreover have "CHR ''/'' \<notin> set ''.git''" by simp
    ultimately show False using assms(2) by (metis in_set_conv_decomp)
  qed
  then have "strip_suffix ''.git'' (owner @ ''/'' @ name) = None" by (simp add: strip_suffix_def)
  then show ?thesis
    using v part_no_slash [OF v(1)] repo_id_display_trim [OF v]
    by (simp add: repo_id_from_str_def repo_id_display_def r repo_id_new_ok)
      (simp add: validate_part_ok)
qed

end
