(* ===== verification/Object_Store.thy ===== *)
theory Object_Store
  imports Keys
begin

text \<open>
  The object store (\<open>walgit-store\<close>): the \<open>ObjectStore\<close> trait (\<open>lib.rs\<close>) as a record of
  operations over an arbitrary store state, the in-memory backend (\<open>memory.rs\<close>) with its
  64-bit version counter, and \<open>Prefixed\<close>, the view of a store under a key prefix. A byte
  stream is the list of the results its chunks yield. Tracing spans, artificial latency and the
  URL-signing calls have no effect on the objects and are left out; \<open>usize\<close> is 64 bits, so
  the conversions from \<open>u64\<close> never fail.

  The locale \<open>versioned_store\<close> is the contract the coordination and publish layers rely on;
  it is proved for the memory store and for every prefixed view of a store that meets it.
\<close>

section \<open>The interface (lib.rs)\<close>

type_synonym version = string

datatype store_error =
    NotFound string
  | PreconditionFailed string "version option"
  | Retryable string
  | InvalidArgument string
  | OtherError string

type_synonym byte_stream = "(store_error, bytes) result list"

record object_meta =
  om_key :: string
  om_size :: nat
  om_version :: version

record get_options =
  go_if_none_match :: "version option"
  go_if_match :: "version option"
  go_range :: "(nat \<times> nat) option"

datatype get_result =
    NotModified version
  | GetObject object_meta byte_stream

datatype put_mode = Overwrite | Create | Update version

datatype put_body =
    PutBytes bytes
  | PutStream nat byte_stream
  | PutFile "(store_error, bytes) result"

record put_options =
  po_mode :: put_mode
  po_content_type :: "string option"
  po_immutable :: bool

definition is_not_found :: "store_error \<Rightarrow> bool" where
  "is_not_found e = (case e of NotFound _ \<Rightarrow> True | _ \<Rightarrow> False)"

definition is_precondition_failed :: "store_error \<Rightarrow> bool" where
  "is_precondition_failed e = (case e of PreconditionFailed _ _ \<Rightarrow> True | _ \<Rightarrow> False)"

definition is_retryable :: "store_error \<Rightarrow> bool" where
  "is_retryable e = (case e of Retryable _ \<Rightarrow> True | _ \<Rightarrow> False)"

definition default_get :: get_options where
  "default_get = \<lparr>go_if_none_match = None, go_if_match = None, go_range = None\<rparr>"

definition put_options_from :: "put_mode \<Rightarrow> put_options" where
  "put_options_from mode = \<lparr>po_mode = mode, po_content_type = None, po_immutable = False\<rparr>"

lemma put_options_from_mode [simp]: "po_mode (put_options_from m) = m"
  by (simp add: put_options_from_def)

text \<open>
  \<open>util::collect\<close>: the chunks seen so far are in \<open>first\<close> or, from the second chunk on, in
  \<open>buf\<close>; the size hint only pre-allocates.
\<close>

fun collect_loop ::
  "byte_stream \<Rightarrow> bytes option \<Rightarrow> bytes option \<Rightarrow> (store_error, bytes) result" where
  "collect_loop [] first buf =
     Inr (case (first, buf) of
            (Some f, None) \<Rightarrow> f
          | (_, Some b) \<Rightarrow> b
          | (None, None) \<Rightarrow> [])"
| "collect_loop (Inl e # body) first buf = Inl e"
| "collect_loop (Inr chunk # body) first buf =
     (case (first, buf) of
        (None, None) \<Rightarrow> collect_loop body (Some chunk) None
      | (Some f, None) \<Rightarrow> collect_loop body (Some f) (Some (f @ chunk))
      | (_, Some b) \<Rightarrow> collect_loop body first (Some (b @ chunk)))"

definition collect :: "byte_stream \<Rightarrow> nat \<Rightarrow> (store_error, bytes) result" where
  "collect body size_hint = collect_loop body None None"

definition get_result_bytes ::
  "get_result \<Rightarrow> (store_error, (object_meta \<times> bytes) option) result" where
  "get_result_bytes r =
     (case r of
        NotModified _ \<Rightarrow> Inr None
      | GetObject meta body \<Rightarrow>
          (case collect body (om_size meta) of
             Inl e \<Rightarrow> Inl e
           | Inr b \<Rightarrow> Inr (Some (meta, b))))"

definition get_result_version :: "get_result \<Rightarrow> version" where
  "get_result_version r =
     (case r of NotModified v \<Rightarrow> v | GetObject meta _ \<Rightarrow> om_version meta)"

record 's object_store =
  os_get :: "string \<Rightarrow> get_options \<Rightarrow> 's \<Rightarrow> (store_error, get_result) result \<times> 's"
  os_head :: "string \<Rightarrow> 's \<Rightarrow> (store_error, object_meta option) result \<times> 's"
  os_put :: "string \<Rightarrow> put_body \<Rightarrow> put_options \<Rightarrow> 's \<Rightarrow> (store_error, object_meta) result \<times> 's"
  os_delete :: "string \<Rightarrow> version option \<Rightarrow> 's \<Rightarrow> (store_error, unit) result \<times> 's"
  os_list :: "string \<Rightarrow> string option \<Rightarrow> 's \<Rightarrow> (store_error, object_meta) result list \<times> 's"
  os_list_prefixes :: "string \<Rightarrow> 's \<Rightarrow> (store_error, string list) result \<times> 's"
  os_compose :: "string \<Rightarrow> string list \<Rightarrow> put_options \<Rightarrow> 's \<Rightarrow> (store_error, object_meta) result \<times> 's"

section \<open>Convenience operations (ObjectStoreExt)\<close>

definition get_bytes ::
  "'s object_store \<Rightarrow> string \<Rightarrow> 's \<Rightarrow> (store_error, (object_meta \<times> bytes) option) result \<times> 's" where
  "get_bytes S key s =
     (case os_get S key default_get s of
        (Inr r, s') \<Rightarrow> (get_result_bytes r, s')
      | (Inl (NotFound _), s') \<Rightarrow> (Inr None, s')
      | (Inl e, s') \<Rightarrow> (Inl e, s'))"

definition get_if_changed ::
  "'s object_store \<Rightarrow> string \<Rightarrow> version \<Rightarrow> 's \<Rightarrow>
     (store_error, (object_meta \<times> bytes) option) result \<times> 's" where
  "get_if_changed S key known s =
     (case os_get S key (default_get \<lparr>go_if_none_match := Some known\<rparr>) s of
        (Inl e, s') \<Rightarrow> (Inl e, s')
      | (Inr r, s') \<Rightarrow> (get_result_bytes r, s'))"

definition put_bytes ::
  "'s object_store \<Rightarrow> string \<Rightarrow> bytes \<Rightarrow> put_mode \<Rightarrow> 's \<Rightarrow> (store_error, object_meta) result \<times> 's" where
  "put_bytes S key body mode s = os_put S key (PutBytes body) (put_options_from mode) s"

definition exists_key :: "'s object_store \<Rightarrow> string \<Rightarrow> 's \<Rightarrow> (store_error, bool) result \<times> 's" where
  "exists_key S key s =
     (case os_head S key s of
        (Inl e, s') \<Rightarrow> (Inl e, s')
      | (Inr m, s') \<Rightarrow> (Inr (m \<noteq> None), s'))"

section \<open>The memory backend (memory.rs)\<close>

record memory_state =
  ms_objects :: "(string, version \<times> bytes) btree"
  ms_counter :: "64 word"

definition memory_new :: memory_state where
  "memory_new = \<lparr>ms_objects = [], ms_counter = 0\<rparr>"

text \<open>\<open>next_version\<close>: the counter wraps around at 64 bits.\<close>

definition next_version :: "memory_state \<Rightarrow> version \<times> memory_state" where
  "next_version s =
     (show_nat (unat (ms_counter s + 1)), s \<lparr>ms_counter := ms_counter s + 1\<rparr>)"

definition body_bytes :: "put_body \<Rightarrow> (store_error, bytes) result" where
  "body_bytes body =
     (case body of
        PutBytes b \<Rightarrow> Inr b
      | PutStream len stream \<Rightarrow> collect stream len
      | PutFile r \<Rightarrow> r)"

definition object_meta_of :: "string \<Rightarrow> version \<times> bytes \<Rightarrow> object_meta" where
  "object_meta_of key obj =
     \<lparr>om_key = key, om_size = length (snd obj), om_version = fst obj\<rparr>"

definition memory_get ::
  "string \<Rightarrow> get_options \<Rightarrow> memory_state \<Rightarrow> (store_error, get_result) result \<times> memory_state" where
  "memory_get key opts s =
     (case bt_get (ms_objects s) key of
        None \<Rightarrow> (Inl (NotFound key), s)
      | Some (version, data) \<Rightarrow>
          (if go_if_match opts \<noteq> None \<and> go_if_match opts \<noteq> Some version
           then (Inl (PreconditionFailed key (Some version)), s)
           else if go_if_none_match opts = Some version
           then (Inr (NotModified version), s)
           else
             let size = length data;
                 meta = \<lparr>om_key = key, om_size = size, om_version = version\<rparr>
             in case go_range opts of
                  None \<Rightarrow> (Inr (GetObject meta [Inr data]), s)
                | Some (r_start, r_end) \<Rightarrow>
                    let start = min r_start size; stop = min r_end size
                    in if start > stop
                       then (Inl (InvalidArgument (''bad range '' @ show_nat r_start @ ''..'' @
                               show_nat r_end @ '' for size '' @ show_nat size)), s)
                       else (Inr (GetObject meta [Inr (take (stop - start) (drop start data))]), s)))"

definition memory_head ::
  "string \<Rightarrow> memory_state \<Rightarrow> (store_error, object_meta option) result \<times> memory_state" where
  "memory_head key s =
     (Inr (map_option (object_meta_of key) (bt_get (ms_objects s) key)), s)"

text \<open>The precondition of a write, from the \<open>match\<close> in \<open>put\<close>.\<close>

definition put_allowed :: "put_mode \<Rightarrow> version option \<Rightarrow> bool" where
  "put_allowed mode current =
     (case (mode, current) of
        (Overwrite, _) \<Rightarrow> True
      | (Create, None) \<Rightarrow> True
      | (Create, Some v) \<Rightarrow> False
      | (Update want, Some v) \<Rightarrow> want = v
      | (Update _, None) \<Rightarrow> False)"

definition memory_put ::
  "string \<Rightarrow> put_body \<Rightarrow> put_options \<Rightarrow> memory_state \<Rightarrow>
     (store_error, object_meta) result \<times> memory_state" where
  "memory_put key body opts s =
     (case body_bytes body of
        Inl e \<Rightarrow> (Inl e, s)
      | Inr data \<Rightarrow>
          let current = map_option fst (bt_get (ms_objects s) key) in
          if \<not> put_allowed (po_mode opts) current
          then (Inl (PreconditionFailed key current), s)
          else
            let (version, s1) = next_version s in
            (Inr \<lparr>om_key = key, om_size = length data, om_version = version\<rparr>,
             s1 \<lparr>ms_objects := bt_insert key (version, data) (ms_objects s1)\<rparr>))"

fun compose_sources ::
  "(string, version \<times> bytes) btree \<Rightarrow> string list \<Rightarrow> bytes \<Rightarrow> (store_error, bytes) result" where
  "compose_sources g [] buf = Inr buf"
| "compose_sources g (src # sources) buf =
     (case bt_get g src of
        None \<Rightarrow> Inl (NotFound src)
      | Some (_, data) \<Rightarrow> compose_sources g sources (buf @ data))"

definition memory_compose ::
  "string \<Rightarrow> string list \<Rightarrow> put_options \<Rightarrow> memory_state \<Rightarrow>
     (store_error, object_meta) result \<times> memory_state" where
  "memory_compose dest sources opts s =
     (case compose_sources (ms_objects s) sources [] of
        Inl e \<Rightarrow> (Inl e, s)
      | Inr buf \<Rightarrow> memory_put dest (PutBytes buf) opts s)"

definition memory_delete ::
  "string \<Rightarrow> version option \<Rightarrow> memory_state \<Rightarrow> (store_error, unit) result \<times> memory_state" where
  "memory_delete key if_version s =
     (case (bt_get (ms_objects s) key, if_version) of
        (None, None) \<Rightarrow> (Inr (), s)
      | (None, Some _) \<Rightarrow> (Inl (NotFound key), s)
      | (Some (v, _), Some want) \<Rightarrow>
          if v \<noteq> want then (Inl (PreconditionFailed key (Some v)), s)
          else (Inr (), s \<lparr>ms_objects := bt_remove key (ms_objects s)\<rparr>)
      | (Some _, None) \<Rightarrow> (Inr (), s \<lparr>ms_objects := bt_remove key (ms_objects s)\<rparr>))"

text \<open>\<open>g.range(prefix..).take_while(starts_with(prefix))\<close>.\<close>

definition prefix_range :: "string \<Rightarrow> (string, 'v) btree \<Rightarrow> (string, 'v) btree" where
  "prefix_range p g = takeWhile (\<lambda>(k, _). starts_with k p) (dropWhile (\<lambda>(k, _). k < p) g)"

definition memory_list ::
  "string \<Rightarrow> string option \<Rightarrow> memory_state \<Rightarrow> (store_error, object_meta) result list \<times> memory_state" where
  "memory_list p start_after s =
     (map (\<lambda>(k, obj). Inr (object_meta_of k obj))
        (filter (\<lambda>(k, _). case start_after of None \<Rightarrow> True | Some a \<Rightarrow> a < k)
          (prefix_range p (ms_objects s))), s)"

text \<open>\<open>Vec::dedup\<close> removes consecutive repetitions only.\<close>

definition dir_below :: "string \<Rightarrow> string \<Rightarrow> string option" where
  "dir_below p k =
     (case strip_prefix p k of
        None \<Rightarrow> None
      | Some rest \<Rightarrow> map_option (\<lambda>(h, _). p @ h @ ''/'') (split_once (CHR ''/'') rest))"

definition memory_list_prefixes ::
  "string \<Rightarrow> memory_state \<Rightarrow> (store_error, string list) result \<times> memory_state" where
  "memory_list_prefixes p s =
     (Inr (remdups_adj (List.map_filter (\<lambda>(k, _). dir_below p k) (prefix_range p (ms_objects s)))), s)"

definition memory_store :: "memory_state object_store" where
  "memory_store =
     \<lparr>os_get = memory_get, os_head = memory_head, os_put = memory_put,
      os_delete = memory_delete, os_list = memory_list,
      os_list_prefixes = memory_list_prefixes, os_compose = memory_compose\<rparr>"

section \<open>Prefixed views (lib.rs)\<close>

definition full :: "string \<Rightarrow> string \<Rightarrow> string" where
  "full p key = p @ key"

definition strip_key :: "string \<Rightarrow> string \<Rightarrow> string" where
  "strip_key p key = (case strip_prefix p key of Some rest \<Rightarrow> rest | None \<Rightarrow> key)"

definition strip_meta :: "string \<Rightarrow> object_meta \<Rightarrow> object_meta" where
  "strip_meta p meta = meta \<lparr>om_key := strip_key p (om_key meta)\<rparr>"

definition prefixed_get where
  "prefixed_get p S key opts s =
     (case os_get S (full p key) opts s of
        (Inr (GetObject meta body), s') \<Rightarrow> (Inr (GetObject (strip_meta p meta) body), s')
      | (Inr (NotModified v), s') \<Rightarrow> (Inr (NotModified v), s')
      | (Inl e, s') \<Rightarrow> (Inl e, s'))"

definition prefixed_head where
  "prefixed_head p S key s =
     (case os_head S (full p key) s of
        (Inl e, s') \<Rightarrow> (Inl e, s')
      | (Inr m, s') \<Rightarrow> (Inr (map_option (strip_meta p) m), s'))"

definition prefixed_put where
  "prefixed_put p S key body opts s =
     (case os_put S (full p key) body opts s of
        (Inl e, s') \<Rightarrow> (Inl e, s')
      | (Inr m, s') \<Rightarrow> (Inr (strip_meta p m), s'))"

definition prefixed_delete where
  "prefixed_delete p S key if_version s = os_delete S (full p key) if_version s"

definition prefixed_list where
  "prefixed_list p S pre start_after s =
     (case os_list S (full p pre) (map_option (full p) start_after) s of
        (items, s') \<Rightarrow> (map (map_sum id (strip_meta p)) items, s'))"

definition prefixed_list_prefixes where
  "prefixed_list_prefixes p S pre s =
     (case os_list_prefixes S (full p pre) s of
        (Inl e, s') \<Rightarrow> (Inl e, s')
      | (Inr out, s') \<Rightarrow> (Inr (map (strip_key p) out), s'))"

definition prefixed_compose where
  "prefixed_compose p S dest sources opts s =
     (case os_compose S (full p dest) (map (full p) sources) opts s of
        (Inl e, s') \<Rightarrow> (Inl e, s')
      | (Inr m, s') \<Rightarrow> (Inr (strip_meta p m), s'))"

definition prefixed :: "string \<Rightarrow> 's object_store \<Rightarrow> 's object_store" where
  "prefixed p S =
     \<lparr>os_get = prefixed_get p S, os_head = prefixed_head p S, os_put = prefixed_put p S,
      os_delete = prefixed_delete p S, os_list = prefixed_list p S,
      os_list_prefixes = prefixed_list_prefixes p S, os_compose = prefixed_compose p S\<rparr>"

lemma prefixed_ops [simp]:
  "os_get (prefixed p S) = prefixed_get p S" "os_head (prefixed p S) = prefixed_head p S"
  "os_put (prefixed p S) = prefixed_put p S" "os_delete (prefixed p S) = prefixed_delete p S"
  "os_list (prefixed p S) = prefixed_list p S"
  "os_list_prefixes (prefixed p S) = prefixed_list_prefixes p S"
  "os_compose (prefixed p S) = prefixed_compose p S"
  by (simp_all add: prefixed_def)

section \<open>Streams\<close>

lemma collect_loop_ok:
  "collect_loop (map Inr cs) (Some f) None = Inr (f @ concat cs)"
  "collect_loop (map Inr cs) (Some f) (Some b) = Inr (b @ concat cs)"
  by (induction cs arbitrary: b) auto

lemma collect_ok: "collect (map Inr cs) n = Inr (concat cs)"
  by (cases cs) (simp_all add: collect_def collect_loop_ok)

lemma collect_single [simp]: "collect [Inr d] n = Inr d"
  using collect_ok [of "[d]" n] by simp

lemma collect_loop_err: "collect_loop (map Inr cs @ Inl e # body) f b = Inl e"
  by (induction cs arbitrary: f b) (auto split: option.splits)

section \<open>The contract of a versioned store\<close>

text \<open>
  What other clients may do to the store between two operations of one client: any sequence
  of reads, writes, deletions and compositions, as long as the store still has an unused
  version to hand out (\<open>room\<close>).
\<close>

inductive evolves :: "'s object_store \<Rightarrow> ('s \<Rightarrow> bool) \<Rightarrow> 's \<Rightarrow> 's \<Rightarrow> bool"
  for S room where
  evolves_refl: "evolves S room s s"
| evolves_put: "evolves S room s s1 \<Longrightarrow> room s1 \<Longrightarrow> os_put S k b opts s1 = (r, s2) \<Longrightarrow> evolves S room s s2"
| evolves_delete: "evolves S room s s1 \<Longrightarrow> os_delete S k v s1 = (r, s2) \<Longrightarrow> evolves S room s s2"
| evolves_compose: "evolves S room s s1 \<Longrightarrow> room s1 \<Longrightarrow> os_compose S k srcs opts s1 = (r, s2) \<Longrightarrow>
    evolves S room s s2"

lemma evolves_trans:
  assumes "evolves S room s1 s2" "evolves S room s2 s3"
  shows "evolves S room s1 s3"
  using assms(2,1) by (induction rule: evolves.induct) (auto intro: evolves.intros)

text \<open>A change of the objects: none, one object written at an unused version, or one removed.\<close>

definition view_change ::
  "('s \<Rightarrow> string \<Rightarrow> (version \<times> bytes) option) \<Rightarrow> ('s \<Rightarrow> version \<Rightarrow> bool) \<Rightarrow> 's \<Rightarrow> 's \<Rightarrow> bool" where
  "view_change view fresh s s' \<longleftrightarrow>
     (\<forall>v. fresh s' v \<longrightarrow> fresh s v) \<and>
     (view s' = view s
      \<or> (\<exists>k v d. fresh s v \<and> \<not> fresh s' v \<and> view s' = (view s)(k \<mapsto> (v, d)))
      \<or> (\<exists>k. view s' = (view s)(k := None)))"

locale versioned_store =
  fixes S :: "'s object_store"
    and view :: "'s \<Rightarrow> string \<Rightarrow> (version \<times> bytes) option"
    and inv :: "'s \<Rightarrow> bool"
    and room :: "'s \<Rightarrow> bool"
    and fresh :: "'s \<Rightarrow> version \<Rightarrow> bool"
  assumes get_absent: "view s k = None \<Longrightarrow> \<exists>k'. os_get S k gopts s = (Inl (NotFound k'), s)"
    and get_present: "view s k = Some (v, d) \<Longrightarrow>
      os_get S k default_get s = (Inr (GetObject (object_meta_of k (v, d)) [Inr d]), s)"
    and get_changed: "view s k = Some (v, d) \<Longrightarrow>
      os_get S k (default_get \<lparr>go_if_none_match := Some w\<rparr>) s =
        (Inr (if w = v then NotModified v else GetObject (object_meta_of k (v, d)) [Inr d]), s)"
    and head_view: "os_head S k s = (Inr (map_option (object_meta_of k) (view s k)), s)"
    and put_refused: "\<not> put_allowed (po_mode opts) (map_option fst (view s k)) \<Longrightarrow>
      \<exists>k'. os_put S k (PutBytes d) opts s =
        (Inl (PreconditionFailed k' (map_option fst (view s k))), s)"
    and put_accepted: "put_allowed (po_mode opts) (map_option fst (view s k)) \<Longrightarrow>
      \<exists>v s'. os_put S k (PutBytes d) opts s = (Inr (object_meta_of k (v, d)), s') \<and>
        view s' = (view s)(k \<mapsto> (v, d)) \<and> (inv s \<longrightarrow> room s \<longrightarrow> fresh s v \<and> \<not> fresh s' v)"
    and put_change: "inv s \<Longrightarrow> room s \<Longrightarrow> os_put S k b opts s = (r, s') \<Longrightarrow>
      inv s' \<and> view_change view fresh s s'"
    and delete_absent: "view s k = None \<Longrightarrow> if_version = None \<Longrightarrow> os_delete S k if_version s = (Inr (), s)"
    and delete_missing: "view s k = None \<Longrightarrow> \<exists>k'. os_delete S k (Some w) s = (Inl (NotFound k'), s)"
    and delete_refused: "view s k = Some (v, d) \<Longrightarrow> v \<noteq> w \<Longrightarrow>
      \<exists>k'. os_delete S k (Some w) s = (Inl (PreconditionFailed k' (Some v)), s)"
    and delete_accepted: "view s k = Some (v, d) \<Longrightarrow> if_version = None \<or> if_version = Some v \<Longrightarrow>
      \<exists>s'. os_delete S k if_version s = (Inr (), s') \<and> view s' = (view s)(k := None)"
    and delete_change: "inv s \<Longrightarrow> os_delete S k if_version s = (rd, s') \<Longrightarrow>
      inv s' \<and> view_change view fresh s s'"
    and compose_change: "inv s \<Longrightarrow> room s \<Longrightarrow> os_compose S k srcs opts s = (r, s') \<Longrightarrow>
      inv s' \<and> view_change view fresh s s'"
    and fresh_unused: "inv s \<Longrightarrow> fresh s v \<Longrightarrow> view s k \<noteq> Some (v, d)"
    and put_other: "os_put S k b opts s = (r, s') \<Longrightarrow> k' \<noteq> k \<Longrightarrow> view s' k' = view s k'"
begin

lemma get_bytes_view:
  "get_bytes S k s = (Inr (map_option (\<lambda>(v, d). (object_meta_of k (v, d), d)) (view s k)), s)"
proof (cases "view s k")
  case None
  then show ?thesis using get_absent [of s k default_get] by (auto simp: get_bytes_def)
next
  case (Some vd)
  then show ?thesis
    by (cases vd) (simp add: get_bytes_def get_result_bytes_def get_present)
qed

lemma get_if_changed_same: "view s k = Some (v, d) \<Longrightarrow> get_if_changed S k v s = (Inr None, s)"
  by (simp add: get_if_changed_def get_changed get_result_bytes_def)

lemma get_if_changed_new:
  "view s k = Some (v, d) \<Longrightarrow> w \<noteq> v \<Longrightarrow>
     get_if_changed S k w s = (Inr (Some (object_meta_of k (v, d), d)), s)"
  by (simp add: get_if_changed_def get_changed get_result_bytes_def)

lemma put_bytes_refused:
  assumes "\<not> put_allowed m (map_option fst (view s k))"
  obtains k' where "put_bytes S k d m s = (Inl (PreconditionFailed k' (map_option fst (view s k))), s)"
  using put_refused [of "put_options_from m" s k d] assms by (auto simp: put_bytes_def)

lemma put_bytes_accepted:
  assumes "put_allowed m (map_option fst (view s k))"
  obtains v s' where "put_bytes S k d m s = (Inr (object_meta_of k (v, d)), s')"
    "view s' = (view s)(k \<mapsto> (v, d))" "inv s \<Longrightarrow> room s \<Longrightarrow> fresh s v \<and> \<not> fresh s' v"
  using put_accepted [of "put_options_from m" s k d] assms by (auto simp: put_bytes_def)

text \<open>A successful conditional write met its precondition; a failed one changed nothing.\<close>

lemma put_bytes_Inr:
  assumes "put_bytes S k d m s = (Inr meta, s')"
  shows "put_allowed m (map_option fst (view s k))"
    and "meta = object_meta_of k (om_version meta, d)"
    and "view s' = (view s)(k \<mapsto> (om_version meta, d))"
    and "inv s \<Longrightarrow> room s \<Longrightarrow> fresh s (om_version meta) \<and> \<not> fresh s' (om_version meta)"
proof -
  show a: "put_allowed m (map_option fst (view s k))"
  proof (rule ccontr)
    assume n: "\<not> put_allowed m (map_option fst (view s k))"
    obtain k' where "put_bytes S k d m s = (Inl (PreconditionFailed k' (map_option fst (view s k))), s)"
      using put_bytes_refused [OF n] .
    then show False using assms by simp
  qed
  obtain v t where r: "put_bytes S k d m s = (Inr (object_meta_of k (v, d)), t)"
    "view t = (view s)(k \<mapsto> (v, d))" "inv s \<Longrightarrow> room s \<Longrightarrow> fresh s v \<and> \<not> fresh t v"
    using put_bytes_accepted [OF a] by metis
  then have "meta = object_meta_of k (v, d)" "t = s'" using assms by simp_all
  with r show "meta = object_meta_of k (om_version meta, d)"
    "view s' = (view s)(k \<mapsto> (om_version meta, d))"
    "inv s \<Longrightarrow> room s \<Longrightarrow> fresh s (om_version meta) \<and> \<not> fresh s' (om_version meta)"
    by (simp_all add: object_meta_of_def)
qed

lemma put_bytes_evolves:
  assumes "inv s" "room s" "put_bytes S k d m s = (r, s')"
  shows "inv s'" "evolves S room s s'"
  using put_change [OF assms(1,2), of k "PutBytes d" "put_options_from m"] assms(2,3)
  by (auto simp: put_bytes_def intro: evolves.intros)

lemma put_bytes_Inl:
  assumes "put_bytes S k d m s = (Inl e, s')"
  obtains k' where "s' = s" "e = PreconditionFailed k' (map_option fst (view s k))"
    "\<not> put_allowed m (map_option fst (view s k))"
proof -
  have n: "\<not> put_allowed m (map_option fst (view s k))"
    using put_bytes_accepted [of m s k d] assms by fastforce
  from n obtain k' where
    "put_bytes S k d m s = (Inl (PreconditionFailed k' (map_option fst (view s k))), s)"
    by (rule put_bytes_refused)
  then show ?thesis using that n assms by auto
qed

text \<open>
  The token-identity law: as long as unused versions remain, a version seen again at a key
  stands for the same bytes, whatever other clients did in between.
\<close>

lemma view_change_keeps:
  assumes "view_change view fresh s1 s2" "\<not> fresh s1 v" "view s2 k = Some (v, d)"
  shows "view s1 k = Some (v, d)"
  using assms by (auto simp: view_change_def fun_upd_apply split: if_splits)

lemma view_change_fresh: "view_change view fresh s1 s2 \<Longrightarrow> fresh s2 v \<Longrightarrow> fresh s1 v"
  by (simp add: view_change_def)

lemma change_step:
  assumes "evolves S room s s1" "inv s2 \<and> view_change view fresh s1 s2"
    and "inv s1 \<and> (\<forall>v. fresh s1 v \<longrightarrow> fresh s v) \<and>
      (\<forall>k v d. \<not> fresh s v \<longrightarrow> view s1 k = Some (v, d) \<longrightarrow> view s k = Some (v, d))"
  shows "inv s2 \<and> (\<forall>v. fresh s2 v \<longrightarrow> fresh s v) \<and>
      (\<forall>k v d. \<not> fresh s v \<longrightarrow> view s2 k = Some (v, d) \<longrightarrow> view s k = Some (v, d))"
proof (intro conjI allI impI)
  show "inv s2" using assms(2) by simp
  show "fresh s v" if "fresh s2 v" for v
    using assms(2,3) that view_change_fresh by blast
  show "view s k = Some (v, d)" if "\<not> fresh s v" "view s2 k = Some (v, d)" for k v d
  proof -
    have "\<not> fresh s1 v" using assms(3) that(1) by blast
    then have "view s1 k = Some (v, d)" using view_change_keeps assms(2) that(2) by blast
    with that(1) show ?thesis using assms(3) by blast
  qed
qed

lemma evolves_keeps:
  assumes "evolves S room s s'" "inv s"
  shows "inv s' \<and> (\<forall>v. fresh s' v \<longrightarrow> fresh s v) \<and>
    (\<forall>k v d. \<not> fresh s v \<longrightarrow> view s' k = Some (v, d) \<longrightarrow> view s k = Some (v, d))"
  using assms
proof (induction rule: evolves.induct)
  case (evolves_refl s)
  then show ?case by simp
next
  case (evolves_put s s1 k b opts r s2)
  then have ih: "inv s1" "inv s2 \<and> view_change view fresh s1 s2" using put_change by blast+
  show ?case by (rule change_step [OF evolves_put(1) ih(2) evolves_put.IH [OF evolves_put.prems]])
next
  case (evolves_delete s s1 k v r s2)
  then have ih: "inv s1" "inv s2 \<and> view_change view fresh s1 s2" using delete_change by blast+
  show ?case
    by (rule change_step [OF evolves_delete(1) ih(2) evolves_delete.IH [OF evolves_delete.prems]])
next
  case (evolves_compose s s1 k srcs opts r s2)
  then have ih: "inv s1" "inv s2 \<and> view_change view fresh s1 s2" using compose_change by blast+
  show ?case
    by (rule change_step [OF evolves_compose(1) ih(2) evolves_compose.IH [OF evolves_compose.prems]])
qed

lemma token_identity:
  assumes "evolves S room s s'" "inv s" "view s k = Some (v, d)" "view s' k = Some (v, d')"
  shows "d' = d"
proof -
  have "\<not> fresh s v" using fresh_unused assms(2,3) by blast
  then have "view s k = Some (v, d')" using evolves_keeps [OF assms(1,2)] assms(4) by blast
  with assms(3) show ?thesis by simp
qed

end

section \<open>The memory store meets the contract\<close>

definition ms_view :: "memory_state \<Rightarrow> string \<Rightarrow> (version \<times> bytes) option" where
  "ms_view s k = bt_get (ms_objects s) k"

definition ms_inv :: "memory_state \<Rightarrow> bool" where
  "ms_inv s \<longleftrightarrow> bt_ok (ms_objects s) \<and>
     (\<forall>(k, v, d) \<in> set (ms_objects s). \<exists>n \<le> unat (ms_counter s). v = show_nat n)"

definition ms_room :: "memory_state \<Rightarrow> bool" where
  "ms_room s \<longleftrightarrow> unat (ms_counter s) < 2 ^ 64 - 1"

definition ms_fresh :: "memory_state \<Rightarrow> version \<Rightarrow> bool" where
  "ms_fresh s v \<longleftrightarrow> (\<forall>n \<le> unat (ms_counter s). v \<noteq> show_nat n)"

lemma ms_room_Suc: "ms_room s \<Longrightarrow> unat (ms_counter s + 1) = Suc (unat (ms_counter s))"
  by (simp add: ms_room_def unat_word_ariths)

lemma ms_inv_new [simp]: "ms_inv memory_new"
  by (simp add: ms_inv_def memory_new_def)

lemma set_bt_insert: "set (bt_insert k v t) \<subseteq> insert (k, v) (set t)"
  by (induction t) (auto split: if_splits)

lemma set_bt_remove: "set (bt_remove k t) \<subseteq> set t"
  by (auto simp: bt_remove_def)

lemma memory_put_bytes:
  "memory_put k (PutBytes d) opts s =
     (if put_allowed (po_mode opts) (map_option fst (ms_view s k))
      then (let v = show_nat (unat (ms_counter s + 1)) in
        (Inr (object_meta_of k (v, d)),
         \<lparr>ms_objects = bt_insert k (v, d) (ms_objects s), ms_counter = ms_counter s + 1\<rparr>))
      else (Inl (PreconditionFailed k (map_option fst (ms_view s k))), s))"
  by (simp add: memory_put_def body_bytes_def ms_view_def next_version_def object_meta_of_def Let_def)

lemma memory_put_cases:
  obtains e where "memory_put k b opts s = (Inl e, s)"
  | d where "memory_put k b opts s = memory_put k (PutBytes d) opts s"
proof (cases "body_bytes b")
  case (Inl e)
  then show ?thesis using that(1) by (simp add: memory_put_def)
next
  case (Inr d)
  then have "memory_put k b opts s = memory_put k (PutBytes d) opts s"
    unfolding memory_put_def by (simp add: body_bytes_def)
  then show ?thesis by (rule that(2))
qed

lemma ms_written:
  fixes s :: memory_state and k d
  defines "v \<equiv> show_nat (unat (ms_counter s + 1))"
  defines "t \<equiv> \<lparr>ms_objects = bt_insert k (v, d) (ms_objects s), ms_counter = ms_counter s + 1\<rparr>"
  assumes "ms_inv s" "ms_room s"
  shows "ms_inv t \<and> ms_fresh s v \<and> \<not> ms_fresh t v \<and> ms_view t = (ms_view s)(k \<mapsto> (v, d)) \<and>
    view_change ms_view ms_fresh s t"
proof (intro conjI)
  have c: "unat (ms_counter s + 1) = Suc (unat (ms_counter s))"
    by (rule ms_room_Suc) fact
  have "\<exists>n \<le> Suc (unat (ms_counter s)). w = show_nat n" if "(a, w, x) \<in> set (ms_objects s)" for a w x
    using assms(3) that unfolding ms_inv_def by (fastforce intro: le_SucI)
  then show "ms_inv t"
    using assms(3) set_bt_insert [of k "(v, d)" "ms_objects s"]
    by (auto simp: ms_inv_def t_def v_def c)
  show fr: "ms_fresh s v" by (simp add: ms_fresh_def v_def c)
  show nf: "\<not> ms_fresh t v" by (auto simp: ms_fresh_def v_def t_def)
  show vt: "ms_view t = (ms_view s)(k \<mapsto> (v, d))" by (rule ext) (simp add: ms_view_def t_def)
  have "ms_fresh s w" if "ms_fresh t w" for w
    using that by (auto simp: ms_fresh_def t_def c)
  with fr nf vt show "view_change ms_view ms_fresh s t" unfolding view_change_def by blast
qed

lemma view_change_refl [simp]: "view_change view fresh s s"
  by (simp add: view_change_def)

lemma memory_put_change:
  assumes "ms_inv s" "ms_room s" "memory_put k b opts s = (r, s')"
  shows "ms_inv s' \<and> view_change ms_view ms_fresh s s'"
proof (rule memory_put_cases [of k b opts s])
  show ?thesis if "memory_put k b opts s = (Inl e, s)" for e
    using that assms by simp
  show ?thesis if "memory_put k b opts s = memory_put k (PutBytes d) opts s" for d
    using that assms ms_written [OF assms(1,2), where k = k and d = d]
    by (auto simp: memory_put_bytes Let_def split: if_splits)
qed

lemma memory_delete_change:
  assumes "ms_inv s" "memory_delete k w s = (r, s')"
  shows "ms_inv s' \<and> view_change ms_view ms_fresh s s'"
proof -
  have "s' = s \<or> s' = s \<lparr>ms_objects := bt_remove k (ms_objects s)\<rparr>"
    using assms(2) by (auto simp: memory_delete_def split: option.splits if_splits)
  then show ?thesis
  proof
    assume s': "s' = s \<lparr>ms_objects := bt_remove k (ms_objects s)\<rparr>"
    then have "ms_view s' = (ms_view s)(k := None)" by (intro ext) (simp add: ms_view_def)
    moreover have "ms_fresh s' = ms_fresh s" by (simp add: ms_fresh_def s' fun_eq_iff)
    moreover have "ms_inv s'"
      using assms(1) set_bt_remove [of k "ms_objects s"] by (auto simp: ms_inv_def s')
    ultimately show ?thesis by (auto simp: view_change_def)
  qed (use assms(1) in simp)
qed

lemma memory_compose_change:
  assumes "ms_inv s" "ms_room s" "memory_compose k srcs opts s = (r, s')"
  shows "ms_inv s' \<and> view_change ms_view ms_fresh s s'"
  using assms memory_put_change [OF assms(1,2)]
  by (auto simp: memory_compose_def split: sum.splits)

lemma memory_store_ops [simp]:
  "os_get memory_store = memory_get" "os_head memory_store = memory_head"
  "os_put memory_store = memory_put" "os_delete memory_store = memory_delete"
  "os_list memory_store = memory_list" "os_list_prefixes memory_store = memory_list_prefixes"
  "os_compose memory_store = memory_compose"
  by (simp_all add: memory_store_def)

lemma memory_put_accepted:
  assumes "put_allowed (po_mode opts) (map_option fst (ms_view s k))"
  shows "\<exists>v s'. memory_put k (PutBytes d) opts s = (Inr (object_meta_of k (v, d)), s') \<and>
      ms_view s' = (ms_view s)(k \<mapsto> (v, d)) \<and>
      (ms_inv s \<longrightarrow> ms_room s \<longrightarrow> ms_fresh s v \<and> \<not> ms_fresh s' v)"
proof -
  let ?v = "show_nat (unat (ms_counter s + 1))"
  let ?t = "\<lparr>ms_objects = bt_insert k (?v, d) (ms_objects s), ms_counter = ms_counter s + 1\<rparr>"
  have "memory_put k (PutBytes d) opts s = (Inr (object_meta_of k (?v, d)), ?t)"
    using assms by (simp add: memory_put_bytes Let_def)
  moreover have "ms_view ?t = (ms_view s)(k \<mapsto> (?v, d))" by (rule ext) (simp add: ms_view_def)
  ultimately show ?thesis using ms_written [where s = s and k = k and d = d] by blast
qed

lemma ms_fresh_unused: "ms_inv s \<Longrightarrow> ms_fresh s v \<Longrightarrow> ms_view s k \<noteq> Some (v, d)"
  by (fastforce simp: ms_inv_def ms_fresh_def ms_view_def dest: map_of_SomeD)

lemma memory_put_other:
  assumes "memory_put k b opts s = (r, s')" "k' \<noteq> k"
  shows "ms_view s' k' = ms_view s k'"
proof (rule memory_put_cases [of k b opts s])
  show ?thesis if "memory_put k b opts s = (Inl e, s)" for e
    using that assms by simp
  show ?thesis if "memory_put k b opts s = memory_put k (PutBytes d) opts s" for d
    using that assms by (auto simp: memory_put_bytes ms_view_def Let_def split: if_splits)
qed

interpretation mem: versioned_store memory_store ms_view ms_inv ms_room ms_fresh
proof (unfold_locales, unfold memory_store_ops, goal_cases)
  case (6 opts s k d)
  then show ?case by (rule memory_put_accepted)
next
  case (7 s k b opts r s')
  then show ?case by (rule memory_put_change)
next
  case (11 s k v d if_version)
  then show ?case by (auto simp: memory_delete_def ms_view_def fun_eq_iff)
next
  case (12 s k if_version rd s')
  then show ?case by (rule memory_delete_change)
next
  case (13 s k srcs opts r s')
  then show ?case by (rule memory_compose_change)
next
  case (14 s v k d)
  then show ?case by (rule ms_fresh_unused)
next
  case (15 k b opts s r s' k')
  then show ?case by (rule memory_put_other)
qed (simp_all add: memory_get_def memory_head_def memory_delete_def memory_put_bytes default_get_def
      object_meta_of_def ms_view_def split: option.splits)

section \<open>A prefixed view meets the contract\<close>

lemma strip_key_append [simp]: "strip_key p (p @ k) = k"
  by (simp add: strip_key_def)

lemma strip_meta_of [simp]: "strip_meta p (object_meta_of (p @ k) d) = object_meta_of k d"
  by (simp add: strip_meta_def object_meta_of_def)

lemma view_change_prefixed:
  assumes "view_change view fresh s s'"
  shows "view_change (\<lambda>s k. view s (p @ k)) fresh s s'"
proof -
  let ?V = "\<lambda>s k. view s (p @ k)"
  from assms have mono: "\<forall>v. fresh s' v \<longrightarrow> fresh s v" by (simp add: view_change_def)
  from assms consider "view s' = view s"
    | k v d where "fresh s v" "\<not> fresh s' v" "view s' = (view s)(k \<mapsto> (v, d))"
    | k where "view s' = (view s)(k := None)" by (auto simp: view_change_def)
  then show ?thesis
  proof cases
    case 1
    with mono show ?thesis by (simp add: view_change_def)
  next
    case (2 k v d)
    show ?thesis
    proof (cases "prefix p k")
      case True
      then obtain k' where "k = p @ k'" by (auto simp: prefix_def)
      with 2 have "?V s' = (?V s)(k' \<mapsto> (v, d))" by (auto simp: fun_eq_iff)
      with 2 mono show ?thesis unfolding view_change_def by blast
    next
      case False
      with 2 have "?V s' = ?V s" by (auto simp: fun_eq_iff prefix_def)
      with mono show ?thesis by (simp add: view_change_def)
    qed
  next
    case (3 k)
    show ?thesis
    proof (cases "prefix p k")
      case True
      then obtain k' where "k = p @ k'" by (auto simp: prefix_def)
      with 3 have "?V s' = (?V s)(k' := None)" by (auto simp: fun_eq_iff)
      with mono show ?thesis unfolding view_change_def by blast
    next
      case False
      with 3 have "?V s' = ?V s" by (auto simp: fun_eq_iff prefix_def)
      with mono show ?thesis by (simp add: view_change_def)
    qed
  qed
qed

lemmas prefixed_defs = prefixed_def prefixed_get_def prefixed_head_def prefixed_put_def
  prefixed_delete_def prefixed_compose_def full_def

lemma versioned_store_prefixed:
  fixes inv :: "'s \<Rightarrow> bool"
  assumes "versioned_store S view inv room fresh"
  shows "versioned_store (prefixed p S) (\<lambda>s k. view s (p @ k)) inv room fresh"
proof -
  note get = versioned_store.get_absent [OF assms] versioned_store.get_present [OF assms]
      versioned_store.get_changed [OF assms]
    and head = versioned_store.head_view [OF assms]
    and put = versioned_store.put_refused [OF assms] versioned_store.put_accepted [OF assms]
    and del = versioned_store.delete_absent [OF assms] versioned_store.delete_missing [OF assms]
      versioned_store.delete_refused [OF assms] versioned_store.delete_accepted [OF assms]
    and change = versioned_store.put_change [OF assms] versioned_store.delete_change [OF assms]
      versioned_store.compose_change [OF assms]
  show ?thesis
  proof (unfold_locales, goal_cases)
    case (1 s k gopts)
    from get(1) [OF this, of gopts] show ?case by (auto simp: prefixed_defs)
  next
    case (2 s k v d)
    from get(2) [OF this] show ?case by (simp add: prefixed_defs)
  next
    case (3 s k v d w)
    from get(3) [OF this, of w] show ?case by (simp add: prefixed_defs)
  next
    case (4 k s)
    from head [of "p @ k" s] show ?case
      by (cases "view s (p @ k)") (simp_all add: prefixed_defs)
  next
    case (5 opts s k d)
    from put(1) [OF this, of d] show ?case by (auto simp: prefixed_defs)
  next
    case (6 opts s k d)
    from put(2) [OF this, of d] obtain v s' where
      "os_put S (p @ k) (PutBytes d) opts s = (Inr (object_meta_of (p @ k) (v, d)), s')"
      "inv s \<longrightarrow> room s \<longrightarrow> fresh s v \<and> \<not> fresh s' v" "view s' = (view s)(p @ k \<mapsto> (v, d))" by blast
    then show ?case by (intro exI [of _ v] exI [of _ s']) (auto simp: prefixed_defs fun_eq_iff)
  next
    case (7 s k b opts r s')
    then obtain r' where "os_put S (p @ k) b opts s = (r', s')"
      by (auto simp: prefixed_defs split: prod.splits sum.splits)
    from change(1) [OF 7(1,2) this] show ?case by (simp add: view_change_prefixed)
  next
    case (8 s k if_version)
    from del(1) [OF this] show ?case by (simp add: prefixed_defs)
  next
    case (9 s k w)
    from del(2) [OF this] show ?case by (simp add: prefixed_defs)
  next
    case (10 s k v d w)
    from del(3) [OF this] show ?case by (simp add: prefixed_defs)
  next
    case (11 s k v d if_version)
    from del(4) [OF this] show ?case by (auto simp: prefixed_defs fun_eq_iff)
  next
    case (12 s k if_version rd s')
    then have "os_delete S (p @ k) if_version s = (rd, s')" by (simp add: prefixed_defs)
    from change(2) [OF 12(1) this] show ?case by (simp add: view_change_prefixed)
  next
    case (13 s k srcs opts r s')
    then obtain r' where "os_compose S (p @ k) (map (full p) srcs) opts s = (r', s')"
      by (auto simp: prefixed_defs split: prod.splits sum.splits)
    from change(3) [OF 13(1,2) this] show ?case by (simp add: view_change_prefixed)
  next
    case (14 s v k d)
    then show ?case by (rule versioned_store.fresh_unused [OF assms])
  next
    case (15 k b opts s r s' k')
    then obtain r' where "os_put S (p @ k) b opts s = (r', s')"
      by (auto simp: prefixed_defs split: prod.splits sum.splits)
    then show ?case using 15(2) versioned_store.put_other [OF assms] by (metis same_append_eq)
  qed
qed

interpretation pre: versioned_store "prefixed p memory_store" "\<lambda>s k. ms_view s (p @ k)"
  ms_inv ms_room ms_fresh for p
  by (rule versioned_store_prefixed) (rule mem.versioned_store_axioms)

section \<open>Listings\<close>

lemma prefix_interval:
  assumes "p \<le> k" "k \<le> k'" "prefix p (k' :: string)"
  shows "prefix p k"
  using assms
proof (induction p arbitrary: k k')
  case (Cons c p)
  then obtain r where k': "k' = c # r" "prefix p r" by (auto simp: prefix_def)
  with Cons.prems obtain q where "k = c # q" "p \<le> q" "q \<le> r"
    by (cases k) (auto simp: less_eq_char_def split: if_splits)
  with Cons.IH k' show ?case by auto
qed simp

lemma prefix_le: "prefix p k \<Longrightarrow> p \<le> (k :: string)"
proof (induction p arbitrary: k)
  case (Cons c p)
  then show ?case by (cases k) auto
qed simp

lemma takeWhile_filter_eq:
  "sorted_wrt (\<lambda>x y. P y \<longrightarrow> P x) xs \<Longrightarrow> takeWhile P xs = filter P xs"
  by (induction xs) (auto simp: filter_empty_conv)

lemma prefix_range_eq:
  assumes "bt_ok g"
  shows "prefix_range p g = filter (\<lambda>(k, _). starts_with k p) g"
proof -
  let ?P = "\<lambda>(k, _). starts_with k p" and ?D = "\<lambda>(k, _ :: 'a). k < p"
  from assms have s: "sorted_wrt (\<lambda>x y. fst x < fst y) g" by (simp add: sorted_wrt_map)
  have ge: "\<forall>x \<in> set (dropWhile ?D g). p \<le> fst x"
    using s by (induction g) (auto simp: not_less split: if_splits dest: order_less_imp_le order_trans)
  have mono: "?P y \<longrightarrow> ?P x" if "x \<in> set (dropWhile ?D g)" "fst x < fst y" for x y
    using ge that prefix_interval [of p "fst x" "fst y"] by (simp add: case_prod_unfold less_imp_le)
  have "sorted_wrt (\<lambda>x y. fst x < fst y) (dropWhile ?D g)"
    using s by (metis sorted_wrt_append takeWhile_dropWhile_id)
  then have "sorted_wrt (\<lambda>x y. ?P y \<longrightarrow> ?P x) (dropWhile ?D g)"
    by (rule sorted_wrt_mono_rel [rotated]) (rule mono)
  then have "prefix_range p g = filter ?P (dropWhile ?D g)"
    unfolding prefix_range_def by (rule takeWhile_filter_eq)
  moreover have "filter ?P (takeWhile ?D g) = []"
    using prefix_le by (fastforce simp: filter_empty_conv dest: set_takeWhileD)
  ultimately show ?thesis
    by (metis (no_types, lifting) append_Nil filter_append takeWhile_dropWhile_id)
qed

lemma dir_below_Some:
  "dir_below p k = Some x \<longleftrightarrow> (\<exists>h r. k = p @ h @ ''/'' @ r \<and> CHR ''/'' \<notin> set h \<and> x = p @ h @ ''/'')"
  by (fastforce simp: dir_below_def strip_prefix_Some split_once_Some split: option.splits
      dest: strip_prefix_Some [THEN iffD1])

text \<open>The directory of a key is monotone in the key, so equal directories are adjacent.\<close>

lemma segment_mono:
  assumes "h @ ''/'' @ r \<le> h' @ ''/'' @ (r' :: string)" "CHR ''/'' \<notin> set h" "CHR ''/'' \<notin> set h'"
  shows "h @ ''/'' \<le> h' @ ''/''"
  using assms
proof (induction h arbitrary: h')
  case Nil
  then show ?case by (cases h') auto
next
  case (Cons c h)
  then show ?case by (cases h') (auto split: if_splits)
qed

lemma dir_below_mono:
  assumes "dir_below p k = Some x" "dir_below p k' = Some y" "k < k'"
  shows "x \<le> y"
proof -
  obtain h r h' r' where k: "k = p @ h @ ''/'' @ r" "CHR ''/'' \<notin> set h" "x = p @ h @ ''/''"
    and k': "k' = p @ h' @ ''/'' @ r'" "CHR ''/'' \<notin> set h'" "y = p @ h' @ ''/''"
    using assms(1,2) by (auto simp: dir_below_Some)
  have "h @ ''/'' @ r < h' @ ''/'' @ r'" using assms(3) k(1) k'(1) by (simp only: lex_append_same)
  then have "h @ ''/'' \<le> h' @ ''/''" by (intro segment_mono [OF _ k(2) k'(2)]) (rule less_imp_le)
  then show ?thesis unfolding k(3) k'(3) le_less using lex_append_same by blast
qed

lemma sorted_map_filter:
  assumes "sorted_wrt (<) (map fst g)"
    and "\<And>a b x y. a < b \<Longrightarrow> f a = Some x \<Longrightarrow> f b = Some y \<Longrightarrow> x \<le> (y :: string)"
  shows "sorted (List.map_filter (\<lambda>(k :: string, _). f k) g)"
  using assms(1)
proof (induction g)
  case (Cons e g)
  obtain k v where e: "e = (k, v)" by (cases e)
  have "x \<le> y" if "f k = Some x" "y \<in> set (List.map_filter (\<lambda>(k, _). f k) g)" for x y
    using that Cons.prems assms(2) by (fastforce simp: e map_filter_def)
  with Cons show ?case by (auto simp: e map_filter_simps split: option.splits)
qed (simp add: map_filter_simps)

lemma sorted_remdups_adj_strict: "sorted xs \<Longrightarrow> sorted_wrt (<) (remdups_adj (xs :: string list))"
  by (induction xs rule: remdups_adj.induct) (auto simp: less_le intro: order_trans)

text \<open>
  \<open>MemoryStore::list_prefixes\<close> returns, in strictly increasing order and without
  repetition, exactly the directories \<open>prefix + segment + "/"\<close> that hold a key, although it only
  drops adjacent duplicates.
\<close>

lemma list_prefixes_exact:
  assumes "bt_ok (ms_objects s)"
  shows "\<exists>out. memory_list_prefixes p s = (Inr out, s) \<and> sorted_wrt (<) out \<and>
    set out = {p @ h @ ''/'' | h r. CHR ''/'' \<notin> set h \<and> ms_view s (p @ h @ ''/'' @ r) \<noteq> None}"
proof -
  let ?g = "prefix_range p (ms_objects s)"
  let ?l = "List.map_filter (\<lambda>(k, _). dir_below p k) ?g"
  have ok: "sorted_wrt (<) (map fst ?g)" using assms by (simp add: prefix_range_eq)
  have "sorted ?l" by (rule sorted_map_filter [OF ok]) (rule dir_below_mono)
  moreover have "set ?l = {p @ h @ ''/'' | h r. CHR ''/'' \<notin> set h \<and> ms_view s (p @ h @ ''/'' @ r) \<noteq> None}"
    (is "_ = ?R")
  proof (intro equalityI subsetI)
    fix x assume "x \<in> set ?l"
    then obtain k v where "(k, v) \<in> set (ms_objects s)" "dir_below p k = Some x"
      by (auto simp: map_filter_def prefix_range_eq [OF assms])
    then obtain h r where "(p @ h @ ''/'' @ r, v) \<in> set (ms_objects s)" "CHR ''/'' \<notin> set h"
      "x = p @ h @ ''/''" unfolding dir_below_Some by blast
    moreover from this(1) have "ms_view s (p @ h @ ''/'' @ r) = Some v"
      unfolding ms_view_def by (simp only: bt_get_iff [OF assms])
    ultimately show "x \<in> ?R" by blast
  next
    fix x assume "x \<in> ?R"
    then obtain h r v where x: "x = p @ h @ ''/''" "CHR ''/'' \<notin> set h"
      "ms_view s (p @ h @ ''/'' @ r) = Some v"
      by blast
    then have m: "(p @ h @ ''/'' @ r, v) \<in> set (ms_objects s)"
      unfolding ms_view_def by (simp only: bt_get_iff [OF assms])
    then have "(p @ h @ ''/'' @ r, v) \<in> set ?g" using x by (simp add: prefix_range_eq [OF assms])
    moreover have "dir_below p (p @ h @ ''/'' @ r) = Some x"
      using x(1,2) dir_below_Some by blast
    ultimately show "x \<in> set ?l" by (force simp: map_filter_def)
  qed
  ultimately show ?thesis by (simp add: memory_list_prefixes_def sorted_remdups_adj_strict)
qed

section \<open>A prefixed store is the sub-store under its prefix\<close>

definition restrict_bt :: "string \<Rightarrow> (string, 'v) btree \<Rightarrow> (string, 'v) btree" where
  "restrict_bt p g = map (\<lambda>(k, v). (drop (length p) k, v)) (filter (\<lambda>(k, _). starts_with k p) g)"

definition restrict_ms :: "string \<Rightarrow> memory_state \<Rightarrow> memory_state" where
  "restrict_ms p s = s \<lparr>ms_objects := restrict_bt p (ms_objects s)\<rparr>"

text \<open>Errors of a prefixed store carry the full key.\<close>

fun full_error :: "string \<Rightarrow> store_error \<Rightarrow> store_error" where
  "full_error p (NotFound k) = NotFound (p @ k)"
| "full_error p (PreconditionFailed k v) = PreconditionFailed (p @ k) v"
| "full_error p e = e"

definition full_result :: "string \<Rightarrow> (store_error, 'a) result \<Rightarrow> (store_error, 'a) result" where
  "full_result p r = (case r of Inl e \<Rightarrow> Inl (full_error p e) | Inr x \<Rightarrow> Inr x)"

lemma full_result_simps [simp]:
  "full_result p (Inl e) = Inl (full_error p e)" "full_result p (Inr x) = Inr x"
  by (simp_all add: full_result_def)

lemma restrict_bt_simps [simp]:
  "restrict_bt p [] = []"
  "restrict_bt p ((k, v) # g) =
     (if starts_with k p then (drop (length p) k, v) # restrict_bt p g else restrict_bt p g)"
  by (simp_all add: restrict_bt_def)

lemma bt_get_restrict [simp]: "bt_get (restrict_bt p g) k = bt_get g (p @ k)"
  by (induction g) (auto simp: prefix_def)

lemma restrict_ms_simps [simp]:
  "ms_objects (restrict_ms p s) = restrict_bt p (ms_objects s)"
  "ms_counter (restrict_ms p s) = ms_counter s"
  by (simp_all add: restrict_ms_def)

lemma restrict_keys: "k \<in> fst ` set (restrict_bt p g) \<longleftrightarrow> p @ k \<in> fst ` set g"
proof -
  have "k \<in> fst ` set t \<longleftrightarrow> bt_get t k \<noteq> None" for k and t :: "(string, 'a) btree"
    by (simp add: map_of_eq_None_iff)
  then show ?thesis by simp
qed

lemma bt_ok_restrict [simp]:
  assumes "bt_ok g"
  shows "bt_ok (restrict_bt p g)"
proof -
  let ?f = "filter (\<lambda>(k, _). starts_with k p) g"
  have lt: "drop (length p) (fst x) < drop (length p) (fst y)"
    if "x \<in> set ?f" "y \<in> set ?f" "fst x < fst y" for x y
    using that by (auto simp: prefix_def lex_append_same)
  have "sorted_wrt (\<lambda>x y. fst x < fst y) ?f" using assms by (simp add: sorted_wrt_map sorted_wrt_filter)
  then have "sorted_wrt (\<lambda>x y. drop (length p) (fst x) < drop (length p) (fst y)) ?f"
    by (rule sorted_wrt_mono_rel [rotated]) (rule lt)
  then show ?thesis by (simp add: restrict_bt_def sorted_wrt_map case_prod_unfold)
qed

lemma restrict_remove: "restrict_bt p (bt_remove (p @ k) g) = bt_remove k (restrict_bt p g)"
  by (induction g) (auto simp: bt_remove_def prefix_def)

lemma bt_insert_front: "\<forall>y \<in> fst ` set t. k < y \<Longrightarrow> bt_insert k v t = (k, v) # t"
  by (cases t) auto

lemma restrict_insert:
  "bt_ok g \<Longrightarrow> restrict_bt p (bt_insert (p @ k) v g) = bt_insert k v (restrict_bt p g)"
proof (induction g)
  case (Cons e g)
  obtain a b where e: "e = (a, b)" by (cases e)
  show ?case
  proof (cases "starts_with a p")
    case True
    then obtain a' where "a = p @ a'" by (auto simp: prefix_def)
    with Cons show ?thesis by (simp add: e lex_append_same)
  next
    case False
    have "\<forall>y \<in> fst ` set (restrict_bt p g). k < y" if "p @ k < a"
    proof
      fix y assume "y \<in> fst ` set (restrict_bt p g)"
      then have "p @ y \<in> fst ` set g" by (simp only: restrict_keys)
      then have "a < p @ y" using Cons.prems by (auto simp: e)
      with that have "p @ k < p @ y" by (rule less_trans)
      then show "k < y" by (simp add: lex_append_same)
    qed
    then have front: "p @ k < a \<Longrightarrow> bt_insert k v (restrict_bt p g) = (k, v) # restrict_bt p g"
      by (intro bt_insert_front) blast
    have "p @ k \<noteq> a" using False by auto
    with False Cons front show ?thesis by (simp add: e)
  qed
qed simp

lemma starts_with_append:
  "starts_with k (p @ q) \<longleftrightarrow> starts_with k p \<and> starts_with (drop (length p) k) q"
  by (auto simp: prefix_def)

lemma restrict_filter:
  "restrict_bt p (filter (\<lambda>(k, _). starts_with k (p @ q)) g) =
     filter (\<lambda>(k, _). starts_with k q) (restrict_bt p g)"
  by (induction g) (auto simp: starts_with_append split: if_splits)

lemma prefix_range_restrict:
  assumes "bt_ok g"
  shows "restrict_bt p (prefix_range (p @ q) g) = prefix_range q (restrict_bt p g)"
  using assms by (simp add: prefix_range_eq restrict_filter)

text \<open>One operation through the prefix against the same operation on the sub-store.\<close>

definition sub_refines ::
  "string \<Rightarrow> memory_state \<Rightarrow> (store_error, 'a) result \<times> memory_state \<Rightarrow>
     (store_error, 'a) result \<times> memory_state \<Rightarrow> bool" where
  "sub_refines p s out sub \<longleftrightarrow>
     fst out = full_result p (fst sub) \<and> restrict_ms p (snd out) = snd sub \<and>
     (\<forall>k. \<not> starts_with k p \<longrightarrow> ms_view (snd out) k = ms_view s k)"

lemma sub_refines_get: "sub_refines p s (prefixed_get p memory_store k opts s) (memory_get k opts (restrict_ms p s))"
  by (auto simp: sub_refines_def prefixed_get_def memory_get_def full_def Let_def strip_meta_def
      split: option.splits)

lemma sub_refines_head: "sub_refines p s (prefixed_head p memory_store k s) (memory_head k (restrict_ms p s))"
  by (cases "bt_get (ms_objects s) (p @ k)")
    (auto simp: sub_refines_def prefixed_head_def memory_head_def full_def)

lemma restrict_written:
  assumes "bt_ok (ms_objects s)"
  shows "restrict_ms p \<lparr>ms_objects = bt_insert (p @ k) x (ms_objects s), ms_counter = c\<rparr> =
    \<lparr>ms_objects = bt_insert k x (restrict_bt p (ms_objects s)), ms_counter = c\<rparr>"
  using assms by (simp add: restrict_ms_def restrict_insert)

lemma sub_refines_put:
  assumes "bt_ok (ms_objects s)" "body_bytes b = Inr d"
  shows "sub_refines p s (prefixed_put p memory_store k b opts s) (memory_put k b opts (restrict_ms p s))"
proof -
  from assms(2) have eq: "memory_put k b opts = memory_put k (PutBytes d) opts" for k
    by (intro ext) (simp add: memory_put_def body_bytes_def)
  show ?thesis
    using assms unfolding sub_refines_def prefixed_put_def memory_store_ops full_def eq memory_put_bytes
    by (auto simp: Let_def ms_view_def restrict_written)
qed

lemma sub_refines_delete:
  "sub_refines p s (prefixed_delete p memory_store k v s) (memory_delete k v (restrict_ms p s))"
  by (auto simp: sub_refines_def prefixed_delete_def memory_delete_def full_def restrict_ms_def
      ms_view_def restrict_remove split: option.splits)

lemma compose_sources_restrict:
  "compose_sources g (map (full p) srcs) buf = full_result p (compose_sources (restrict_bt p g) srcs buf)"
  by (induction srcs arbitrary: buf) (auto simp: full_def split: option.splits)

lemma sub_refines_compose:
  assumes "bt_ok (ms_objects s)"
  shows "sub_refines p s (prefixed_compose p memory_store k srcs opts s)
    (memory_compose k srcs opts (restrict_ms p s))"
proof (cases "compose_sources (restrict_bt p (ms_objects s)) srcs []")
  case (Inl e)
  then show ?thesis
    by (simp add: sub_refines_def prefixed_compose_def memory_compose_def compose_sources_restrict)
next
  case (Inr d)
  then have "prefixed_compose p memory_store k srcs opts s = prefixed_put p memory_store k (PutBytes d) opts s"
    by (simp add: prefixed_compose_def prefixed_put_def memory_compose_def compose_sources_restrict)
  moreover have "memory_compose k srcs opts (restrict_ms p s) = memory_put k (PutBytes d) opts (restrict_ms p s)"
    using Inr by (simp add: memory_compose_def)
  ultimately show ?thesis using sub_refines_put [OF assms, of "PutBytes d"] by (simp add: body_bytes_def)
qed

lemma list_refines:
  assumes "bt_ok (ms_objects s)"
  shows "prefixed_list p memory_store q start_after s = (fst (memory_list q start_after (restrict_ms p s)), s)"
proof -
  let ?P = "\<lambda>a (k, _). case a of None \<Rightarrow> True | Some a \<Rightarrow> a < k"
  have *: "map (map_sum id (strip_meta p)) (map (\<lambda>(k, obj). Inr (object_meta_of k obj))
        (filter (?P (map_option (full p) start_after)) g)) =
      map (\<lambda>(k, obj). Inr (object_meta_of k obj)) (filter (?P start_after) (restrict_bt p g))"
    if "list_all (\<lambda>(k, _). starts_with k p) g" for g :: "(string, version \<times> bytes) btree"
    using that by (induction g) (auto simp: prefix_def full_def lex_append_same split: option.splits)
  have "list_all (\<lambda>(k, _). starts_with k p) (prefix_range (p @ q) (ms_objects s))"
    by (auto simp: list_all_iff prefix_range_eq [OF assms] starts_with_append)
  from * [OF this] show ?thesis
    by (simp add: prefixed_list_def memory_list_def full_def prefix_range_restrict [OF assms])
qed

lemma dir_below_append: "dir_below (p @ q) (p @ k) = map_option ((@) p) (dir_below q k)"
  by (cases "strip_prefix q k")
    (auto simp: dir_below_def strip_prefix_def option.map_comp comp_def case_prod_unfold split: if_splits)

lemma list_prefixes_refines:
  assumes "bt_ok (ms_objects s)"
  shows "sub_refines p s (prefixed_list_prefixes p memory_store q s) (memory_list_prefixes q (restrict_ms p s))"
proof -
  have "List.map_filter (\<lambda>(k, _). dir_below (p @ q) k) g =
      map ((@) p) (List.map_filter (\<lambda>(k, _). dir_below q k) (restrict_bt p g))"
    if "list_all (\<lambda>(k, _). starts_with k p) g" for g :: "(string, version \<times> bytes) btree"
    using that
    by (induction g) (auto simp: map_filter_simps prefix_def dir_below_append split: option.splits)
  moreover have "list_all (\<lambda>(k, _). starts_with k p) (prefix_range (p @ q) (ms_objects s))"
    by (auto simp: list_all_iff prefix_range_eq [OF assms] starts_with_append)
  ultimately have "List.map_filter (\<lambda>(k, _). dir_below (p @ q) k) (prefix_range (p @ q) (ms_objects s)) =
      map ((@) p) (List.map_filter (\<lambda>(k, _). dir_below q k) (prefix_range q (restrict_bt p (ms_objects s))))"
    by (simp only: prefix_range_restrict [OF assms, symmetric])
  then show ?thesis
    by (simp add: sub_refines_def prefixed_list_prefixes_def memory_list_prefixes_def full_def
        remdups_adj_map_injective inj_def comp_def)
qed

text \<open>
  C34. \<open>Prefixed\<close> refines: every operation through a prefix acts as the same operation on the
  sub-store of the keys under that prefix, with full keys in errors, and changes no other key.
\<close>

theorem prefixed_refines_substore:
  assumes "bt_ok (ms_objects s)"
  shows "sub_refines p s (os_get (prefixed p memory_store) k gopts s) (memory_get k gopts (restrict_ms p s)) \<and>
    sub_refines p s (os_head (prefixed p memory_store) k s) (memory_head k (restrict_ms p s)) \<and>
    sub_refines p s (os_put (prefixed p memory_store) k (PutBytes d) opts s)
      (memory_put k (PutBytes d) opts (restrict_ms p s)) \<and>
    sub_refines p s (os_delete (prefixed p memory_store) k v s) (memory_delete k v (restrict_ms p s)) \<and>
    sub_refines p s (os_compose (prefixed p memory_store) k srcs opts s)
      (memory_compose k srcs opts (restrict_ms p s)) \<and>
    sub_refines p s (os_list_prefixes (prefixed p memory_store) q s)
      (memory_list_prefixes q (restrict_ms p s)) \<and>
    os_list (prefixed p memory_store) q start_after s = (fst (memory_list q start_after (restrict_ms p s)), s)"
  by (simp add: prefixed_def sub_refines_get sub_refines_head sub_refines_put [OF assms] body_bytes_def
      sub_refines_delete sub_refines_compose [OF assms] list_prefixes_refines [OF assms] list_refines [OF assms])

theorem prefixed_refines_substore_witness:
  "os_list (prefixed ''repos/a/'' memory_store) [] (Some ''x'')
     \<lparr>ms_objects = [(''repos/a/x'', ''1'', ''d''), (''repos/a/y'', ''2'', ''d''), (''repos/b/y'', ''3'', '''')],
      ms_counter = 3\<rparr> =
   ([Inr \<lparr>om_key = ''y'', om_size = 1, om_version = ''2''\<rparr>],
     \<lparr>ms_objects = [(''repos/a/x'', ''1'', ''d''), (''repos/a/y'', ''2'', ''d''), (''repos/b/y'', ''3'', '''')],
      ms_counter = 3\<rparr>)"
proof -
  let ?s = "\<lparr>ms_objects = [(''repos/a/x'', ''1'', ''d''), (''repos/a/y'', ''2'', ''d''),
    (''repos/b/y'', ''3'', '''')], ms_counter = 3\<rparr>"
  have "bt_ok (ms_objects ?s)" by (simp add: less_char_def)
  from prefixed_refines_substore [OF this, of "''repos/a/''" "[]" default_get "[]" "put_options_from Create"
      None "[]" "[]" "Some ''x''"]
  have "os_list (prefixed ''repos/a/'' memory_store) [] (Some ''x'') ?s =
      (fst (memory_list [] (Some ''x'') (restrict_ms ''repos/a/'' ?s)), ?s)" by blast
  also have "fst (memory_list [] (Some ''x'') (restrict_ms ''repos/a/'' ?s)) =
      [Inr \<lparr>om_key = ''y'', om_size = 1, om_version = ''2''\<rparr>]" by code_simp
  finally show ?thesis .
qed

end
