(* ===== verification/Coord.thy ===== *)
theory Coord
  imports Object_Store "HOL-Library.Countable"
begin

text \<open>
  Coordination over the object store (\<open>walgit-store/src/coord.rs\<close>, \<open>util.rs\<close>): the generic
  read-modify-write loop \<open>cas_update\<close>, message reads, and leases with heartbeats. Protobuf
  decoding and encoding are the parameters \<open>dec\<close> and \<open>enc\<close>. A caller's closure \<open>f\<close> is
  \<open>FnMut\<close>, so it threads a state of its own. Sleeping between attempts has no effect on the
  result; what other clients do meanwhile is the \<open>interleaved\<close> store, which runs one pending
  action of the environment before every operation.

  The lemmas: \<open>cas_update\<close> is atomic under interference and always returns; a lease is only
  taken over after its expiry plus the skew tolerance, so under bounded clock skew two holders
  never both believe in it.
\<close>

section \<open>Errors and messages\<close>

datatype coord_error =
    CoordStore store_error
  | CoordDecode string
  | CoordAborted
  | LeaseLost
  | RetriesExhausted string nat
  | CoordOther string

type_synonym 't decoder = "bytes \<Rightarrow> (string, 't) result"
type_synonym 't encoder = "'t \<Rightarrow> bytes"

definition get_message ::
  "'t decoder \<Rightarrow> 's object_store \<Rightarrow> string \<Rightarrow> 's \<Rightarrow>
     (coord_error, (object_meta \<times> 't) option) result \<times> 's" where
  "get_message dec S key s =
     (case get_bytes S key s of
        (Inl e, s') \<Rightarrow> (Inl (CoordStore e), s')
      | (Inr None, s') \<Rightarrow> (Inr None, s')
      | (Inr (Some (meta, bytes)), s') \<Rightarrow>
          (case dec bytes of
             Inl m \<Rightarrow> (Inl (CoordDecode m), s')
           | Inr msg \<Rightarrow> (Inr (Some (meta, msg)), s')))"

definition get_message_if_changed ::
  "'t decoder \<Rightarrow> 's object_store \<Rightarrow> string \<Rightarrow> version \<Rightarrow> 's \<Rightarrow>
     (coord_error, (object_meta \<times> 't) option) result \<times> 's" where
  "get_message_if_changed dec S key known s =
     (case get_if_changed S key known s of
        (Inl (NotFound _), s') \<Rightarrow> (Inr None, s')
      | (Inr None, s') \<Rightarrow> (Inr None, s')
      | (Inl e, s') \<Rightarrow> (Inl (CoordStore e), s')
      | (Inr (Some (meta, bytes)), s') \<Rightarrow>
          (case dec bytes of
             Inl m \<Rightarrow> (Inl (CoordDecode m), s')
           | Inr msg \<Rightarrow> (Inr (Some (meta, msg)), s')))"

section \<open>The compare-and-swap loop\<close>

function cas_update_loop ::
  "'t decoder \<Rightarrow> 't encoder \<Rightarrow> 's object_store \<Rightarrow> string \<Rightarrow> nat \<Rightarrow>
     ('c \<Rightarrow> 't option \<Rightarrow> (coord_error, 't option) result \<times> 'c) \<Rightarrow> nat \<Rightarrow> 'c \<Rightarrow> 's \<Rightarrow>
     (coord_error, (object_meta \<times> 't) option) result \<times> 'c \<times> 's" where
  "cas_update_loop dec enc S key max_retries f attempts c s =
     (case get_message dec S key s of
        (Inl e, s1) \<Rightarrow> (Inl e, c, s1)
      | (Inr current, s1) \<Rightarrow>
          (case f c (map_option snd current) of
             (Inr None, c1) \<Rightarrow> (Inr None, c1, s1)
           | (Inl e, c1) \<Rightarrow> (Inl e, c1, s1)
           | (Inr (Some new), c1) \<Rightarrow>
               let mode = (case current of Some (meta, _) \<Rightarrow> Update (om_version meta) | None \<Rightarrow> Create) in
               (case put_bytes S key (enc new) mode s1 of
                  (Inr meta, s2) \<Rightarrow> (Inr (Some (meta, new)), c1, s2)
                | (Inl (PreconditionFailed _ _), s2) \<Rightarrow>
                    if attempts + 1 > max_retries
                    then (Inl (RetriesExhausted key (attempts + 1)), c1, s2)
                    else cas_update_loop dec enc S key max_retries f (attempts + 1) c1 s2
                | (Inl (Retryable _), s2) \<Rightarrow>
                    if attempts + 1 > max_retries
                    then (Inl (RetriesExhausted key (attempts + 1)), c1, s2)
                    else cas_update_loop dec enc S key max_retries f (attempts + 1) c1 s2
                | (Inl e, s2) \<Rightarrow> (Inl (CoordStore e), c1, s2))))"
  by pat_completeness auto

termination
  by (relation "measure (\<lambda>(_, _, _, _, max_retries, _, attempts, _, _). max_retries - attempts)") auto

declare cas_update_loop.simps [simp del]

definition cas_update ::
  "'t decoder \<Rightarrow> 't encoder \<Rightarrow> 's object_store \<Rightarrow> string \<Rightarrow> nat \<Rightarrow>
     ('c \<Rightarrow> 't option \<Rightarrow> (coord_error, 't option) result \<times> 'c) \<Rightarrow> 'c \<Rightarrow> 's \<Rightarrow>
     (coord_error, (object_meta \<times> 't) option) result \<times> 'c \<times> 's" where
  "cas_update dec enc S key max_retries f c s =
     cas_update_loop dec enc S key max_retries f 0 c s"

text \<open>\<open>util::retry\<close> over an operation on the store.\<close>

function retry_loop ::
  "nat \<Rightarrow> ('s \<Rightarrow> (store_error, 'a) result \<times> 's) \<Rightarrow> nat \<Rightarrow> 's \<Rightarrow> (store_error, 'a) result \<times> 's" where
  "retry_loop max_attempts op attempt s =
     (case op s of
        (Inl e, s') \<Rightarrow>
          if is_retryable e \<and> attempt + 1 < max_attempts
          then retry_loop max_attempts op (attempt + 1) s'
          else (Inl e, s')
      | (Inr x, s') \<Rightarrow> (Inr x, s'))"
  by pat_completeness auto

termination
  by (relation "measure (\<lambda>(max_attempts, _, attempt, _). max_attempts - attempt)") auto

declare retry_loop.simps [simp del]

definition retry ::
  "nat \<Rightarrow> ('s \<Rightarrow> (store_error, 'a) result \<times> 's) \<Rightarrow> 's \<Rightarrow> (store_error, 'a) result \<times> 's" where
  "retry max_attempts op s = retry_loop max_attempts op 0 s"

section \<open>Leases\<close>

type_synonym duration = int

definition LEASE_SKEW_TOLERANCE :: duration where
  "LEASE_SKEW_TOLERANCE = 2 * nanos_per_sec"

definition make_lease :: "string \<Rightarrow> string \<Rightarrow> system_time \<Rightarrow> duration \<Rightarrow> nat \<Rightarrow> lease" where
  "make_lease holder purpose now ttl epoch =
     \<lparr>ls_holder = holder, ls_purpose = purpose, ls_acquired_at = Some (from_system now),
      ls_expires_at = Some (from_system (now + ttl)), ls_epoch = epoch\<rparr>"

record lease_guard =
  lg_key :: string
  lg_holder :: string
  lg_purpose :: string
  lg_version :: version
  lg_expires_at :: system_time
  lg_epoch :: nat
  lg_released :: bool

definition lease_guard_new ::
  "string \<Rightarrow> string \<Rightarrow> string \<Rightarrow> version \<Rightarrow> system_time \<Rightarrow> duration \<Rightarrow> nat \<Rightarrow> lease_guard" where
  "lease_guard_new key holder purpose version now ttl epoch =
     \<lparr>lg_key = key, lg_holder = holder, lg_purpose = purpose, lg_version = version,
      lg_expires_at = now + ttl, lg_epoch = epoch, lg_released = False\<rparr>"

definition heartbeat ::
  "lease encoder \<Rightarrow> 's object_store \<Rightarrow> system_time \<Rightarrow> duration \<Rightarrow> lease_guard \<Rightarrow> 's \<Rightarrow>
     (coord_error, unit) result \<times> lease_guard \<times> 's" where
  "heartbeat enc S now ttl g s =
     (let g1 = g \<lparr>lg_epoch := lg_epoch g + 1\<rparr>;
          lease = make_lease (lg_holder g1) (lg_purpose g1) now ttl (lg_epoch g1)
      in case put_bytes S (lg_key g1) (enc lease) (Update (lg_version g1)) s of
           (Inr meta, s') \<Rightarrow>
             (Inr (), g1 \<lparr>lg_version := om_version meta, lg_expires_at := now + ttl\<rparr>, s')
         | (Inl (PreconditionFailed _ _), s') \<Rightarrow> (Inl LeaseLost, g1, s')
         | (Inl e, s') \<Rightarrow> (Inl (CoordStore e), g1, s'))"

definition release ::
  "'s object_store \<Rightarrow> lease_guard \<Rightarrow> 's \<Rightarrow> (coord_error, unit) result \<times> lease_guard \<times> 's" where
  "release S g s =
     (let g1 = g \<lparr>lg_released := True\<rparr> in
      case os_delete S (lg_key g1) (Some (lg_version g1)) s of
        (Inr _, s') \<Rightarrow> (Inr (), g1, s')
      | (Inl (PreconditionFailed _ _), s') \<Rightarrow> (Inr (), g1, s')
      | (Inl (NotFound _), s') \<Rightarrow> (Inr (), g1, s')
      | (Inl e, s') \<Rightarrow> (Inl (CoordStore e), g1, s'))"

text \<open>\<open>Drop\<close> inside a Tokio runtime: the spawned deletion ignores its result.\<close>

definition drop_guard :: "'s object_store \<Rightarrow> lease_guard \<Rightarrow> 's \<Rightarrow> lease_guard \<times> 's" where
  "drop_guard S g s =
     (if lg_released g then (g, s)
      else (g \<lparr>lg_released := True\<rparr>, snd (os_delete S (lg_key g) (Some (lg_version g)) s)))"

text \<open>One round of the task \<open>spawn_heartbeat\<close> starts: whether it goes on, and the guard.\<close>

definition heartbeat_round ::
  "lease encoder \<Rightarrow> 's object_store \<Rightarrow> system_time \<Rightarrow> duration \<Rightarrow> lease_guard \<Rightarrow> 's \<Rightarrow>
     bool \<times> lease_guard \<times> 's" where
  "heartbeat_round enc S now ttl g s =
     (if lg_released g then (False, g, s)
      else (case heartbeat enc S now ttl g s of
              (Inr _, g', s') \<Rightarrow> (True, g', s')
            | (Inl LeaseLost, g', s') \<Rightarrow> (False, g' \<lparr>lg_released := True\<rparr>, s')
            | (Inl _, g', s') \<Rightarrow> (True, g', s')))"

definition lease_expiry :: "lease \<Rightarrow> system_time" where
  "lease_expiry l = (case ls_expires_at l of None \<Rightarrow> 0 | Some t \<Rightarrow> to_system t)"

text \<open>
  \<open>try_acquire\<close> touches the store twice: it reads the lease and decides (\<open>acquire_read\<close>; the clock
  was read before), then it writes conditionally on what it read (\<open>acquire_write\<close>). Between the
  two other processes may act, so the steps of a run are these two operations.
\<close>

record lease_attempt =
  la_holder :: string
  la_purpose :: string
  la_now :: system_time
  la_ttl :: duration
  la_mode :: put_mode
  la_epoch :: nat

definition acquire_read ::
  "lease decoder \<Rightarrow> 's object_store \<Rightarrow> string \<Rightarrow> string \<Rightarrow> string \<Rightarrow> system_time \<Rightarrow> duration \<Rightarrow> 's \<Rightarrow>
     (coord_error, lease_attempt option) result \<times> 's" where
  "acquire_read dec S key holder purpose now ttl s =
     (case get_message dec S key s of
        (Inl e, s') \<Rightarrow> (Inl e, s')
      | (Inr None, s') \<Rightarrow>
          (Inr (Some \<lparr>la_holder = holder, la_purpose = purpose, la_now = now, la_ttl = ttl,
                     la_mode = Create, la_epoch = 0\<rparr>), s')
      | (Inr (Some (meta, existing)), s') \<Rightarrow>
          (if now \<ge> lease_expiry existing + LEASE_SKEW_TOLERANCE
           then (Inr (Some \<lparr>la_holder = holder, la_purpose = purpose, la_now = now, la_ttl = ttl,
                           la_mode = Update (om_version meta), la_epoch = ls_epoch existing + 1\<rparr>), s')
           else (Inr None, s')))"

definition acquire_write ::
  "lease encoder \<Rightarrow> 's object_store \<Rightarrow> string \<Rightarrow> lease_attempt \<Rightarrow> 's \<Rightarrow>
     (coord_error, lease_guard option) result \<times> 's" where
  "acquire_write enc S key a s =
     (case put_bytes S key (enc (make_lease (la_holder a) (la_purpose a) (la_now a) (la_ttl a) (la_epoch a)))
             (la_mode a) s of
        (Inr meta, s') \<Rightarrow>
          (Inr (Some (lease_guard_new key (la_holder a) (la_purpose a) (om_version meta) (la_now a) (la_ttl a)
             (la_epoch a))), s')
      | (Inl (PreconditionFailed _ _), s') \<Rightarrow> (Inr None, s')
      | (Inl e, s') \<Rightarrow> (Inl (CoordStore e), s'))"

definition try_acquire ::
  "lease decoder \<Rightarrow> lease encoder \<Rightarrow> 's object_store \<Rightarrow> string \<Rightarrow> string \<Rightarrow> string \<Rightarrow>
     system_time \<Rightarrow> duration \<Rightarrow> 's \<Rightarrow> (coord_error, lease_guard option) result \<times> 's" where
  "try_acquire dec enc S key holder purpose now ttl s =
     (case acquire_read dec S key holder purpose now ttl s of
        (Inl e, s1) \<Rightarrow> (Inl e, s1)
      | (Inr None, s1) \<Rightarrow> (Inr None, s1)
      | (Inr (Some a), s1) \<Rightarrow> acquire_write enc S key a s1)"

text \<open>
  \<open>acquire\<close>: the clock readings of the attempts are the list of pairs (wall clock of the
  attempt, monotonic clock after it); it ends at the first reading past the deadline.
\<close>

fun acquire_loop ::
  "lease decoder \<Rightarrow> lease encoder \<Rightarrow> 's object_store \<Rightarrow> string \<Rightarrow> string \<Rightarrow> string \<Rightarrow> duration \<Rightarrow>
     int \<Rightarrow> (system_time \<times> int) list \<Rightarrow> 's \<Rightarrow> (coord_error, lease_guard option) result option \<times> 's" where
  "acquire_loop dec enc S key holder purpose ttl deadline [] s = (None, s)"
| "acquire_loop dec enc S key holder purpose ttl deadline ((wall, instant) # clocks) s =
     (case try_acquire dec enc S key holder purpose wall ttl s of
        (Inl e, s') \<Rightarrow> (Some (Inl e), s')
      | (Inr (Some g), s') \<Rightarrow> (Some (Inr (Some g)), s')
      | (Inr None, s') \<Rightarrow>
          if instant \<ge> deadline then (Some (Inr None), s')
          else acquire_loop dec enc S key holder purpose ttl deadline clocks s')"

section \<open>Interference\<close>

text \<open>A store shared with other clients: each operation is preceded by one action of theirs.\<close>

definition env_step :: "'s \<times> ('s \<Rightarrow> 's) list \<Rightarrow> 's \<times> ('s \<Rightarrow> 's) list" where
  "env_step st = (case st of (s, []) \<Rightarrow> (s, []) | (s, a # acts) \<Rightarrow> (a s, acts))"

definition lift_op :: "('s \<Rightarrow> 'r \<times> 's) \<Rightarrow> 's \<times> ('s \<Rightarrow> 's) list \<Rightarrow> 'r \<times> 's \<times> ('s \<Rightarrow> 's) list" where
  "lift_op op st = (let (s, acts) = env_step st; (r, s') = op s in (r, s', acts))"

definition interleaved :: "'s object_store \<Rightarrow> ('s \<times> ('s \<Rightarrow> 's) list) object_store" where
  "interleaved S =
     \<lparr>os_get = (\<lambda>k opts. lift_op (os_get S k opts)), os_head = (\<lambda>k. lift_op (os_head S k)),
      os_put = (\<lambda>k b opts. lift_op (os_put S k b opts)),
      os_delete = (\<lambda>k v. lift_op (os_delete S k v)),
      os_list = (\<lambda>p a. lift_op (os_list S p a)),
      os_list_prefixes = (\<lambda>p. lift_op (os_list_prefixes S p)),
      os_compose = (\<lambda>d srcs opts. lift_op (os_compose S d srcs opts))\<rparr>"

section \<open>Reads through the contract\<close>

text \<open>What a reader decodes from an object.\<close>

definition msg_at :: "'t decoder \<Rightarrow> (version \<times> bytes) option \<Rightarrow> (string, 't option) result" where
  "msg_at dec vd =
     (case vd of
        None \<Rightarrow> Inr None
      | Some (v, d) \<Rightarrow> (case dec d of Inl m \<Rightarrow> Inl m | Inr t \<Rightarrow> Inr (Some t)))"

lemma lift_op_eq:
  "lift_op op (s, acts) =
     (let (s1, acts1) = env_step (s, acts) in (fst (op s1), snd (op s1), acts1))"
  by (simp add: lift_op_def case_prod_unfold Let_def)

lemma get_bytes_interleaved: "get_bytes (interleaved S) k = lift_op (get_bytes S k)"
  by (rule ext)
    (auto simp: get_bytes_def interleaved_def lift_op_def case_prod_unfold Let_def
      split: sum.splits store_error.splits)

lemma get_message_interleaved: "get_message dec (interleaved S) k = lift_op (get_message dec S k)"
  by (rule ext)
    (auto simp: get_message_def get_bytes_interleaved lift_op_def case_prod_unfold Let_def
      split: sum.splits option.splits)

lemma put_bytes_interleaved: "put_bytes (interleaved S) k d m = lift_op (put_bytes S k d m)"
  by (rule ext) (simp add: put_bytes_def interleaved_def lift_op_def)

text \<open>Well-behaved actions of the environment.\<close>

definition env_ok :: "'s object_store \<Rightarrow> ('s \<Rightarrow> bool) \<Rightarrow> ('s \<Rightarrow> bool) \<Rightarrow> ('s \<Rightarrow> 's) list \<Rightarrow> bool" where
  "env_ok S I room acts \<longleftrightarrow> (\<forall>a \<in> set acts. \<forall>s. I s \<longrightarrow> evolves S room s (a s))"

lemma env_step_ok:
  assumes "env_ok S I room acts" "I s" "env_step (s, acts) = (s1, acts1)"
  shows "env_ok S I room acts1" "evolves S room s s1"
  using assms by (cases acts; auto simp: env_step_def env_ok_def intro: evolves.intros)+

text \<open>The state the other clients' actions lead to, and the actions one operation lets happen.\<close>

primrec env_run :: "('s \<Rightarrow> 's) list \<Rightarrow> 's \<Rightarrow> 's" where
  "env_run [] s = s"
| "env_run (a # acts) s = env_run acts (a s)"

lemma env_run_append: "env_run (xs @ ys) s = env_run ys (env_run xs s)"
  by (induction xs arbitrary: s) simp_all

lemma env_step_run:
  "env_step (s, acts) = (s1, acts1) \<Longrightarrow> \<exists>took. acts = took @ acts1 \<and> s1 = env_run took s"
  by (cases acts) (auto simp: env_step_def intro: exI [of _ "[]"] exI [of _ "[_]"])

context versioned_store begin

lemma get_message_view:
  "get_message dec S k s =
     (case view s k of
        None \<Rightarrow> Inr None
      | Some (v, d) \<Rightarrow>
          (case dec d of
             Inl m \<Rightarrow> Inl (CoordDecode m)
           | Inr t \<Rightarrow> Inr (Some (object_meta_of k (v, d), t))), s)"
  by (auto simp: get_message_def get_bytes_view split: option.splits sum.splits)

lemma get_message_Inr:
  assumes "get_message dec S k s = (Inr cur, s')"
  shows "s' = s" "msg_at dec (view s k) = Inr (map_option snd cur)"
    "map_option (\<lambda>(m, _). om_version m) cur = map_option fst (view s k)"
  using assms by (auto simp: get_message_view msg_at_def object_meta_of_def split: option.splits sum.splits)

lemma read_then_put:
  assumes "inv s" "get_message dec S k s = (Inr cur, s1)" "evolves S room s1 s2"
    and "put_bytes S k d (case cur of Some (meta, _) \<Rightarrow> Update (om_version meta) | None \<Rightarrow> Create) s2 = (Inr meta, s3)"
  shows "msg_at dec (view s2 k) = Inr (map_option snd cur)"
    "view s3 = (view s2)(k \<mapsto> (om_version meta, d))"
proof -
  note r = get_message_Inr [OF assms(2)] and w = put_bytes_Inr [OF assms(4)]
  show "view s3 = (view s2)(k \<mapsto> (om_version meta, d))" by (rule w)
  show "msg_at dec (view s2 k) = Inr (map_option snd cur)"
  proof (cases cur)
    case None
    then have "view s2 k = None" using w(1) by (cases "view s2 k") (auto simp: put_allowed_def)
    with None show ?thesis by (simp add: msg_at_def)
  next
    case (Some mt)
    then obtain v x where a: "view s k = Some (v, x)" "om_version (fst mt) = v"
      using r(3) by (cases "view s k") (auto simp: case_prod_unfold)
    obtain y where b: "view s2 k = Some (v, y)"
      using w(1) a Some by (cases "view s2 k") (auto simp: put_allowed_def case_prod_unfold)
    have "y = x" using token_identity [OF assms(3) _ _ b] assms(1) a(1) r(1) by simp
    with a b r(2) show ?thesis by simp
  qed
qed

lemma cas_update_loop_atomic:
  assumes "cas_update_loop dec enc (interleaved S) k n f att c (s, acts) = (r, c', s', acts')"
    and "inv s" "env_ok S inv room acts"
  shows "\<exists>took. acts = took @ acts' \<and>
    (case r of
      Inr (Some (meta, new)) \<Rightarrow>
        \<exists>c1 cur. msg_at dec (view (env_run took s) k) = Inr cur \<and> f c1 cur = (Inr (Some new), c') \<and>
          view s' = (view (env_run took s))(k \<mapsto> (om_version meta, enc new))
    | _ \<Rightarrow> s' = env_run took s)"
  using assms
proof (induction "n - att" arbitrary: att c s acts rule: less_induct)
  case less
  obtain s1 acts1 where e1: "env_step (s, acts) = (s1, acts1)" by fastforce
  note ok1 = env_step_ok [OF less.prems(3,2) e1]
  obtain a1 where a1: "acts = a1 @ acts1" "s1 = env_run a1 s" using env_step_run [OF e1] by blast
  have inv1: "inv s1" using evolves_keeps [OF ok1(2) less.prems(2)] by simp
  have rd: "get_message dec (interleaved S) k (s, acts) = (fst (get_message dec S k s1), s1, acts1)"
    by (simp add: get_message_interleaved lift_op_eq e1 get_message_view)
  show ?case
  proof (cases "fst (get_message dec S k s1)")
    case (Inl e)
    then have "r = Inl e" "s' = s1" "acts' = acts1" using less.prems(1) rd by (simp_all add: cas_update_loop.simps)
    then show ?thesis using a1 by auto
  next
    case (Inr cur)
    then have g: "get_message dec S k s1 = (Inr cur, s1)" by (simp add: get_message_view)
    obtain fr c1 where f: "f c (map_option snd cur) = (fr, c1)" by fastforce
    let ?mode = "case cur of Some (meta, _) \<Rightarrow> Update (om_version meta) | None \<Rightarrow> Create"
    show ?thesis
    proof (cases "\<exists>new. fr = Inr (Some new)")
      case False
      then have "acts' = acts1 \<and> s' = s1 \<and> (\<exists>e. r = Inl e \<or> r = Inr None)"
        using less.prems(1) rd Inr f by (auto simp: cas_update_loop.simps split: sum.splits option.splits)
      then show ?thesis using a1 by auto
    next
      case True
      then obtain new where new: "fr = Inr (Some new)" by blast
      obtain s2 acts2 where e2: "env_step (s1, acts1) = (s2, acts2)" by fastforce
      note ok2 = env_step_ok [OF ok1(1) inv1 e2]
      obtain a2 where a2: "acts1 = a2 @ acts2" "s2 = env_run a2 s1" using env_step_run [OF e2] by blast
      have a12: "acts = (a1 @ a2) @ acts2" "s2 = env_run (a1 @ a2) s" using a1 a2 by (simp_all add: env_run_append)
      have inv2: "inv s2" using evolves_keeps [OF ok2(2) inv1] by simp
      obtain w s3 where w: "put_bytes S k (enc new) ?mode s2 = (w, s3)" by fastforce
      then have wi: "put_bytes (interleaved S) k (enc new) ?mode (s1, acts1) = (w, s3, acts2)"
        by (simp add: put_bytes_interleaved lift_op_eq e2)
      show ?thesis
      proof (cases w)
        case (Inr meta)
        have "r = Inr (Some (meta, new))" "c' = c1" "s' = s3" "acts' = acts2"
          using less.prems(1) rd \<open>fst _ = Inr cur\<close> f new wi Inr by (simp_all add: cas_update_loop.simps)
        then show ?thesis
          using read_then_put [OF inv1 g ok2(2) w [unfolded Inr]] f new a12 by (intro exI [of _ "a1 @ a2"]) auto
      next
        case (Inl e)
        from w Inl obtain k' where s3: "s3 = s2" "e = PreconditionFailed k' (map_option fst (view s2 k))"
          using put_bytes_Inl [of k "enc new" ?mode s2 e s3] by metis
        show ?thesis
        proof (cases "att + 1 > n")
          case True
          then have "s' = s2" "acts' = acts2" "\<exists>e. r = Inl e"
            using less.prems(1) rd \<open>fst _ = Inr cur\<close> f new wi Inl s3 by (auto simp: cas_update_loop.simps)
          then show ?thesis using a12 by auto
        next
          case False
          then have go: "cas_update_loop dec enc (interleaved S) k n f (att + 1) c1 (s2, acts2) = (r, c', s', acts')"
            using less.prems(1) rd \<open>fst _ = Inr cur\<close> f new wi Inl s3
            by (simp add: cas_update_loop.simps [of _ _ _ _ _ _ att])
          have "n - (att + 1) < n - att" using False by simp
          from less.hyps [OF this go inv2 ok2(1)] obtain a3 where a3: "acts2 = a3 @ acts'"
            "case r of Inr (Some (meta, new)) \<Rightarrow>
                \<exists>c1 cur. msg_at dec (view (env_run a3 s2) k) = Inr cur \<and> f c1 cur = (Inr (Some new), c') \<and>
                  view s' = (view (env_run a3 s2))(k \<mapsto> (om_version meta, enc new))
              | _ \<Rightarrow> s' = env_run a3 s2" by blast
          have run: "env_run a3 s2 = env_run ((a1 @ a2) @ a3) s" using a12(2) by (simp add: env_run_append)
          show ?thesis
            by (intro exI [of _ "(a1 @ a2) @ a3"] conjI)
              (use a3(1) a12(1) in simp, rule a3(2) [unfolded run])
        qed
      qed
    qed
  qed
qed

end

section \<open>Leases through the contract\<close>

text \<open>
  The world around one lease key: the store, the true time, a clock offset per process, the writes
  processes have decided on but not made yet, and the guards that exist. Processes are numbered. A
  step is one operation on the store: the read of \<open>try_acquire\<close>, its conditional write, a heartbeat's
  write, a release's deletion. \<open>now\<close> is read before the store is touched, so a reading may be older
  than the step but never ahead of the process's clock; the write of an acquisition comes any time
  after its read. A read that finds the lease held, or fails, changes nothing and is no step of its own.
\<close>

record 's lease_world =
  lw_store :: 's
  lw_time :: int
  lw_pending :: "nat \<Rightarrow> lease_attempt option"
  lw_guards :: "nat \<Rightarrow> lease_guard option"

text \<open>
  A reading at or after the Unix epoch, not ahead of the process's clock; \<open>SystemTime + Duration\<close>
  panics when the seconds leave 64 bits.
\<close>

definition clock_reading :: "system_time \<Rightarrow> duration \<Rightarrow> int \<Rightarrow> bool" where
  "clock_reading now ttl clock \<longleftrightarrow>
     0 \<le> now \<and> now \<le> clock \<and> 0 \<le> ttl \<and> now + ttl < 2 ^ 63 * nanos_per_sec"

inductive lease_step ::
  "lease decoder \<Rightarrow> lease encoder \<Rightarrow> 's object_store \<Rightarrow> ('s \<Rightarrow> bool) \<Rightarrow> string \<Rightarrow> (nat \<Rightarrow> int) \<Rightarrow>
     's lease_world \<Rightarrow> 's lease_world \<Rightarrow> bool"
  for dec enc S room key off where
  tick: "t \<le> t' \<Longrightarrow>
    lease_step dec enc S room key off
      \<lparr>lw_store = s, lw_time = t, lw_pending = P, lw_guards = G\<rparr>
      \<lparr>lw_store = s, lw_time = t', lw_pending = P, lw_guards = G\<rparr>"
| acq_read: "G i = None \<Longrightarrow> P i = None \<Longrightarrow> clock_reading now ttl (t + off i) \<Longrightarrow>
    acquire_read dec S key holder purpose now ttl s = (Inr (Some a), s') \<Longrightarrow>
    lease_step dec enc S room key off
      \<lparr>lw_store = s, lw_time = t, lw_pending = P, lw_guards = G\<rparr>
      \<lparr>lw_store = s', lw_time = t, lw_pending = P(i \<mapsto> a), lw_guards = G\<rparr>"
| acq_write: "P i = Some a \<Longrightarrow> room s \<Longrightarrow> acquire_write enc S key a s = (r, s') \<Longrightarrow>
    lease_step dec enc S room key off
      \<lparr>lw_store = s, lw_time = t, lw_pending = P, lw_guards = G\<rparr>
      \<lparr>lw_store = s', lw_time = t, lw_pending = P(i := None), lw_guards = G(i := (case r of Inr g \<Rightarrow> g | Inl _ \<Rightarrow> None))\<rparr>"
| beat: "G i = Some g \<Longrightarrow> clock_reading now ttl (t + off i) \<Longrightarrow> room s \<Longrightarrow>
    heartbeat_round enc S now ttl g s = (b, g', s') \<Longrightarrow>
    lease_step dec enc S room key off
      \<lparr>lw_store = s, lw_time = t, lw_pending = P, lw_guards = G\<rparr>
      \<lparr>lw_store = s', lw_time = t, lw_pending = P, lw_guards = G(i \<mapsto> g')\<rparr>"
| release: "G i = Some g \<Longrightarrow> release S g s = (r, g', s') \<Longrightarrow>
    lease_step dec enc S room key off
      \<lparr>lw_store = s, lw_time = t, lw_pending = P, lw_guards = G\<rparr>
      \<lparr>lw_store = s', lw_time = t, lw_pending = P, lw_guards = G(i := None)\<rparr>"
| other: "k \<noteq> key \<Longrightarrow> room s \<Longrightarrow> put_bytes S k d m s = (rm, s') \<Longrightarrow>
    lease_step dec enc S room key off
      \<lparr>lw_store = s, lw_time = t, lw_pending = P, lw_guards = G\<rparr>
      \<lparr>lw_store = s', lw_time = t, lw_pending = P, lw_guards = G\<rparr>"
| crash: "lease_step dec enc S room key off
      \<lparr>lw_store = s, lw_time = t, lw_pending = P, lw_guards = G\<rparr>
      \<lparr>lw_store = s, lw_time = t, lw_pending = P(i := None), lw_guards = G(i := None)\<rparr>"

inductive lease_reach ::
  "lease decoder \<Rightarrow> lease encoder \<Rightarrow> 's object_store \<Rightarrow> ('s \<Rightarrow> bool) \<Rightarrow> string \<Rightarrow> (nat \<Rightarrow> int) \<Rightarrow>
     's lease_world \<Rightarrow> 's lease_world \<Rightarrow> bool"
  for dec enc S room key off w0 where
  start: "lease_reach dec enc S room key off w0 w0"
| step: "lease_reach dec enc S room key off w0 w \<Longrightarrow> lease_step dec enc S room key off w w' \<Longrightarrow>
    lease_reach dec enc S room key off w0 w'"

text \<open>A process believes in its lease while its own clock is before the expiry it wrote.\<close>

definition believes :: "(nat \<Rightarrow> int) \<Rightarrow> 's lease_world \<Rightarrow> nat \<Rightarrow> bool" where
  "believes off w i \<longleftrightarrow>
     (case lw_guards w i of
        None \<Rightarrow> False
      | Some g \<Rightarrow> \<not> lg_released g \<and> lw_time w + off i < lg_expires_at g)"

text \<open>
  The invariant: a guard whose version is still the object's agrees with the stored expiry, and
  a guard whose version is not has run out by its own process's clock.
\<close>

definition guard_ok ::
  "lease decoder \<Rightarrow> (version \<times> bytes) option \<Rightarrow> system_time \<Rightarrow> lease_guard \<Rightarrow> bool" where
  "guard_ok dec obj clock g \<longleftrightarrow>
     (if map_option fst obj = Some (lg_version g)
      then \<exists>l. dec (snd (the obj)) = Inr l \<and> lease_expiry l = lg_expires_at g
      else lg_expires_at g \<le> clock)"

definition guards_ok ::
  "lease decoder \<Rightarrow> (version \<Rightarrow> bool) \<Rightarrow> string \<Rightarrow> (nat \<Rightarrow> int) \<Rightarrow> (version \<times> bytes) option \<Rightarrow> int \<Rightarrow>
     (nat \<Rightarrow> lease_guard option) \<Rightarrow> bool" where
  "guards_ok dec used key off obj t G \<longleftrightarrow>
     (\<forall>i g. G i = Some g \<longrightarrow> lg_key g = key \<and> used (lg_version g) \<and> guard_ok dec obj (t + off i) g) \<and>
     (\<forall>i j g h. i \<noteq> j \<longrightarrow> G i = Some g \<longrightarrow> G j = Some h \<longrightarrow> lg_version g \<noteq> lg_version h)"

lemma guards_ok_used_mono:
  "guards_ok dec used key off obj t G \<Longrightarrow> (\<And>v. used v \<Longrightarrow> used' v) \<Longrightarrow> guards_ok dec used' key off obj t G"
  by (auto simp: guards_ok_def)

lemma guard_ok_mono: "guard_ok dec obj c g \<Longrightarrow> c \<le> c' \<Longrightarrow> guard_ok dec obj c' g"
  by (auto simp: guard_ok_def split: if_splits)

lemma guards_ok_time:
  assumes "guards_ok dec used key off obj t G" "t \<le> t'"
  shows "guards_ok dec used key off obj t' G"
proof -
  have "guard_ok dec obj (t' + off i) g" if "guard_ok dec obj (t + off i) g" for i g
    using that by (rule guard_ok_mono) (use assms(2) in simp)
  with assms(1) show ?thesis unfolding guards_ok_def by blast
qed

lemma guards_ok_forget:
  "guards_ok dec used key off obj t G \<Longrightarrow> guards_ok dec used key off obj t (G(i := None))"
  by (simp add: guards_ok_def)

text \<open>The object goes away under process \<open>i\<close>'s version.\<close>

lemma guards_ok_delete:
  assumes "guards_ok dec used key off obj t G" "G i = Some g"
    "obj = Some (lg_version g, d)"
  shows "guards_ok dec used key off None t (G(i := None))"
proof -
  have "lg_expires_at h \<le> t + off j" if "j \<noteq> i" "G j = Some h" for j h
  proof -
    have "lg_version h \<noteq> lg_version g" using assms(1,2) that unfolding guards_ok_def by metis
    moreover have "guard_ok dec obj (t + off j) h" using assms(1) that unfolding guards_ok_def by blast
    ultimately show ?thesis using assms(3) by (simp add: guard_ok_def)
  qed
  with assms(1) show ?thesis
    by (auto simp: guards_ok_def guard_ok_def)
qed

text \<open>Process \<open>i\<close> writes a lease at an unused version over an object nobody believes in.\<close>

lemma guards_ok_write:
  assumes "guards_ok dec used key off obj t G" "\<not> used v" "used' v" "\<And>v. used v \<Longrightarrow> used' v"
    and g: "lg_key g = key" "lg_version g = v" "dec d = Inr l" "lease_expiry l = lg_expires_at g"
    and others: "\<And>j h. j \<noteq> i \<Longrightarrow> G j = Some h \<Longrightarrow> map_option fst obj = Some (lg_version h) \<Longrightarrow>
      lg_expires_at h \<le> t + off j"
  shows "guards_ok dec used' key off (Some (v, d)) t (G(i \<mapsto> g))"
proof -
  have old: "used (lg_version h) \<and> lg_key h = key \<and> lg_expires_at h \<le> t + off j"
    if "j \<noteq> i" "G j = Some h" for j h
  proof -
    have "used (lg_version h) \<and> lg_key h = key \<and> guard_ok dec obj (t + off j) h"
      using assms(1) that(2) unfolding guards_ok_def by blast
    then show ?thesis using others [OF that] by (auto simp: guard_ok_def split: if_splits)
  qed
  have new: "guard_ok dec (Some (v, d)) (t + off i) g" using g by (simp add: guard_ok_def)
  have stale: "guard_ok dec (Some (v, d)) (t + off j) h" if "j \<noteq> i" "G j = Some h" for j h
    using old [OF that] assms(2) by (auto simp: guard_ok_def)
  have dist: "lg_version h \<noteq> v" if "j \<noteq> i" "G j = Some h" for j h
    using old [OF that] assms(2) by auto
  have distinct: "lg_version h \<noteq> lg_version h'" if "j \<noteq> j'" "G j = Some h" "G j' = Some h'" for j j' h h'
    using assms(1) that unfolding guards_ok_def by blast
  show ?thesis
    unfolding guards_ok_def
  proof (intro conjI allI impI, goal_cases)
    case (1 j h)
    then show ?case using old g by (cases "j = i") auto
  next
    case (2 j h)
    then show ?case using old g assms(3,4) by (cases "j = i") auto
  next
    case (3 j h)
    then show ?case using new stale by (cases "j = i") auto
  next
    case (4 j j' h h')
    then show ?case using dist [of j h] dist [of j' h'] distinct [of j j' h h'] g
      by (cases "j = i"; cases "j' = i") auto
  qed
qed

lemma guards_ok_relabel:
  assumes "guards_ok dec used key off obj t G" "G i = Some g"
    and "lg_key g' = lg_key g" "lg_version g' = lg_version g" "lg_expires_at g' = lg_expires_at g"
  shows "guards_ok dec used key off obj t (G(i \<mapsto> g'))"
proof -
  have "guard_ok dec obj c g' = guard_ok dec obj c g" for c
    using assms(4,5) by (simp add: guard_ok_def)
  then show ?thesis
    using assms unfolding guards_ok_def by (auto simp del: not_None_eq)
qed

lemma lease_expiry_make: "clock_reading now ttl c \<Longrightarrow> lease_expiry (make_lease h p now ttl e) = now + ttl"
  by (simp add: lease_expiry_def make_lease_def clock_reading_def to_from_system)

context versioned_store begin

text \<open>
  A decided write rests on what the key held at some earlier state: the one its read saw.
\<close>

abbreviation attempt_ok where
  "attempt_ok dec key clock s a \<equiv>
     clock_reading (la_now a) (la_ttl a) clock \<and>
     (\<exists>s0 h p. inv s0 \<and> evolves S room s0 s \<and>
        acquire_read dec S key h p (la_now a) (la_ttl a) s0 = (Inr (Some a), s0))"

abbreviation lease_world_ok where
  "lease_world_ok dec key off w \<equiv> inv (lw_store w) \<and>
     (\<forall>i a. lw_pending w i = Some a \<longrightarrow> attempt_ok dec key (lw_time w + off i) (lw_store w) a) \<and>
     guards_ok dec (\<lambda>v. \<not> fresh (lw_store w) v) key off (view (lw_store w) key) (lw_time w) (lw_guards w)"

text \<open>A conditional write of a lease by process \<open>i\<close>, whoever wrote the object before.\<close>

lemma lease_write_ok:
  assumes rt: "\<forall>l. dec (enc l) = Inr l" and ok: "inv s"
      "guards_ok dec (\<lambda>v. \<not> fresh s v) key off (view s key) t G" and room: "room s"
    and put: "put_bytes S key (enc (make_lease h p now ttl e)) m s = (Inr meta, s')"
    and ttl: "clock_reading now ttl clock"
    and g: "lg_key g = key" "lg_version g = om_version meta" "lg_expires_at g = now + ttl"
    and others: "\<And>j h. j \<noteq> i \<Longrightarrow> G j = Some h \<Longrightarrow>
      map_option fst (view s key) = Some (lg_version h) \<Longrightarrow> lg_expires_at h \<le> t + off j"
  shows "inv s' \<and> guards_ok dec (\<lambda>v. \<not> fresh s' v) key off (view s' key) t (G(i \<mapsto> g))"
proof
  note w = put_bytes_Inr [OF put] and ev = put_bytes_evolves [OF ok(1) room put]
  show "inv s'" by (rule ev)
  have v: "view s' key = Some (om_version meta, enc (make_lease h p now ttl e))" by (simp add: w(3))
  have mono: "\<not> fresh s' v" if "\<not> fresh s v" for v
    using evolves_keeps [OF ev(2) ok(1)] that by blast
  have fr: "fresh s (om_version meta)" "\<not> fresh s' (om_version meta)" using w(4) ok(1) room by blast+
  show "guards_ok dec (\<lambda>v. \<not> fresh s' v) key off (view s' key) t (G(i \<mapsto> g))"
    unfolding v
    by (rule guards_ok_write [OF ok(2) _ _ mono, where v = "om_version meta" and l = "make_lease h p now ttl e"])
      (use fr g rt ttl others in \<open>auto simp: lease_expiry_make [OF ttl]\<close>)
qed

lemma guards_ok_same_store:
  assumes "guards_ok dec (\<lambda>v. \<not> fresh s v) key off (view s key) t G" "evolves S room s s'" "inv s"
    "view s' key = view s key"
  shows "guards_ok dec (\<lambda>v. \<not> fresh s' v) key off (view s' key) t G"
  using assms evolves_keeps [OF assms(2,3)] by (auto intro: guards_ok_used_mono)

lemma lease_take_ok:
  assumes rt: "\<forall>l. dec (enc l) = Inr l" and skew: "\<forall>i j. off i - off j \<le> LEASE_SKEW_TOLERANCE"
    and ok: "inv s" "guards_ok dec (\<lambda>v. \<not> fresh s v) key off (view s key) t G"
    and room: "room s" and clk: "clock_reading now ttl (t + off i)"
    and vd: "view s key = Some (v, d)" and l: "dec d = Inr l"
    and late: "now \<ge> lease_expiry l + LEASE_SKEW_TOLERANCE"
    and put: "put_bytes S key (enc (make_lease holder purpose now ttl e)) m s = (Inr meta, s')"
  shows "inv s' \<and> guards_ok dec (\<lambda>v. \<not> fresh s' v) key off (view s' key) t
    (G(i \<mapsto> lease_guard_new key holder purpose (om_version meta) now ttl e))"
proof (rule lease_write_ok [OF rt ok room put clk])
  fix j h
  assume h: "G j = Some h" "map_option fst (view s key) = Some (lg_version h)"
  have "guard_ok dec (view s key) (t + off j) h" using ok(2) h(1) unfolding guards_ok_def by blast
  then have "lg_expires_at h = lease_expiry l" using h(2) vd l by (auto simp: guard_ok_def)
  moreover have "off i - off j \<le> LEASE_SKEW_TOLERANCE" using skew by blast
  ultimately show "lg_expires_at h \<le> t + off j" using late clk unfolding clock_reading_def by linarith
qed (simp_all add: lease_guard_new_def)

text \<open>What a read decided, and why its write, if accepted, finds the object the read saw.\<close>

lemma acquire_read_view:
  "acquire_read dec S key h p now ttl s = (Inr (Some a), s') \<Longrightarrow>
     s' = s \<and> la_now a = now \<and> la_ttl a = ttl \<and>
     (case view s key of
        None \<Rightarrow> la_mode a = Create
      | Some (v, d) \<Rightarrow> la_mode a = Update v \<and>
          (\<exists>l. dec d = Inr l \<and> now \<ge> lease_expiry l + LEASE_SKEW_TOLERANCE))"
  by (auto simp: acquire_read_def get_message_view object_meta_of_def
      split: option.splits sum.splits if_splits)

lemma attempt_current:
  assumes "attempt_ok dec key clock s a" "put_allowed (la_mode a) (map_option fst (view s key))"
  shows "view s key = None \<or>
    (\<exists>v d l. view s key = Some (v, d) \<and> dec d = Inr l \<and> la_now a \<ge> lease_expiry l + LEASE_SKEW_TOLERANCE)"
proof -
  obtain s0 h p where r: "inv s0" "evolves S room s0 s"
    "acquire_read dec S key h p (la_now a) (la_ttl a) s0 = (Inr (Some a), s0)" using assms(1) by blast
  note v = acquire_read_view [OF r(3)]
  show ?thesis
  proof (cases "view s0 key")
    case None
    then show ?thesis using v assms(2) by (cases "view s key") (auto simp: put_allowed_def)
  next
    case (Some vd)
    obtain x d where vd: "view s0 key = Some (x, d)" using Some by (cases vd) simp
    with v assms(2) obtain d' where d': "view s key = Some (x, d')"
      by (cases "view s key") (auto simp: put_allowed_def)
    have "d' = d" using token_identity [OF r(2,1) vd d'] by simp
    then show ?thesis using v vd d' by auto
  qed
qed

lemma acquire_write_Inr:
  assumes "acquire_write enc S key a s = (r, s')"
  shows "(s' = s \<and> (\<forall>g. r \<noteq> Inr (Some g))) \<or>
    (\<exists>meta. put_bytes S key (enc (make_lease (la_holder a) (la_purpose a) (la_now a) (la_ttl a) (la_epoch a)))
        (la_mode a) s = (Inr meta, s') \<and>
      r = Inr (Some (lease_guard_new key (la_holder a) (la_purpose a) (om_version meta) (la_now a) (la_ttl a)
        (la_epoch a))))"
  using assms put_bytes_Inl [of key _ "la_mode a" s]
  by (auto simp: acquire_write_def split: prod.splits sum.splits store_error.splits)

lemma lease_acquire_ok:
  assumes rt: "\<forall>l. dec (enc l) = Inr l" and skew: "\<forall>i j. off i - off j \<le> LEASE_SKEW_TOLERANCE"
    and ok: "inv s" "guards_ok dec (\<lambda>v. \<not> fresh s v) key off (view s key) t G"
    and room: "room s" and att: "attempt_ok dec key (t + off i) s a"
    and w: "acquire_write enc S key a s = (r, s')"
  shows "inv s' \<and> guards_ok dec (\<lambda>v. \<not> fresh s' v) key off (view s' key) t
    (G(i := (case r of Inr g \<Rightarrow> g | Inl _ \<Rightarrow> None)))"
  using acquire_write_Inr [OF w]
proof (elim disjE exE conjE)
  assume "s' = s" "\<forall>g. r \<noteq> Inr (Some g)"
  then have "(case r of Inr g \<Rightarrow> g | Inl _ \<Rightarrow> None) = None" by (auto split: sum.splits)
  with \<open>s' = s\<close> show ?thesis using ok by (simp add: guards_ok_forget)
next
  fix meta
  assume p: "put_bytes S key (enc (make_lease (la_holder a) (la_purpose a) (la_now a) (la_ttl a) (la_epoch a)))
        (la_mode a) s = (Inr meta, s')"
    and r: "r = Inr (Some (lease_guard_new key (la_holder a) (la_purpose a) (om_version meta) (la_now a)
        (la_ttl a) (la_epoch a)))"
  have clk: "clock_reading (la_now a) (la_ttl a) (t + off i)" using att by blast
  from attempt_current [OF att put_bytes_Inr(1) [OF p]]
  show ?thesis
  proof (elim disjE exE conjE)
    assume "view s key = None"
    then show ?thesis
      using lease_write_ok [OF rt ok room p clk, of "lease_guard_new key (la_holder a) (la_purpose a) (om_version meta)
        (la_now a) (la_ttl a) (la_epoch a)" i] r by (simp add: lease_guard_new_def)
  next
    fix v d l
    assume "view s key = Some (v, d)" "dec d = Inr l" "la_now a \<ge> lease_expiry l + LEASE_SKEW_TOLERANCE"
    then show ?thesis using lease_take_ok [OF rt skew ok room clk _ _ _ p] r by simp
  qed
qed

lemma lease_beat_ok:
  assumes rt: "\<forall>l. dec (enc l) = Inr l"
    and ok: "inv s" "guards_ok dec (\<lambda>v. \<not> fresh s v) key off (view s key) t G"
    and room: "room s" and clk: "clock_reading now ttl (t + off i)" and gi: "G i = Some g"
    and beat: "heartbeat_round enc S now ttl g s = (b, g', s')"
  shows "inv s' \<and> guards_ok dec (\<lambda>v. \<not> fresh s' v) key off (view s' key) t (G(i \<mapsto> g'))"
proof (cases "lg_released g")
  case True
  then have "g' = g" "s' = s" using beat by (simp_all add: heartbeat_round_def)
  then show ?thesis using ok gi by (simp add: fun_upd_idem)
next
  case False
  have key: "lg_key g = key" using ok(2) gi unfolding guards_ok_def by blast
  obtain r s2 where p: "put_bytes S key (enc (make_lease (lg_holder g) (lg_purpose g) now ttl (lg_epoch g + 1)))
      (Update (lg_version g)) s = (r, s2)" by fastforce
  show ?thesis
  proof (cases r)
    case (Inl e)
    with p obtain k' where "s2 = s" "e = PreconditionFailed k' (map_option fst (view s key))"
      using put_bytes_Inl by metis
    then have "s' = s" "g' = g \<lparr>lg_epoch := lg_epoch g + 1, lg_released := True\<rparr>"
      using beat False p Inl key by (auto simp: heartbeat_round_def heartbeat_def Let_def)
    then show ?thesis using guards_ok_relabel [OF ok(2) gi, of g'] ok(1) by simp
  next
    case (Inr meta)
    then have g': "s' = s2" "g' = g \<lparr>lg_epoch := lg_epoch g + 1, lg_version := om_version meta,
        lg_expires_at := now + ttl\<rparr>" using beat False p key
      by (auto simp: heartbeat_round_def heartbeat_def Let_def)
    have cur: "map_option fst (view s key) = Some (lg_version g)"
      using put_bytes_Inr(1) [OF p [unfolded Inr]] by (cases "view s key") (auto simp: put_allowed_def)
    have "False" if "j \<noteq> i" "G j = Some h'" "map_option fst (view s key) = Some (lg_version h')" for j h'
      using ok(2) that gi cur unfolding guards_ok_def by (metis option.inject)
    then show ?thesis
      using lease_write_ok [OF rt ok room p [unfolded Inr] clk, of g' i] key g' by auto
  qed
qed

lemma lease_release_ok:
  assumes ok: "inv s" "guards_ok dec (\<lambda>v. \<not> fresh s v) key off (view s key) t G"
    and gi: "G i = Some g" and rel: "release S g s = (r, g', s')"
  shows "inv s' \<and> guards_ok dec (\<lambda>v. \<not> fresh s' v) key off (view s' key) t (G(i := None))"
proof (cases "s' = s")
  case True
  then show ?thesis using ok by (simp add: guards_ok_forget)
next
  case False
  have key: "lg_key g = key" using ok(2) gi unfolding guards_ok_def by blast
  have d: "os_delete S key (Some (lg_version g)) s = (fst (os_delete S key (Some (lg_version g)) s), s')"
    using rel key by (auto simp: release_def Let_def split: prod.splits sum.splits store_error.splits)
  obtain x where x: "view s key = Some (lg_version g, x)"
    using False d delete_missing [of s key "lg_version g"] delete_refused [of s key _ _ "lg_version g"]
    by (cases "view s key") (metis old.prod.exhaust prod.inject, metis old.prod.exhaust prod.inject)
  have v: "view s' = (view s)(key := None)"
    using delete_accepted [OF x, of "Some (lg_version g)"] d by (metis prod.inject)
  have ev: "inv s'" "evolves S room s s'"
    using delete_change [OF ok(1) d] d by (auto intro: evolves.intros)
  have "guards_ok dec (\<lambda>v. \<not> fresh s v) key off None t (G(i := None))"
    using guards_ok_delete [OF ok(2) gi x] .
  then show ?thesis using v ev evolves_keeps [OF ev(2) ok(1)] by (auto intro: guards_ok_used_mono)
qed

text \<open>Every step changes the store through its operations, and clocks only advance.\<close>

lemma lease_step_evolves:
  assumes "lease_step dec enc S room key off w w'" "inv (lw_store w)"
  shows "evolves S room (lw_store w) (lw_store w')" "lw_time w \<le> lw_time w'"
proof -
  have hb: "evolves S room s s'" if "heartbeat_round enc S now ttl g s = (b, g', s')" "room s" "inv s" for s now ttl g b g' s'
    using that put_bytes_evolves [OF that(3,2)]
    by (auto simp: heartbeat_round_def heartbeat_def Let_def evolves_refl
        split: if_splits prod.splits sum.splits store_error.splits coord_error.splits)
  have aw: "evolves S room s s'" if "acquire_write enc S key a s = (r, s')" "room s" "inv s" for s a r s'
    using acquire_write_Inr [OF that(1)] put_bytes_evolves [OF that(3,2)] by (auto simp: evolves_refl)
  have rl: "evolves S room s s'" if "release S g s = (r, g', s')" for s g r g' s'
    using that by (auto simp: release_def Let_def intro: evolves_delete [OF evolves_refl]
        split: prod.splits sum.splits store_error.splits)
  show "evolves S room (lw_store w) (lw_store w')"
    using assms by (cases rule: lease_step.cases)
      (auto simp: evolves_refl dest: hb aw rl acquire_read_view intro: put_bytes_evolves)
  show "lw_time w \<le> lw_time w'" using assms(1) by (cases rule: lease_step.cases) auto
qed

lemma attempt_ok_later:
  assumes "attempt_ok dec key c s a" "evolves S room s s'" "c \<le> c'"
  shows "attempt_ok dec key c' s' a"
proof -
  have "clock_reading (la_now a) (la_ttl a) c'" using assms(1,3) by (auto simp: clock_reading_def)
  moreover obtain s0 h p where "inv s0" "evolves S room s0 s"
    "acquire_read dec S key h p (la_now a) (la_ttl a) s0 = (Inr (Some a), s0)" using assms(1) by blast
  ultimately show ?thesis using evolves_trans [OF _ assms(2)] by blast
qed

lemma lease_step_pending:
  assumes "lease_step dec enc S room key off w w'" "lw_pending w' i = Some a"
  shows "lw_pending w i = Some a \<or>
    (clock_reading (la_now a) (la_ttl a) (lw_time w + off i) \<and> lw_store w' = lw_store w \<and>
     (\<exists>h p. acquire_read dec S key h p (la_now a) (la_ttl a) (lw_store w) = (Inr (Some a), lw_store w)))"
  using assms
proof (cases rule: lease_step.cases)
  case (acq_read G j P now ttl t holder purpose s b s')
  then show ?thesis using assms(2) acquire_read_view [OF acq_read(6)] by (auto split: if_splits)
qed (use assms(2) in \<open>auto split: if_splits\<close>)

lemma lease_step_ok:
  assumes rt: "\<forall>l. dec (enc l) = Inr l" and skew: "\<forall>i j. off i - off j \<le> LEASE_SKEW_TOLERANCE"
    and st: "lease_step dec enc S room key off w w'" and ok: "lease_world_ok dec key off w"
  shows "lease_world_ok dec key off w'"
proof (intro conjI allI impI)
  fix i a
  assume a: "lw_pending w' i = Some a"
  note ev = lease_step_evolves [OF st] ok
  from lease_step_pending [OF st a] show "clock_reading (la_now a) (la_ttl a) (lw_time w' + off i)"
    using ok ev(2) by (auto simp: clock_reading_def) fastforce+
  from lease_step_pending [OF st a]
  show "\<exists>s0 h p. inv s0 \<and> evolves S room s0 (lw_store w') \<and>
      acquire_read dec S key h p (la_now a) (la_ttl a) s0 = (Inr (Some a), s0)"
    using ok ev(1) by (metis evolves_trans evolves_refl)
next
  show "inv (lw_store w')" using evolves_keeps [OF lease_step_evolves(1) [OF st]] ok by blast
  show "guards_ok dec (\<lambda>v. \<not> fresh (lw_store w') v) key off (view (lw_store w') key) (lw_time w') (lw_guards w')"
    using st
  proof (cases rule: lease_step.cases)
    case (tick t t' s P G)
    then show ?thesis using ok by (auto intro: guards_ok_time)
  next
    case (acq_read G i P now ttl t holder purpose s a s')
    then show ?thesis using ok acquire_read_view [OF acq_read(6)] by auto
  next
    case (acq_write P i a s r s' t G)
    then show ?thesis using lease_acquire_ok [OF rt skew, of s key t G a i r s'] ok by simp
  next
    case (beat G i g now ttl t s b g' s' P)
    then show ?thesis using lease_beat_ok [OF rt, of s key off t G now ttl i] ok by auto
  next
    case (release G i g s r g' s' t P)
    then show ?thesis using lease_release_ok [of s dec key off t G i] ok by auto
  next
    case (other k s d m rm s' t P G)
    have ok': "inv s" "guards_ok dec (\<lambda>v. \<not> fresh s v) key off (view s key) t G"
      using ok other by simp_all
    have "view s' key = view s key"
      using other(3,5) put_bytes_Inl [of k d m s _ s'] put_bytes_Inr(3) [of k d m s _ s']
      by (cases rm) auto
    then show ?thesis
      using guards_ok_same_store [OF ok'(2) _ ok'(1)] put_bytes_evolves [OF ok'(1) other(4,5)] other by simp
  next
    case (crash s t P G i)
    then show ?thesis using ok by (simp add: guards_ok_forget)
  qed
qed

lemma lease_reach_ok:
  assumes "\<forall>l. dec (enc l) = Inr l" "\<forall>i j. off i - off j \<le> LEASE_SKEW_TOLERANCE"
    and "lease_reach dec enc S room key off w0 w" "inv (lw_store w0)" "lw_guards w0 = (\<lambda>_. None)"
      "lw_pending w0 = (\<lambda>_. None)"
  shows "lease_world_ok dec key off w"
  using assms(3)
proof induction
  case start
  show ?case using assms(4-6) by (simp add: guards_ok_def)
next
  case (step w w')
  then show ?case using lease_step_ok [OF assms(1,2)] by blast
qed

lemma lease_exclusive:
  assumes "\<forall>l. dec (enc l) = Inr l" "\<forall>i j. off i - off j \<le> LEASE_SKEW_TOLERANCE"
    and "lease_reach dec enc S room key off w0 w" "inv (lw_store w0)" "lw_guards w0 = (\<lambda>_. None)"
      "lw_pending w0 = (\<lambda>_. None)"
    and "believes off w i" "believes off w j"
  shows "i = j"
proof (rule ccontr)
  assume "i \<noteq> j"
  from assms(7,8) obtain g h where g: "lw_guards w i = Some g" "lw_time w + off i < lg_expires_at g"
    and h: "lw_guards w j = Some h" "lw_time w + off j < lg_expires_at h"
    by (auto simp: believes_def split: option.splits)
  have ok: "guards_ok dec (\<lambda>v. \<not> fresh (lw_store w) v) key off (view (lw_store w) key) (lw_time w) (lw_guards w)"
    using lease_reach_ok [OF assms(1-6)] by simp
  have "map_option fst (view (lw_store w) key) = Some (lg_version x)"
    if "lw_guards w n = Some x" "lw_time w + off n < lg_expires_at x" for n x
    using ok that unfolding guards_ok_def guard_ok_def by (metis not_le)
  from this [OF g] this [OF h] have "lg_version g = lg_version h" by simp
  with ok g(1) h(1) \<open>i \<noteq> j\<close> show False unfolding guards_ok_def by blast
qed

end

section \<open>Concrete runs\<close>

text \<open>A codec that exists for every countable message type.\<close>

definition enc_countable :: "'a::countable \<Rightarrow> bytes" where
  "enc_countable x = show_nat (to_nat x)"

definition dec_countable :: "bytes \<Rightarrow> 'a::countable" where
  "dec_countable d = from_nat (digits_val 10 d)"

lemma dec_enc_countable [simp]: "dec_countable (enc_countable x) = x"
  by (simp add: dec_countable_def enc_countable_def show_nat_def digits_val_digits)

definition ts_tuple :: "timestamp \<Rightarrow> int \<times> int" where
  "ts_tuple t = (ts_seconds t, ts_nanos t)"

definition ts_untuple :: "int \<times> int \<Rightarrow> timestamp" where
  "ts_untuple p = \<lparr>ts_seconds = fst p, ts_nanos = snd p\<rparr>"

lemma ts_untuple_tuple [simp]: "ts_untuple (ts_tuple t) = t"
  by (simp add: ts_tuple_def ts_untuple_def)

definition enc_lease :: "lease \<Rightarrow> bytes" where
  "enc_lease l = enc_countable (ls_holder l, ls_purpose l, map_option ts_tuple (ls_acquired_at l),
     map_option ts_tuple (ls_expires_at l), ls_epoch l)"

definition dec_lease :: "bytes \<Rightarrow> (string, lease) result" where
  "dec_lease d =
     (case dec_countable d of (h, p, a, e, n) \<Rightarrow>
        Inr \<lparr>ls_holder = h, ls_purpose = p, ls_acquired_at = map_option ts_untuple a,
             ls_expires_at = map_option ts_untuple e, ls_epoch = n\<rparr>)"

lemma dec_enc_lease: "dec_lease (enc_lease l) = Inr l"
  by (simp add: dec_lease_def enc_lease_def option.map_comp comp_def option.map_ident)

text \<open>Another client that writes the key once, if the store has room.\<close>

definition rival :: "memory_state \<Rightarrow> memory_state" where
  "rival s = (if ms_room s
     then snd (put_bytes (prefixed ''r/'' memory_store) ''k'' ''a'' Overwrite s) else s)"

lemma rival_ok: "evolves (prefixed ''r/'' memory_store) ms_room s (rival s)"
  unfolding rival_def put_bytes_def
  by (auto intro: evolves_refl evolves_put [OF evolves_refl, of _ _ _ "''k''" "PutBytes ''a''"
    "put_options_from Overwrite"] simp: prod_eq_iff)

definition append_x :: "unit \<Rightarrow> string option \<Rightarrow> (coord_error, string option) result \<times> unit" where
  "append_x c cur = (Inr (Some (''x'' @ (case cur of None \<Rightarrow> [] | Some t \<Rightarrow> t))), c)"

lemma append_x_run:
  "fst (cas_update Inr id (interleaved (prefixed ''r/'' memory_store)) ''k'' 3 append_x ()
     (memory_new, [\<lambda>s. s, rival])) =
   Inr (Some (\<lparr>om_key = ''k'', om_size = 2, om_version = ''2''\<rparr>, ''xa''))"
proof -
  let ?S = "prefixed ''r/'' memory_store"
  let ?s1 = "\<lparr>ms_objects = [(''r/k'', ''1'', ''a'')], ms_counter = 1\<rparr>"
  note ev = get_message_interleaved lift_op_eq env_step_def pre.get_message_view append_x_def
    put_bytes_interleaved put_bytes_def prefixed_put_def full_def memory_put_bytes put_allowed_def
    ms_view_def object_meta_of_def strip_meta_def strip_key_def strip_prefix_def show_nat_def digits.simps Let_def
  have [simp]: "digit_char (Suc 0) = CHR ''1''" "digit_char 2 = CHR ''2''" by code_simp+
  have r: "rival \<lparr>ms_objects = [], ms_counter = 0\<rparr> = ?s1"
    by (simp add: rival_def ms_room_def ev)
  have "cas_update_loop Inr id (interleaved ?S) ''k'' 3 append_x 0 () (memory_new, [\<lambda>s. s, rival]) =
      cas_update_loop Inr id (interleaved ?S) ''k'' 3 append_x 1 () (?s1, [])"
    unfolding memory_new_def by (subst cas_update_loop.simps) (simp add: ev r)
  moreover have "fst (cas_update_loop Inr id (interleaved ?S) ''k'' 3 append_x 1 () (?s1, [])) =
      Inr (Some (\<lparr>om_key = ''k'', om_size = 2, om_version = ''2''\<rparr>, ''xa''))"
    by (subst cas_update_loop.simps) (simp add: ev)
  ultimately show ?thesis by (simp add: cas_update_def)
qed

text \<open>Two processes read a free lease; the first to write gets it.\<close>

definition gc_attempt :: "string \<Rightarrow> lease_attempt" where
  "gc_attempt h = \<lparr>la_holder = h, la_purpose = ''gc'', la_now = 10, la_ttl = 5000000000, la_mode = Create,
     la_epoch = 0\<rparr>"

lemma lease_gc_read:
  "acquire_read dec_lease (prefixed [] memory_store) ''leases/gc'' h ''gc'' 10 5000000000 memory_new =
     (Inr (Some (gc_attempt h)), memory_new)"
  by (simp add: acquire_read_def pre.get_message_view ms_view_def memory_new_def gc_attempt_def)

definition gc_store :: memory_state where
  "gc_store = snd (acquire_write enc_lease (prefixed [] memory_store) ''leases/gc'' (gc_attempt ''a'') memory_new)"

lemma lease_gc_write:
  "acquire_write enc_lease (prefixed [] memory_store) ''leases/gc'' (gc_attempt ''a'') memory_new =
     (Inr (Some (lease_guard_new ''leases/gc'' ''a'' ''gc'' ''1'' 10 5000000000 0)), gc_store)"
  "ms_room gc_store"
  "acquire_write enc_lease (prefixed [] memory_store) ''leases/gc'' (gc_attempt ''b'') gc_store =
     (Inr None, gc_store)"
proof -
  have [simp]: "digit_char (Suc 0) = CHR ''1''" by code_simp
  note ev = acquire_write_def gc_attempt_def memory_new_def ms_view_def put_bytes_def prefixed_put_def full_def
        memory_put_bytes put_allowed_def object_meta_of_def strip_meta_def show_nat_def digits.simps Let_def
  show "acquire_write enc_lease (prefixed [] memory_store) ''leases/gc'' (gc_attempt ''a'') memory_new =
     (Inr (Some (lease_guard_new ''leases/gc'' ''a'' ''gc'' ''1'' 10 5000000000 0)), gc_store)"
    "ms_room gc_store"
    "acquire_write enc_lease (prefixed [] memory_store) ''leases/gc'' (gc_attempt ''b'') gc_store =
     (Inr None, gc_store)"
    by (simp_all add: gc_store_def ev ms_room_def)
qed

definition gc_init :: "memory_state lease_world" where
  "gc_init = \<lparr>lw_store = memory_new, lw_time = 10, lw_pending = Map.empty, lw_guards = Map.empty\<rparr>"

definition gc_end :: "memory_state lease_world" where
  "gc_end = \<lparr>lw_store = gc_store, lw_time = 10, lw_pending = Map.empty,
     lw_guards = [0 \<mapsto> lease_guard_new ''leases/gc'' ''a'' ''gc'' ''1'' 10 5000000000 0]\<rparr>"

lemma gc_run:
  "lease_reach dec_lease enc_lease (prefixed [] memory_store) ms_room ''leases/gc'' (\<lambda>_. 0) gc_init gc_end"
proof -
  let ?R = "lease_reach dec_lease enc_lease (prefixed [] memory_store) ms_room ''leases/gc'' (\<lambda>_. 0) gc_init"
  let ?w = "\<lambda>s P G. \<lparr>lw_store = s, lw_time = 10, lw_pending = P, lw_guards = G\<rparr>"
  let ?g = "lease_guard_new ''leases/gc'' ''a'' ''gc'' ''1'' 10 5000000000 0"
  have clk: "clock_reading 10 5000000000 10" by (simp add: clock_reading_def nanos_per_sec_def)
  have "?R (?w memory_new Map.empty Map.empty)" using lease_reach.start by (simp add: gc_init_def)
  from lease_reach.step [OF this lease_step.acq_read [OF _ _ _ lease_gc_read, where i = 0]] clk
  have "?R (?w memory_new [0 \<mapsto> gc_attempt ''a''] Map.empty)" by simp
  from lease_reach.step [OF this lease_step.acq_read [OF _ _ _ lease_gc_read, where i = 1]] clk
  have "?R (?w memory_new [0 \<mapsto> gc_attempt ''a'', 1 \<mapsto> gc_attempt ''b''] Map.empty)" by simp
  from lease_reach.step [OF this lease_step.acq_write [OF _ _ lease_gc_write(1), where i = 0]]
  have "?R (?w gc_store ([0 \<mapsto> gc_attempt ''a'', 1 \<mapsto> gc_attempt ''b''](0 := None)) [0 \<mapsto> ?g])"
    by (simp add: ms_room_def memory_new_def)
  from lease_reach.step [OF this lease_step.acq_write [where i = 1 and room = ms_room, OF _ lease_gc_write(2,3)]]
  have "?R (?w gc_store ([0 \<mapsto> gc_attempt ''a'', 1 \<mapsto> gc_attempt ''b''](0 := None, 1 := None)) ([0 \<mapsto> ?g](1 := None)))"
    by simp
  moreover have "[0 :: nat \<mapsto> gc_attempt ''a'', 1 \<mapsto> gc_attempt ''b''](0 := None, 1 := None) = Map.empty"
    "[0 :: nat \<mapsto> ?g](1 := None) = [0 \<mapsto> ?g]" by (auto simp: fun_eq_iff)
  ultimately show ?thesis by (simp add: gc_end_def)
qed

section \<open>Properties\<close>

text \<open>
  C29. \<open>cas_update\<close> loses no concurrent change and always returns. The other clients' actions are
  an arbitrary list of well-behaved changes; one of them runs before each operation of the loop, so
  the actions taken during the call are an initial part \<open>took\<close> of the list. If the call reports a
  written value, the value the closure was given is what the object holds after exactly these actions,
  and the final store is the one they lead to with the new value written at the key. In every other
  outcome the final store is exactly what the other clients made of it. The store's errors are
  definite (those of the memory store).
\<close>

theorem cas_update_atomic:
  assumes "ms_inv s" "env_ok (prefixed p memory_store) ms_inv ms_room acts"
  shows "\<exists>r c' s' acts' took.
    cas_update dec enc (interleaved (prefixed p memory_store)) k n f c (s, acts) = (r, c', s', acts') \<and>
    acts = took @ acts' \<and>
    (case r of
       Inr (Some (meta, new)) \<Rightarrow>
         \<exists>c1 cur. msg_at dec (ms_view (env_run took s) (p @ k)) = Inr cur \<and> f c1 cur = (Inr (Some new), c') \<and>
           (\<lambda>k. ms_view s' (p @ k)) = (\<lambda>k. ms_view (env_run took s) (p @ k))(k \<mapsto> (om_version meta, enc new))
     | _ \<Rightarrow> s' = env_run took s)"
proof -
  obtain r c' s' acts' where
    "cas_update dec enc (interleaved (prefixed p memory_store)) k n f c (s, acts) = (r, c', s', acts')"
    by (metis prod_cases4)
  with pre.cas_update_loop_atomic [OF this [unfolded cas_update_def] assms] show ?thesis by blast
qed

theorem cas_update_atomic_witness:
  "\<exists>s' acts'. cas_update Inr id (interleaved (prefixed ''r/'' memory_store)) ''k'' 3 append_x ()
       (memory_new, [\<lambda>s. s, rival]) =
     (Inr (Some (\<lparr>om_key = ''k'', om_size = 2, om_version = ''2''\<rparr>, ''xa'')), (), s', acts') \<and>
     ms_view s' ''r/k'' = Some (''2'', ''xa'')"
proof -
  have "env_ok (prefixed ''r/'' memory_store) ms_inv ms_room [\<lambda>s. s, rival]"
    by (simp add: env_ok_def rival_ok evolves_refl)
  from cas_update_atomic [OF ms_inv_new this, of Inr id "''k''" 3 append_x "()"] append_x_run
  obtain s' acts' took where run: "cas_update Inr id (interleaved (prefixed ''r/'' memory_store)) ''k'' 3 append_x ()
       (memory_new, [\<lambda>s. s, rival]) =
     (Inr (Some (\<lparr>om_key = ''k'', om_size = 2, om_version = ''2''\<rparr>, ''xa'')), (), s', acts')"
    and v: "(\<lambda>k. ms_view s' (''r/'' @ k)) =
      (\<lambda>k. ms_view (env_run took memory_new) (''r/'' @ k))(''k'' \<mapsto> (''2'', ''xa''))" by auto
  from fun_cong [OF v, of "''k''"] have "ms_view s' ''r/k'' = Some (''2'', ''xa'')" by simp
  with run show ?thesis by blast
qed

text \<open>
  C30. A lease is exclusive: whatever the order of the processes' single store operations (the read
  and the conditional write of an acquisition, with anything in between; heartbeats and releases) and
  of their crashes, as long as no two clocks differ by more than the skew tolerance and the store's
  errors are definite (those of the memory store), two processes never both hold a guard that their own
  clock takes to be unexpired.
\<close>

theorem lease_mutual_exclusion:
  assumes "\<forall>l. dec (enc l) = Inr l"
    and "\<forall>i j. off i - off j \<le> LEASE_SKEW_TOLERANCE"
    and "lease_reach dec enc (prefixed p memory_store) ms_room key off w0 w"
    and "ms_inv (lw_store w0)" "lw_guards w0 = (\<lambda>_. None)" "lw_pending w0 = (\<lambda>_. None)"
    and "believes off w i" "believes off w j"
  shows "i = j"
  using assms by (rule pre.lease_exclusive)

theorem lease_mutual_exclusion_witness:
  "believes (\<lambda>_. 0) gc_end 0 \<and> \<not> believes (\<lambda>_. 0) gc_end 1"
proof
  show a: "believes (\<lambda>_. 0) gc_end 0" by (simp add: believes_def gc_end_def lease_guard_new_def)
  show "\<not> believes (\<lambda>_. 0) gc_end 1"
  proof
    assume b: "believes (\<lambda>_. 0) gc_end 1"
    have "0 = (1 :: nat)"
      using lease_mutual_exclusion [OF _ _ gc_run, of 0 1] a b
      by (simp add: dec_enc_lease LEASE_SKEW_TOLERANCE_def nanos_per_sec_def gc_init_def)
    then show False by simp
  qed
qed

end
