(* ===== verification/Wal_Format.thy ===== *)
theory Wal_Format
  imports Coord "HOL-Library.Multiset"
begin

text \<open>
  Durable formats (\<open>walgit-proto\<close>): the framing of log segments (\<open>lib.rs\<close>, module
  \<open>frame\<close>), canonical ref snapshots (\<open>snapshot.rs\<close>) and pack membership
  (\<open>inventory.rs\<close>). The protobuf codec, the varint codec and SHA-256 are parameters. An
  \<open>anyhow\<close> message is a constructor of \<open>snapshot_error\<close> that carries its data.

  The lemmas: a reader recovers exactly the complete frames of a segment whatever partial frame
  follows; canonical encoding depends only on the set of refs; a verified snapshot is valid and
  canonical; retiring packs never takes one out of service.
\<close>

section \<open>Frames (lib.rs)\<close>

type_synonym varint_enc = "nat \<Rightarrow> bytes"
type_synonym varint_dec = "bytes \<Rightarrow> (nat \<times> bytes) option"

definition encode_entry :: "varint_enc \<Rightarrow> log_entry encoder \<Rightarrow> log_entry \<Rightarrow> bytes \<Rightarrow> bytes" where
  "encode_entry varint enc e out = out @ varint (length (enc e)) @ enc e"

definition encode_entries :: "varint_enc \<Rightarrow> log_entry encoder \<Rightarrow> log_entry list \<Rightarrow> bytes" where
  "encode_entries varint enc entries = fold (encode_entry varint enc) entries []"

text \<open>
  The loop of \<open>decode_entries\<close>, over the part of the buffer not yet consumed. Every round
  consumes the length prefix, so one unit of fuel per byte and one more are enough.
\<close>

fun decode_entries_loop ::
  "varint_dec \<Rightarrow> log_entry decoder \<Rightarrow> nat \<Rightarrow> bytes \<Rightarrow> log_entry list \<Rightarrow> nat \<Rightarrow>
     (string, log_entry list \<times> nat) result option" where
  "decode_entries_loop unvarint dec 0 buf out pos = None"
| "decode_entries_loop unvarint dec (Suc fuel) buf out pos =
     (if pos > length buf then Some (Inr (out, pos))
      else case unvarint (drop pos buf) of
        None \<Rightarrow> Some (Inr (out, pos))
      | Some (len, probe) \<Rightarrow>
          if len > length probe then Some (Inr (out, pos))
          else (case dec (take len probe) of
                  Inl m \<Rightarrow> Some (Inl m)
                | Inr e \<Rightarrow>
                    decode_entries_loop unvarint dec fuel buf (out @ [e])
                      (length buf - length probe + len)))"

definition decode_entries ::
  "varint_dec \<Rightarrow> log_entry decoder \<Rightarrow> bytes \<Rightarrow> (string, log_entry list \<times> nat) result option" where
  "decode_entries unvarint dec buf = decode_entries_loop unvarint dec (length buf + 2) buf [] 0"

text \<open>
  What the code relies on from the varint codec: a 64-bit length is read back from its own
  encoding, nothing is read from a cut encoding, and a successful read consumes at least one byte.
\<close>

definition varint_codec :: "varint_enc \<Rightarrow> varint_dec \<Rightarrow> bool" where
  "varint_codec varint unvarint \<longleftrightarrow>
     (\<forall>n rest. n < 2 ^ 64 \<longrightarrow> unvarint (varint n @ rest) = Some (n, rest)) \<and>
     (\<forall>n q. n < 2 ^ 64 \<longrightarrow> strict_prefix q (varint n) \<longrightarrow> unvarint q = None) \<and>
     (\<forall>b n rest. unvarint b = Some (n, rest) \<longrightarrow> (\<exists>c. c \<noteq> [] \<and> b = c @ rest))"

section \<open>Ref snapshots (snapshot.rs)\<close>

datatype snapshot_error =
    UnsupportedObjectFormat string
  | InvalidSymbolicHead
  | InvalidRefName string
  | DuplicateRef string
  | InvalidSnapshotOid string
  | InvalidPeeled string
  | SnapshotKeyMismatch
  | SnapshotDecode string
  | NotCanonical

definition valid_ref :: "string \<Rightarrow> bool" where
  "valid_ref name \<longleftrightarrow>
     starts_with name ''refs/'' \<and>
     \<not> ends_with name ''/'' \<and>
     \<not> ends_with name ''.'' \<and>
     \<not> str_contains name ''..'' \<and>
     \<not> str_contains name [CHR ''@'', CHR 0x7B] \<and>
     \<not> list_ex (\<lambda>b. b \<le> CHR '' '' \<or> b = CHR 0x7F \<or> b \<in> set ''~^:?*['' \<or> b = CHR 0x5C) name \<and>
     list_all (\<lambda>p. p \<noteq> [] \<and> \<not> starts_with p ''.'' \<and> \<not> ends_with p ''.lock'')
       (split_on (CHR ''/'') name)"

definition valid_oid :: "string \<Rightarrow> nat \<Rightarrow> bool" where
  "valid_oid oid len \<longleftrightarrow>
     length oid = len \<and>
     list_all (\<lambda>b. is_ascii_digit b \<or> (CHR ''a'' \<le> b \<and> b \<le> CHR ''f'')) oid \<and>
     list_ex (\<lambda>b. b \<noteq> CHR ''0'') oid"

fun validate_refs :: "nat \<Rightarrow> string set \<Rightarrow> git_ref list \<Rightarrow> (snapshot_error, unit) result" where
  "validate_refs oid_len names [] = Inr ()"
| "validate_refs oid_len names (r # refs) =
     (if \<not> valid_ref (r_name r) then Inl (InvalidRefName (r_name r))
      else if r_name r \<in> names then Inl (DuplicateRef (r_name r))
      else if \<not> valid_oid (r_oid r) oid_len then Inl (InvalidSnapshotOid (r_name r))
      else if \<not> (r_peeled r = [] \<or>
                 (starts_with (r_name r) ''refs/tags/'' \<and> valid_oid (r_peeled r) oid_len))
      then Inl (InvalidPeeled (r_name r))
      else validate_refs oid_len (insert (r_name r) names) refs)"

definition snapshot_oid_len :: "string \<Rightarrow> nat option" where
  "snapshot_oid_len f = (if f = ''sha1'' then Some 40 else if f = ''sha256'' then Some 64 else None)"

definition validate :: "ref_snapshot \<Rightarrow> (snapshot_error, unit) result" where
  "validate s =
     (case snapshot_oid_len (sn_object_format s) of
        None \<Rightarrow> Inl (UnsupportedObjectFormat (sn_object_format s))
      | Some oid_len \<Rightarrow>
          if \<not> (sn_head_target s = [] \<or> valid_ref (sn_head_target s)) then Inl InvalidSymbolicHead
          else validate_refs oid_len {} (sn_refs s))"

definition canonicalize :: "ref_snapshot \<Rightarrow> (snapshot_error, ref_snapshot) result" where
  "canonicalize s =
     (case validate s of
        Inl e \<Rightarrow> Inl e
      | Inr _ \<Rightarrow> Inr (s \<lparr>sn_refs := sort_key r_name (sn_refs s), sn_created_at := None\<rparr>))"

definition encode_snapshot ::
  "ref_snapshot encoder \<Rightarrow> ref_snapshot \<Rightarrow> (snapshot_error, bytes) result" where
  "encode_snapshot enc s = (case canonicalize s of Inl e \<Rightarrow> Inl e | Inr c \<Rightarrow> Inr (enc c))"

definition snapshot_key :: "(bytes \<Rightarrow> string) \<Rightarrow> bytes \<Rightarrow> string" where
  "snapshot_key sha256_hex b = ''checkpoints/refs/'' @ sha256_hex b @ ''.pb''"

definition forge_key :: "(bytes \<Rightarrow> string) \<Rightarrow> bytes \<Rightarrow> string" where
  "forge_key sha256_hex b = ''checkpoints/forge/'' @ sha256_hex b @ ''.pb''"

definition accounts_key :: "(bytes \<Rightarrow> string) \<Rightarrow> bytes \<Rightarrow> string" where
  "accounts_key sha256_hex b = ''checkpoints/accounts/'' @ sha256_hex b @ ''.pb''"

definition decode_verified ::
  "(bytes \<Rightarrow> string) \<Rightarrow> ref_snapshot decoder \<Rightarrow> ref_snapshot encoder \<Rightarrow> string \<Rightarrow> bytes \<Rightarrow>
     (snapshot_error, ref_snapshot) result" where
  "decode_verified sha256_hex dec enc expected_key b =
     (if snapshot_key sha256_hex b \<noteq> expected_key then Inl SnapshotKeyMismatch
      else case dec b of
        Inl m \<Rightarrow> Inl (SnapshotDecode m)
      | Inr s \<Rightarrow>
          (case encode_snapshot enc s of
             Inl e \<Rightarrow> Inl e
           | Inr b' \<Rightarrow> if b' \<noteq> b then Inl NotCanonical else Inr s))"

section \<open>Pack membership (inventory.rs)\<close>

definition serves_pack :: "manifest \<Rightarrow> string \<Rightarrow> bool" where
  "serves_pack m checksum \<longleftrightarrow>
     list_ex (\<lambda>p. pk_checksum p = checksum) (m_packs m) \<or>
     list_ex (\<lambda>p. rp_checksum p = checksum) (m_retired_packs m)"

fun retire_loop ::
  "string list \<Rightarrow> nat \<Rightarrow> timestamp \<Rightarrow> pack_ref list \<Rightarrow> string set \<Rightarrow> retired_pack list \<Rightarrow>
     retired_pack list" where
  "retire_loop requested seq at [] recorded retired = retired"
| "retire_loop requested seq at (pack # packs) recorded retired =
     (if pk_checksum pack \<in> set requested \<and> pk_checksum pack \<notin> recorded
      then retire_loop requested seq at packs (insert (pk_checksum pack) recorded)
             (retired @ [\<lparr>rp_checksum = pk_checksum pack, rp_retired_at = Some at, rp_retired_seq = seq\<rparr>])
      else retire_loop requested seq at packs recorded retired)"

definition retire_packs_at :: "string list \<Rightarrow> nat \<Rightarrow> timestamp \<Rightarrow> manifest \<Rightarrow> manifest" where
  "retire_packs_at checksums seq at m =
     m \<lparr>m_retired_packs :=
         retire_loop checksums seq at (m_packs m) (rp_checksum ` set (m_retired_packs m))
           (m_retired_packs m)\<rparr>"

text \<open>\<open>base_packs\<close> and \<open>base_pack\<close> of \<open>walgit-wal/src/lib.rs\<close>; \<open>max_by_key\<close> keeps the last maximum.\<close>

definition base_packs :: "manifest \<Rightarrow> pack_ref list" where
  "base_packs m = filter (\<lambda>p. pk_tier p = 2 \<and> pk_kind p \<noteq> PACK_KIND_HISTORY) (m_packs m)"

fun max_by_size :: "pack_ref \<Rightarrow> pack_ref list \<Rightarrow> pack_ref" where
  "max_by_size best [] = best"
| "max_by_size best (p # ps) =
     max_by_size (if pk_pack_size best \<le> pk_pack_size p then p else best) ps"

definition base_pack :: "manifest \<Rightarrow> pack_ref option" where
  "base_pack m = (case base_packs m of [] \<Rightarrow> None | p # ps \<Rightarrow> Some (max_by_size p ps))"

section \<open>Frame lemmas\<close>

lemma encode_entries_append:
  "fold (encode_entry varint enc) es out = out @ concat (map (\<lambda>e. varint (length (enc e)) @ enc e) es)"
  by (induction es arbitrary: out) (simp_all add: encode_entry_def)

lemma encode_entries_simps [simp]:
  "encode_entries varint enc [] = []"
  "encode_entries varint enc (e # es) = varint (length (enc e)) @ enc e @ encode_entries varint enc es"
  by (simp_all add: encode_entries_def encode_entries_append encode_entry_def)

lemma varint_codecD:
  assumes "varint_codec varint unvarint"
  shows "n < 2 ^ 64 \<Longrightarrow> unvarint (varint n @ rest) = Some (n, rest)"
    and "n < 2 ^ 64 \<Longrightarrow> strict_prefix q (varint n) \<Longrightarrow> unvarint q = None"
    and "unvarint b = Some (n, rest) \<Longrightarrow> length rest < length b"
  using assms by (auto simp: varint_codec_def) (metis length_append length_greater_0_conv less_add_same_cancel2)

lemma varint_nonempty:
  assumes "varint_codec varint unvarint" "n < 2 ^ 64"
  shows "varint n \<noteq> []"
  using varint_codecD(1) [OF assms, of "[]"] varint_codecD(3) [OF assms(1), of "varint n" n "[]"] by auto

text \<open>Enough fuel always gives a result.\<close>

lemma decode_entries_loop_returns:
  assumes "varint_codec varint unvarint" "length buf - pos + 1 < fuel"
  shows "\<exists>r. decode_entries_loop unvarint dec fuel buf out pos = Some r"
  using assms(2)
proof (induction fuel arbitrary: out pos)
  case (Suc fuel)
  have "length buf - (length buf - length probe + len) + 1 < fuel"
    if "unvarint (drop pos buf) = Some (len, probe)" "len \<le> length probe" for len probe
    using varint_codecD(3) [OF assms(1) that(1)] that(2) Suc.prems by simp
  with Suc.IH show ?case by (auto split: option.splits sum.splits)
qed simp

lemma decode_entries_returns:
  "varint_codec varint unvarint \<Longrightarrow> \<exists>r. decode_entries unvarint dec buf = Some r"
  unfolding decode_entries_def by (rule decode_entries_loop_returns) auto

text \<open>A cut frame: the end of a segment that was still being written.\<close>

definition partial_frame :: "varint_enc \<Rightarrow> log_entry encoder \<Rightarrow> bytes \<Rightarrow> bool" where
  "partial_frame varint enc tail \<longleftrightarrow>
     (\<exists>e. length (enc e) < 2 ^ 64 \<and> strict_prefix tail (varint (length (enc e)) @ enc e))"

lemma partial_frame_stops:
  assumes "varint_codec varint unvarint" "partial_frame varint enc tail"
  shows "case unvarint tail of None \<Rightarrow> True | Some (len, probe) \<Rightarrow> length probe < len"
proof -
  obtain e where e: "length (enc e) < 2 ^ 64" "strict_prefix tail (varint (length (enc e)) @ enc e)"
    using assms(2) by (auto simp: partial_frame_def)
  show ?thesis
  proof (cases "strict_prefix tail (varint (length (enc e)))")
    case True
    then show ?thesis using varint_codecD(2) [OF assms(1) e(1)] by simp
  next
    case False
    then obtain x where x: "tail = varint (length (enc e)) @ x" "strict_prefix x (enc e)"
      using e(2) by (cases "enc e = []") (auto simp: strict_prefix_def prefix_append)
    then have "length x < length (enc e)" by (meson prefix_length_less)
    then show ?thesis using varint_codecD(1) [OF assms(1) e(1), of x] x(1) by simp
  qed
qed

lemma decode_loop_frames:
  assumes vc: "varint_codec varint unvarint"
    and es: "list_all (\<lambda>e. dec (enc e) = Inr e \<and> length (enc e) < 2 ^ 64) es"
    and tail: "partial_frame varint enc tail"
    and "length (encode_entries varint enc es) + length tail + 1 < fuel"
  shows "decode_entries_loop unvarint dec fuel (pre @ encode_entries varint enc es @ tail) out (length pre) =
    Some (Inr (out @ es, length pre + length (encode_entries varint enc es)))"
  using es assms(4)
proof (induction es arbitrary: fuel pre out)
  case Nil
  then obtain f where "fuel = Suc f" by (cases fuel) auto
  then show ?case using partial_frame_stops [OF vc tail] by (auto split: option.splits)
next
  case (Cons e es)
  then obtain f where f: "fuel = Suc f" by (cases fuel) auto
  let ?v = "varint (length (enc e))"
  let ?rest = "encode_entries varint enc es @ tail"
  have e: "dec (enc e) = Inr e" "length (enc e) < 2 ^ 64" using Cons.prems by simp_all
  have u: "unvarint (?v @ enc e @ ?rest) = Some (length (enc e), enc e @ ?rest)"
    by (rule varint_codecD(1) [OF vc e(2)])
  obtain k where "length ?v = Suc k" using varint_nonempty [OF vc e(2)] by (cases ?v) auto
  then have "decode_entries_loop unvarint dec f ((pre @ ?v @ enc e) @ ?rest) (out @ [e])
      (length (pre @ ?v @ enc e)) =
    Some (Inr ((out @ [e]) @ es, length (pre @ ?v @ enc e) + length (encode_entries varint enc es)))"
    using Cons.prems f by (intro Cons.IH) simp_all
  then show ?case using u e by (simp add: f add.assoc)
qed

section \<open>Snapshot lemmas\<close>

definition valid_entry :: "nat \<Rightarrow> git_ref \<Rightarrow> bool" where
  "valid_entry n r \<longleftrightarrow> valid_ref (r_name r) \<and> valid_oid (r_oid r) n \<and>
     (r_peeled r = [] \<or> starts_with (r_name r) ''refs/tags/'' \<and> valid_oid (r_peeled r) n)"

lemma validate_refs_Cons:
  "validate_refs n names (r # refs) = Inr () \<longleftrightarrow>
     valid_entry n r \<and> r_name r \<notin> names \<and> validate_refs n (insert (r_name r) names) refs = Inr ()"
  by (auto simp: valid_entry_def)

lemma validate_refs_ok:
  "validate_refs n names refs = Inr () \<longleftrightarrow>
     distinct (map r_name refs) \<and> (\<forall>r \<in> set refs. r_name r \<notin> names \<and> valid_entry n r)"
proof (induction refs arbitrary: names)
  case (Cons r refs)
  show ?case unfolding validate_refs_Cons Cons.IH by (auto intro: rev_image_eqI)
qed simp

lemma validate_perm:
  assumes "mset (sn_refs s) = mset (sn_refs t)" "sn_object_format s = sn_object_format t"
    "sn_head_target s = sn_head_target t"
  shows "validate s = Inr () \<longleftrightarrow> validate t = Inr ()"
proof -
  have "set (sn_refs s) = set (sn_refs t)" using assms(1) by (metis set_mset_mset)
  moreover have "distinct (map r_name (sn_refs s)) \<longleftrightarrow> distinct (map r_name (sn_refs t))"
    using assms(1) by (metis mset_map mset_eq_imp_distinct_iff)
  ultimately have "validate_refs n {} (sn_refs s) = Inr () \<longleftrightarrow> validate_refs n {} (sn_refs t) = Inr ()" for n
    unfolding validate_refs_ok [of n "{}" "sn_refs s"] validate_refs_ok [of n "{}" "sn_refs t"] by simp
  then show ?thesis using assms(2,3) by (auto simp: validate_def split: option.splits)
qed

lemma validate_distinct: "validate s = Inr () \<Longrightarrow> distinct (map r_name (sn_refs s))"
  by (auto simp: validate_def validate_refs_ok [of _ "{}" "sn_refs s"] split: option.splits if_splits)

lemma canonicalize_Inr:
  "canonicalize s = Inr c \<longleftrightarrow> validate s = Inr () \<and>
     c = s \<lparr>sn_refs := sort_key r_name (sn_refs s), sn_created_at := None\<rparr>"
  by (auto simp: canonicalize_def split: sum.splits)

lemma canonicalize_valid: "canonicalize s = Inr c \<Longrightarrow> validate c = Inr ()"
  unfolding canonicalize_Inr by (subst validate_perm [of c s]) auto

lemma canonicalize_idem: "canonicalize s = Inr c \<Longrightarrow> canonicalize c = Inr c"
  using canonicalize_valid [of s c] unfolding canonicalize_Inr
  by (auto simp: sort_key_id_if_sorted)

lemma canonical_sorted:
  assumes "canonicalize s = Inr c"
  shows "sorted_wrt (<) (map r_name (sn_refs c))"
proof -
  have "distinct (map r_name (sn_refs c))" using validate_distinct canonicalize_valid [OF assms] .
  moreover have "sorted (map r_name (sn_refs c))" using assms by (simp add: canonicalize_Inr)
  ultimately show ?thesis by (simp add: strict_sorted_iff)
qed

section \<open>Inventory lemmas\<close>

lemma retire_loop_checksums:
  "rp_checksum ` set (retire_loop cs seq at packs rec ret) =
     rp_checksum ` set ret \<union> {c. c \<in> pk_checksum ` set packs \<and> c \<in> set cs \<and> c \<notin> rec}"
  by (induction packs arbitrary: rec ret) auto

lemma retire_loop_distinct:
  assumes "distinct (map rp_checksum ret)" "rp_checksum ` set ret \<subseteq> rec"
  shows "distinct (map rp_checksum (retire_loop cs seq at packs rec ret))"
  using assms
proof (induction packs arbitrary: rec ret)
  case (Cons p packs)
  let ?r = "\<lparr>rp_checksum = pk_checksum p, rp_retired_at = Some at, rp_retired_seq = seq\<rparr>"
  show ?case
  proof (cases "pk_checksum p \<in> set cs \<and> pk_checksum p \<notin> rec")
    case True
    then have "pk_checksum p \<notin> rp_checksum ` set ret" using Cons.prems by blast
    with True Cons.prems show ?thesis
      by (simp del: image_eqI) (rule Cons.IH, auto simp: rev_image_eqI)
  next
    case False
    then show ?thesis using Cons by auto
  qed
qed simp

lemma serves_pack_iff:
  "serves_pack m c \<longleftrightarrow> c \<in> pk_checksum ` set (m_packs m) \<union> rp_checksum ` set (m_retired_packs m)"
  by (auto simp: serves_pack_def list_ex_iff)

lemma max_by_size_max:
  "max_by_size b ps \<in> insert b (set ps) \<and> (\<forall>p \<in> insert b (set ps). pk_pack_size p \<le> pk_pack_size (max_by_size b ps))"
proof (induction ps arbitrary: b)
  case (Cons p ps)
  from Cons.IH [of "if pk_pack_size b \<le> pk_pack_size p then p else b"] show ?case
    by (auto split: if_splits intro: order_trans)
qed simp

text \<open>A unary length prefix meets the varint contract.\<close>

definition unary_enc :: varint_enc where
  "unary_enc n = replicate n (CHR ''1'') @ ''0''"

fun unary_dec :: varint_dec where
  "unary_dec [] = None"
| "unary_dec (c # b) =
     (if c = CHR ''1'' then map_option (\<lambda>(n, r). (Suc n, r)) (unary_dec b) else Some (0, b))"

lemma unary_varint_codec: "varint_codec unary_enc unary_dec"
  unfolding varint_codec_def
proof (intro conjI allI impI)
  show "unary_dec (unary_enc n @ rest) = Some (n, rest)" for n rest
    unfolding unary_enc_def by (induction n) simp_all
  show "unary_dec q = None" if "strict_prefix q (unary_enc n)" for n q
  proof -
    have "prefix q (replicate n (CHR ''1''))"
      using that by (auto simp: unary_enc_def strict_prefix_def prefix_snoc)
    then have "set q \<subseteq> set (replicate n (CHR ''1''))" by (rule set_mono_prefix)
    then have "set q \<subseteq> {CHR ''1''}" by (auto split: if_splits)
    then show ?thesis by (induction q) auto
  qed
  show "\<exists>c. c \<noteq> [] \<and> b = c @ rest" if "unary_dec b = Some (n, rest)" for b n rest
    using that
  proof (induction b arbitrary: n)
    case (Cons c b)
    then show ?case
      by (cases "c = CHR ''1''") (auto intro: exI [of _ "[c]"] exI [of _ "c # x" for x])
  qed simp
qed

text \<open>A codec for snapshots.\<close>

definition ref_tuple :: "git_ref \<Rightarrow> string \<times> string \<times> string" where
  "ref_tuple r = (r_name r, r_oid r, r_peeled r)"

definition ref_untuple :: "string \<times> string \<times> string \<Rightarrow> git_ref" where
  "ref_untuple = (\<lambda>(n, q, p). \<lparr>r_name = n, r_oid = q, r_peeled = p\<rparr>)"

definition enc_snapshot :: "ref_snapshot encoder" where
  "enc_snapshot s = enc_countable (sn_seq s, sn_object_format s, map ref_tuple (sn_refs s),
     sn_head_target s, map_option ts_tuple (sn_created_at s))"

definition dec_snapshot :: "ref_snapshot decoder" where
  "dec_snapshot d = (case dec_countable d of (q, f, rs, h, c) \<Rightarrow>
     Inr \<lparr>sn_seq = q, sn_object_format = f, sn_refs = map ref_untuple rs, sn_head_target = h,
          sn_created_at = map_option ts_untuple c\<rparr>)"

lemma ref_untuple_tuple [simp]: "ref_untuple (ref_tuple r) = r"
  by (simp add: ref_tuple_def ref_untuple_def)

lemma dec_enc_snapshot: "dec_snapshot (enc_snapshot s) = Inr s"
  by (simp add: dec_snapshot_def enc_snapshot_def option.map_comp comp_def option.map_ident)

section \<open>Properties\<close>

text \<open>
  C31. Reading a log segment returns exactly the entries written, in order, and stops at a
  trailing partial frame without error and without consuming any of it.
\<close>

theorem decode_entries_roundtrip:
  assumes "varint_codec varint unvarint"
    and "list_all (\<lambda>e. dec (enc e) = Inr e \<and> length (enc e) < 2 ^ 64) es"
    and "tail = [] \<or> partial_frame varint enc tail"
  shows "decode_entries unvarint dec (encode_entries varint enc es @ tail) =
    Some (Inr (es, length (encode_entries varint enc es)))"
proof (cases "partial_frame varint enc tail")
  case True
  then show ?thesis
    using decode_loop_frames [OF assms(1,2) True, of "length (encode_entries varint enc es @ tail) + 2" "[]" "[]"]
    unfolding decode_entries_def by simp
next
  case False
  then have t: "tail = []" using assms(3) by simp
  show ?thesis
  proof (cases es)
    case Nil
    have "unvarint [] = None"
      using varint_codecD(3) [OF assms(1), of "[]"] by (cases "unvarint []") auto
    then show ?thesis by (simp add: decode_entries_def t Nil numeral_2_eq_2)
  next
    case (Cons e es')
    then have "length (enc e) < 2 ^ 64" using assms(2) by simp
    with varint_nonempty [OF assms(1) this] have "partial_frame varint enc []"
      unfolding partial_frame_def by (intro exI [of _ e]) (simp add: strict_prefix_def)
    with False t show ?thesis by simp
  qed
qed

theorem decode_entries_roundtrip_witness:
  "decode_entries unary_dec (\<lambda>_. Inr default_log_entry)
     (encode_entries unary_enc (\<lambda>_. ''ab'') [default_log_entry, default_log_entry] @ ''11'') =
   Some (Inr ([default_log_entry, default_log_entry], 10))"
proof -
  have "partial_frame unary_enc (\<lambda>_. ''ab'') ''11''"
    by (simp add: partial_frame_def unary_enc_def strict_prefix_def)
  with decode_entries_roundtrip [OF unary_varint_codec, of "\<lambda>_. Inr default_log_entry" "\<lambda>_. ''ab''"
      "[default_log_entry, default_log_entry]" "''11''"] show ?thesis
    by (simp add: unary_enc_def)
qed

text \<open>
  Canonical encoding: two snapshots with the same header and the same refs in any order are
  accepted or refused alike, and accepted ones have the same bytes and so the same content key.
\<close>

lemma encode_snapshot_order_independent:
  assumes "mset (sn_refs s) = mset (sn_refs t)" "sn_seq s = sn_seq t"
    "sn_object_format s = sn_object_format t" "sn_head_target s = sn_head_target t"
  shows "is_ok (encode_snapshot enc s) = is_ok (encode_snapshot enc t) \<and>
    (is_ok (encode_snapshot enc s) \<longrightarrow> encode_snapshot enc s = encode_snapshot enc t)"
proof (cases "validate s = Inr ()")
  case True
  then have t: "validate t = Inr ()" using validate_perm [OF assms(1,3,4)] by simp
  have "inj_on r_name (set (sn_refs s))"
    using validate_distinct [OF True] by (simp add: distinct_map)
  then have "sort_key r_name (sn_refs s) = sort_key r_name (sn_refs t)"
    by (intro sort_key_inj_key_eq) (simp_all add: assms(1))
  then show ?thesis using True t assms
    by (cases s; cases t) (simp add: encode_snapshot_def canonicalize_def)
next
  case False
  then show ?thesis using validate_perm [OF assms(1,3,4)]
    by (auto simp: encode_snapshot_def canonicalize_def is_ok_def split: sum.splits)
qed

text \<open>
  C33. A snapshot that passes \<open>decode_verified\<close> under a key is valid, has strictly increasing
  ref names and no creation time, and is the one object with that encoding; conversely every
  accepted snapshot written by \<open>encode\<close> is read back, in canonical form, under its own key.
\<close>

theorem decode_verified_canonical:
  assumes rt: "\<forall>s. dec (enc s) = Inr s"
  shows "(decode_verified sha dec enc k b = Inr s \<longrightarrow>
      validate s = Inr () \<and> sorted_wrt (<) (map r_name (sn_refs s)) \<and> sn_created_at s = None \<and>
      enc s = b \<and> k = snapshot_key sha b) \<and>
    (encode_snapshot enc t = Inr b \<longrightarrow>
      (\<exists>c. canonicalize t = Inr c \<and> decode_verified sha dec enc (snapshot_key sha b) b = Inr c))"
proof (intro conjI impI)
  assume "decode_verified sha dec enc k b = Inr s"
  then have k: "k = snapshot_key sha b" and d: "dec b = Inr s" and e: "encode_snapshot enc s = Inr b"
    by (auto simp: decode_verified_def split: if_splits sum.splits)
  then obtain c where c: "canonicalize s = Inr c" "enc c = b"
    by (auto simp: encode_snapshot_def split: sum.splits)
  then have "c = s" using rt d by (metis Inr_inject)
  with c k canonical_sorted [OF c(1)] canonicalize_valid [OF c(1)] c(1)
  show "validate s = Inr ()" "sorted_wrt (<) (map r_name (sn_refs s))" "sn_created_at s = None"
    "enc s = b" "k = snapshot_key sha b"
    by (simp_all add: canonicalize_Inr) (metis ref_snapshot.select_convs(5) ref_snapshot.surjective ref_snapshot.update_convs(5))
next
  assume "encode_snapshot enc t = Inr b"
  then obtain c where c: "canonicalize t = Inr c" "b = enc c"
    by (auto simp: encode_snapshot_def split: sum.splits)
  then show "\<exists>c. canonicalize t = Inr c \<and> decode_verified sha dec enc (snapshot_key sha b) b = Inr c"
    using rt canonicalize_idem [OF c(1)] by (simp add: decode_verified_def encode_snapshot_def)
qed

theorem decode_verified_canonical_witness:
  "decode_verified id dec_snapshot enc_snapshot
     (snapshot_key id (enc_snapshot \<lparr>sn_seq = 1, sn_object_format = ''sha1'', sn_refs = [],
        sn_head_target = [], sn_created_at = None\<rparr>))
     (enc_snapshot \<lparr>sn_seq = 1, sn_object_format = ''sha1'', sn_refs = [],
        sn_head_target = [], sn_created_at = None\<rparr>) =
   Inr \<lparr>sn_seq = 1, sn_object_format = ''sha1'', sn_refs = [], sn_head_target = [], sn_created_at = None\<rparr>"
proof -
  let ?s = "\<lparr>sn_seq = 1, sn_object_format = ''sha1'', sn_refs = [], sn_head_target = [], sn_created_at = None\<rparr>"
  have c: "canonicalize ?s = Inr ?s" by (simp add: canonicalize_def validate_def snapshot_oid_len_def)
  then have "encode_snapshot enc_snapshot ?s = Inr (enc_snapshot ?s)" by (simp add: encode_snapshot_def)
  with decode_verified_canonical [of dec_snapshot enc_snapshot id "[]" "enc_snapshot ?s" ?s ?s] c
  show ?thesis by (simp add: dec_enc_snapshot)
qed

text \<open>
  Retiring packs never takes one out of service: after the named packs are recorded as
  retired and removed from the live list, exactly the same checksums are served, and a checksum
  is retired at most once.
\<close>

lemma retire_keeps_serving:
  assumes "distinct (map rp_checksum (m_retired_packs m))"
  shows "(let m' = retire_packs_at cs seq at m;
              m'' = m' \<lparr>m_packs := filter (\<lambda>p. pk_checksum p \<notin> set cs) (m_packs m')\<rparr>
          in (\<forall>c. serves_pack m'' c = serves_pack m c) \<and> distinct (map rp_checksum (m_retired_packs m'')) \<and>
             prefix (m_retired_packs m) (m_retired_packs m''))"
proof -
  have "prefix ret (retire_loop cs seq at packs rec ret)" for packs rec ret
    by (induction packs arbitrary: rec ret) (auto intro: append_prefixD)
  moreover have "serves_pack (m \<lparr>m_retired_packs := retire_loop cs seq at (m_packs m)
      (rp_checksum ` set (m_retired_packs m)) (m_retired_packs m),
      m_packs := filter (\<lambda>p. pk_checksum p \<notin> set cs) (m_packs m)\<rparr>) c = serves_pack m c" for c
    unfolding serves_pack_iff by (auto simp: retire_loop_checksums)
  ultimately show ?thesis
    using retire_loop_distinct [OF assms, of "rp_checksum ` set (m_retired_packs m)"]
    by (simp add: retire_packs_at_def Let_def)
qed

end
