(* ===== verification/Refs.thy ===== *)
theory Refs
  imports Wal_Format
begin

text \<open>
  Refs: name and oid validation and the point-lookup view of a ref snapshot with pending changes
  (\<open>walgit-git/src/lib.rs\<close>), the verification and application of a ref transaction
  (\<open>walgit-wal/src/publish.rs\<close>) and the replay of transactions from the log
  (\<open>walgit-wal/src/log_reader.rs\<close>). \<open>binary_search\<close> is the halving loop of the standard
  library. \<open>RefView::get\<close> on \<open>HEAD\<close> calls itself on the symbolic target and does not
  return when that target is \<open>HEAD\<close> itself, hence \<open>partial_function\<close>.

  The lemmas: the view agrees with a plain map; verification accepts a transaction exactly when
  every old value is the current one; applying a transaction to the publisher's view and replaying
  it from the log give the same refs.
\<close>

text \<open>
  The \<open>{:?}\<close> form of a string in error messages, with the escapes for ASCII; text outside
  ASCII is shown as it is.
\<close>

definition debug_char :: "char \<Rightarrow> string" where
  "debug_char c =
     (if c = CHR 0x22 then [CHR 0x5C, CHR 0x22]
      else if c = CHR 0x5C then [CHR 0x5C, CHR 0x5C]
      else if c = CHR 0x0A then [CHR 0x5C, CHR ''n'']
      else if c = CHR 0x0D then [CHR 0x5C, CHR ''r'']
      else if c = CHR 0x09 then [CHR 0x5C, CHR ''t'']
      else if c = CHR 0x00 then [CHR 0x5C, CHR ''0'']
      else if c < CHR '' '' \<or> c = CHR 0x7F
      then [CHR 0x5C, CHR ''u'', CHR 0x7B] @ digits 16 (of_char c) @ [CHR 0x7D]
      else [c])"

definition debug_str :: "string \<Rightarrow> string" where
  "debug_str s = [CHR 0x22] @ concat (map debug_char s) @ [CHR 0x22]"

section \<open>Validation (walgit-git/src/lib.rs)\<close>

definition validate_ref_name :: "string \<Rightarrow> (git_error, unit) result" where
  "validate_ref_name name =
     (if name = ''HEAD'' then Inr ()
      else if name = [] \<or> \<not> starts_with name ''refs/''
        \<or> list_ex (\<lambda>b. b = CHR 0x00 \<or> b = CHR 0x0A \<or> b = CHR 0x0D \<or> b \<in> set '' ~^:?*['' \<or> b = CHR 0x5C) name
        \<or> str_contains name ''..'' \<or> str_contains name [CHR ''@'', CHR 0x7B]
        \<or> str_contains name ''//'' \<or> starts_with name ''/'' \<or> ends_with name ''/''
        \<or> ends_with name ''.'' \<or> ends_with name ''.lock''
      then Inl (GitInvalidInput (''invalid ref name '' @ debug_str name))
      else Inr ())"

definition validate_oid :: "string \<Rightarrow> (git_error, unit) result" where
  "validate_oid oid =
     (if oid = [] \<or> list_all (\<lambda>b. b = CHR ''0'') oid then Inr ()
      else if (length oid = 40 \<or> length oid = 64) \<and> list_all is_ascii_hexdigit oid then Inr ()
      else Inl (GitInvalidInput (''invalid oid '' @ debug_str oid)))"

definition validate_ref_update :: "ref_update \<Rightarrow> (git_error, unit) result" where
  "validate_ref_update u =
     (if u_new_symbolic_target u \<noteq> [] then
        (if u_name u \<noteq> ''HEAD''
         then Inl (GitInvalidInput (''symbolic update is only allowed for HEAD, got '' @ debug_str (u_name u)))
         else validate_ref_name (u_new_symbolic_target u))
      else case validate_ref_name (u_name u) of
        Inl e \<Rightarrow> Inl e
      | Inr _ \<Rightarrow> (case validate_oid (u_old_oid u) of
                   Inl e \<Rightarrow> Inl e
                 | Inr _ \<Rightarrow> validate_oid (u_new_oid u)))"

section \<open>Snapshot data and views\<close>

record ref_snapshot_data =
  rsd_refs :: "git_ref list"
  rsd_head_target :: string

definition snapshot_data_from :: "ref_snapshot \<Rightarrow> ref_snapshot_data" where
  "snapshot_data_from s =
     \<lparr>rsd_refs = map (\<lambda>r. \<lparr>r_name = r_name r, r_oid = r_oid r, r_peeled = r_peeled r\<rparr>) (sn_refs s),
      rsd_head_target = sn_head_target s\<rparr>"

definition snapshot_from_data :: "ref_snapshot_data \<Rightarrow> ref_snapshot" where
  "snapshot_from_data d =
     \<lparr>sn_seq = 0, sn_object_format = ''sha1'',
      sn_refs = map (\<lambda>r. \<lparr>r_name = r_name r, r_oid = r_oid r, r_peeled = r_peeled r\<rparr>) (rsd_refs d),
      sn_head_target = rsd_head_target d, sn_created_at = None\<rparr>"

record ls_refs_args =
  la_ref_prefixes :: "string list"
  la_symrefs :: bool
  la_peel :: bool
  la_unborn :: bool

record ls_refs_line =
  ll_name :: string
  ll_oid :: string
  ll_peeled :: string
  ll_symref_target :: "string option"

definition render :: "ls_refs_line \<Rightarrow> ls_refs_args \<Rightarrow> string" where
  "render l args =
     ll_oid l @ '' '' @ ll_name l @
     (case ll_symref_target l of
        Some t \<Rightarrow> if la_symrefs args \<or> ll_oid l = ''unborn'' then '' symref-target:'' @ t else []
      | None \<Rightarrow> []) @
     (if la_peel args \<and> ll_peeled l \<noteq> [] then '' peeled:'' @ ll_peeled l else []) @ [CHR 0x0A]"

datatype service = UploadPack | ReceivePack

definition service_from_str :: "string \<Rightarrow> (git_error, service) result" where
  "service_from_str s =
     (if s = ''git-upload-pack'' then Inr UploadPack
      else if s = ''git-receive-pack'' then Inr ReceivePack
      else Inl (GitInvalidInput (''unknown service '' @ s)))"

definition service_as_str :: "service \<Rightarrow> string" where
  "service_as_str s = (case s of UploadPack \<Rightarrow> ''git-upload-pack'' | ReceivePack \<Rightarrow> ''git-receive-pack'')"

text \<open>\<open>slice::binary_search_by\<close> on the ref names.\<close>

fun binary_search_loop :: "git_ref list \<Rightarrow> string \<Rightarrow> nat \<Rightarrow> nat \<Rightarrow> nat" where
  "binary_search_loop refs name base len =
     (if len > 1 then
        let half = len div 2; mid = base + half
        in binary_search_loop refs name (if name < r_name (refs ! mid) then base else mid) (len - half)
      else base)"

declare binary_search_loop.simps [simp del]

definition binary_search :: "git_ref list \<Rightarrow> string \<Rightarrow> nat option" where
  "binary_search refs name =
     (if refs = [] then None
      else let i = binary_search_loop refs name 0 (length refs)
           in if r_name (refs ! i) = name then Some i else None)"

record ref_view =
  rv_base :: ref_snapshot_data
  rv_overlay :: "string \<rightharpoonup> string option"
  rv_head_target :: "string option"

definition ref_view_new :: "ref_snapshot_data \<Rightarrow> ref_view" where
  "ref_view_new base = \<lparr>rv_base = base, rv_overlay = Map.empty, rv_head_target = None\<rparr>"

definition head_target :: "ref_view \<Rightarrow> string" where
  "head_target v = (case rv_head_target v of Some t \<Rightarrow> t | None \<Rightarrow> rsd_head_target (rv_base v))"

definition set_head_target :: "string \<Rightarrow> ref_view \<Rightarrow> ref_view" where
  "set_head_target t v = v \<lparr>rv_head_target := Some t\<rparr>"

partial_function (option) ref_view_get :: "ref_view \<Rightarrow> string \<Rightarrow> string option option" where
  "ref_view_get v name =
     (case rv_overlay v name of
        Some x \<Rightarrow> Some x
      | None \<Rightarrow>
          if name = ''HEAD'' then
            (if head_target v = [] then Some None else ref_view_get v (head_target v))
          else Some (map_option (\<lambda>i. r_oid (rsd_refs (rv_base v) ! i))
                 (binary_search (rsd_refs (rv_base v)) name)))"

text \<open>The value of a call that returns.\<close>

definition ref_get :: "ref_view \<Rightarrow> string \<Rightarrow> string option" where
  "ref_get v name = the (ref_view_get v name)"

definition head_oid :: "ref_view \<Rightarrow> string option" where
  "head_oid v = (if head_target v = [] then None else ref_get v (head_target v))"

definition ref_set :: "string \<Rightarrow> string \<Rightarrow> ref_view \<Rightarrow> ref_view" where
  "ref_set name value v = v \<lparr>rv_overlay := (rv_overlay v)(name \<mapsto> Some value)\<rparr>"

definition ref_remove :: "string \<Rightarrow> ref_view \<Rightarrow> ref_view" where
  "ref_remove name v = v \<lparr>rv_overlay := (rv_overlay v)(name \<mapsto> None)\<rparr>"

section \<open>Transactions (publish.rs)\<close>

datatype ref_error =
    NonFastForward
  | Conflict string string
  | Rejected string
  | MissingRef

definition is_null_oid :: "string \<Rightarrow> bool" where
  "is_null_oid hex \<longleftrightarrow> hex = [] \<or> list_all (\<lambda>b. b = CHR ''0'') hex"

definition unwrap_or_default :: "string option \<Rightarrow> string" where
  "unwrap_or_default x = (case x of None \<Rightarrow> [] | Some s \<Rightarrow> s)"

definition verify_update :: "ref_view \<Rightarrow> ref_update \<Rightarrow> string \<times> (ref_error, unit) result" where
  "verify_update refs u =
     (if u_new_symbolic_target u \<noteq> [] then (u_name u, Inr ())
      else let actual = unwrap_or_default (ref_get refs (u_name u));
               expected = u_old_oid u
           in if is_null_oid expected then
                (if actual = [] then (u_name u, Inr ())
                 else (u_name u, Inl (Conflict ''(new)'' actual)))
              else if actual = expected then (u_name u, Inr ())
              else (u_name u, Inl (Conflict expected actual)))"

definition verify_txn :: "ref_transaction \<Rightarrow> ref_view \<Rightarrow> (string \<times> (ref_error, unit) result) list" where
  "verify_txn txn refs = map (verify_update refs) (tx_updates txn)"

definition apply_update :: "ref_update \<Rightarrow> ref_view \<Rightarrow> ref_view" where
  "apply_update u refs =
     (if u_new_symbolic_target u \<noteq> [] then ref_set (u_name u) (u_new_symbolic_target u) refs
      else if is_null_oid (u_new_oid u) then ref_remove (u_name u) refs
      else ref_set (u_name u) (u_new_oid u) refs)"

definition apply_txn_to_map :: "ref_transaction \<Rightarrow> ref_view \<Rightarrow> ref_view" where
  "apply_txn_to_map txn refs = fold apply_update (tx_updates txn) refs"

section \<open>Replay (log_reader.rs)\<close>

definition replay_update ::
  "ref_update \<Rightarrow> (string, git_ref) btree \<times> string \<Rightarrow> (string, git_ref) btree \<times> string" where
  "replay_update u st =
     (case st of (m, head) \<Rightarrow>
        if u_new_symbolic_target u \<noteq> [] then
          (if u_name u = ''HEAD'' then (m, u_new_symbolic_target u) else (m, head))
        else if is_null_oid (u_new_oid u) then (bt_remove (u_name u) m, head)
        else (bt_insert (u_name u)
                \<lparr>r_name = u_name u, r_oid = u_new_oid u, r_peeled = u_new_peeled u\<rparr> m, head))"

datatype cut = CutTime system_time | CutSeq nat

definition past_cut :: "cut \<Rightarrow> log_entry \<Rightarrow> bool" where
  "past_cut c e =
     (case c of
        CutTime at \<Rightarrow> (case le_created_at e of None \<Rightarrow> False | Some t \<Rightarrow> to_system t > at)
      | CutSeq seq \<Rightarrow> le_seq e > seq)"

fun replay_entries ::
  "cut \<Rightarrow> log_entry list \<Rightarrow> (string, git_ref) btree \<times> string \<Rightarrow> nat \<Rightarrow>
     ((string, git_ref) btree \<times> string) \<times> nat" where
  "replay_entries c [] st last_seq = (st, last_seq)"
| "replay_entries c (e # es) st last_seq =
     (if past_cut c e then (st, last_seq)
      else replay_entries c es
             (case le_txn e of None \<Rightarrow> st | Some txn \<Rightarrow> fold replay_update (tx_updates txn) st)
             (le_seq e))"

text \<open>
  The end of \<open>replay_refs\<close>: from the starting snapshot (a usable checkpoint's, or the default
  one) and the log entries after it.
\<close>

definition replay_from ::
  "cut \<Rightarrow> string \<Rightarrow> ref_snapshot \<Rightarrow> nat \<Rightarrow> log_entry list \<Rightarrow> ref_snapshot \<times> nat" where
  "replay_from c object_format snap from_seq entries =
     (let m0 = fold (\<lambda>r. bt_insert (r_name r) r) (sn_refs snap) [];
          ((m, head), last_seq) = replay_entries c entries (m0, sn_head_target snap) from_seq
      in (\<lparr>sn_seq = last_seq, sn_object_format = object_format, sn_refs = map snd m,
           sn_head_target = head, sn_created_at = None\<rparr>, last_seq))"

section \<open>Binary search finds what a scan finds\<close>

abbreviation names_sorted :: "git_ref list \<Rightarrow> bool" where
  "names_sorted refs \<equiv> sorted_wrt (<) (map r_name refs)"

lemma names_sorted_less:
  "names_sorted refs \<Longrightarrow> i < j \<Longrightarrow> j < length refs \<Longrightarrow> r_name (refs ! i) < r_name (refs ! j)"
  by (auto simp: sorted_wrt_iff_nth_less)

lemma binary_search_loop_bounds:
  assumes "1 \<le> len" "base + len \<le> length refs"
  shows "binary_search_loop refs name base len < length refs"
  using assms
proof (induction refs name base len rule: binary_search_loop.induct)
  case (1 refs name base len)
  show ?case
  proof (cases "len > 1")
    case True
    then have "binary_search_loop refs name (if name < r_name (refs ! (base + len div 2)) then base
        else base + len div 2) (len - len div 2) < length refs"
      using 1 by (intro 1(1)) auto
    then show ?thesis using True by (subst binary_search_loop.simps) (simp add: Let_def)
  qed (use 1 in \<open>simp add: binary_search_loop.simps\<close>)
qed

lemma binary_search_loop_hit:
  assumes "names_sorted refs" "base \<le> j" "j < base + len" "base + len \<le> length refs" "r_name (refs ! j) = name"
  shows "binary_search_loop refs name base len = j"
  using assms
proof (induction refs name base len rule: binary_search_loop.induct)
  case (1 refs name base len)
  show ?case
  proof (cases "len > 1")
    case True
    let ?mid = "base + len div 2"
    have "name < r_name (refs ! ?mid) \<longleftrightarrow> j < ?mid"
    proof -
      have "?mid < length refs" using 1 True by simp
      then show ?thesis
        using 1(6) names_sorted_less [OF 1(2), of j ?mid] names_sorted_less [OF 1(2), of ?mid j] 1(4,5)
        by (cases j ?mid rule: linorder_cases) auto
    qed
    then have "binary_search_loop refs name (if name < r_name (refs ! ?mid) then base else ?mid) (len - len div 2) = j"
      using 1 True by (intro 1(1)) auto
    then show ?thesis using True by (subst binary_search_loop.simps) (simp add: Let_def)
  qed (use 1 in \<open>simp add: binary_search_loop.simps\<close>)
qed

lemma binary_search_find:
  assumes "names_sorted refs"
  shows "map_option ((!) refs) (binary_search refs name) = find (\<lambda>r. r_name r = name) refs"
proof (cases "\<exists>j < length refs. r_name (refs ! j) = name")
  case True
  then obtain j where j: "j < length refs" "r_name (refs ! j) = name" by blast
  then have "binary_search refs name = Some j"
    using binary_search_loop_hit [OF assms, of 0 j "length refs" name]
    by (auto simp: binary_search_def Let_def)
  moreover have "find (\<lambda>r. r_name r = name) refs = Some (refs ! j)"
    unfolding find_Some_iff using j names_sorted_less [OF assms] by (metis less_irrefl)
  ultimately show ?thesis by simp
next
  case False
  then have "binary_search refs name = None"
    using binary_search_loop_bounds [of "length refs" 0 refs name]
    by (auto simp: binary_search_def Let_def Suc_le_eq)
  moreover have "find (\<lambda>r. r_name r = name) refs = None"
    unfolding find_None_iff using False by (metis in_set_conv_nth)
  ultimately show ?thesis by simp
qed

section \<open>The view as a map\<close>

definition base_oid :: "ref_snapshot_data \<Rightarrow> string \<Rightarrow> string option" where
  "base_oid d name = map_option r_oid (find (\<lambda>r. r_name r = name) (rsd_refs d))"

definition ref_map :: "ref_view \<Rightarrow> string \<Rightarrow> string option" where
  "ref_map v name = (case rv_overlay v name of Some x \<Rightarrow> x | None \<Rightarrow> base_oid (rv_base v) name)"

definition view_ok :: "ref_view \<Rightarrow> bool" where
  "view_ok v \<longleftrightarrow> names_sorted (rsd_refs (rv_base v)) \<and> head_target v \<noteq> ''HEAD''"

lemma base_oid_search:
  "names_sorted (rsd_refs d) \<Longrightarrow>
     map_option (\<lambda>i. r_oid (rsd_refs d ! i)) (binary_search (rsd_refs d) n) = base_oid d n"
  unfolding base_oid_def binary_search_find [symmetric]
  by (simp add: binary_search_find [symmetric] option.map_comp comp_def)

lemma ref_view_get_plain:
  "names_sorted (rsd_refs (rv_base v)) \<Longrightarrow> n \<noteq> ''HEAD'' \<Longrightarrow> ref_view_get v n = Some (ref_map v n)"
  by (subst ref_view_get.simps) (simp add: base_oid_search ref_map_def split: option.splits)

lemma ref_view_get_head:
  "view_ok v \<Longrightarrow> rv_overlay v ''HEAD'' = None \<Longrightarrow>
     ref_view_get v ''HEAD'' = Some (if head_target v = [] then None else ref_map v (head_target v))"
  by (subst ref_view_get.simps) (simp add: view_ok_def ref_view_get_plain)

lemma ref_view_get_head_overlay:
  "rv_overlay v ''HEAD'' = Some x \<Longrightarrow> ref_view_get v ''HEAD'' = Some x"
  by (subst ref_view_get.simps) simp

lemma ref_view_get_returns:
  assumes "view_ok v"
  obtains x where "ref_view_get v n = Some x"
  using assms ref_view_get_plain [of v n] ref_view_get_head [of v] ref_view_get_head_overlay [of v]
  by (cases "n = ''HEAD''"; cases "rv_overlay v ''HEAD''") (auto simp: view_ok_def)

lemma ref_get_plain:
  "names_sorted (rsd_refs (rv_base v)) \<Longrightarrow> n \<noteq> ''HEAD'' \<Longrightarrow> ref_get v n = ref_map v n"
  by (simp add: ref_get_def ref_view_get_plain)

lemma ref_map_set [simp]: "ref_map (ref_set n x v) = (ref_map v)(n \<mapsto> x)"
  by (rule ext) (simp add: ref_map_def ref_set_def split: option.splits)

lemma ref_map_remove [simp]: "ref_map (ref_remove n v) = (ref_map v)(n := None)"
  by (rule ext) (simp add: ref_map_def ref_remove_def split: option.splits)

lemma apply_update_base [simp]:
  "rv_base (apply_update u v) = rv_base v" "rv_head_target (apply_update u v) = rv_head_target v"
  by (simp_all add: apply_update_def ref_set_def ref_remove_def)

lemma fold_apply_base [simp]:
  "rv_base (fold apply_update us v) = rv_base v" "rv_head_target (fold apply_update us v) = rv_head_target v"
  by (induction us arbitrary: v) simp_all

section \<open>Applying and replaying\<close>

lemma replay_update_map:
  assumes "u_new_symbolic_target u \<noteq> [] \<longrightarrow> u_name u = ''HEAD''" "n \<noteq> ''HEAD''"
    "map_option r_oid (bt_get (fst st) n) = ref_map v n"
  shows "map_option r_oid (bt_get (fst (replay_update u st)) n) = ref_map (apply_update u v) n"
  using assms by (cases st) (auto simp: replay_update_def apply_update_def)

lemma fold_replay_map:
  assumes "\<forall>u \<in> set us. u_new_symbolic_target u \<noteq> [] \<longrightarrow> u_name u = ''HEAD''" "n \<noteq> ''HEAD''"
    "map_option r_oid (bt_get (fst st) n) = ref_map v n"
  shows "map_option r_oid (bt_get (fst (fold replay_update us st)) n) = ref_map (fold apply_update us v) n"
  using assms
proof (induction us arbitrary: st v)
  case (Cons u us)
  have "map_option r_oid (bt_get (fst (replay_update u st)) n) = ref_map (apply_update u v) n"
    using Cons.prems by (intro replay_update_map) auto
  with Cons show ?case by simp
qed simp

lemma fold_bt_insert:
  "bt_get (fold (\<lambda>r. bt_insert (r_name r) r) refs m) =
     bt_get m ++ map_of (rev (map (\<lambda>r. (r_name r, r)) refs))"
  by (induction refs arbitrary: m) (simp_all add: map_add_def fun_eq_iff split: option.splits)

lemma map_of_find: "map_of (map (\<lambda>r. (r_name r, r)) refs) n = find (\<lambda>r. r_name r = n) refs"
  by (induction refs) auto

lemma map_of_rev_distinct:
  assumes "distinct (map fst xs)"
  shows "map_of (rev xs) = map_of xs"
proof
  fix k
  have "distinct (map fst (rev xs))" using assms by (simp add: rev_map [symmetric])
  then show "map_of (rev xs) k = map_of xs k"
    using assms
  proof (cases "map_of xs k")
    case None
    then have "map_of (rev xs) k = None" unfolding map_of_eq_None_iff by simp
    with None show ?thesis by simp
  qed (simp_all add: map_of_eq_Some_iff)
qed

lemma bt_of_refs:
  assumes "names_sorted refs"
  shows "bt_get (fold (\<lambda>r. bt_insert (r_name r) r) refs []) n = find (\<lambda>r. r_name r = n) refs"
proof -
  have "distinct (map fst (map (\<lambda>r. (r_name r, r)) refs))"
    using assms by (simp add: comp_def strict_sorted_iff)
  from map_of_rev_distinct [OF this] show ?thesis by (simp add: fold_bt_insert map_of_find)
qed

section \<open>Ref name validation\<close>

lemma split_on_append_gen: "split_on c (a @ c # b) = split_on c a @ split_on c b"
  by (induction a) (auto split: list.splits)

lemma split_on_extend:
  "c \<notin> set y \<Longrightarrow> split_on c (x @ y) = butlast (split_on c x) @ [last (split_on c x) @ y]"
proof (induction x)
  case Nil
  then show ?case by (simp add: split_on_none)
next
  case (Cons a x)
  then show ?case by (cases "split_on c x") auto
qed

lemma valid_ref_accepted:
  assumes "valid_ref name"
  shows "validate_ref_name name = Inr ()"
proof -
  let ?ok = "\<lambda>p. p \<noteq> [] \<and> \<not> starts_with p ''.'' \<and> \<not> ends_with p ''.lock''"
  from assms have c: "\<forall>p \<in> set (split_on (CHR ''/'') name). ?ok p"
    by (simp add: valid_ref_def list_all_iff)
  have "\<not> str_contains name ''//''"
  proof
    assume "str_contains name ''//''"
    then obtain a b where "name = a @ CHR ''/'' # CHR ''/'' # b" by (auto simp: sublist_def)
    then have "[] \<in> set (split_on (CHR ''/'') name)" by (simp add: split_on_append_gen)
    with c show False by blast
  qed
  moreover have "\<not> ends_with name ''.lock''"
  proof
    assume "ends_with name ''.lock''"
    then obtain x where "name = x @ ''.lock''" by (auto simp: suffix_def)
    then have "last (split_on (CHR ''/'') name) = last (split_on (CHR ''/'') x) @ ''.lock''"
      by (simp add: split_on_extend)
    moreover have "?ok (last (split_on (CHR ''/'') name))" using c by (simp add: last_in_set)
    ultimately show False by (simp add: suffix_def)
  qed
  moreover have "\<not> list_ex (\<lambda>b. b = CHR 0x00 \<or> b = CHR 0x0A \<or> b = CHR 0x0D \<or> b \<in> set '' ~^:?*['' \<or> b = CHR 0x5C) name"
  proof -
    have "CHR 0x00 \<le> CHR '' ''" "CHR 0x0A \<le> CHR '' ''" "CHR 0x0D \<le> CHR '' ''" by code_simp+
    moreover have "\<not> list_ex (\<lambda>b. b \<le> CHR '' '' \<or> b = CHR 0x7F \<or> b \<in> set ''~^:?*['' \<or> b = CHR 0x5C) name"
      using assms by (simp add: valid_ref_def)
    ultimately show ?thesis unfolding list_ex_iff by (metis order_refl set_ConsD list.set_intros)
  qed
  moreover from assms have "starts_with name ''refs/''" by (simp add: valid_ref_def)
  then have "name \<noteq> []" "\<not> starts_with name ''/''" by (auto simp: prefix_def)
  ultimately show ?thesis using assms unfolding validate_ref_name_def valid_ref_def by simp
qed

section \<open>Replayed snapshots\<close>

definition keyed :: "(string, git_ref) btree \<Rightarrow> bool" where
  "keyed m \<longleftrightarrow> (\<forall>(k, r) \<in> set m. k = r_name r)"

lemma keyed_find: "keyed m \<Longrightarrow> find (\<lambda>r. r_name r = n) (map snd m) = bt_get m n"
  by (induction m) (auto simp: keyed_def)

lemma keyed_names: "keyed m \<Longrightarrow> map r_name (map snd m) = map fst m"
  by (induction m) (auto simp: keyed_def)

lemma keyed_insert [simp]: "keyed m \<Longrightarrow> keyed (bt_insert (r_name r) r m)"
  using set_bt_insert [of "r_name r" r m] by (auto simp: keyed_def)

lemma keyed_remove [simp]: "keyed m \<Longrightarrow> keyed (bt_remove k m)"
  using set_bt_remove [of k m] by (auto simp: keyed_def)

lemma replay_update_ok:
  "bt_ok (fst st) \<and> keyed (fst st) \<Longrightarrow> bt_ok (fst (replay_update u st)) \<and> keyed (fst (replay_update u st))"
  using keyed_insert [of "fst st" "\<lparr>r_name = u_name u, r_oid = u_new_oid u, r_peeled = u_new_peeled u\<rparr>"]
  by (cases st) (auto simp: replay_update_def)

lemma fold_replay_ok:
  "bt_ok (fst st) \<and> keyed (fst st) \<Longrightarrow>
     bt_ok (fst (fold replay_update us st)) \<and> keyed (fst (fold replay_update us st))"
proof (induction us arbitrary: st)
  case (Cons u us)
  then show ?case using Cons.IH [OF replay_update_ok [OF Cons.prems, of u]] by simp
qed simp

lemma start_ok: "bt_ok m \<and> keyed m \<Longrightarrow> bt_ok (fold (\<lambda>r. bt_insert (r_name r) r) refs m) \<and>
    keyed (fold (\<lambda>r. bt_insert (r_name r) r) refs m)"
  by (induction refs arbitrary: m) auto

text \<open>The ref updates an entry carries, and what the publisher applied for it.\<close>

definition entry_updates :: "log_entry \<Rightarrow> ref_update list" where
  "entry_updates e = (case le_txn e of None \<Rightarrow> [] | Some txn \<Rightarrow> tx_updates txn)"

definition apply_entry :: "log_entry \<Rightarrow> ref_view \<Rightarrow> ref_view" where
  "apply_entry e v = (case le_txn e of None \<Rightarrow> v | Some txn \<Rightarrow> apply_txn_to_map txn v)"

lemma apply_entry_updates: "apply_entry e v = fold apply_update (entry_updates e) v"
  by (simp add: apply_entry_def entry_updates_def apply_txn_to_map_def split: option.splits)

lemma replay_entries_all:
  "list_all (\<lambda>e. \<not> past_cut c e) es \<Longrightarrow>
     fst (replay_entries c es st q) = fold replay_update (concat (map entry_updates es)) st"
  by (induction es arbitrary: st q) (simp_all add: entry_updates_def split: option.splits)

lemma apply_entries_all: "fold apply_entry es v = fold apply_update (concat (map entry_updates es)) v"
  by (induction es arbitrary: v) (simp_all add: apply_entry_updates)

lemma validated_symbolic:
  "validate_ref_update u = Inr () \<Longrightarrow> u_new_symbolic_target u \<noteq> [] \<longrightarrow> u_name u = ''HEAD''"
  by (auto simp: validate_ref_update_def split: if_splits)

text \<open>A push that creates \<open>main\<close>.\<close>

definition push_main :: log_entry where
  "push_main = default_log_entry \<lparr>le_seq := 1, le_txn := Some
     \<lparr>tx_updates = [\<lparr>u_name = ''refs/heads/main'', u_old_oid = [], u_new_oid = replicate 40 (CHR ''a''),
        u_new_symbolic_target = [], u_new_peeled = []\<rparr>], tx_push_options = [], tx_atomic = False\<rparr>\<rparr>"

definition empty_snapshot :: ref_snapshot where
  "empty_snapshot = \<lparr>sn_seq = 0, sn_object_format = ''sha1'', sn_refs = [],
     sn_head_target = ''refs/heads/main'', sn_created_at = None\<rparr>"

text \<open>Replaying entries over a snapshot gives what applying them to the view of the snapshot gives.\<close>

lemma replay_ref_map:
  assumes "names_sorted (sn_refs snap)"
    and "list_all (\<lambda>e. \<not> past_cut c e) es"
    and "list_all (\<lambda>e. list_all (\<lambda>u. validate_ref_update u = Inr ()) (entry_updates e)) es"
    and "n \<noteq> ''HEAD''"
  shows "map_option r_oid (find (\<lambda>r. r_name r = n) (sn_refs (fst (replay_from c fmt snap q es)))) =
      ref_map (fold apply_entry es (ref_view_new (snapshot_data_from snap))) n"
    and "names_sorted (sn_refs (fst (replay_from c fmt snap q es)))"
proof -
  let ?m0 = "fold (\<lambda>r. bt_insert (r_name r) r) (sn_refs snap) []"
  let ?st = "fold replay_update (concat (map entry_updates es)) (?m0, sn_head_target snap)"
  let ?v = "ref_view_new (snapshot_data_from snap)"
  have st: "sn_refs (fst (replay_from c fmt snap q es)) = map snd (fst ?st)"
    using replay_entries_all [OF assms(2), of "(?m0, sn_head_target snap)" q]
    by (simp add: replay_from_def case_prod_unfold Let_def)
  have "bt_ok ?m0 \<and> keyed ?m0" by (rule start_ok) (simp add: keyed_def)
  then have ok: "bt_ok (fst ?st)" "keyed (fst ?st)"
    using fold_replay_ok [of "(?m0, sn_head_target snap)"] by simp_all
  have "map_option r_oid (bt_get ?m0 n) = ref_map ?v n"
    by (simp add: bt_of_refs [OF assms(1)] ref_map_def ref_view_new_def base_oid_def
        snapshot_data_from_def map_idI)
  then have "map_option r_oid (bt_get (fst ?st) n) = ref_map (fold apply_entry es ?v) n"
    unfolding apply_entries_all using assms(3,4) validated_symbolic
    by (intro fold_replay_map) (auto simp: list_all_iff)
  then show "map_option r_oid (find (\<lambda>r. r_name r = n) (sn_refs (fst (replay_from c fmt snap q es)))) =
      ref_map (fold apply_entry es ?v) n" "names_sorted (sn_refs (fst (replay_from c fmt snap q es)))"
    using ok unfolding st by (simp_all add: keyed_find keyed_names del: map_map)
qed

section \<open>Properties\<close>

text \<open>
  C36. The publisher's view and the log agree on every ref: applying the transactions of log
  entries to the overlay a batch is verified against and replaying the entries over the same
  snapshot give the same oid for every ref name, and the replayed snapshot is strictly sorted.
\<close>

theorem view_agrees_with_replay:
  assumes "names_sorted (sn_refs snap)"
    and "list_all (\<lambda>e. \<not> past_cut c e) es"
    and "list_all (\<lambda>e. list_all (\<lambda>u. validate_ref_update u = Inr ()) (entry_updates e)) es"
    and "n \<noteq> ''HEAD''"
  shows "(let replayed = sn_refs (fst (replay_from c fmt snap q es)) in
    ref_get (fold apply_entry es (ref_view_new (snapshot_data_from snap))) n =
      map_option r_oid (find (\<lambda>r. r_name r = n) replayed) \<and> names_sorted replayed)"
proof -
  let ?v = "ref_view_new (snapshot_data_from snap)"
  have "rsd_refs (rv_base ?v) = sn_refs snap"
    by (simp add: ref_view_new_def snapshot_data_from_def map_idI)
  then have "ref_get (fold apply_entry es ?v) n = ref_map (fold apply_entry es ?v) n"
    using assms(1,4) by (intro ref_get_plain) (simp_all add: apply_entries_all)
  then show ?thesis using replay_ref_map [OF assms] by simp
qed

theorem view_agrees_with_replay_witness:
  "ref_get (fold apply_entry [push_main] (ref_view_new (snapshot_data_from empty_snapshot))) ''refs/heads/main'' =
     Some (replicate 40 (CHR ''a''))"
proof -
  have v: "list_all (\<lambda>e. list_all (\<lambda>u. validate_ref_update u = Inr ()) (entry_updates e)) [push_main]"
    by code_simp
  have "find (\<lambda>r. r_name r = ''refs/heads/main'')
      (sn_refs (fst (replay_from (CutSeq 5) ''sha1'' empty_snapshot 0 [push_main]))) =
    Some \<lparr>r_name = ''refs/heads/main'', r_oid = replicate 40 (CHR ''a''), r_peeled = []\<rparr>" by code_simp
  then show ?thesis
    using view_agrees_with_replay [OF _ _ v, of empty_snapshot "CutSeq 5" "''refs/heads/main''" "''sha1''" 0]
    by (simp add: empty_snapshot_def push_main_def past_cut_def)
qed

text \<open>
  Names that a push may use and names a checkpoint may hold differ: every ref name the
  snapshot format accepts is accepted by the push validation, but a name such as
  \<open>refs/heads/.x\<close> passes the push validation and makes every later snapshot of the
  repository invalid.
\<close>

lemma push_accepts_unsnapshotable_name:
  "(\<forall>name. valid_ref name \<longrightarrow> validate_ref_name name = Inr ()) \<and>
   validate_ref_name ''refs/heads/.x'' = Inr () \<and>
   (\<forall>s. ''refs/heads/.x'' \<in> r_name ` set (sn_refs s) \<longrightarrow> \<not> is_ok (canonicalize s))"
proof (intro conjI allI impI)
  show "validate_ref_name name = Inr ()" if "valid_ref name" for name
    using that by (rule valid_ref_accepted)
  show "validate_ref_name ''refs/heads/.x'' = Inr ()" by code_simp
  have bad: "\<not> valid_ref ''refs/heads/.x''" by code_simp
  show "\<not> is_ok (canonicalize s)" if x: "''refs/heads/.x'' \<in> r_name ` set (sn_refs s)" for s
  proof -
    have "validate s \<noteq> Inr ()"
    proof
      assume "validate s = Inr ()"
      then obtain k where "\<forall>r \<in> set (sn_refs s). valid_entry k r"
        by (auto simp: validate_def validate_refs_ok split: option.splits if_splits)
      with x bad show False by (auto simp: valid_entry_def)
    qed
    then show ?thesis by (auto simp: canonicalize_def is_ok_def split: sum.splits)
  qed
qed

end
