(* ===== verification/Codecs.thy ===== *)
theory Codecs
  imports Wal_Format
begin

text \<open>
  The messages are countable, so codecs for them exist: \<open>enc_countable\<close> and
  \<open>dec_countable\<close> at the type of a message are a codec that reads back every message. Witnesses
  use them where a theorem assumes a codec.
\<close>

instance timestamp_ext :: (countable) countable
  by (rule countable_classI [of "\<lambda>r. to_nat
     (ts_seconds r, ts_nanos r, timestamp.more r)"])
    (auto intro: timestamp.equality)

instance ref_update_ext :: (countable) countable
  by (rule countable_classI [of "\<lambda>r. to_nat
     (u_name r, u_old_oid r, u_new_oid r, u_new_symbolic_target r, u_new_peeled r,
      ref_update.more r)"])
    (auto intro: ref_update.equality)

instance ref_transaction_ext :: (countable) countable
  by (rule countable_classI [of "\<lambda>r. to_nat
     (tx_updates r, tx_push_options r, tx_atomic r, ref_transaction.more r)"])
    (auto intro: ref_transaction.equality)

instance git_ref_ext :: (countable) countable
  by (rule countable_classI [of "\<lambda>r. to_nat
     (r_name r, r_oid r, r_peeled r, git_ref.more r)"])
    (auto intro: git_ref.equality)

instance ref_snapshot_ext :: (countable) countable
  by (rule countable_classI [of "\<lambda>r. to_nat
     (sn_seq r, sn_object_format r, sn_refs r, sn_head_target r, sn_created_at r,
      ref_snapshot.more r)"])
    (auto intro: ref_snapshot.equality)

instance pack_group_coverage_ext :: (countable) countable
  by (rule countable_classI [of "\<lambda>r. to_nat
     (cov_group r, cov_ref_policy r, cov_covers_seq r, cov_packs r, cov_refs_key r,
      pack_group_coverage.more r)"])
    (auto intro: pack_group_coverage.equality)

instance pack_ref_ext :: (countable) countable
  by (rule countable_classI [of "\<lambda>r. to_nat
     (pk_checksum r, pk_pack_size r, pk_idx_size r, pk_has_rev r, pk_has_bitmap r,
      pk_object_count r, pk_seq r, pk_tier r, pk_has_commit_graph r, pk_kind r, pk_derived_from
      r, pk_covers_seq r, pk_published_at r, pk_audience r, pk_ref_policy r, pk_pack_groups r,
      pk_group_coverages r, pk_coverage_refs_key r, pack_ref.more r)"])
    (auto intro: pack_ref.equality)

instance retired_pack_ext :: (countable) countable
  by (rule countable_classI [of "\<lambda>r. to_nat
     (rp_checksum r, rp_retired_at r, rp_retired_seq r, retired_pack.more r)"])
    (auto intro: retired_pack.equality)

instance repo_access_ext :: (countable) countable
  by (rule countable_classI [of "\<lambda>r. to_nat
     (ac_visibility r, ac_collaborators r, ac_revision r, ac_author r, ac_updated_at r,
      ac_message r, repo_access.more r)"])
    (auto intro: repo_access.equality)

instance repo_settings_ext :: (countable) countable
  by (rule countable_classI [of "\<lambda>r. to_nat
     (st_toml r, st_revision r, st_author r, st_updated_at r, st_message r, repo_settings.more r)"])
    (auto intro: repo_settings.equality)

instance log_segment_ref_ext :: (countable) countable
  by (rule countable_classI [of "\<lambda>r. to_nat
     (sg_key r, sg_first_seq r, sg_last_seq r, sg_size r, sg_sealed r, log_segment_ref.more r)"])
    (auto intro: log_segment_ref.equality)

instance checkpoint_ref_ext :: (countable) countable
  by (rule countable_classI [of "\<lambda>r. to_nat
     (cp_seq r, cp_key r, cp_created_at r, cp_first_state_at r, cp_as_of r, cp_refs_key r,
      cp_forge_key r, cp_accounts_key r, checkpoint_ref.more r)"])
    (auto intro: checkpoint_ref.equality)

instance checkpoint_ext :: (countable) countable
  by (rule countable_classI [of "\<lambda>r. to_nat
     (ck_seq r, ck_object_format r, ck_packs r, ck_refs_key r, ck_ref_count r, ck_bundle_key r,
      ck_created_at r, ck_writer r, checkpoint.more r)"])
    (auto intro: checkpoint.equality)

instance manifest_ext :: (countable) countable
  by (rule countable_classI [of "\<lambda>r. to_nat
     (m_format_version r, m_repo r, m_object_format r, m_head_seq r, m_min_seq r, m_checkpoint
      r, m_log_segments r, m_packs r, m_updated_at r, m_writer r, m_revision r, m_settings r,
      m_retired_packs r, m_forge_next_number r, m_access r, manifest.more r)"])
    (auto intro: manifest.equality)

instance forge_opened_ext :: (countable) countable
  by (rule countable_classI [of "\<lambda>r. to_nat
     (op_kind r, op_title r, op_body r, op_labels r, op_assignees r, op_base_ref r, op_head_ref
      r, op_base_oid r, op_head_oid r, op_draft r, forge_opened.more r)"])
    (auto intro: forge_opened.equality)

instance forge_edit_change :: countable
  by countable_datatype

instance forge_state_change_ext :: (countable) countable
  by (rule countable_classI [of "\<lambda>r. to_nat
     (sc_closed r, sc_reason r, sc_base_oid r, sc_head_oid r, forge_state_change.more r)"])
    (auto intro: forge_state_change.equality)

instance forge_set_change_ext :: (countable) countable
  by (rule countable_classI [of "\<lambda>r. to_nat
     (set_add r, set_remove r, forge_set_change.more r)"])
    (auto intro: forge_set_change.equality)

instance forge_line_comment_ext :: (countable) countable
  by (rule countable_classI [of "\<lambda>r. to_nat
     (lc_path r, lc_side r, lc_line r, lc_body r, forge_line_comment.more r)"])
    (auto intro: forge_line_comment.equality)

instance forge_review_ext :: (countable) countable
  by (rule countable_classI [of "\<lambda>r. to_nat
     (rv_state r, rv_body r, rv_commit_oid r, rv_comments r, forge_review.more r)"])
    (auto intro: forge_review.equality)

instance forge_merged_ext :: (countable) countable
  by (rule countable_classI [of "\<lambda>r. to_nat
     (mg_method r, mg_merge_commit_oid r, mg_base_oid r, mg_head_oid r, forge_merged.more r)"])
    (auto intro: forge_merged.equality)

instance forge_label_ext :: (countable) countable
  by (rule countable_classI [of "\<lambda>r. to_nat
     (lb_name r, lb_color r, lb_description r, lb_deleted r, forge_label.more r)"])
    (auto intro: forge_label.equality)

instance forge_body :: countable
  by countable_datatype

instance forge_event_ext :: (countable) countable
  by (rule countable_classI [of "\<lambda>r. to_nat
     (fe_number r, fe_actor r, fe_actor_id r, fe_body r, forge_event.more r)"])
    (auto intro: forge_event.equality)

instance forge_record_ext :: (countable) countable
  by (rule countable_classI [of "\<lambda>r. to_nat
     (fr_seq r, fr_at r, fr_events r, forge_record.more r)"])
    (auto intro: forge_record.equality)

instance forge_history_ext :: (countable) countable
  by (rule countable_classI [of "\<lambda>r. to_nat
     (fh_seq r, fh_records r, forge_history.more r)"])
    (auto intro: forge_history.equality)

instance user_created_ext :: (countable) countable
  by (rule countable_classI [of "\<lambda>r. to_nat
     (uc_user_id r, uc_login r, uc_email r, uc_name r, uc_avatar_url r, user_created.more r)"])
    (auto intro: user_created.equality)

instance identity_linked_ext :: (countable) countable
  by (rule countable_classI [of "\<lambda>r. to_nat
     (il_user_id r, il_issuer r, il_subject r, identity_linked.more r)"])
    (auto intro: identity_linked.equality)

instance profile_changed_ext :: (countable) countable
  by (rule countable_classI [of "\<lambda>r. to_nat
     (pc_user_id r, pc_email r, pc_name r, pc_avatar_url r, profile_changed.more r)"])
    (auto intro: profile_changed.equality)

instance org_created_ext :: (countable) countable
  by (rule countable_classI [of "\<lambda>r. to_nat
     (oc_org_id r, oc_login r, oc_owners r, org_created.more r)"])
    (auto intro: org_created.equality)

instance org_owners_changed_ext :: (countable) countable
  by (rule countable_classI [of "\<lambda>r. to_nat
     (oo_org_id r, oo_owners r, org_owners_changed.more r)"])
    (auto intro: org_owners_changed.equality)

instance password_set_ext :: (countable) countable
  by (rule countable_classI [of "\<lambda>r. to_nat
     (ps_user_id r, ps_phc r, password_set.more r)"])
    (auto intro: password_set.equality)

instance account_body :: countable
  by countable_datatype

instance account_record_ext :: (countable) countable
  by (rule countable_classI [of "\<lambda>r. to_nat
     (ar_seq r, ar_at r, ar_events r, account_record.more r)"])
    (auto intro: account_record.equality)

instance account_history_ext :: (countable) countable
  by (rule countable_classI [of "\<lambda>r. to_nat
     (ah_seq r, ah_records r, account_history.more r)"])
    (auto intro: account_history.equality)

instance entry_kind :: countable
  by countable_datatype

instance log_entry_ext :: (countable) countable
  by (rule countable_classI [of "\<lambda>r. to_nat
     (le_seq r, le_kind r, le_pack r, le_txn r, le_supersedes r, le_checkpoint r, le_created_at
      r, le_writer r, le_meta r, le_settings r, le_forge r, le_account r, le_access r,
      log_entry.more r)"])
    (auto intro: log_entry.equality)

text \<open>Frames with unary length prefixes are read back whatever the length of the entries.\<close>

lemma unary_dec_enc [simp]: "unary_dec (unary_enc n @ rest) = Some (n, rest)"
  unfolding unary_enc_def by (induction n) simp_all

lemma decode_loop_unary:
  assumes "\<forall>e \<in> set es. dec (enc e) = Inr e" "length (encode_entries unary_enc enc es) + 1 < fuel"
  shows "decode_entries_loop unary_dec dec fuel (pre @ encode_entries unary_enc enc es) out (length pre) =
    Some (Inr (out @ es, length pre + length (encode_entries unary_enc enc es)))"
  using assms
proof (induction es arbitrary: fuel pre out)
  case Nil
  then show ?case by (cases fuel) simp_all
next
  case (Cons e es)
  then obtain f where f: "fuel = Suc f" by (cases fuel) auto
  have "decode_entries_loop unary_dec dec f ((pre @ unary_enc (length (enc e)) @ enc e) @ encode_entries unary_enc enc es)
      (out @ [e]) (length (pre @ unary_enc (length (enc e)) @ enc e)) =
    Some (Inr ((out @ [e]) @ es, length (pre @ unary_enc (length (enc e)) @ enc e) + length (encode_entries unary_enc enc es)))"
    using Cons.prems f by (intro Cons.IH) (simp_all add: unary_enc_def)
  then show ?case using Cons.prems by (simp add: f add.assoc)
qed

lemma decode_unary:
  assumes "\<forall>e \<in> set es. dec (enc e) = Inr e"
  shows "decode_entries unary_dec dec (encode_entries unary_enc enc es) =
    Some (Inr (es, length (encode_entries unary_enc enc es)))"
  using decode_loop_unary [OF assms, of "length (encode_entries unary_enc enc es) + 2" "[]" "[]"]
  by (simp add: decode_entries_def del: decode_entries_loop.simps)

end
