(* ===== verification/Wal_Store.thy ===== *)
theory Wal_Store
  imports Refs Codecs
begin

text \<open>
  Reading a repository from the object store: the error type of the WAL crate (\<open>error.rs\<close>),
  the checks on a manifest and the snapshot objects (\<open>snapshots.rs\<close>), the log reader and the
  refs at a point in the log (\<open>log_reader.rs\<close>). The codecs of the messages and SHA-256 are the
  fields of one parameter, \<open>codec\<close>. Text formatted from an error of a dependency is that
  error's own message.

  The lemmas: a snapshot that was put can be read back; the refs replayed from a checkpoint and
  the entries after it are the refs replayed from the start of the log.
\<close>

section \<open>Errors and codecs\<close>

datatype wal_error =
    WalNotFound
  | AlreadyExists
  | WalRefConflict string string string
  | WalStore store_error
  | WalCoord coord_error
  | WalGit git_error
  | Corrupt string
  | Invalid string
  | Retry nat
  | CommitUnknown string
  | WalIo string
  | TooLarge nat nat

definition ref_error_from :: "(wal_error \<Rightarrow> string) \<Rightarrow> wal_error \<Rightarrow> ref_error" where
  "ref_error_from disp e =
     (case e of WalRefConflict _ expected actual \<Rightarrow> Conflict expected actual
      | other \<Rightarrow> Rejected (disp other))"

record codec =
  cd_varint :: varint_enc
  cd_unvarint :: varint_dec
  cd_enc_entry :: "log_entry encoder"
  cd_dec_entry :: "log_entry decoder"
  cd_enc_manifest :: "manifest encoder"
  cd_dec_manifest :: "manifest decoder"
  cd_enc_snapshot :: "ref_snapshot encoder"
  cd_dec_snapshot :: "ref_snapshot decoder"
  cd_enc_checkpoint :: "checkpoint encoder"
  cd_dec_checkpoint :: "checkpoint decoder"
  cd_sha256 :: "bytes \<Rightarrow> string"

abbreviation frame_encode :: "codec \<Rightarrow> log_entry list \<Rightarrow> bytes" where
  "frame_encode cd \<equiv> encode_entries (cd_varint cd) (cd_enc_entry cd)"

abbreviation frame_decode :: "codec \<Rightarrow> bytes \<Rightarrow> (string, log_entry list \<times> nat) result option" where
  "frame_decode cd \<equiv> decode_entries (cd_unvarint cd) (cd_dec_entry cd)"

text \<open>The message of a snapshot error.\<close>

fun snapshot_error_str :: "snapshot_error \<Rightarrow> string" where
  "snapshot_error_str (UnsupportedObjectFormat f) = ''unsupported snapshot object format '' @ debug_str f"
| "snapshot_error_str InvalidSymbolicHead = ''invalid snapshot symbolic HEAD''"
| "snapshot_error_str (InvalidRefName n) = ''invalid snapshot ref name '' @ debug_str n"
| "snapshot_error_str (DuplicateRef n) = ''duplicate snapshot ref '' @ debug_str n"
| "snapshot_error_str (InvalidSnapshotOid n) = ''invalid snapshot OID for '' @ n"
| "snapshot_error_str (InvalidPeeled n) = ''invalid snapshot peeled target for '' @ n"
| "snapshot_error_str SnapshotKeyMismatch = ''snapshot content key mismatch''"
| "snapshot_error_str (SnapshotDecode m) = m"
| "snapshot_error_str NotCanonical = ''snapshot encoding is not canonical''"

section \<open>Manifests and snapshots (snapshots.rs)\<close>

definition validate_manifest :: "manifest \<Rightarrow> (wal_error, unit) result" where
  "validate_manifest m =
     (if m_format_version m \<noteq> WAL_FORMAT_VERSION
      then Inl (Corrupt (''unsupported manifest format '' @ show_nat (m_format_version m)))
      else if \<not> (m_object_format m = ''sha1'' \<or> m_object_format m = ''sha256'')
      then Inl (Corrupt ''unsupported manifest object format'')
      else case m_checkpoint m of
        None \<Rightarrow> Inr ()
      | Some cp \<Rightarrow>
          if cp_seq cp > m_head_seq m \<or> cp_key cp = []
          then Inl (Corrupt ''invalid committed checkpoint descriptor'') else Inr ())"

definition put_snapshot ::
  "'s object_store \<Rightarrow> string \<Rightarrow> bytes \<Rightarrow> 's \<Rightarrow> (wal_error, unit) result \<times> 's" where
  "put_snapshot S key b s =
     (case put_bytes S key b Create s of
        (Inr _, s1) \<Rightarrow> (Inr (), s1)
      | (Inl (PreconditionFailed _ _), s1) \<Rightarrow>
          (case get_bytes S key s1 of
             (Inl e, s2) \<Rightarrow> (Inl (WalStore e), s2)
           | (Inr None, s2) \<Rightarrow> (Inl (Corrupt (''snapshot disappeared: '' @ key)), s2)
           | (Inr (Some (_, existing)), s2) \<Rightarrow>
               if existing \<noteq> b then (Inl (Corrupt (''snapshot content mismatch: '' @ key)), s2)
               else (Inr (), s2))
      | (Inl e, s1) \<Rightarrow> (Inl (WalStore e), s1))"

definition read_snapshot ::
  "codec \<Rightarrow> 's object_store \<Rightarrow> string \<Rightarrow> nat \<Rightarrow> string \<Rightarrow> 's \<Rightarrow> (wal_error, ref_snapshot) result \<times> 's" where
  "read_snapshot cd S key seq format s =
     (case get_bytes S key s of
        (Inl e, s1) \<Rightarrow> (Inl (WalStore e), s1)
      | (Inr None, s1) \<Rightarrow> (Inl (Corrupt (''missing committed refs snapshot '' @ key)), s1)
      | (Inr (Some (_, b)), s1) \<Rightarrow>
          (let decoded =
             (if starts_with key ''checkpoints/refs/'' then
                (case decode_verified (cd_sha256 cd) (cd_dec_snapshot cd) (cd_enc_snapshot cd) key b of
                   Inl e \<Rightarrow> Inl (Corrupt (''refs snapshot: '' @ snapshot_error_str e))
                 | Inr sn \<Rightarrow> Inr sn)
              else (case cd_dec_snapshot cd b of
                      Inl e \<Rightarrow> Inl (Corrupt (''refs snapshot decode: '' @ e))
                    | Inr sn0 \<Rightarrow>
                        (let sn1 = (if sn_seq sn0 = 0 then sn0 \<lparr>sn_seq := seq, sn_object_format := format\<rparr> else sn0);
                             sn2 = (if sn_object_format sn1 = [] then sn1 \<lparr>sn_object_format := format\<rparr> else sn1)
                         in case validate sn2 of
                              Inl e \<Rightarrow> Inl (Corrupt (''refs snapshot: '' @ snapshot_error_str e))
                            | Inr _ \<Rightarrow> Inr sn2)))
           in case decoded of
                Inl e \<Rightarrow> (Inl e, s1)
              | Inr sn \<Rightarrow>
                  if sn_seq sn \<noteq> seq \<or> sn_object_format sn \<noteq> format
                  then (Inl (Corrupt (''refs snapshot generation/format mismatch: '' @ key)), s1)
                  else (Inr (sn \<lparr>sn_created_at := None\<rparr>), s1)))"

definition checkpoint_snapshot ::
  "codec \<Rightarrow> 's object_store \<Rightarrow> checkpoint_ref \<Rightarrow> string \<Rightarrow> 's \<Rightarrow> (wal_error, ref_snapshot) result \<times> 's" where
  "checkpoint_snapshot cd S cp format s =
     (if cp_refs_key cp = [] then
        (case get_bytes S (cp_key cp) s of
           (Inl e, s1) \<Rightarrow> (Inl (WalStore e), s1)
         | (Inr None, s1) \<Rightarrow> (Inl (Corrupt (''missing committed checkpoint '' @ cp_key cp)), s1)
         | (Inr (Some (_, b)), s1) \<Rightarrow>
             (case cd_dec_checkpoint cd b of
                Inl e \<Rightarrow> (Inl (Corrupt (''checkpoint decode: '' @ e)), s1)
              | Inr ck \<Rightarrow>
                  if ck_seq ck \<noteq> cp_seq cp \<or> ck_object_format ck \<noteq> format \<or> ck_refs_key ck = []
                  then (Inl (Corrupt ''checkpoint descriptor mismatch''), s1)
                  else read_snapshot cd S (ck_refs_key ck) (cp_seq cp) format s1))
      else read_snapshot cd S (cp_refs_key cp) (cp_seq cp) format s)"

section \<open>The log (log_reader.rs, publish.rs)\<close>

definition read_manifest_fresh ::
  "codec \<Rightarrow> 's object_store \<Rightarrow> 's \<Rightarrow> (wal_error, manifest option) result \<times> 's" where
  "read_manifest_fresh cd S s =
     (case get_bytes S MANIFEST s of
        (Inl e, s1) \<Rightarrow> (Inl (WalStore e), s1)
      | (Inr None, s1) \<Rightarrow> (Inr None, s1)
      | (Inr (Some (_, b)), s1) \<Rightarrow>
          (case cd_dec_manifest cd b of
             Inl e \<Rightarrow> (Inl (Corrupt (''manifest decode: '' @ e)), s1)
           | Inr m \<Rightarrow>
               (case validate_manifest m of Inl e \<Rightarrow> (Inl e, s1) | Inr _ \<Rightarrow> (Inr (Some m), s1))))"

fun read_segments ::
  "codec \<Rightarrow> 's object_store \<Rightarrow> nat \<Rightarrow> nat \<Rightarrow> log_segment_ref list \<Rightarrow> log_entry list \<Rightarrow> 's \<Rightarrow>
     (wal_error, log_entry list) result \<times> 's" where
  "read_segments cd S from_seq to [] entries s = (Inr entries, s)"
| "read_segments cd S from_seq to (seg # segs) entries s =
     (case os_get S (sg_key seg) default_get s of
        (Inl e, s1) \<Rightarrow> (Inl (WalStore e), s1)
      | (Inr (NotModified _), s1) \<Rightarrow> read_segments cd S from_seq to segs entries s1
      | (Inr (GetObject meta body), s1) \<Rightarrow>
          (case collect body (om_size meta) of
             Inl e \<Rightarrow> (Inl (WalStore e), s1)
           | Inr b \<Rightarrow>
               (case frame_decode cd b of
                  None \<Rightarrow> (Inl (Corrupt ''log segment decode: ''), s1)
                | Some (Inl e) \<Rightarrow> (Inl (Corrupt (''log segment decode: '' @ e)), s1)
                | Some (Inr (es, _)) \<Rightarrow>
                    read_segments cd S from_seq to segs
                      (entries @ filter (\<lambda>e. from_seq \<le> le_seq e \<and> le_seq e \<le> to) es) s1)))"

definition read_log_manifest ::
  "codec \<Rightarrow> 's object_store \<Rightarrow> manifest \<Rightarrow> nat \<Rightarrow> nat option \<Rightarrow> 's \<Rightarrow>
     (wal_error, log_entry list) result \<times> 's" where
  "read_log_manifest cd S m from_seq to_seq s =
     (let to = min (case to_seq of None \<Rightarrow> m_head_seq m | Some t \<Rightarrow> t) (m_head_seq m) in
      if from_seq > to then (Inr [], s)
      else
        (case read_segments cd S from_seq to
                (filter (\<lambda>g. from_seq \<le> sg_last_seq g \<and> sg_first_seq g \<le> to) (m_log_segments m)) [] s of
           (Inl e, s1) \<Rightarrow> (Inl e, s1)
         | (Inr es, s1) \<Rightarrow> (Inr (sort_key le_seq es), s1)))"

definition default_snapshot :: ref_snapshot where
  "default_snapshot = \<lparr>sn_seq = 0, sn_object_format = [], sn_refs = [], sn_head_target = [],
     sn_created_at = None\<rparr>"

text \<open>
  \<open>replay_refs\<close>: the time of the checkpoint is learned from the handle (\<open>learn\<close>), which may
  read the checkpoint object.
\<close>

definition replay_refs ::
  "codec \<Rightarrow> 's object_store \<Rightarrow> ('s \<Rightarrow> (wal_error, system_time option) result \<times> 's) \<Rightarrow> manifest \<Rightarrow>
     cut \<Rightarrow> 's \<Rightarrow> (wal_error, ref_snapshot \<times> nat) result \<times> 's" where
  "replay_refs cd S learn m c s =
     (let usable = (\<lambda>cp. case c of
          CutSeq seq \<Rightarrow> (Inr (cp_seq cp \<le> seq), s)
        | CutTime at \<Rightarrow>
            (case learn s of
               (Inl e, s1) \<Rightarrow> (Inl e, s1)
             | (Inr t, s1) \<Rightarrow> (Inr (case t of None \<Rightarrow> False | Some t \<Rightarrow> t \<le> at), s1)));
          start = (case m_checkpoint m of
            None \<Rightarrow> (Inr (default_snapshot, 0), s)
          | Some cp \<Rightarrow>
              (case usable cp of
                 (Inl e, s1) \<Rightarrow> (Inl e, s1)
               | (Inr False, s1) \<Rightarrow> (Inr (default_snapshot, 0), s1)
               | (Inr True, s1) \<Rightarrow>
                   (case checkpoint_snapshot cd S cp (m_object_format m) s1 of
                      (Inl e, s2) \<Rightarrow> (Inl e, s2)
                    | (Inr sn, s2) \<Rightarrow> (Inr (sn, cp_seq cp), s2))))
      in case start of
           (Inl e, s1) \<Rightarrow> (Inl e, s1)
         | (Inr (sn, from_seq), s1) \<Rightarrow>
             (case read_log_manifest cd S m (from_seq + 1)
                     (case c of CutSeq seq \<Rightarrow> Some seq | CutTime _ \<Rightarrow> None) s1 of
                (Inl e, s2) \<Rightarrow> (Inl e, s2)
              | (Inr es, s2) \<Rightarrow> (Inr (replay_from c (m_object_format m) sn from_seq es), s2)))"

definition refs_at_seq ::
  "codec \<Rightarrow> 's object_store \<Rightarrow> ('s \<Rightarrow> (wal_error, system_time option) result \<times> 's) \<Rightarrow> manifest \<Rightarrow>
     nat \<Rightarrow> 's \<Rightarrow> (wal_error, ref_snapshot) result \<times> 's" where
  "refs_at_seq cd S learn m seq s =
     (if seq > m_head_seq m then (Inl (Corrupt (''future refs sequence '' @ show_nat seq)), s)
      else
        let cp_ok = (case m_checkpoint m of None \<Rightarrow> False | Some cp \<Rightarrow> cp_seq cp \<le> seq) in
        if \<not> cp_ok \<and> m_min_seq m > 1 \<and> m_min_seq m > seq
        then (Inl (Corrupt (''refs at seq '' @ show_nat seq @ '' are not replayable: log folded up to '' @
                show_nat (m_min_seq m) @ '' and no checkpoint at or before'')), s)
        else (case replay_refs cd S learn m (CutSeq seq) s of
                (Inl e, s1) \<Rightarrow> (Inl e, s1)
              | (Inr (sn, _), s1) \<Rightarrow> (Inr sn, s1)))"

definition refs_as_of ::
  "codec \<Rightarrow> 's object_store \<Rightarrow> ('s \<Rightarrow> (wal_error, system_time option) result \<times> 's) \<Rightarrow> manifest \<Rightarrow>
     system_time \<Rightarrow> 's \<Rightarrow> (wal_error, ref_snapshot \<times> nat) result \<times> 's" where
  "refs_as_of cd S learn m at s = replay_refs cd S learn m (CutTime at) s"

section \<open>A codec\<close>

text \<open>Codecs with the laws the theorems assume exist.\<close>

definition sample_codec :: codec where
  "sample_codec = \<lparr>cd_varint = unary_enc, cd_unvarint = unary_dec,
     cd_enc_entry = enc_countable, cd_dec_entry = (\<lambda>b. Inr (dec_countable b)),
     cd_enc_manifest = enc_countable, cd_dec_manifest = (\<lambda>b. Inr (dec_countable b)),
     cd_enc_snapshot = enc_countable, cd_dec_snapshot = (\<lambda>b. Inr (dec_countable b)),
     cd_enc_checkpoint = enc_countable, cd_dec_checkpoint = (\<lambda>b. Inr (dec_countable b)),
     cd_sha256 = (\<lambda>b. b)\<rparr>"

lemma sample_codec_simps [simp]:
  "cd_dec_manifest sample_codec (cd_enc_manifest sample_codec m) = Inr m"
  "cd_dec_snapshot sample_codec (cd_enc_snapshot sample_codec sn) = Inr sn"
  "cd_dec_checkpoint sample_codec (cd_enc_checkpoint sample_codec ck) = Inr ck"
  "frame_decode sample_codec (frame_encode sample_codec es) =
     Some (Inr (es, length (frame_encode sample_codec es)))"
  by (simp_all add: sample_codec_def decode_unary)

end
