(* ===== verification/Log_Slot.thy ===== *)
theory Log_Slot
  imports Wal_Store
begin

text \<open>
  Claiming a log slot (\<open>walgit-wal/src/publish.rs\<close>): the immutable upload of pack files, the
  candidate segment with its publication nonce, the claim loop that burns orphaned sequence
  numbers, the sweeping of burned segments, the removal of the writer's own segment after a lost
  CAS and the check after an ambiguous one. The UUIDs of the attempts are a function of the
  attempt number. The claim loop retries for as long as other writers free the slot between its
  operations, hence \<open>partial_function\<close>; the inner probe loop ends after three probes.

  The lemmas: on a store nobody else writes, claiming returns, and it skips exactly the orphaned
  segments.
\<close>

section \<open>Pack references and uploads\<close>

record ingested_pack =
  ip_checksum :: string
  ip_pack_size :: nat
  ip_idx_size :: nat
  ip_object_count :: nat
  ip_pack_file :: "(store_error, bytes) result"
  ip_idx_file :: "(store_error, bytes) result"

definition pack_ref_from_ingested :: "ingested_pack \<Rightarrow> nat \<Rightarrow> timestamp \<Rightarrow> pack_ref" where
  "pack_ref_from_ingested p seq now =
     default_pack_ref \<lparr>pk_checksum := ip_checksum p, pk_pack_size := ip_pack_size p,
       pk_idx_size := ip_idx_size p, pk_has_rev := False, pk_has_bitmap := False,
       pk_has_commit_graph := False, pk_object_count := ip_object_count p, pk_seq := seq,
       pk_tier := 0, pk_kind := PACK_KIND_OBJECTS, pk_derived_from := [], pk_published_at := Some now\<rparr>"

record pack_info =
  pi_checksum :: string
  pi_pack_size :: nat
  pi_idx_size :: nat
  pi_object_count :: nat
  pi_has_rev :: bool
  pi_has_bitmap :: bool
  pi_has_commit_graph :: bool
  pi_history_of :: "string option"

definition pack_ref_from_info :: "pack_info \<Rightarrow> nat \<Rightarrow> nat \<Rightarrow> timestamp \<Rightarrow> pack_ref" where
  "pack_ref_from_info p seq tier now =
     default_pack_ref \<lparr>pk_checksum := pi_checksum p, pk_pack_size := pi_pack_size p,
       pk_idx_size := pi_idx_size p, pk_has_rev := pi_has_rev p, pk_has_bitmap := pi_has_bitmap p,
       pk_has_commit_graph := pi_has_commit_graph p, pk_object_count := pi_object_count p,
       pk_seq := seq, pk_tier := tier,
       pk_kind := (if pi_history_of p \<noteq> None then PACK_KIND_HISTORY else PACK_KIND_OBJECTS),
       pk_derived_from := unwrap_or_default (pi_history_of p), pk_published_at := Some now\<rparr>"

text \<open>
  \<open>put_immutable_create\<close> for a file below the size from which an upload is striped.
\<close>

definition put_immutable_create ::
  "'s object_store \<Rightarrow> string \<Rightarrow> (store_error, bytes) result \<Rightarrow> 's \<Rightarrow> (wal_error, unit) result \<times> 's" where
  "put_immutable_create S key file s =
     (case os_put S key (PutFile file) ((put_options_from Create) \<lparr>po_immutable := True\<rparr>) s of
        (Inr _, s1) \<Rightarrow> (Inr (), s1)
      | (Inl (PreconditionFailed _ _), s1) \<Rightarrow>
          (case os_head S key s1 of
             (Inl e, s2) \<Rightarrow> (Inl (WalStore e), s2)
           | (Inr (Some _), s2) \<Rightarrow> (Inr (), s2)
           | (Inr None, s2) \<Rightarrow>
               (case os_put S key (PutFile file) ((put_options_from Overwrite) \<lparr>po_immutable := True\<rparr>) s2 of
                  (Inl e, s3) \<Rightarrow> (Inl (WalStore e), s3)
                | (Inr _, s3) \<Rightarrow> (Inr (), s3)))
      | (Inl e, s1) \<Rightarrow> (Inl (WalStore e), s1))"

definition upload_pack :: "'s object_store \<Rightarrow> ingested_pack \<Rightarrow> 's \<Rightarrow> (wal_error, unit) result \<times> 's" where
  "upload_pack S p s =
     (case put_immutable_create S (pack_key (ip_checksum p)) (ip_pack_file p) s of
        (Inl e, s1) \<Rightarrow> (Inl e, s1)
      | (Inr _, s1) \<Rightarrow> put_immutable_create S (idx_key (ip_checksum p)) (ip_idx_file p) s1)"

section \<open>Slots\<close>

record log_slot =
  sl_key :: string
  sl_version :: version
  sl_first_seq :: nat
  sl_bytes :: bytes
  sl_burned :: "(string \<times> version) list"

datatype claim_outcome = Claimed log_slot | Contended

definition ORPHAN_GRACE_PROBES :: nat where "ORPHAN_GRACE_PROBES = 3"
definition MAX_BURN :: nat where "MAX_BURN = 8"

definition NONCE_META :: string where "NONCE_META = ''walgit.publication_nonce''"

text \<open>The segment to write: the encoded entries, checked, with the nonce in the first one.\<close>

definition candidate :: "codec \<Rightarrow> bytes \<Rightarrow> string \<Rightarrow> (wal_error, bytes) result" where
  "candidate cd encoded nonce =
     (case frame_decode cd encoded of
        None \<Rightarrow> Inl (Corrupt ''candidate log: '')
      | Some (Inl e) \<Rightarrow> Inl (Corrupt (''candidate log: '' @ e))
      | Some (Inr (entries, consumed)) \<Rightarrow>
          (if consumed \<noteq> length encoded then Inl (Corrupt ''incomplete candidate log'')
           else case entries of
             [] \<Rightarrow> Inl (Corrupt ''incomplete candidate log'')
           | e # es \<Rightarrow> Inr (frame_encode cd (e \<lparr>le_meta := bt_insert NONCE_META nonce (le_meta e)\<rparr> # es))))"

text \<open>What the probe of an occupied slot finds: a committed entry, a free slot, or an orphan.\<close>

datatype probe = ProbeContended | ProbeFree | ProbeOrphan version

function probe_loop ::
  "codec \<Rightarrow> 's object_store \<Rightarrow> string \<Rightarrow> nat \<Rightarrow> nat \<Rightarrow> 's \<Rightarrow> (wal_error, probe) result \<times> 's" where
  "probe_loop cd S key seq probes s =
     (case read_manifest_fresh cd S s of
        (Inl e, s1) \<Rightarrow> (Inl e, s1)
      | (Inr fresh, s1) \<Rightarrow>
          if (case fresh of None \<Rightarrow> 0 | Some m \<Rightarrow> m_head_seq m) \<ge> seq then (Inr ProbeContended, s1)
          else (case os_head S key s1 of
                  (Inl e, s2) \<Rightarrow> (Inl (WalStore e), s2)
                | (Inr None, s2) \<Rightarrow> (Inr ProbeFree, s2)
                | (Inr (Some m), s2) \<Rightarrow>
                    if probes + 1 \<ge> ORPHAN_GRACE_PROBES then (Inr (ProbeOrphan (om_version m)), s2)
                    else probe_loop cd S key seq (probes + 1) s2))"
  by pat_completeness auto

termination
  by (relation "measure (\<lambda>(_, _, _, _, probes, _). ORPHAN_GRACE_PROBES - probes)") auto

declare probe_loop.simps [simp del]

partial_function (option) claim_loop ::
  "codec \<Rightarrow> 's object_store \<Rightarrow> nat \<Rightarrow> (nat \<Rightarrow> bytes) \<Rightarrow> (nat \<Rightarrow> string) \<Rightarrow> nat \<Rightarrow> nat \<Rightarrow>
     (string \<times> version) list \<Rightarrow> 's \<Rightarrow> ((wal_error, claim_outcome) result \<times> 's) option" where
  "claim_loop cd S head_seq encode nonce i seq burned s =
     (case candidate cd (encode seq) (nonce i) of
        Inl e \<Rightarrow> Some (Inl e, s)
      | Inr b \<Rightarrow>
          (case put_bytes S (log_segment_key seq) b Create s of
             (r, s1) \<Rightarrow>
               (case r of
                  Inr meta \<Rightarrow>
                    Some (Inr (Claimed \<lparr>sl_key = log_segment_key seq, sl_version = om_version meta,
                      sl_first_seq = seq, sl_bytes = b, sl_burned = burned\<rparr>), s1)
                | Inl e \<Rightarrow>
                    if \<not> is_precondition_failed e then Some (Inl (WalStore e), s1)
                    else
                      (case probe_loop cd S (log_segment_key seq) seq 0 s1 of
                         (p, s2) \<Rightarrow>
                           (case p of
                              Inl e \<Rightarrow> Some (Inl e, s2)
                            | Inr p \<Rightarrow>
                                (case p of
                                   ProbeContended \<Rightarrow> Some (Inr Contended, s2)
                                 | ProbeFree \<Rightarrow> claim_loop cd S head_seq encode nonce (i + 1) seq burned s2
                                 | ProbeOrphan v \<Rightarrow>
                                     if length burned + 1 \<ge> MAX_BURN
                                     then Some (Inl (Corrupt (show_nat MAX_BURN @
                                       '' consecutive orphaned log segments from seq '' @ show_nat (head_seq + 1))), s2)
                                     else claim_loop cd S head_seq encode nonce (i + 1) (seq + 1)
                                            (burned @ [(log_segment_key seq, v)]) s2))))))"

definition claim_log_slot ::
  "codec \<Rightarrow> 's object_store \<Rightarrow> nat \<Rightarrow> (nat \<Rightarrow> bytes) \<Rightarrow> (nat \<Rightarrow> string) \<Rightarrow> 's \<Rightarrow>
     ((wal_error, claim_outcome) result \<times> 's) option" where
  "claim_log_slot cd S head_seq encode nonce s =
     claim_loop cd S head_seq encode nonce 0 (head_seq + 1) [] s"

definition sweep_burned :: "'s object_store \<Rightarrow> log_slot \<Rightarrow> 's \<Rightarrow> 's" where
  "sweep_burned S slot s = fold (\<lambda>(key, v) s. snd (os_delete S key (Some v) s)) (sl_burned slot) s"

definition drop_own_slot :: "'s object_store \<Rightarrow> log_slot \<Rightarrow> 's \<Rightarrow> 's" where
  "drop_own_slot S slot s = snd (os_delete S (sl_key slot) (Some (sl_version slot)) s)"

definition cas_landed ::
  "codec \<Rightarrow> 's object_store \<Rightarrow> log_slot \<Rightarrow> 's \<Rightarrow> (wal_error, (manifest \<times> version) option) result \<times> 's" where
  "cas_landed cd S slot s =
     (case get_message (cd_dec_manifest cd) S MANIFEST s of
        (Inl e, s1) \<Rightarrow> (Inl (WalCoord e), s1)
      | (Inr None, s1) \<Rightarrow> (Inr None, s1)
      | (Inr (Some (meta, m)), s1) \<Rightarrow>
          (case validate_manifest m of
             Inl e \<Rightarrow> (Inl e, s1)
           | Inr _ \<Rightarrow>
               if \<not> list_ex (\<lambda>g. sg_key g = sl_key slot \<and> sg_first_seq g = sl_first_seq slot \<and>
                      sg_size g = length (sl_bytes slot)) (m_log_segments m)
               then (Inr None, s1)
               else (case get_bytes S (sl_key slot) s1 of
                       (Inl e, s2) \<Rightarrow> (Inl (WalStore e), s2)
                     | (Inr None, s2) \<Rightarrow> (Inr None, s2)
                     | (Inr (Some (_, b)), s2) \<Rightarrow>
                         (if b = sl_bytes slot then (Inr (Some (m, om_version meta)), s2)
                          else (Inr None, s2)))))"

section \<open>Claiming on a quiet store\<close>

text \<open>The head sequence number a fresh read of the manifest finds, if it is readable.\<close>

definition head_at :: "codec \<Rightarrow> (version \<times> bytes) option \<Rightarrow> nat option" where
  "head_at cd vd =
     (case vd of
        None \<Rightarrow> Some 0
      | Some (_, d) \<Rightarrow>
          (case cd_dec_manifest cd d of
             Inl _ \<Rightarrow> None
           | Inr m \<Rightarrow> (case validate_manifest m of Inl _ \<Rightarrow> None | Inr _ \<Rightarrow> Some (m_head_seq m))))"

context versioned_store begin

lemma delete_other:
  assumes "os_delete S k w s = (r, s')" "k' \<noteq> k"
  shows "view s' k' = view s k'"
proof (cases "view s k")
  case None
  then show ?thesis
    using assms delete_absent [OF None] delete_missing [OF None] by (cases w) (auto, metis prod.inject)
next
  case (Some vd)
  then obtain v d where vd: "view s k = Some (v, d)" by (cases vd) auto
  show ?thesis
  proof (cases "w = None \<or> w = Some v")
    case True
    then show ?thesis using assms delete_accepted [OF vd True] by auto
  next
    case False
    then obtain x where "w = Some x" "v \<noteq> x" by auto
    then show ?thesis using assms delete_refused [OF vd] by (metis prod.inject)
  qed
qed

lemma read_manifest_quiet:
  assumes "head_at cd (view s MANIFEST) = Some h"
  obtains fm where "read_manifest_fresh cd S s = (Inr fm, s)"
    "(case fm of None \<Rightarrow> 0 | Some m \<Rightarrow> m_head_seq m) = h"
proof (cases "view s MANIFEST")
  case None
  then show ?thesis using that [of None] assms by (simp add: read_manifest_fresh_def get_bytes_view head_at_def)
next
  case (Some vd)
  then obtain v d m where "vd = (v, d)" "cd_dec_manifest cd d = Inr m" "validate_manifest m = Inr ()" "m_head_seq m = h"
    using assms by (cases vd) (auto simp: head_at_def split: sum.splits)
  then show ?thesis using that [of "Some m"] Some by (simp add: read_manifest_fresh_def get_bytes_view)
qed

lemma probe_quiet:
  assumes "head_at cd (view s MANIFEST) = Some h"
  shows "probe_loop cd S key seq probes s =
    (Inr (if h \<ge> seq then ProbeContended
          else case view s key of None \<Rightarrow> ProbeFree | Some (v, _) \<Rightarrow> ProbeOrphan v), s)"
proof (induction "ORPHAN_GRACE_PROBES - probes" arbitrary: probes rule: less_induct)
  case less
  obtain fm where f: "read_manifest_fresh cd S s = (Inr fm, s)"
    "(case fm of None \<Rightarrow> 0 | Some m \<Rightarrow> m_head_seq m) = h"
    using read_manifest_quiet [OF assms] .
  show ?case
  proof (cases "h \<ge> seq \<or> view s key = None \<or> probes + 1 \<ge> ORPHAN_GRACE_PROBES")
    case True
    then show ?thesis
      by (subst probe_loop.simps) (auto simp: f head_view object_meta_of_def split: option.splits)
  next
    case False
    then have "probe_loop cd S key seq probes s = probe_loop cd S key seq (probes + 1) s"
      by (subst probe_loop.simps) (auto simp: f head_view)
    also have "\<dots> = (Inr (if h \<ge> seq then ProbeContended
        else case view s key of None \<Rightarrow> ProbeFree | Some (v, _) \<Rightarrow> ProbeOrphan v), s)"
    proof (rule less)
      have "probes + 1 < ORPHAN_GRACE_PROBES" using False by simp
      then show "ORPHAN_GRACE_PROBES - (probes + 1) < ORPHAN_GRACE_PROBES - probes" by simp
    qed
    finally show ?thesis .
  qed
qed

lemma claim_loop_free:
  assumes "candidate cd (encode seq) (nonce i) = Inr b" "view s (log_segment_key seq) = None"
  shows "\<exists>v s'. claim_loop cd S head_seq encode nonce i seq burned s =
      Some (Inr (Claimed \<lparr>sl_key = log_segment_key seq, sl_version = v, sl_first_seq = seq,
        sl_bytes = b, sl_burned = burned\<rparr>), s') \<and>
    view s' = (view s)(log_segment_key seq \<mapsto> (v, b))"
proof -
  have a: "put_allowed Create (map_option fst (view s (log_segment_key seq)))"
    using assms(2) by (simp add: put_allowed_def)
  obtain v s' where "put_bytes S (log_segment_key seq) b Create s = (Inr (object_meta_of (log_segment_key seq) (v, b)), s')"
    "view s' = (view s)(log_segment_key seq \<mapsto> (v, b))"
    using put_bytes_accepted [OF a] by metis
  then show ?thesis using assms(1) by (simp add: claim_loop.simps object_meta_of_def)
qed

lemma claim_loop_orphan:
  assumes "candidate cd (encode seq) (nonce i) = Inr b" "view s (log_segment_key seq) = Some (v, d)"
    "head_at cd (view s MANIFEST) = Some h" "h < seq" "length burned + 1 < MAX_BURN"
  shows "claim_loop cd S head_seq encode nonce i seq burned s =
    claim_loop cd S head_seq encode nonce (i + 1) (seq + 1) (burned @ [(log_segment_key seq, v)]) s"
proof -
  have a: "\<not> put_allowed Create (map_option fst (view s (log_segment_key seq)))"
    using assms(2) by (simp add: put_allowed_def)
  obtain k' where "put_bytes S (log_segment_key seq) b Create s =
      (Inl (PreconditionFailed k' (map_option fst (view s (log_segment_key seq)))), s)"
    using put_bytes_refused [OF a] by metis
  then show ?thesis
    by (subst claim_loop.simps)
      (use assms in \<open>simp add: probe_quiet [OF assms(3)] is_precondition_failed_def\<close>)
qed

text \<open>With fewer than \<open>MAX_BURN\<close> orphans after the head, the claim gets the first free slot.\<close>

lemma claim_loop_quiet:
  assumes "\<forall>q j. \<exists>b. candidate cd (encode q) (nonce j) = Inr b"
    "head_at cd (view s MANIFEST) = Some h" "h < seq" "length burned + n < MAX_BURN"
    "\<forall>q \<in> {seq..<seq + n}. view s (log_segment_key q) \<noteq> None" "view s (log_segment_key (seq + n)) = None"
  shows "\<exists>v b s'. claim_loop cd S head_seq encode nonce i seq burned s =
      Some (Inr (Claimed \<lparr>sl_key = log_segment_key (seq + n), sl_version = v, sl_first_seq = seq + n,
        sl_bytes = b, sl_burned = burned @ map (\<lambda>q. (log_segment_key q, fst (the (view s (log_segment_key q))))) [seq..<seq + n]\<rparr>), s') \<and>
      view s' = (view s)(log_segment_key (seq + n) \<mapsto> (v, b))"
  using assms
proof (induction n arbitrary: i seq burned)
  case 0
  then obtain b where "candidate cd (encode seq) (nonce i) = Inr b" by blast
  with claim_loop_free [of cd encode seq nonce i b s head_seq burned] 0 obtain v s' where
    "claim_loop cd S head_seq encode nonce i seq burned s =
      Some (Inr (Claimed \<lparr>sl_key = log_segment_key seq, sl_version = v, sl_first_seq = seq,
        sl_bytes = b, sl_burned = burned\<rparr>), s')" "view s' = (view s)(log_segment_key seq \<mapsto> (v, b))" by auto
  then show ?case by (intro exI [of _ v] exI [of _ b] exI [of _ s']) simp
next
  case (Suc n)
  obtain b where b: "candidate cd (encode seq) (nonce i) = Inr b" using Suc.prems by blast
  obtain v d where v: "view s (log_segment_key seq) = Some (v, d)" using Suc.prems(5) by force
  have "claim_loop cd S head_seq encode nonce i seq burned s =
    claim_loop cd S head_seq encode nonce (i + 1) (seq + 1) (burned @ [(log_segment_key seq, v)]) s"
    using Suc.prems using claim_loop_orphan [of cd encode seq nonce i b s v d h burned head_seq] b v by simp
  moreover have "[seq..<seq + Suc n] = seq # [seq + 1..<(seq + 1) + n]"
    by (subst upt_conv_Cons) simp_all
  ultimately show ?case
    using Suc.IH [of "seq + 1" "burned @ [(log_segment_key seq, v)]" "i + 1"] Suc.prems
    by (simp add: v del: upt_Suc)
qed

end

section \<open>Properties\<close>

text \<open>
  C10. Crashed writers do not block a repository: on a store nobody else is writing, with fewer
  than eight orphaned segments after the committed head, claiming a log slot returns; it takes the
  first free sequence number, records exactly the orphans it skipped with the versions it saw, and
  writes nothing but its own segment.
\<close>

theorem claim_skips_orphans:
  assumes "\<forall>q j. \<exists>b. candidate cd (encode q) (nonce j) = Inr b"
    "head_at cd (ms_view s (p @ MANIFEST)) = Some h" "n < MAX_BURN"
    "\<forall>q \<in> {h + 1..<h + 1 + n}. ms_view s (p @ log_segment_key q) \<noteq> None"
    "ms_view s (p @ log_segment_key (h + 1 + n)) = None"
  shows "\<exists>v b s'. claim_log_slot cd (prefixed p memory_store) h encode nonce s =
      Some (Inr (Claimed \<lparr>sl_key = log_segment_key (h + 1 + n), sl_version = v, sl_first_seq = h + 1 + n,
        sl_bytes = b, sl_burned = map (\<lambda>q. (log_segment_key q, fst (the (ms_view s (p @ log_segment_key q)))))
          [h + 1..<h + 1 + n]\<rparr>), s') \<and>
      (\<forall>k. ms_view s' (p @ k) = (if k = log_segment_key (h + 1 + n) then Some (v, b) else ms_view s (p @ k)))"
  using pre.claim_loop_quiet [OF assms(1,2), of "h + 1" "[]" n h 0] assms(3-5)
  by (auto simp: claim_log_slot_def fun_eq_iff simp del: upt_Suc)

text \<open>A store where a writer crashed after writing segment 1.\<close>

definition orphan_store :: memory_state where
  "orphan_store = snd (put_bytes (prefixed ''r/'' memory_store) (log_segment_key 1) ''x'' Create memory_new)"

lemma orphan_store_view:
  "ms_view orphan_store (''r/'' @ k) = (if k = log_segment_key 1 then Some (''1'', ''x'') else None)"
proof -
  have "put_bytes (prefixed ''r/'' memory_store) (log_segment_key 1) ''x'' Create memory_new =
    (Inr (object_meta_of (log_segment_key 1) (''1'', ''x'')), orphan_store)"
    unfolding orphan_store_def by code_simp
  from pre.put_bytes_Inr(3) [OF this] have
    "(\<lambda>k. ms_view orphan_store (''r/'' @ k)) = (\<lambda>k. ms_view memory_new (''r/'' @ k))(log_segment_key 1 \<mapsto> (''1'', ''x''))"
    by (simp add: object_meta_of_def)
  then show ?thesis by (simp add: fun_eq_iff ms_view_def memory_new_def)
qed

theorem claim_skips_orphans_witness:
  "\<exists>v b s'. claim_log_slot sample_codec (prefixed ''r/'' memory_store) 0
      (\<lambda>q. frame_encode sample_codec [default_log_entry \<lparr>le_seq := q\<rparr>]) (\<lambda>_. ''n'') orphan_store =
    Some (Inr (Claimed \<lparr>sl_key = log_segment_key 2, sl_version = v, sl_first_seq = 2,
      sl_bytes = b, sl_burned = [(log_segment_key 1, ''1'')]\<rparr>), s')"
proof -
  have "\<forall>q j. \<exists>b. candidate sample_codec (frame_encode sample_codec [default_log_entry \<lparr>le_seq := q\<rparr>]) ''n'' = Inr b"
    by (simp add: candidate_def del: encode_entries_simps)
  moreover have "head_at sample_codec (ms_view orphan_store (''r/'' @ MANIFEST)) = Some 0"
    unfolding orphan_store_view by (simp add: head_at_def)
  moreover have "(1 :: nat) < MAX_BURN" by (simp add: MAX_BURN_def)
  moreover have "\<forall>q \<in> {0 + 1..<0 + 1 + 1}. ms_view orphan_store (''r/'' @ log_segment_key q) \<noteq> None"
    unfolding orphan_store_view by auto
  moreover have "ms_view orphan_store (''r/'' @ log_segment_key (0 + 1 + 1)) = None"
    unfolding orphan_store_view by simp
  ultimately show ?thesis
    using claim_skips_orphans [of sample_codec
        "\<lambda>q. frame_encode sample_codec [default_log_entry \<lparr>le_seq := q\<rparr>]" "\<lambda>_. ''n''" orphan_store "''r/''" 0 1]
    unfolding orphan_store_view numeral_2_eq_2 by (auto simp del: append_Cons append_Nil encode_entries_simps)
qed

end
