(* ===== verification/Access.thy ===== *)
theory Access
  imports Refs
begin

text \<open>
  Repository roles (\<open>walgit-wal/src/access.rs\<close>). Roles are linearly ordered, each including
  the ones below it, so the library's \<open>max\<close> and order lemmas apply to them. Enum values of the
  protobuf messages are integers; an unknown visibility reads as the default, \<open>Public\<close>.
\<close>

datatype role = RNone | RRead | RTriage | RWrite | RMaintain | RAdmin

datatype visibility = Public | Internal | Private

fun role_rank :: "role \<Rightarrow> nat" where
  "role_rank RNone = 0"
| "role_rank RRead = 1"
| "role_rank RTriage = 2"
| "role_rank RWrite = 3"
| "role_rank RMaintain = 4"
| "role_rank RAdmin = 5"

lemma role_rank_inject: "role_rank a = role_rank b \<Longrightarrow> a = b"
  by (cases a; cases b) simp_all

instantiation role :: linorder
begin

definition less_eq_role :: "role \<Rightarrow> role \<Rightarrow> bool" where
  "less_eq_role a b \<longleftrightarrow> role_rank a \<le> role_rank b"

definition less_role :: "role \<Rightarrow> role \<Rightarrow> bool" where
  "less_role a b \<longleftrightarrow> role_rank a < role_rank b"

instance
  by standard (auto simp: less_eq_role_def less_role_def intro: role_rank_inject)

end

text \<open>\<open>AccessRole::try_from\<close> followed by \<open>Role::from_proto\<close>, and \<open>Role::to_proto\<close>.\<close>

definition role_from_proto :: "int \<Rightarrow> role option" where
  "role_from_proto n =
     (if n = 0 then Some RNone else if n = 1 then Some RRead else if n = 2 then Some RTriage
      else if n = 3 then Some RWrite else if n = 4 then Some RMaintain
      else if n = 5 then Some RAdmin else None)"

definition role_to_proto :: "role \<Rightarrow> int" where
  "role_to_proto r = int (role_rank r)"

fun role_as_str :: "role \<Rightarrow> string" where
  "role_as_str RNone = ''none''"
| "role_as_str RRead = ''read''"
| "role_as_str RTriage = ''triage''"
| "role_as_str RWrite = ''write''"
| "role_as_str RMaintain = ''maintain''"
| "role_as_str RAdmin = ''admin''"

definition role_parse :: "string \<Rightarrow> role option" where
  "role_parse s =
     (if s = ''read'' then Some RRead else if s = ''triage'' then Some RTriage
      else if s = ''write'' then Some RWrite else if s = ''maintain'' then Some RMaintain
      else if s = ''admin'' then Some RAdmin else None)"

fun visibility_str :: "visibility \<Rightarrow> string" where
  "visibility_str Public = ''public''"
| "visibility_str Internal = ''internal''"
| "visibility_str Private = ''private''"

definition parse_visibility :: "string \<Rightarrow> visibility option" where
  "parse_visibility s =
     (if s = ''public'' then Some Public else if s = ''internal'' then Some Internal
      else if s = ''private'' then Some Private else None)"

definition access_visibility :: "repo_access \<Rightarrow> visibility" where
  "access_visibility a =
     (if ac_visibility a = 1 then Internal else if ac_visibility a = 2 then Private else Public)"

record asker =
  as_user_id :: "string option"
  as_owner_admin :: bool

definition collaborator_role :: "repo_access option \<Rightarrow> asker \<Rightarrow> role" where
  "collaborator_role access who =
     (case as_user_id who of
        None \<Rightarrow> RNone
      | Some i \<Rightarrow>
          (case access of
             None \<Rightarrow> RNone
           | Some a \<Rightarrow>
               (case bt_get (ac_collaborators a) i of
                  None \<Rightarrow> RNone
                | Some n \<Rightarrow> (case role_from_proto n of None \<Rightarrow> RNone | Some r \<Rightarrow> r))))"

definition visibility_floor :: "repo_access option \<Rightarrow> asker \<Rightarrow> bool \<Rightarrow> role" where
  "visibility_floor access who anonymous_read =
     (case (case access of None \<Rightarrow> Public | Some a \<Rightarrow> access_visibility a) of
        Public \<Rightarrow> if as_user_id who \<noteq> None \<or> anonymous_read then RRead else RNone
      | Internal \<Rightarrow> if as_user_id who \<noteq> None then RRead else RNone
      | Private \<Rightarrow> RNone)"

definition role :: "repo_access option \<Rightarrow> asker \<Rightarrow> bool \<Rightarrow> role" where
  "role access who anonymous_read =
     (if as_owner_admin who then RAdmin
      else max (collaborator_role access who) (visibility_floor access who anonymous_read))"

lemma role_bounds [simp]: "RNone \<le> r" "r \<le> RAdmin"
  by (cases r; simp add: less_eq_role_def)+

lemma role_from_to_proto [simp]: "role_from_proto (role_to_proto r) = Some r"
  by (cases r) (simp_all add: role_from_proto_def role_to_proto_def)

lemma role_parse_as_str: "role_parse (role_as_str r) = (if r = RNone then None else Some r)"
  by (cases r) (simp_all add: role_parse_def)

lemma visibility_parse_str [simp]: "parse_visibility (visibility_str v) = Some v"
  by (cases v) (simp_all add: parse_visibility_def)

lemma visibility_floor_le: "visibility_floor access who anon \<le> RRead"
  by (cases "case access of None \<Rightarrow> Public | Some a \<Rightarrow> access_visibility a")
    (simp_all add: visibility_floor_def less_eq_role_def)

text \<open>
  Write access is never given by visibility: an asker who may write is an owner or site
  administrator, or an account that the repository's access document lists with at least the
  write role. So removing that entry takes write access away.
\<close>

lemma write_needs_grant:
  assumes "RWrite \<le> role access who anon"
  shows "as_owner_admin who \<or>
    (\<exists>a i n r. access = Some a \<and> as_user_id who = Some i \<and> bt_get (ac_collaborators a) i = Some n \<and>
       role_from_proto n = Some r \<and> RWrite \<le> r)"
proof (cases "as_owner_admin who")
  case False
  have "\<not> RWrite \<le> visibility_floor access who anon"
    using visibility_floor_le [of access who anon] by (auto simp: less_eq_role_def)
  with assms False have "RWrite \<le> collaborator_role access who"
    by (simp add: role_def le_max_iff_disj)
  moreover have "\<not> RWrite \<le> RNone" by (simp add: less_eq_role_def)
  ultimately show ?thesis
    by (auto simp: collaborator_role_def split: option.splits)
qed simp

end
