(* ===== verification/Forge.thy ===== *)
theory Forge
  imports Access
begin

unbundle bit_operations_syntax

text \<open>
  Issues and pull requests folded from the log (\<open>walgit-wal/src/forge.rs\<close>): the folded state,
  one function per event kind inside \<open>apply_item\<close>, the cross references derived from text, the
  preconditions the publisher checks (\<open>forge_verify\<close>), numbering and search. The rendering
  of times (\<open>chrono\<close>), Unicode letter classes outside ASCII and Unicode lower-casing are
  parameters. A comment id is the 64-bit value \<open>seq << 10 | i\<close>.

  The lemmas: a state restored from a checkpoint's history and advanced over the rest of the log
  is the state folded from the whole log; a merged pull request stays closed under verified
  requests; a reader cannot change another author's item.
\<close>

section \<open>State\<close>

record line_comment =
  lcm_path :: string
  lcm_side :: string
  lcm_line :: nat
  lcm_body :: string

datatype timeline =
    TComment string bool bool
  | TClosed string
  | TReopened
  | TRenamed string string
  | TLabeled "string list" "string list"
  | TAssigned "string list" "string list"
  | TMerged string string
  | TDraft bool
  | TReferenced nat
  | TReview string string string "line_comment list"

record timeline_item =
  ti_id :: nat
  ti_actor :: string
  ti_actor_id :: string
  ti_at :: string
  ti_event :: timeline

record item =
  it_number :: nat
  it_kind :: string
  it_title :: string
  it_body :: string
  it_edited :: bool
  it_author :: string
  it_author_id :: string
  it_state :: string
  it_state_reason :: string
  it_labels :: "string set"
  it_assignees :: "string set"
  it_created_at :: string
  it_updated_at :: string
  it_closed_at :: "string option"
  it_comments :: nat
  it_base_ref :: string
  it_head_ref :: string
  it_base_oid :: string
  it_head_oid :: string
  it_review_decision :: string
  it_merged :: bool
  it_draft :: bool
  it_merge_commit :: string
  it_reviews :: "(string, string) btree"
  it_timeline :: "timeline_item list"

record label_def =
  ld_name :: string
  ld_color :: string
  ld_description :: string

record forge_state =
  fs_seq :: nat
  fs_items :: "(nat, item) btree"
  fs_labels :: "(string, label_def) btree"
  fs_records :: "forge_record list"

definition default_forge_state :: forge_state where
  "default_forge_state = \<lparr>fs_seq = 0, fs_items = [], fs_labels = [], fs_records = []\<rparr>"

record actor =
  act_login :: string
  act_user_id :: string
  act_owner_admin :: bool

definition actor_role :: "actor \<Rightarrow> repo_access option \<Rightarrow> role" where
  "actor_role a access =
     role access
       \<lparr>as_user_id = (if act_user_id a = [] then None else Some (act_user_id a)),
        as_owner_admin = act_owner_admin a\<rparr> False"

definition actor_is :: "actor \<Rightarrow> string \<Rightarrow> string \<Rightarrow> bool" where
  "actor_is a i name = (if i = [] then name = act_login a else i = act_user_id a)"

section \<open>Text\<close>

text \<open>The characters of UTF-8 text: a lead byte with the continuation bytes after it.\<close>

fun utf8_chars :: "string \<Rightarrow> string list" where
  "utf8_chars [] = []"
| "utf8_chars (b # bs) =
     (case utf8_chars bs of
        [] \<Rightarrow> [[b]]
      | c # cs \<Rightarrow>
          (case bs of
             [] \<Rightarrow> [[b]]
           | n # _ \<Rightarrow> if is_continuation_byte n then (b # c) # cs else [b] # c # cs))"

definition is_alphanumeric :: "(string \<Rightarrow> bool) \<Rightarrow> string \<Rightarrow> bool" where
  "is_alphanumeric uni c =
     (case c of [b] \<Rightarrow> if of_char b < (128 :: nat) then is_ascii_alphanumeric b else uni c | _ \<Rightarrow> uni c)"

text \<open>\<open>str::parse::<u64>\<close> of a run of ASCII digits.\<close>

definition parse_u64 :: "string \<Rightarrow> nat option" where
  "parse_u64 s =
     (if s = [] then None
      else let n = foldl (\<lambda>n b. n * 10 + (of_char b - 48)) 0 s in if n < 2 ^ 64 then Some n else None)"

fun mentions_loop :: "(string \<Rightarrow> bool) \<Rightarrow> string \<Rightarrow> string list \<Rightarrow> nat list" where
  "mentions_loop uni prev [] = []"
| "mentions_loop uni prev (c # cs) =
     (let here =
        (if c = ''#'' \<and> \<not> (is_alphanumeric uni prev \<or> prev = ''&'' \<or> prev = ''/'' \<or> prev = ''#'')
         then (case parse_u64 (takeWhile is_ascii_digit (concat cs)) of None \<Rightarrow> [] | Some n \<Rightarrow> [n])
         else [])
      in here @ mentions_loop uni c cs)"

definition mentions :: "(string \<Rightarrow> bool) \<Rightarrow> string \<Rightarrow> nat list" where
  "mentions uni text = remdups_adj (sort (mentions_loop uni '' '' (utf8_chars text)))"

fun tokens_loop :: "string list \<Rightarrow> string \<Rightarrow> bool \<Rightarrow> string list" where
  "tokens_loop [] cur in_quotes = (if cur = [] then [] else [cur])"
| "tokens_loop (c # cs) cur in_quotes =
     (if c = [CHR 0x22] then tokens_loop cs cur (\<not> in_quotes)
      else if c \<in> set white_space \<and> \<not> in_quotes then
        (if cur = [] then tokens_loop cs [] in_quotes else cur # tokens_loop cs [] in_quotes)
      else tokens_loop cs (cur @ c) in_quotes)"

definition tokens :: "string \<Rightarrow> string list" where
  "tokens q = tokens_loop (utf8_chars q) [] False"

section \<open>Applying events\<close>

text \<open>Applies a set change; returns what actually changed.\<close>

fun insert_all :: "string list \<Rightarrow> string set \<Rightarrow> string list \<times> string set" where
  "insert_all [] st = ([], st)"
| "insert_all (v # vs) st =
     (if v \<in> st then insert_all vs st
      else let (added, st') = insert_all vs (insert v st) in (v # added, st'))"

fun remove_all_set :: "string list \<Rightarrow> string set \<Rightarrow> string list \<times> string set" where
  "remove_all_set [] st = ([], st)"
| "remove_all_set (v # vs) st =
     (if v \<in> st then (let (removed, st') = remove_all_set vs (st - {v}) in (v # removed, st'))
      else remove_all_set vs st)"

definition change_set ::
  "string set \<Rightarrow> forge_set_change \<Rightarrow> (string list \<times> string list) \<times> string set" where
  "change_set st c =
     (let (added, st1) = insert_all (set_add c) st;
          (removed, st2) = remove_all_set (set_remove c) st1
      in ((added, removed), st2))"

definition FORGE_ISSUE :: int where "FORGE_ISSUE = 1"
definition FORGE_PULL :: int where "FORGE_PULL = 2"

definition opened_item :: "string \<Rightarrow> forge_event \<Rightarrow> forge_opened \<Rightarrow> item" where
  "opened_item at ev q =
     \<lparr>it_number = fe_number ev,
      it_kind = (if op_kind q = FORGE_PULL then ''pull'' else ''issue''),
      it_title = op_title q, it_body = op_body q, it_edited = False,
      it_author = fe_actor ev, it_author_id = fe_actor_id ev, it_state = ''open'',
      it_state_reason = [], it_labels = set (op_labels q), it_assignees = set (op_assignees q),
      it_created_at = at, it_updated_at = at, it_closed_at = None, it_comments = 0,
      it_base_ref = op_base_ref q, it_head_ref = op_head_ref q, it_base_oid = op_base_oid q,
      it_head_oid = op_head_oid q, it_review_decision = [], it_merged = False,
      it_draft = op_draft q, it_merge_commit = [], it_reviews = [], it_timeline = []\<rparr>"

definition push_timeline :: "nat \<Rightarrow> string \<Rightarrow> forge_event \<Rightarrow> timeline \<Rightarrow> item \<Rightarrow> item" where
  "push_timeline i at ev event it =
     it \<lparr>it_timeline := it_timeline it @
       [\<lparr>ti_id = i, ti_actor = fe_actor ev, ti_actor_id = fe_actor_id ev, ti_at = at, ti_event = event\<rparr>]\<rparr>"

text \<open>The first timeline item with the id is edited, if it is a comment.\<close>

fun edit_comment ::
  "nat \<Rightarrow> forge_edit_change option \<Rightarrow> timeline_item list \<Rightarrow> nat \<Rightarrow> timeline_item list \<times> nat" where
  "edit_comment cid change [] comments = ([], comments)"
| "edit_comment cid change (t # ts) comments =
     (if ti_id t = cid then
        (case ti_event t of
           TComment body edited deleted \<Rightarrow>
             (case change of
                Some (EBody b) \<Rightarrow> (t \<lparr>ti_event := TComment b True deleted\<rparr> # ts, comments)
              | Some (EDeleted True) \<Rightarrow>
                  if \<not> deleted then (t \<lparr>ti_event := TComment [] edited True\<rparr> # ts, comments - 1)
                  else (t # ts, comments)
              | _ \<Rightarrow> (t # ts, comments))
         | _ \<Rightarrow> (t # ts, comments))
      else let (ts', n) = edit_comment cid change ts comments in (t # ts', n))"

definition review_decision :: "(string, string) btree \<Rightarrow> string" where
  "review_decision reviews =
     (if list_ex (\<lambda>(_, st). st = ''changes_requested'') reviews then ''changes_requested''
      else if list_ex (\<lambda>(_, st). st = ''approved'') reviews then ''approved'' else [])"

definition apply_item :: "nat \<Rightarrow> string \<Rightarrow> forge_event \<Rightarrow> forge_body \<Rightarrow> item \<Rightarrow> item" where
  "apply_item i at ev body it0 =
     (let it = it0 \<lparr>it_updated_at := at\<rparr>; push = push_timeline i at ev in
      case body of
        Opened _ \<Rightarrow> it
      | Label _ \<Rightarrow> it
      | Draft d \<Rightarrow> push (TDraft d) (it \<lparr>it_draft := d\<rparr>)
      | Comment b \<Rightarrow> push (TComment b False False) (it \<lparr>it_comments := it_comments it + 1\<rparr>)
      | Edit cid change \<Rightarrow>
          (if cid = 0 then
             (case change of
                Some (ETitle t) \<Rightarrow> push (TRenamed (it_title it) t) (it \<lparr>it_title := t\<rparr>)
              | Some (EBody b) \<Rightarrow> it \<lparr>it_body := b, it_edited := True\<rparr>
              | _ \<Rightarrow> it)
           else let (ts, n) = edit_comment cid change (it_timeline it) (it_comments it)
                in it \<lparr>it_timeline := ts, it_comments := n\<rparr>)
      | StateChange s \<Rightarrow>
          (if sc_closed s then
             let it1 = it \<lparr>it_state := ''closed'', it_state_reason := sc_reason s, it_closed_at := Some at\<rparr>;
                 it2 = (if sc_head_oid s \<noteq> []
                        then it1 \<lparr>it_base_oid := sc_base_oid s, it_head_oid := sc_head_oid s\<rparr> else it1)
             in push (TClosed (sc_reason s)) it2
           else push TReopened (it \<lparr>it_state := ''open'', it_state_reason := [], it_closed_at := None\<rparr>))
      | Labels c \<Rightarrow>
          (let ((added, removed), st) = change_set (it_labels it) c
           in push (TLabeled added removed) (it \<lparr>it_labels := st\<rparr>))
      | Assignees c \<Rightarrow>
          (let ((added, removed), st) = change_set (it_assignees it) c
           in push (TAssigned added removed) (it \<lparr>it_assignees := st\<rparr>))
      | Merged m \<Rightarrow>
          push (TMerged (mg_method m) (mg_merge_commit_oid m))
            (it \<lparr>it_state := ''closed'', it_merged := True, it_merge_commit := mg_merge_commit_oid m,
                it_closed_at := Some at, it_base_oid := mg_base_oid m, it_head_oid := mg_head_oid m\<rparr>)
      | Review r \<Rightarrow>
          (let it1 = (if rv_state r \<noteq> ''commented'' then
                        (let reviews = bt_insert (fe_actor ev) (rv_state r) (it_reviews it)
                         in it \<lparr>it_reviews := reviews, it_review_decision := review_decision reviews\<rparr>)
                      else it)
           in push (TReview (rv_state r) (rv_body r) (rv_commit_oid r)
                (map (\<lambda>c. \<lparr>lcm_path = lc_path c, lcm_side = lc_side c, lcm_line = lc_line c, lcm_body = lc_body c\<rparr>)
                  (rv_comments r))) it1))"

definition update_item :: "nat \<Rightarrow> (item \<Rightarrow> item) \<Rightarrow> forge_state \<Rightarrow> forge_state" where
  "update_item n f s =
     s \<lparr>fs_items := map (\<lambda>(k, it). if k = n then (k, f it) else (k, it)) (fs_items s)\<rparr>"

definition forge_apply :: "nat \<Rightarrow> string \<Rightarrow> forge_event \<Rightarrow> forge_state \<Rightarrow> forge_state" where
  "forge_apply i at ev s =
     (case fe_body ev of
        None \<Rightarrow> s
      | Some (Label l) \<Rightarrow>
          (if lb_deleted l then
             s \<lparr>fs_labels := bt_remove (lb_name l) (fs_labels s),
                fs_items := map (\<lambda>(k, it). (k, it \<lparr>it_labels := it_labels it - {lb_name l}\<rparr>)) (fs_items s)\<rparr>
           else
             s \<lparr>fs_labels := bt_insert (lb_name l)
                \<lparr>ld_name = lb_name l, ld_color = lb_color l, ld_description = lb_description l\<rparr> (fs_labels s)\<rparr>)
      | Some (Opened q) \<Rightarrow>
          s \<lparr>fs_items := bt_insert (fe_number ev) (opened_item at ev q) (fs_items s)\<rparr>
      | Some body \<Rightarrow> update_item (fe_number ev) (apply_item i at ev body) s)"

definition event_text :: "forge_event \<Rightarrow> string option" where
  "event_text ev =
     (case fe_body ev of
        Some (Opened q) \<Rightarrow> Some (op_title q @ '' '' @ op_body q)
      | Some (Comment b) \<Rightarrow> Some b
      | Some (Edit _ (Some (ETitle t))) \<Rightarrow> Some t
      | Some (Edit _ (Some (EBody t))) \<Rightarrow> Some t
      | Some (Review r) \<Rightarrow> Some (foldl (\<lambda>s c. s @ '' '' @ lc_body c) (rv_body r) (rv_comments r))
      | _ \<Rightarrow> None)"

definition reference_item :: "nat \<Rightarrow> string \<Rightarrow> forge_event \<Rightarrow> item \<Rightarrow> item" where
  "reference_item i at ev it =
     (if list_ex (\<lambda>t. ti_event t = TReferenced (fe_number ev)) (it_timeline it) then it
      else push_timeline i at ev (TReferenced (fe_number ev)) it)"

definition cross_reference ::
  "(string \<Rightarrow> bool) \<Rightarrow> nat \<Rightarrow> string \<Rightarrow> forge_event \<Rightarrow> forge_state \<Rightarrow> forge_state" where
  "cross_reference uni i at ev s =
     (case event_text ev of
        None \<Rightarrow> s
      | Some text \<Rightarrow>
          fold (\<lambda>target s. if target = fe_number ev then s
                           else update_item target (reference_item i at ev) s)
            (mentions uni text) s)"

definition forge_event_id :: "nat \<Rightarrow> nat \<Rightarrow> nat" where
  "forge_event_id seq i = unat (push_bit 10 (of_nat seq :: 64 word) OR of_nat i)"

fun apply_events ::
  "(string \<Rightarrow> bool) \<Rightarrow> nat \<Rightarrow> string \<Rightarrow> nat \<Rightarrow> forge_event list \<Rightarrow> forge_state \<Rightarrow> forge_state" where
  "apply_events uni seq at i [] s = s"
| "apply_events uni seq at i (ev # evs) s =
     (let cid = forge_event_id seq i in
      apply_events uni seq at (i + 1) evs (cross_reference uni cid at ev (forge_apply cid at ev s)))"

definition forge_apply_record ::
  "(timestamp option \<Rightarrow> string) \<Rightarrow> (string \<Rightarrow> bool) \<Rightarrow> forge_record \<Rightarrow> forge_state \<Rightarrow> forge_state" where
  "forge_apply_record rfc uni r s =
     (let s' = apply_events uni (fr_seq r) (rfc (fr_at r)) 0 (fr_events r) s
      in s' \<lparr>fs_records := fs_records s' @ [r]\<rparr>)"

definition forge_from_history ::
  "(timestamp option \<Rightarrow> string) \<Rightarrow> (string \<Rightarrow> bool) \<Rightarrow> forge_history \<Rightarrow> forge_state" where
  "forge_from_history rfc uni h =
     (fold (forge_apply_record rfc uni) (fh_records h) default_forge_state) \<lparr>fs_seq := fh_seq h\<rparr>"

definition forge_history_upto :: "nat \<Rightarrow> forge_state \<Rightarrow> forge_history" where
  "forge_history_upto seq s =
     \<lparr>fh_seq = seq, fh_records = filter (\<lambda>r. fr_seq r \<le> seq) (fs_records s)\<rparr>"

definition forge_fold_entry ::
  "(timestamp option \<Rightarrow> string) \<Rightarrow> (string \<Rightarrow> bool) \<Rightarrow> log_entry \<Rightarrow> forge_state \<Rightarrow> forge_state" where
  "forge_fold_entry rfc uni e s =
     (if le_seq e \<le> fs_seq s then s
      else
        let s1 = (if le_forge e \<noteq> []
                  then forge_apply_record rfc uni
                         \<lparr>fr_seq = le_seq e, fr_at = le_created_at e, fr_events = le_forge e\<rparr> s
                  else s)
        in s1 \<lparr>fs_seq := le_seq e\<rparr>)"

definition forge_fold_entries ::
  "(timestamp option \<Rightarrow> string) \<Rightarrow> (string \<Rightarrow> bool) \<Rightarrow> nat \<Rightarrow> log_entry list \<Rightarrow> forge_state \<Rightarrow> forge_state" where
  "forge_fold_entries rfc uni after entries s =
     (if fs_seq s < after then s else fold (forge_fold_entry rfc uni) entries s)"

definition opened_at :: "nat \<Rightarrow> forge_state \<Rightarrow> nat option" where
  "opened_at seq s =
     (case find (\<lambda>r. fr_seq r = seq) (rev (fs_records s)) of
        None \<Rightarrow> None
      | Some r \<Rightarrow>
          map_option fe_number
            (find (\<lambda>e. case fe_body e of Some (Opened _) \<Rightarrow> True | _ \<Rightarrow> False) (fr_events r)))"

fun forge_number :: "forge_event list \<Rightarrow> nat \<Rightarrow> forge_event list \<times> nat" where
  "forge_number [] nxt = ([], nxt)"
| "forge_number (ev # evs) nxt =
     (case fe_body ev of
        Some (Opened _) \<Rightarrow>
          (let (evs', n) = forge_number evs (nxt + 1) in (ev \<lparr>fe_number := nxt\<rparr> # evs', n))
      | _ \<Rightarrow> (let (evs', n) = forge_number evs nxt in (ev # evs', n)))"

section \<open>Preconditions\<close>

definition blank :: "string \<Rightarrow> bool" where
  "blank s \<longleftrightarrow> trim s = []"

definition hash_number :: "nat \<Rightarrow> string" where
  "hash_number n = ''#'' @ show_nat n"

fun verify_line_comments :: "forge_line_comment list \<Rightarrow> (string, unit) result" where
  "verify_line_comments [] = Inr ()"
| "verify_line_comments (c # cs) =
     (if lc_path c = [] \<or> lc_line c = 0 \<or> \<not> (lc_side c = ''LEFT'' \<or> lc_side c = ''RIGHT'')
      then Inl ''a line comment needs a path, a line and a side (LEFT or RIGHT)''
      else if blank (lc_body c) then Inl (''comment can'' @ [CHR 0x27] @ ''t be blank'')
      else verify_line_comments cs)"

definition verify_review :: "item \<Rightarrow> actor \<Rightarrow> forge_review \<Rightarrow> (string, unit) result" where
  "verify_review it a r =
     (if it_kind it \<noteq> ''pull'' then Inl ''only pull requests are reviewed''
      else if it_state it \<noteq> ''open'' then Inl (hash_number (it_number it) @ '' is closed'')
      else if (rv_state r = ''approved'' \<or> rv_state r = ''changes_requested'') \<and>
              actor_is a (it_author_id it) (it_author it)
      then Inl (''you can'' @ [CHR 0x27] @ ''t approve or request changes on your own pull request'')
      else if (rv_state r = ''changes_requested'' \<or> rv_state r = ''commented'') \<and>
              blank (rv_body r) \<and> rv_comments r = []
      then Inl ''a review with no approval needs a comment''
      else if \<not> (rv_state r = ''approved'' \<or> rv_state r = ''changes_requested'' \<or> rv_state r = ''commented'')
      then Inl (''review state '' @ debug_str (rv_state r) @ '' is not approved, changes_requested or commented'')
      else verify_line_comments (rv_comments r))"

definition verify_label :: "forge_state \<Rightarrow> role \<Rightarrow> forge_label \<Rightarrow> (string, unit) result" where
  "verify_label s r l =
     (let hex = (case strip_prefix ''#'' (lb_color l) of Some h \<Rightarrow> h | None \<Rightarrow> []) in
      if \<not> RTriage \<le> r then Inl ''only collaborators can manage labels''
      else if blank (lb_name l) \<or> length (lb_name l) > 50 then Inl ''a label name is 1 to 50 characters''
      else if \<not> lb_deleted l \<and> (length hex \<noteq> 6 \<or> \<not> list_all is_ascii_hexdigit hex)
      then Inl (''label color '' @ debug_str (lb_color l) @ '' is not #rrggbb'')
      else if lb_deleted l \<and> bt_get (fs_labels s) (lb_name l) = None
      then Inl (''no label '' @ debug_str (lb_name l))
      else Inr ())"

definition verify_opened :: "forge_state \<Rightarrow> role \<Rightarrow> forge_opened \<Rightarrow> (string, unit) result" where
  "verify_opened s r q =
     (if op_kind q \<noteq> FORGE_ISSUE \<and> op_kind q \<noteq> FORGE_PULL
      then Inl ''an item must be an issue or a pull request''
      else if blank (op_title q) then Inl (''title can'' @ [CHR 0x27] @ ''t be blank'')
      else if \<not> RTriage \<le> r \<and> (op_labels q \<noteq> [] \<or> op_assignees q \<noteq> [])
      then Inl ''only collaborators can set labels and assignees''
      else if op_kind q = FORGE_PULL then
        (if op_base_ref q = [] \<or> op_head_ref q = [] \<or> op_base_ref q = op_head_ref q
         then Inl ''a pull request merges one branch into another''
         else (case find (\<lambda>i. it_state i = ''open'' \<and> it_base_ref i = op_base_ref q \<and>
                           it_head_ref i = op_head_ref q) (map snd (fs_items s)) of
                 Some i \<Rightarrow> Inl (''a pull request already exists for '' @ op_head_ref q @ '': '' @
                             hash_number (it_number i))
               | None \<Rightarrow> Inr ()))
      else Inr ())"

definition verify_item :: "actor \<Rightarrow> role \<Rightarrow> forge_body \<Rightarrow> item \<Rightarrow> (string, unit) result" where
  "verify_item a r body it =
     (let own = actor_is a (it_author_id it) (it_author it);
          triage = (RTriage \<le> r); write = (RWrite \<le> r) in
      case body of
        Opened _ \<Rightarrow> Inr ()
      | Label _ \<Rightarrow> Inr ()
      | Comment b \<Rightarrow> if blank b then Inl (''comment can'' @ [CHR 0x27] @ ''t be blank'') else Inr ()
      | Edit cid change \<Rightarrow>
          (if cid = 0 then
             (if \<not> own \<and> \<not> write then Inl ''only the author or a collaborator can edit this''
              else (case change of
                      Some (ETitle t) \<Rightarrow>
                        if blank t then Inl (''title can'' @ [CHR 0x27] @ ''t be blank'') else Inr ()
                    | Some (EBody _) \<Rightarrow> Inr ()
                    | _ \<Rightarrow> Inl ''an item edit sets the title or the body''))
           else (case find (\<lambda>t. ti_id t = cid \<and>
                         (case ti_event t of TComment _ _ deleted \<Rightarrow> \<not> deleted | _ \<Rightarrow> False)) (it_timeline it) of
                   None \<Rightarrow> Inl (''comment '' @ show_nat cid @ '' does not exist'')
                 | Some t \<Rightarrow>
                     if \<not> write \<and> \<not> actor_is a (ti_actor_id t) (ti_actor t)
                     then Inl ''only the author or a collaborator can edit this comment'' else Inr ()))
      | StateChange s \<Rightarrow>
          (if \<not> sc_closed s \<and> it_merged it
           then Inl (hash_number (it_number it) @ '' was merged; it can'' @ [CHR 0x27] @ ''t be reopened'')
           else if \<not> own \<and> \<not> triage
           then Inl ''only the author or a collaborator can close or reopen this''
           else if sc_closed s = (it_state it = ''closed'')
           then Inl (hash_number (it_number it) @ '' is already '' @ it_state it)
           else if sc_closed s \<and> \<not> (sc_reason s = ''completed'' \<or> sc_reason s = ''not_planned'')
           then Inl (''close reason is '' @ debug_str ''completed'' @ '' or '' @ debug_str ''not_planned'')
           else Inr ())
      | Labels _ \<Rightarrow> if triage then Inr () else Inl ''only collaborators can change labels and assignees''
      | Assignees _ \<Rightarrow> if triage then Inr () else Inl ''only collaborators can change labels and assignees''
      | Review rv \<Rightarrow> verify_review it a rv
      | Draft d \<Rightarrow>
          (if it_kind it \<noteq> ''pull'' \<or> it_state it \<noteq> ''open''
           then Inl (hash_number (it_number it) @ '' is not an open pull request'')
           else if \<not> own \<and> \<not> write then Inl ''only the author or a collaborator can change this''
           else if d = it_draft it
           then Inl (hash_number (it_number it) @ '' is already '' @
                  (if d then ''a draft'' else ''ready for review''))
           else Inr ())
      | Merged m \<Rightarrow>
          (if it_kind it \<noteq> ''pull'' \<or> it_state it \<noteq> ''open''
           then Inl (hash_number (it_number it) @ '' is not an open pull request'')
           else if it_draft it
           then Inl (''a draft pull request can'' @ [CHR 0x27] @ ''t be merged; mark it ready for review'')
           else if \<not> write then Inl ''only collaborators can merge''
           else if \<not> (mg_method m = ''merge'' \<or> mg_method m = ''squash'' \<or> mg_method m = ''rebase'')
           then Inl (debug_str (mg_method m) @ '' is not merge, squash or rebase'')
           else Inr ()))"

definition verify_event :: "forge_state \<Rightarrow> actor \<Rightarrow> role \<Rightarrow> forge_event \<Rightarrow> (string, unit) result" where
  "verify_event s a r ev =
     (case fe_body ev of
        None \<Rightarrow> Inl ''empty forge event''
      | Some (Label l) \<Rightarrow> verify_label s r l
      | Some (Opened q) \<Rightarrow> verify_opened s r q
      | Some body \<Rightarrow>
          (case bt_get (fs_items s) (fe_number ev) of
             None \<Rightarrow> Inl (hash_number (fe_number ev) @ '' does not exist'')
           | Some it \<Rightarrow> verify_item a r body it))"

fun verify_events :: "forge_state \<Rightarrow> actor \<Rightarrow> role \<Rightarrow> forge_event list \<Rightarrow> (string, unit) result" where
  "verify_events s a r [] = Inr ()"
| "verify_events s a r (ev # evs) =
     (case verify_event s a r ev of Inl m \<Rightarrow> Inl m | Inr _ \<Rightarrow> verify_events s a r evs)"

definition forge_verify ::
  "forge_state \<Rightarrow> actor \<Rightarrow> role \<Rightarrow> forge_event list \<Rightarrow> (string, unit) result" where
  "forge_verify s a r events =
     (if events = [] then Inl ''no forge events''
      else if act_user_id a = [] then Inl ''sign in to take part''
      else if r < RRead then Inl (''you don'' @ [CHR 0x27] @ ''t have access to this repository'')
      else verify_events s a r events)"

section \<open>Search\<close>

definition PER_PAGE :: nat where "PER_PAGE = 25"

record search_query =
  sq_state :: "string option"
  sq_kind :: "string option"
  sq_author :: "string option"
  sq_assignee :: "string option"
  sq_labels :: "string list"
  sq_sort :: string
  sq_review :: "string option"
  sq_merged :: "bool option"
  sq_draft :: "bool option"
  sq_words :: "string list"

definition empty_query :: search_query where
  "empty_query = \<lparr>sq_state = None, sq_kind = None, sq_author = None, sq_assignee = None,
     sq_labels = [], sq_sort = ''created-desc'', sq_review = None, sq_merged = None,
     sq_draft = None, sq_words = []\<rparr>"

definition query_token :: "(string \<Rightarrow> string) \<Rightarrow> string \<Rightarrow> search_query \<Rightarrow> search_query" where
  "query_token lower tok q =
     (case split_once (CHR '':'') tok of
        None \<Rightarrow> q \<lparr>sq_words := sq_words q @ [lower tok]\<rparr>
      | Some (k, v) \<Rightarrow>
          if k = ''is'' \<and> (v = ''open'' \<or> v = ''closed'') then q \<lparr>sq_state := strip_prefix ''is:'' tok\<rparr>
          else if k = ''is'' \<and> v = ''merged'' then q \<lparr>sq_merged := Some True\<rparr>
          else if k = ''is'' \<and> v = ''draft'' then q \<lparr>sq_draft := Some True\<rparr>
          else if k = ''is'' \<and> v = ''unmerged'' then q \<lparr>sq_merged := Some False\<rparr>
          else if k = ''is'' \<and> v = ''issue'' then q \<lparr>sq_kind := Some ''issue''\<rparr>
          else if k = ''is'' \<and> v = ''pr'' then q \<lparr>sq_kind := Some ''pull''\<rparr>
          else if k = ''author'' then q \<lparr>sq_author := Some v\<rparr>
          else if k = ''assignee'' then q \<lparr>sq_assignee := Some v\<rparr>
          else if k = ''label'' then q \<lparr>sq_labels := sq_labels q @ [v]\<rparr>
          else if k = ''sort'' then q \<lparr>sq_sort := v\<rparr>
          else if k = ''review'' then q \<lparr>sq_review := Some (if v = ''none'' then [] else v)\<rparr>
          else q \<lparr>sq_words := sq_words q @ [lower tok]\<rparr>)"

definition is_none_or :: "'a option \<Rightarrow> ('a \<Rightarrow> bool) \<Rightarrow> bool" where
  "is_none_or x P = (case x of None \<Rightarrow> True | Some a \<Rightarrow> P a)"

definition query_matches :: "(string \<Rightarrow> string) \<Rightarrow> search_query \<Rightarrow> item \<Rightarrow> bool" where
  "query_matches lower q i \<longleftrightarrow>
     is_none_or (sq_kind q) (\<lambda>k. it_kind i = k) \<and>
     is_none_or (sq_author q) (\<lambda>a. it_author i = a) \<and>
     is_none_or (sq_assignee q) (\<lambda>a. a \<in> it_assignees i) \<and>
     list_all (\<lambda>l. l \<in> it_labels i) (sq_labels q) \<and>
     is_none_or (sq_review q) (\<lambda>r. it_review_decision i = r) \<and>
     is_none_or (sq_merged q) (\<lambda>m. it_merged i = m) \<and>
     is_none_or (sq_draft q) (\<lambda>d. it_draft i = d) \<and>
     list_all (\<lambda>w. str_contains (lower (it_title i)) w \<or> str_contains (lower (it_body i)) w) (sq_words q)"

text \<open>
  The comparators: stable sorts by key; a descending key with a descending tie-break is the
  reverse of a stable ascending sort of the reverse list.
\<close>

definition sort_rows :: "string \<Rightarrow> item list \<Rightarrow> item list" where
  "sort_rows how rows =
     (if how = ''created-asc'' then sort_key it_number rows
      else if how = ''updated-desc''
      then rev (sort_key it_updated_at (sort_key it_number (rev rows)))
      else if how = ''comments-desc''
      then rev (sort_key it_comments (sort_key it_number (rev rows)))
      else rev (sort_key it_number (rev rows)))"

record search_page =
  sp_items :: "item list"
  sp_open_count :: nat
  sp_closed_count :: nat
  sp_page :: nat
  sp_per_page :: nat
  sp_authors :: "string set"
  sp_labels :: "string set"
  sp_assignees :: "string set"

definition search_rows :: "(string \<Rightarrow> string) \<Rightarrow> string \<Rightarrow> forge_state \<Rightarrow> item list" where
  "search_rows lower query s =
     (let q = fold (query_token lower) (tokens query) empty_query;
          matching = filter (query_matches lower q) (map snd (fs_items s))
      in sort_rows (sq_sort q) (filter (\<lambda>i. is_none_or (sq_state q) (\<lambda>st. it_state i = st)) matching))"

definition forge_search :: "(string \<Rightarrow> string) \<Rightarrow> string \<Rightarrow> nat \<Rightarrow> forge_state \<Rightarrow> search_page" where
  "forge_search lower query page0 s =
     (let q = fold (query_token lower) (tokens query) empty_query;
          matching = filter (query_matches lower q) (map snd (fs_items s));
          open_count = length (filter (\<lambda>i. it_state i = ''open'') matching);
          page = max page0 1;
          of_kind = filter (\<lambda>i. is_none_or (sq_kind q) (\<lambda>k. it_kind i = k)) (map snd (fs_items s))
      in \<lparr>sp_items = take PER_PAGE (drop ((page - 1) * PER_PAGE) (search_rows lower query s)),
          sp_open_count = open_count, sp_closed_count = length matching - open_count,
          sp_page = page, sp_per_page = PER_PAGE,
          sp_authors = it_author ` set of_kind,
          sp_labels = (\<Union>i \<in> set of_kind. it_labels i) \<union> fst ` set (fs_labels s),
          sp_assignees = (\<Union>i \<in> set of_kind. it_assignees i)\<rparr>)"

end
