(* ===== verification/Event_Fold.thy ===== *)
theory Event_Fold
  imports Wal_Format
begin

text \<open>
  The contract shared by the states folded from the log (issues and pull requests in
  \<open>forge.rs\<close>, accounts in \<open>accounts.rs\<close>): a state keeps the records it applied, an entry
  is applied once and only past the state's sequence number, and a checkpoint stores the records
  up to its own sequence number. The consequence is proved once here: restoring a checkpoint and
  advancing it over the later entries gives the state folded from the whole log.
\<close>

lemma sorted_le_last: "sorted xs \<Longrightarrow> x \<in> set xs \<Longrightarrow> x \<le> last xs"
  by (induction xs) auto

locale event_fold =
  fixes seq_of :: "'s \<Rightarrow> nat"
    and with_seq :: "nat \<Rightarrow> 's \<Rightarrow> 's"
    and recs :: "'s \<Rightarrow> 'r list"
    and start :: 's
    and apply_rec :: "'r \<Rightarrow> 's \<Rightarrow> 's"
    and rec_seq :: "'r \<Rightarrow> nat"
    and rec_of :: "log_entry \<Rightarrow> 'r option"
    and fold_entry :: "log_entry \<Rightarrow> 's \<Rightarrow> 's"
  assumes seq_start [simp]: "seq_of start = 0"
    and recs_start [simp]: "recs start = []"
    and seq_with [simp]: "seq_of (with_seq n s) = n"
    and recs_with [simp]: "recs (with_seq n s) = recs s"
    and with_with [simp]: "with_seq n (with_seq m s) = with_seq n s"
    and with_same: "with_seq (seq_of s) s = s"
    and apply_with: "apply_rec r (with_seq n s) = with_seq n (apply_rec r s)"
    and apply_recs [simp]: "recs (apply_rec r s) = recs s @ [r]"
    and rec_of_seq: "rec_of e = Some r \<Longrightarrow> rec_seq r = le_seq e"
    and fold_entry_eq: "fold_entry e s =
      (if le_seq e \<le> seq_of s then s
       else with_seq (le_seq e) (case rec_of e of None \<Rightarrow> s | Some r \<Rightarrow> apply_rec r s))"
begin

text \<open>A state is its records replayed, up to its own sequence number.\<close>

definition canonical :: "'s \<Rightarrow> bool" where
  "canonical s \<longleftrightarrow> s = with_seq (seq_of s) (fold apply_rec (recs s) start)"

lemma canonical_start: "canonical start"
  by (simp add: canonical_def) (metis seq_start with_same)

lemma recs_fold_apply [simp]: "recs (fold apply_rec rs s) = recs s @ rs"
  by (induction rs arbitrary: s) simp_all

lemma canonical_step:
  assumes "canonical s"
  shows "canonical (fold_entry e s)"
proof (cases "le_seq e \<le> seq_of s")
  case False
  define b where "b = fold apply_rec (recs s) start"
  from assms have s: "s = with_seq (seq_of s) b" by (simp add: canonical_def b_def)
  have n: "with_seq n s = with_seq n b" for n by (subst s) (rule with_with)
  have r: "with_seq n (apply_rec r s) = with_seq n (apply_rec r b)" for n r
    unfolding apply_with [symmetric] n ..
  show ?thesis
  proof (cases "rec_of e")
    case None
    then have e: "fold_entry e s = with_seq (le_seq e) s" using False by (simp add: fold_entry_eq)
    show ?thesis unfolding canonical_def e seq_with recs_with b_def [symmetric] by (rule n)
  next
    case (Some a)
    then have e: "fold_entry e s = with_seq (le_seq e) (apply_rec a s)"
      using False by (simp add: fold_entry_eq)
    show ?thesis
      unfolding canonical_def e seq_with recs_with apply_recs fold_append comp_def b_def [symmetric]
      by (simp add: r)
  qed
qed (use assms in \<open>simp add: fold_entry_eq\<close>)

lemma canonical_fold: "canonical s \<Longrightarrow> canonical (fold fold_entry es s)"
  by (induction es arbitrary: s) (auto intro: canonical_step)

lemma fold_recs:
  assumes "sorted_wrt (<) (seq_of s # map le_seq es)"
  shows "recs (fold fold_entry es s) = recs s @ List.map_filter rec_of es \<and>
    seq_of (fold fold_entry es s) = last (seq_of s # map le_seq es)"
  using assms
proof (induction es arbitrary: s)
  case Nil
  then show ?case by (simp add: map_filter_simps)
next
  case (Cons e es)
  let ?s = "fold_entry e s"
  have lt: "seq_of s < le_seq e" using Cons.prems by simp
  then have q: "seq_of ?s = le_seq e" "recs ?s = recs s @ (case rec_of e of None \<Rightarrow> [] | Some r \<Rightarrow> [r])"
    by (simp_all add: fold_entry_eq split: option.splits)
  have "sorted_wrt (<) (seq_of ?s # map le_seq es)" using Cons.prems q(1) by simp
  from Cons.IH [OF this] show ?case by (simp add: q map_filter_simps split: option.splits)
qed

lemma map_filter_seq: "r \<in> set (List.map_filter rec_of es) \<Longrightarrow> rec_seq r \<in> le_seq ` set es"
  by (auto simp: map_filter_def image_iff) (metis rec_of_seq)

lemma checkpoint_resume:
  assumes "sorted_wrt (<) (0 # map le_seq (es1 @ es2))" "es1 \<noteq> []" "n = le_seq (last es1)"
  shows "fold fold_entry es2 (with_seq n (fold apply_rec
      (filter (\<lambda>r. rec_seq r \<le> n) (recs (fold fold_entry (es1 @ es2) start))) start)) =
    fold fold_entry (es1 @ es2) start"
proof -
  let ?s1 = "fold fold_entry es1 start"
  have s1: "recs ?s1 = List.map_filter rec_of es1" "seq_of ?s1 = n"
    using fold_recs [of start es1] assms by (simp_all add: sorted_wrt_append last_map)
  have "sorted_wrt (<) (seq_of ?s1 # map le_seq es2)"
    using assms s1(2) by (simp add: sorted_wrt_append last_map)
  then have recs: "recs (fold fold_entry es2 ?s1) = recs ?s1 @ List.map_filter rec_of es2"
    using fold_recs by blast
  have "rec_seq r \<le> n" if "r \<in> set (recs ?s1)" for r
  proof -
    have "rec_seq r \<in> set (map le_seq es1)" using that map_filter_seq unfolding s1 by auto
    moreover have "sorted (map le_seq es1)" using assms(1) by (simp add: sorted_wrt_append strict_sorted_iff)
    ultimately show ?thesis using sorted_le_last [of "map le_seq es1"] assms(2,3) by (simp add: last_map)
  qed
  moreover have "\<not> rec_seq r \<le> n" if "r \<in> set (List.map_filter rec_of es2)" for r
    using map_filter_seq [OF that] assms by (auto simp: sorted_wrt_append not_le)
  ultimately have "filter (\<lambda>r. rec_seq r \<le> n) (recs (fold fold_entry (es1 @ es2) start)) = recs ?s1"
    by (simp add: recs)
  moreover have "?s1 = with_seq n (fold apply_rec (recs ?s1) start)"
    using canonical_fold [OF canonical_start, of es1] s1(2) unfolding canonical_def by simp
  ultimately show ?thesis by simp
qed

end

end
