(* ===== verification/Forge_Fold.thy ===== *)
theory Forge_Fold
  imports Forge Event_Fold
begin

text \<open>
  The fold of issues and pull requests over the log: the forge state is an instance of
  \<open>event_fold\<close>, and what decides whether an item is open, closed or merged (its fate) evolves
  by a small machine of its own, to which applying events refines. Requests verified against one
  state keep every merged pull request merged and closed, however they are ordered in a batch.
\<close>

section \<open>The forge state as an event fold\<close>

lemma update_item_seq: "update_item k f (s \<lparr>fs_seq := n\<rparr>) = (update_item k f s) \<lparr>fs_seq := n\<rparr>"
  by (simp add: update_item_def)

lemma forge_apply_seq: "forge_apply i at ev (s \<lparr>fs_seq := n\<rparr>) = (forge_apply i at ev s) \<lparr>fs_seq := n\<rparr>"
  by (simp add: forge_apply_def update_item_seq split: option.splits forge_body.splits)

lemma fold_update_seq:
  "fold (\<lambda>k s. if k = m then s else update_item k f s) ks (s \<lparr>fs_seq := n\<rparr>) =
     (fold (\<lambda>k s. if k = m then s else update_item k f s) ks s) \<lparr>fs_seq := n\<rparr>"
  by (induction ks arbitrary: s) (auto simp: update_item_seq)

lemma cross_reference_seq:
  "cross_reference uni i at ev (s \<lparr>fs_seq := n\<rparr>) = (cross_reference uni i at ev s) \<lparr>fs_seq := n\<rparr>"
  by (simp add: cross_reference_def fold_update_seq split: option.splits)

lemma apply_events_seq:
  "apply_events uni seq at i evs (s \<lparr>fs_seq := n\<rparr>) = (apply_events uni seq at i evs s) \<lparr>fs_seq := n\<rparr>"
  by (induction evs arbitrary: i s) (simp_all add: Let_def forge_apply_seq cross_reference_seq)

lemma update_item_records [simp]: "fs_records (update_item k f s) = fs_records s"
  by (simp add: update_item_def)

lemma forge_apply_records [simp]: "fs_records (forge_apply i at ev s) = fs_records s"
  by (simp add: forge_apply_def split: option.splits forge_body.splits)

lemma fold_update_records:
  "fs_records (fold (\<lambda>k s. if k = m then s else update_item k f s) ks s) = fs_records s"
  by (induction ks arbitrary: s) auto

lemma cross_reference_records [simp]: "fs_records (cross_reference uni i at ev s) = fs_records s"
  by (simp add: cross_reference_def fold_update_records split: option.splits)

lemma apply_events_records [simp]: "fs_records (apply_events uni seq at i evs s) = fs_records s"
  by (induction evs arbitrary: i s) (simp_all add: Let_def)

interpretation forge: event_fold fs_seq "\<lambda>n s. s \<lparr>fs_seq := n\<rparr>" fs_records default_forge_state
  "forge_apply_record rfc uni" fr_seq
  "\<lambda>e. if le_forge e \<noteq> [] then Some \<lparr>fr_seq = le_seq e, fr_at = le_created_at e, fr_events = le_forge e\<rparr>
       else None"
  "forge_fold_entry rfc uni" for rfc uni
  by unfold_locales
    (auto simp: default_forge_state_def forge_apply_record_def forge_fold_entry_def Let_def
      apply_events_seq split: if_splits)

section \<open>The fate of an item\<close>

abbreviation item_at :: "forge_state \<Rightarrow> nat \<Rightarrow> item option" where
  "item_at s \<equiv> bt_get (fs_items s)"

type_synonym fate = "bool \<times> string \<times> string"

definition fate_of :: "item \<Rightarrow> fate" where
  "fate_of it = (it_merged it, it_state it, it_merge_commit it)"

definition fates :: "forge_state \<Rightarrow> nat \<Rightarrow> fate option" where
  "fates s n = map_option fate_of (item_at s n)"

fun fate_step :: "forge_event \<Rightarrow> nat \<Rightarrow> fate option \<Rightarrow> fate option" where
  "fate_step ev n x =
     (if fe_number ev \<noteq> n then x
      else case fe_body ev of
        Some (Opened _) \<Rightarrow> Some (False, ''open'', [])
      | Some (StateChange c) \<Rightarrow>
          map_option (\<lambda>(m, _, oid). (m, if sc_closed c then ''closed'' else ''open'', oid)) x
      | Some (Merged g) \<Rightarrow> map_option (\<lambda>_. (True, ''closed'', mg_merge_commit_oid g)) x
      | _ \<Rightarrow> x)"

lemma item_at_update:
  "item_at (update_item n f s) k = (if k = n then map_option f (item_at s k) else item_at s k)"
proof -
  have "map_of (map (\<lambda>(k, it). if k = n then (k, f it) else (k, it)) t) k =
    (if k = n then map_option f (map_of t k) else map_of t k)" for t
    by (induction t) auto
  then show ?thesis by (simp add: update_item_def)
qed

lemma fate_push [simp]: "fate_of (push_timeline i at ev t it) = fate_of it"
  by (simp add: push_timeline_def fate_of_def)

lemma fate_reference [simp]: "fate_of (reference_item i at ev it) = fate_of it"
  by (simp add: reference_item_def)

lemma fate_apply_item:
  assumes "fe_body ev = Some body" "\<forall>q. body \<noteq> Opened q"
  shows "Some (fate_of (apply_item i at ev body it)) = fate_step ev (fe_number ev) (Some (fate_of it))"
  using assms
  by (auto simp: apply_item_def fate_of_def push_timeline_def Let_def
    split: forge_body.splits option.splits forge_edit_change.splits prod.splits)

lemma fates_update: "fates (update_item n f s) k = (if k = n then map_option (fate_of \<circ> f) (item_at s k) else fates s k)"
  by (simp add: fates_def item_at_update option.map_comp)

lemma map_of_map_values: "map_of (map (\<lambda>(k, v). (k, f v)) t) k = map_option f (map_of t k)"
  by (induction t) auto

lemma forge_apply_other:
  assumes "fe_body ev = Some body" "\<forall>q. body \<noteq> Opened q" "\<forall>l. body \<noteq> Label l"
  shows "forge_apply i at ev s = update_item (fe_number ev) (apply_item i at ev body) s"
  using assms by (cases body) (simp_all add: forge_apply_def)

lemma fates_apply_other:
  assumes "fe_body ev = Some body" "\<forall>q. body \<noteq> Opened q" "\<forall>l. body \<noteq> Label l"
  shows "fates (forge_apply i at ev s) k = fate_step ev k (fates s k)"
proof (cases "item_at s k")
  case None
  then show ?thesis
    using assms by (cases body) (simp_all add: forge_apply_other fates_def item_at_update)
next
  case (Some it)
  then show ?thesis
    using fate_apply_item [OF assms(1,2), of i at it]
    unfolding forge_apply_other [OF assms] fates_update by (auto simp: fates_def)
qed

lemma fates_apply: "fates (forge_apply i at ev s) k = fate_step ev k (fates s k)"
proof (cases "fe_body ev")
  case None
  then show ?thesis by (simp add: forge_apply_def)
next
  case (Some body)
  show ?thesis
  proof (cases body)
    case (Label l)
    have "fates s k = map_option (fate_of \<circ> (\<lambda>it. it \<lparr>it_labels := it_labels it - {lb_name l}\<rparr>)) (item_at s k)"
      unfolding fates_def by (rule option.map_cong0) (simp add: fate_of_def)
    then show ?thesis
      using Some Label by (simp add: forge_apply_def fates_def map_of_map_values option.map_comp)
  next
    case (Opened q)
    then show ?thesis using Some by (simp add: forge_apply_def fates_def opened_item_def fate_of_def)
  qed (use Some in \<open>simp_all add: fates_apply_other\<close>)
qed

lemma fates_cross [simp]: "fates (cross_reference uni i at ev s) = fates s"
proof -
  have "fates (update_item k (reference_item i at ev) s) = fates s" for k s
    by (auto simp: fates_update fun_eq_iff) (simp add: fates_def comp_def)
  then have "fates (fold (\<lambda>k s. if k = m then s else update_item k (reference_item i at ev) s) ks s) = fates s"
    for m ks s by (induction ks arbitrary: s) auto
  then show ?thesis by (simp add: cross_reference_def split: option.splits)
qed

text \<open>Applying events refines the fate machine, item by item.\<close>

lemma fates_apply_events:
  "fates (apply_events uni seq at i evs s) k = fold (\<lambda>ev. fate_step ev k) evs (fates s k)"
  by (induction evs arbitrary: i s) (simp_all add: Let_def fates_apply del: fate_step.simps)

lemma fates_records [simp]: "fates (s \<lparr>fs_records := r\<rparr>) = fates s" "fates (s \<lparr>fs_seq := n\<rparr>) = fates s"
  by (simp_all add: fates_def fun_eq_iff)

lemma fates_fold_entry:
  "fates (forge_fold_entry rfc uni e s) k =
     (if le_seq e \<le> fs_seq s then fates s k else fold (\<lambda>ev. fate_step ev k) (le_forge e) (fates s k))"
  by (simp add: forge_fold_entry_def forge_apply_record_def Let_def fates_apply_events)

section \<open>Requests verified against one state\<close>

text \<open>What verification against the fates of a state admits.\<close>

definition fate_allowed :: "(nat \<Rightarrow> fate option) \<Rightarrow> forge_event \<Rightarrow> bool" where
  "fate_allowed f0 ev =
     (case fe_body ev of
        Some (Opened _) \<Rightarrow> f0 (fe_number ev) = None
      | Some (StateChange c) \<Rightarrow>
          (case f0 (fe_number ev) of
             None \<Rightarrow> False
           | Some (m, st, _) \<Rightarrow> if sc_closed c then st \<noteq> ''closed'' else \<not> m \<and> st = ''closed'')
      | Some (Merged _) \<Rightarrow> (case f0 (fe_number ev) of None \<Rightarrow> False | Some (_, st, _) \<Rightarrow> st = ''open'')
      | _ \<Rightarrow> True)"

lemma verified_allowed:
  assumes "verify_event s a r ev = Inr ()"
    and "\<forall>q. fe_body ev = Some (Opened q) \<longrightarrow> item_at s (fe_number ev) = None"
  shows "fate_allowed (fates s) ev"
  using assms
  by (auto simp: verify_event_def verify_item_def fate_allowed_def fates_def fate_of_def Let_def
    split: option.splits forge_body.splits if_splits)

definition merged_closed :: "(nat \<Rightarrow> fate option) \<Rightarrow> bool" where
  "merged_closed f \<longleftrightarrow> (\<forall>n st oid. f n = Some (True, st, oid) \<longrightarrow> st = ''closed'')"

lemma allowed_merged_fixed:
  assumes "\<forall>ev \<in> set evs. fate_allowed f0 ev" "f0 n = Some (True, ''closed'', oid)"
  shows "fold (\<lambda>ev. fate_step ev n) evs (f0 n) = f0 n"
  using assms(1)
proof (induction evs)
  case (Cons ev evs)
  then have "fate_step ev n (f0 n) = f0 n"
    using assms(2) by (auto simp: fate_allowed_def split: option.splits forge_body.splits if_splits)
  with Cons show ?case by simp
qed simp

lemma allowed_merged_closed:
  assumes "\<forall>ev \<in> set evs. fate_allowed f0 ev" "merged_closed f0"
  shows "merged_closed (\<lambda>n. fold (\<lambda>ev. fate_step ev n) evs (f0 n))"
proof -
  define J where "J n x \<longleftrightarrow> (\<forall>st oid. x = Some (True, st, oid) \<longrightarrow> st = ''closed'') \<and>
    (\<forall>oid. f0 n = Some (False, ''closed'', oid) \<longrightarrow> (\<exists>st oid'. x = Some (False, st, oid')))" for n and x :: "fate option"
  have step: "J n (fate_step ev n x)" if "fate_allowed f0 ev" "J n x" for ev n x
    using that unfolding J_def
    by (auto simp: fate_allowed_def split: option.splits forge_body.splits if_splits)
  have "J n (fold (\<lambda>ev. fate_step ev n) evs x)" if "J n x" for n x
    using assms(1) that by (induction evs arbitrary: x) (auto simp: step simp del: fate_step.simps)
  moreover have "J n (f0 n)" for n using assms(2) by (auto simp: J_def merged_closed_def)
  ultimately have "J n (fold (\<lambda>ev. fate_step ev n) evs (f0 n))" for n by blast
  then show ?thesis unfolding merged_closed_def J_def by blast
qed

section \<open>Numbering\<close>

definition is_opened :: "forge_event \<Rightarrow> bool" where
  "is_opened ev = (case fe_body ev of Some (Opened _) \<Rightarrow> True | _ \<Rightarrow> False)"

lemma forge_number_simps:
  "forge_number [] nxt = ([], nxt)"
  "forge_number (ev # evs) nxt =
     (if is_opened ev then (ev \<lparr>fe_number := nxt\<rparr> # fst (forge_number evs (nxt + 1)), snd (forge_number evs (nxt + 1)))
      else (ev # fst (forge_number evs nxt), snd (forge_number evs nxt)))"
  by (simp_all add: is_opened_def split: option.splits forge_body.splits prod.splits)

declare forge_number.simps [simp del]

lemma is_opened_number [simp]: "is_opened (ev \<lparr>fe_number := n\<rparr>) = is_opened ev"
  by (simp add: is_opened_def)

lemma forge_number_mono: "nxt \<le> snd (forge_number evs nxt)"
  by (induction evs arbitrary: nxt) (auto simp: forge_number_simps dest: Suc_leD intro: le_trans [of _ "Suc _"])

lemma forge_number_opened:
  "map fe_number (filter is_opened (fst (forge_number evs nxt))) = [nxt..<snd (forge_number evs nxt)]"
proof (induction evs arbitrary: nxt)
  case (Cons ev evs)
  then show ?case
    using forge_number_mono [of "Suc nxt" evs] by (auto simp: forge_number_simps upt_conv_Cons)
qed (simp add: forge_number_simps)

lemma forge_number_fresh:
  assumes "ev \<in> set (fst (forge_number evs nxt))" "fe_body ev = Some (Opened q)"
  shows "nxt \<le> fe_number ev \<and> fe_number ev < snd (forge_number evs nxt)"
proof -
  have "ev \<in> set (filter is_opened (fst (forge_number evs nxt)))" using assms by (simp add: is_opened_def)
  then have "fe_number ev \<in> set [nxt..<snd (forge_number evs nxt)]"
    unfolding forge_number_opened [symmetric] by auto
  then show ?thesis by simp
qed

definition numbers_below :: "nat \<Rightarrow> (nat \<Rightarrow> fate option) \<Rightarrow> bool" where
  "numbers_below nxt f \<longleftrightarrow> (\<forall>n. f n \<noteq> None \<longrightarrow> n < nxt)"

lemma fate_step_none: "fate_step ev n None = None \<or> is_opened ev \<and> fe_number ev = n"
  by (auto simp: is_opened_def split: option.splits forge_body.splits)

lemma fate_fold_none:
  "fold (\<lambda>ev. fate_step ev n) evs None \<noteq> None \<Longrightarrow> \<exists>ev \<in> set evs. is_opened ev \<and> fe_number ev = n"
proof (induction evs)
  case (Cons ev evs)
  then show ?case using fate_step_none [of ev n] by (auto simp del: fate_step.simps)
qed simp

lemma numbers_below_fold:
  assumes "numbers_below nxt f" "\<forall>ev \<in> set evs. is_opened ev \<longrightarrow> fe_number ev < nxt'" "nxt \<le> nxt'"
  shows "numbers_below nxt' (\<lambda>n. fold (\<lambda>ev. fate_step ev n) evs (f n))"
  unfolding numbers_below_def
proof (intro allI impI)
  fix n assume *: "fold (\<lambda>ev. fate_step ev n) evs (f n) \<noteq> None"
  show "n < nxt'"
  proof (cases "f n")
    case None
    then show ?thesis using fate_fold_none [of n evs] * assms(2) by auto
  next
    case (Some x)
    then have "n < nxt" using assms(1) unfolding numbers_below_def by blast
    then show ?thesis using assms(3) by simp
  qed
qed

section \<open>What a reader may change\<close>

text \<open>An item without what taking part in it changes: comments, reviews and its timeline.\<close>

definition guarded :: "item \<Rightarrow> item" where
  "guarded it = it \<lparr>it_updated_at := [], it_comments := 0, it_reviews := [], it_review_decision := [],
     it_timeline := []\<rparr>"

lemma guarded_sel: "it_state (guarded it) = it_state it" "it_title (guarded it) = it_title it"
  by (simp_all add: guarded_def)

lemma verify_events_all: "verify_events s a r evs = Inr () \<longleftrightarrow> (\<forall>ev \<in> set evs. verify_event s a r ev = Inr ())"
  by (induction evs) (auto split: sum.splits)

lemma guarded_push [simp]: "guarded (push_timeline i at ev t it) = guarded it"
  by (simp add: guarded_def push_timeline_def)

lemma guarded_reference [simp]: "guarded (reference_item i at ev it) = guarded it"
  by (simp add: reference_item_def)

definition reader_body :: "forge_body \<Rightarrow> bool" where
  "reader_body body = (case body of Comment _ \<Rightarrow> True | Edit c _ \<Rightarrow> c \<noteq> 0 | Review _ \<Rightarrow> True | _ \<Rightarrow> False)"

lemma reader_body_guarded:
  "reader_body body \<Longrightarrow> guarded (apply_item i at ev body it) = guarded it"
  by (cases body) (simp_all add: reader_body_def apply_item_def Let_def guarded_def push_timeline_def
      split: prod.splits)

lemma verify_reader:
  assumes "verify_event s a r ev = Inr ()" "r < RTriage" "item_at s k = Some it"
    "\<not> actor_is a (it_author_id it) (it_author it)"
    "\<forall>q. fe_body ev = Some (Opened q) \<longrightarrow> fe_number ev \<noteq> k"
  shows "(\<exists>q. fe_body ev = Some (Opened q)) \<and> fe_number ev \<noteq> k \<or>
    (\<exists>body. fe_body ev = Some body \<and> (\<forall>q. body \<noteq> Opened q) \<and> (\<forall>l. body \<noteq> Label l) \<and>
       (fe_number ev = k \<longrightarrow> reader_body body))"
proof -
  have nw: "\<not> RTriage \<le> r" "\<not> RWrite \<le> r"
    using assms(2) by (auto simp: less_role_def less_eq_role_def)
  obtain body where b: "fe_body ev = Some body" using assms(1) by (auto simp: verify_event_def split: option.splits)
  show ?thesis
    using assms(1,3-5) nw b
    by (cases body) (auto simp: verify_event_def verify_label_def verify_item_def reader_body_def Let_def
        split: option.splits if_splits)
qed

lemma guarded_forge_apply:
  assumes "(\<exists>q. fe_body ev = Some (Opened q)) \<and> fe_number ev \<noteq> k \<or>
    (\<exists>body. fe_body ev = Some body \<and> (\<forall>q. body \<noteq> Opened q) \<and> (\<forall>l. body \<noteq> Label l) \<and>
       (fe_number ev = k \<longrightarrow> reader_body body))"
  shows "map_option guarded (item_at (forge_apply i at ev s) k) = map_option guarded (item_at s k)"
  using assms
proof (elim disjE conjE exE)
  fix q assume "fe_body ev = Some (Opened q)" "fe_number ev \<noteq> k"
  then show ?thesis by (simp add: forge_apply_def)
next
  fix body assume *: "fe_body ev = Some body" "\<forall>q. body \<noteq> Opened q" "\<forall>l. body \<noteq> Label l"
    "fe_number ev = k \<longrightarrow> reader_body body"
  then show ?thesis
    by (cases "item_at s k") (auto simp: forge_apply_other item_at_update reader_body_guarded)
qed

lemma guarded_cross:
  "map_option guarded (item_at (cross_reference uni i at ev s) k) = map_option guarded (item_at s k)"
proof -
  have "map_option guarded (item_at (update_item n (reference_item i at ev) s) k) = map_option guarded (item_at s k)"
    for n s by (auto simp: item_at_update option.map_comp comp_def)
  then have "map_option guarded (item_at (fold (\<lambda>n s. if n = m then s else update_item n (reference_item i at ev) s) ks s) k) =
    map_option guarded (item_at s k)" for m ks s
    by (induction ks arbitrary: s) auto
  then show ?thesis by (simp add: cross_reference_def split: option.splits)
qed

lemma guarded_apply_events:
  assumes "\<forall>ev \<in> set evs. (\<exists>q. fe_body ev = Some (Opened q)) \<and> fe_number ev \<noteq> k \<or>
    (\<exists>body. fe_body ev = Some body \<and> (\<forall>q. body \<noteq> Opened q) \<and> (\<forall>l. body \<noteq> Label l) \<and>
       (fe_number ev = k \<longrightarrow> reader_body body))"
  shows "map_option guarded (item_at (apply_events uni seq at i evs s) k) = map_option guarded (item_at s k)"
  using assms
  by (induction evs arbitrary: i s) (simp_all add: Let_def guarded_cross guarded_forge_apply)

section \<open>Search pages\<close>

lemma concat_pages:
  "concat (map (\<lambda>p. take k (drop ((p - 1) * k) xs)) [1..<Suc n]) = take (n * k) xs"
proof (induction n)
  case (Suc n)
  have "concat (map (\<lambda>p. take k (drop ((p - 1) * k) xs)) [1..<Suc (Suc n)]) =
    take (n * k) xs @ take k (drop (n * k) xs)"
    using Suc by (simp add: upt_Suc_append)
  also have "\<dots> = take (n * k + k) xs" by (rule take_add [symmetric])
  finally show ?case by (simp add: add.commute)
qed simp

lemma mset_sort_rows: "mset (sort_rows how rows) = mset rows"
  by (simp add: sort_rows_def)

section \<open>Properties\<close>

text \<open>
  C11. A checkpoint of issues and pull requests loses nothing: the state rebuilt from the
  records up to a checkpoint and advanced over the entries after it is the state folded from the
  whole log.
\<close>

theorem forge_checkpoint_resume:
  assumes "sorted_wrt (<) (0 # map le_seq (es1 @ es2))" "es1 \<noteq> []" "n = le_seq (last es1)"
  shows "forge_fold_entries rfc uni n es2 (forge_from_history rfc uni (forge_history_upto n
      (forge_fold_entries rfc uni 0 (es1 @ es2) default_forge_state))) =
    forge_fold_entries rfc uni 0 (es1 @ es2) default_forge_state"
  using forge.checkpoint_resume [OF assms, of rfc uni]
  by (simp add: forge_fold_entries_def forge_from_history_def forge_history_upto_def)

definition issue_opened :: forge_event where
  "issue_opened = \<lparr>fe_number = 1, fe_actor = ''ann'', fe_actor_id = ''u1'', fe_body = Some (Opened
     \<lparr>op_kind = FORGE_ISSUE, op_title = ''bug'', op_body = [], op_labels = [], op_assignees = [],
      op_base_ref = [], op_head_ref = [], op_base_oid = [], op_head_oid = [], op_draft = False\<rparr>)\<rparr>"

definition issue_comment :: forge_event where
  "issue_comment = \<lparr>fe_number = 1, fe_actor = ''bob'', fe_actor_id = ''u2'', fe_body = Some (Comment ''yes'')\<rparr>"

definition forge_entry :: "nat \<Rightarrow> forge_event \<Rightarrow> log_entry" where
  "forge_entry seq ev = default_log_entry \<lparr>le_seq := seq, le_forge := [ev]\<rparr>"

theorem forge_checkpoint_resume_witness:
  "forge_fold_entries (\<lambda>_. []) (\<lambda>_. False) 3 [forge_entry 5 issue_comment]
     (forge_from_history (\<lambda>_. []) (\<lambda>_. False) (forge_history_upto 3
       (forge_fold_entries (\<lambda>_. []) (\<lambda>_. False) 0 [forge_entry 3 issue_opened, forge_entry 5 issue_comment]
         default_forge_state))) =
   forge_fold_entries (\<lambda>_. []) (\<lambda>_. False) 0 [forge_entry 3 issue_opened, forge_entry 5 issue_comment]
     default_forge_state"
  using forge_checkpoint_resume [of "[forge_entry 3 issue_opened]" "[forge_entry 5 issue_comment]" 3
      "\<lambda>_. []" "\<lambda>_. False"]
  by (simp add: forge_entry_def)

text \<open>
  C12. A signed-in reader without the triage role may take part in other people's issues and pull
  requests but not change them: whatever request of theirs is accepted and applied, an item they
  did not open keeps its title, text, state, labels, assignees, draft and merge state.
\<close>

theorem reader_keeps_others_items:
  assumes "forge_verify s a r (fst (forge_number evs nxt)) = Inr ()" "r < RTriage"
    and "numbers_below nxt (fates s)"
    and "item_at s k = Some it" "\<not> actor_is a (it_author_id it) (it_author it)"
  shows "\<exists>it'. item_at (apply_events uni seq at i (fst (forge_number evs nxt)) s) k = Some it' \<and>
    guarded it' = guarded it"
proof -
  let ?evs = "fst (forge_number evs nxt)"
  have "k < nxt" using assms(3,4) unfolding numbers_below_def fates_def by blast
  then have fresh: "\<forall>ev \<in> set ?evs. \<forall>q. fe_body ev = Some (Opened q) \<longrightarrow> fe_number ev \<noteq> k"
    using forge_number_fresh by fastforce
  have "\<forall>ev \<in> set ?evs. verify_event s a r ev = Inr ()"
    using assms(1) by (auto simp: forge_verify_def verify_events_all split: if_splits)
  then have "map_option guarded (item_at (apply_events uni seq at i ?evs s) k) = Some (guarded it)"
    using guarded_apply_events [of ?evs k uni seq at i s] verify_reader [OF _ assms(2,4,5)] fresh assms(4)
    by simp
  then show ?thesis by auto
qed

theorem reader_keeps_others_items_witness:
  "\<exists>it'. item_at (apply_events (\<lambda>_. False) 5 [] 0 [issue_comment]
        (forge_fold_entries (\<lambda>_. []) (\<lambda>_. False) 0 [forge_entry 3 issue_opened] default_forge_state)) 1 = Some it' \<and>
      it_state it' = ''open'' \<and> it_title it' = ''bug''"
proof -
  define s where "s = forge_fold_entries (\<lambda>_. []) (\<lambda>_. False) 0 [forge_entry 3 issue_opened] default_forge_state"
  define bob where "bob = \<lparr>act_login = ''bob'', act_user_id = ''u2'', act_owner_admin = False\<rparr>"
  define x where "x = opened_item [] issue_opened (case fe_body issue_opened of Some (Opened q) \<Rightarrow> q)"
  have it: "fs_items s = [(1, x)]" unfolding s_def x_def by code_simp
  have ev: "fst (forge_number [issue_comment] 2) = [issue_comment]"
    by (simp add: forge_number_simps is_opened_def issue_comment_def)
  have v: "forge_verify s bob RRead (fst (forge_number [issue_comment] 2)) = Inr ()"
    unfolding s_def bob_def by code_simp
  have own: "\<not> actor_is bob (it_author_id x) (it_author x)"
    by (simp add: x_def bob_def issue_opened_def opened_item_def actor_is_def)
  have "numbers_below 2 (fates s)" by (auto simp: numbers_below_def fates_def it)
  from reader_keeps_others_items [OF v _ this _ own, of 1 "\<lambda>_. False" 5 "[]" 0]
  obtain it' where "item_at (apply_events (\<lambda>_. False) 5 [] 0 [issue_comment] s) 1 = Some it'"
    "guarded it' = guarded x"
    unfolding ev by (auto simp: it less_role_def)
  moreover from this have "it_state it' = it_state x" "it_title it' = it_title x"
    by (metis guarded_sel)+
  ultimately show ?thesis unfolding s_def [symmetric]
    by (simp add: x_def issue_opened_def opened_item_def)
qed

section \<open>Event ids\<close>

lemma or_low_bits:
  assumes "i < (2::nat) ^ n"
  shows "push_bit n a OR i = push_bit n a + i"
proof -
  have i: "take_bit n i = i" using assms by (simp add: take_bit_nat_eq_self)
  have "push_bit n a AND i = 0"
    by (subst i [symmetric]) (auto simp: bit_eq_iff bit_simps)
  then show ?thesis by (simp add: disjunctive_add_eq_or)
qed

lemma forge_event_id_eq:
  assumes "seq < 2 ^ 54" "i < 1024"
  shows "forge_event_id seq i = seq * 1024 + i"
proof -
  have "take_bit 64 seq = seq" "take_bit 64 i = i" "take_bit 64 (seq * 1024) = seq * 1024"
    using assms by (simp_all add: take_bit_nat_eq_self)
  then have "forge_event_id seq i = push_bit 10 seq OR i"
    unfolding forge_event_id_def unsigned_or_eq unsigned_push_bit_eq unsigned_of_nat
    by (simp add: push_bit_eq_mult)
  also have "\<dots> = push_bit 10 seq + i" using assms by (intro or_low_bits) simp
  finally show ?thesis by (simp add: push_bit_eq_mult)
qed

text \<open>
  C37. Comment ids: while an entry holds at most 1024 events and the sequence number fits in 54
  bits, the 64-bit id of an event determines its entry and its place in it. The bound on the
  number of events matters: event 1024 of entry 2 has the id of the first event of entry 3.
\<close>

theorem forge_event_ids_distinct:
  "(seq < 2 ^ 54 \<and> i < 1024 \<and> seq' < 2 ^ 54 \<and> i' < 1024 \<longrightarrow>
      forge_event_id seq i = forge_event_id seq' i' \<longrightarrow> seq = seq' \<and> i = i') \<and>
   forge_event_id 2 1024 = forge_event_id 3 0"
proof (intro conjI impI)
  assume *: "seq < 2 ^ 54 \<and> i < 1024 \<and> seq' < 2 ^ 54 \<and> i' < 1024"
    "forge_event_id seq i = forge_event_id seq' i'"
  then have e: "seq * 1024 + i = seq' * 1024 + i'" by (simp add: forge_event_id_eq)
  from e have "(seq * 1024 + i) div 1024 = (seq' * 1024 + i') div 1024" by simp
  then show "seq = seq'" using *(1) by simp
  from e have "(seq * 1024 + i) mod 1024 = (seq' * 1024 + i') mod 1024" by simp
  then show "i = i'" using *(1) by simp
qed (simp add: forge_event_id_def)

theorem forge_event_ids_distinct_witness:
  "(7 :: nat) < 2 ^ 54 \<and> forge_event_id 7 1023 \<noteq> forge_event_id 8 0"
  using forge_event_ids_distinct [of 7 1023 8 0] by simp

text \<open>
  Search: enough pages of a query together list its rows in order; the rows are exactly the
  items that match the query, each as often as the state holds it; and the open and closed counts
  of every page add up to the items matching apart from their state.
\<close>

lemma search_pages_complete:
  assumes "length (search_rows lower query s) \<le> n * PER_PAGE"
  shows "concat (map (\<lambda>p. sp_items (forge_search lower query p s)) [1..<Suc n]) = search_rows lower query s \<and>
    mset (search_rows lower query s) = mset (filter (\<lambda>i.
      query_matches lower (fold (query_token lower) (tokens query) empty_query) i \<and>
      is_none_or (sq_state (fold (query_token lower) (tokens query) empty_query)) (\<lambda>st. it_state i = st))
      (map snd (fs_items s))) \<and>
    sp_open_count (forge_search lower query p s) + sp_closed_count (forge_search lower query p s) =
      length (filter (query_matches lower (fold (query_token lower) (tokens query) empty_query)) (map snd (fs_items s)))"
proof (intro conjI)
  have "concat (map (\<lambda>p. sp_items (forge_search lower query p s)) [1..<Suc n]) =
    concat (map (\<lambda>p. take PER_PAGE (drop ((p - 1) * PER_PAGE) (search_rows lower query s))) [1..<Suc n])"
    by (rule arg_cong [of _ _ concat], rule map_cong [OF refl]) (auto simp: forge_search_def Let_def max_def)
  then show "concat (map (\<lambda>p. sp_items (forge_search lower query p s)) [1..<Suc n]) = search_rows lower query s"
    using assms unfolding concat_pages by simp
  show "sp_open_count (forge_search lower query p s) + sp_closed_count (forge_search lower query p s) =
      length (filter (query_matches lower (fold (query_token lower) (tokens query) empty_query)) (map snd (fs_items s)))"
    unfolding forge_search_def Let_def search_page.simps by (rule le_add_diff_inverse) (rule length_filter_le)
qed (simp add: search_rows_def mset_sort_rows Let_def conj_commute)

end
