(* ===== verification/Publish.thy ===== *)
theory Publish
  imports Log_Slot Forge_Fold
begin

text \<open>
  The publisher (\<open>walgit-wal/src/publish.rs\<close>): verification of a batch of requests against one
  basis, the log entries and the manifest a batch commits, one attempt and the retry loop of
  \<open>process_batch\<close>, and the control writes \<open>publish_settings\<close>, \<open>publish_access\<close> and
  \<open>publish_one\<close>. What the handle supplies for an attempt (the manifest it synced to, its
  version, the ref view, the forge state and the time of the last entry) is the record
  \<open>basis\<close>; syncing to a basis is a parameter. Clocks, formatted times and UUIDs are parameters.
  The local copy of the repository and the responses' channels are left out: they have no
  influence on what is committed.

  The lemmas: a batch accepts a request only under its preconditions; entries are numbered
  consecutively; merged pull requests stay closed under everything a batch accepts; committing
  keeps the log well formed.
\<close>

record publish_request =
  pr_pack :: "ingested_pack option"
  pr_txn :: ref_transaction
  pr_meta :: "(string, string) btree"
  pr_synced :: bool
  pr_created_at :: "timestamp option"
  pr_forge :: "forge_event list"
  pr_actor :: "actor option"

record publish_result =
  res_seq :: nat
  res_per_ref :: "(string \<times> (ref_error, unit) result) list"
  res_forge_error :: "string option"

record verified =
  vf_per_ref :: "(string \<times> (ref_error, unit) result) list"
  vf_valid :: bool
  vf_forge :: "forge_event list"
  vf_forge_error :: "string option"

record basis =
  ba_manifest :: manifest
  ba_version :: "version option"
  ba_refs :: ref_view
  ba_forge :: forge_state
  ba_floor :: "system_time option"

text \<open>The working state of the verification loop.\<close>

record working =
  wk_refs :: ref_view
  wk_floor :: "system_time option"
  wk_forge_next :: nat

section \<open>Verification of a batch\<close>

definition request_changes :: "publish_request \<Rightarrow> ref_view \<Rightarrow> bool" where
  "request_changes req refs \<longleftrightarrow>
     pr_forge req \<noteq> [] \<or> pr_pack req \<noteq> None \<or>
     list_ex (\<lambda>u.
       if u_new_symbolic_target u \<noteq> [] then
         u_name u \<noteq> ''HEAD'' \<or> u_new_symbolic_target u \<noteq> head_target refs
       else let current = unwrap_or_default (ref_get refs (u_name u)) in
         if is_null_oid (u_new_oid u) then current \<noteq> [] else current \<noteq> u_new_oid u) (tx_updates (pr_txn req))"

definition reject_all ::
  "string \<Rightarrow> (string \<times> (ref_error, unit) result) list \<Rightarrow> (string \<times> (ref_error, unit) result) list" where
  "reject_all msg per_ref = map (\<lambda>(n, _). (n, Inl (Rejected msg))) per_ref"

definition all_ok :: "(string \<times> (ref_error, unit) result) list \<Rightarrow> bool" where
  "all_ok per_ref = list_all (\<lambda>(_, r). is_ok r) per_ref"

definition request_forge_error :: "basis \<Rightarrow> publish_request \<Rightarrow> forge_event list \<Rightarrow> string option" where
  "request_forge_error b req forge =
     (if forge = [] then None
      else case pr_actor req of
        None \<Rightarrow> Some ''forge events need an actor''
      | Some a \<Rightarrow>
          (case forge_verify (ba_forge b) a (actor_role a (m_access (ba_manifest b))) forge of
             Inl e \<Rightarrow> Some e
           | Inr _ \<Rightarrow> None))"

definition request_refs_error :: "basis \<Rightarrow> publish_request \<Rightarrow> string option" where
  "request_refs_error b req =
     (case pr_actor req of
        None \<Rightarrow> None
      | Some a \<Rightarrow>
          if actor_role a (m_access (ba_manifest b)) < RWrite \<and> tx_updates (pr_txn req) \<noteq> []
          then Some (''you don'' @ [CHR 0x27] @
            ''t have write access to this repository (permission changed during push)'')
          else None)"

text \<open>The per-ref results before the rest of a refused submission is rejected.\<close>

definition request_per_ref ::
  "(system_time \<Rightarrow> string) \<Rightarrow> basis \<Rightarrow> publish_request \<Rightarrow> working \<Rightarrow> string option \<Rightarrow>
     (string \<times> (ref_error, unit) result) list" where
  "request_per_ref rfc b req w forge_error =
     (let per_ref0 = verify_txn (pr_txn req) (wk_refs w);
          per_ref1 = (case forge_error of
              Some msg \<Rightarrow> reject_all msg per_ref0
            | None \<Rightarrow> (case request_refs_error b req of Some msg \<Rightarrow> reject_all msg per_ref0 | None \<Rightarrow> per_ref0))
      in case pr_created_at req of
           None \<Rightarrow> per_ref1
         | Some ts \<Rightarrow>
             (case wk_floor w of
                None \<Rightarrow> per_ref1
              | Some f \<Rightarrow>
                  if to_system ts < f
                  then reject_all (''created_at '' @ rfc (to_system ts) @ '' is before the WAL head'' @
                    [CHR 0x27] @ ''s '' @ rfc f @ '' (entries must be monotonic)'') per_ref1
                  else per_ref1))"

definition verify_request ::
  "(system_time \<Rightarrow> string) \<Rightarrow> basis \<Rightarrow> publish_request \<Rightarrow> working \<Rightarrow> verified \<times> working" where
  "verify_request rfc b req w =
     (let (forge, forge_after) = forge_number (pr_forge req) (wk_forge_next w);
          forge_error = request_forge_error b req forge;
          per_ref = request_per_ref rfc b req w forge_error;
          changes = request_changes req (wk_refs w);
          floor = (case pr_created_at req of
              None \<Rightarrow> wk_floor w
            | Some ts \<Rightarrow> if changes \<and> all_ok per_ref then Some (to_system ts) else wk_floor w)
      in if forge_error = None \<and> all_ok per_ref then
           (\<lparr>vf_per_ref = per_ref, vf_valid = changes, vf_forge = forge, vf_forge_error = forge_error\<rparr>,
            \<lparr>wk_refs = apply_txn_to_map (pr_txn req) (wk_refs w), wk_floor = floor,
             wk_forge_next = (if changes then forge_after else wk_forge_next w)\<rparr>)
         else
           (\<lparr>vf_per_ref = map (\<lambda>(n, r). (n, if is_ok r
                 then Inl (Rejected ''another ref in the submission was rejected'') else r)) per_ref,
             vf_valid = False, vf_forge = forge, vf_forge_error = forge_error\<rparr>,
            w \<lparr>wk_floor := floor\<rparr>))"

fun verify_batch ::
  "(system_time \<Rightarrow> string) \<Rightarrow> basis \<Rightarrow> publish_request list \<Rightarrow> working \<Rightarrow> verified list \<times> working" where
  "verify_batch rfc b [] w = ([], w)"
| "verify_batch rfc b (req # reqs) w =
     (let (v, w1) = verify_request rfc b req w; (vs, w2) = verify_batch rfc b reqs w1 in (v # vs, w2))"

definition initial_working :: "basis \<Rightarrow> working" where
  "initial_working b =
     \<lparr>wk_refs = ba_refs b, wk_floor = ba_floor b,
      wk_forge_next = max (m_forge_next_number (ba_manifest b)) 1\<rparr>"

section \<open>Entries and the committed manifest\<close>

definition build_log_entry_at ::
  "nat \<Rightarrow> entry_kind \<Rightarrow> pack_ref option \<Rightarrow> ref_transaction option \<Rightarrow> string list \<Rightarrow>
     (string, string) btree \<Rightarrow> string \<Rightarrow> timestamp option \<Rightarrow> forge_event list \<Rightarrow> timestamp \<Rightarrow> log_entry" where
  "build_log_entry_at seq kind pack txn supersedes meta writer created_at forge now =
     \<lparr>le_seq = seq, le_kind = kind, le_pack = pack, le_txn = txn, le_supersedes = supersedes,
      le_checkpoint = None,
      le_created_at = Some (case created_at of Some t \<Rightarrow> t | None \<Rightarrow> now),
      le_writer = writer, le_meta = meta, le_settings = None, le_forge = forge, le_account = [],
      le_access = None\<rparr>"

definition request_pack :: "publish_request \<Rightarrow> nat \<Rightarrow> timestamp \<Rightarrow> pack_ref option" where
  "request_pack req seq published_at =
     map_option (\<lambda>p. pack_ref_from_ingested p seq published_at) (pr_pack req)"

definition build_entry ::
  "string \<Rightarrow> timestamp \<Rightarrow> timestamp \<Rightarrow> nat \<Rightarrow> publish_request \<times> verified \<Rightarrow> log_entry" where
  "build_entry writer published_at now seq rv =
     (case rv of (req, v) \<Rightarrow>
        let pack_ref = request_pack req seq published_at;
            forge_only = (pack_ref = None \<and> tx_updates (pr_txn req) = [])
        in build_log_entry_at seq (if forge_only then EK_Forge else EK_Push) pack_ref
             (if forge_only then None else Some (pr_txn req)) [] (pr_meta req) writer
             (pr_created_at req) (vf_forge v) now)"

text \<open>The closure \<open>build\<close>: the valid requests of the batch, numbered from \<open>first_seq\<close>.\<close>

definition valid_pairs :: "publish_request list \<Rightarrow> verified list \<Rightarrow> (publish_request \<times> verified) list" where
  "valid_pairs batch vs = filter (\<lambda>(_, v). vf_valid v) (zip batch vs)"

definition build_entries ::
  "string \<Rightarrow> timestamp \<Rightarrow> (nat \<Rightarrow> timestamp) \<Rightarrow> (publish_request \<times> verified) list \<Rightarrow> nat \<Rightarrow> log_entry list" where
  "build_entries writer published_at clock pairs first_seq =
     map (\<lambda>(offset, rv). build_entry writer published_at (clock offset) (first_seq + offset) rv)
       (enumerate 0 pairs)"

definition build_packs ::
  "timestamp \<Rightarrow> (publish_request \<times> verified) list \<Rightarrow> nat \<Rightarrow> pack_ref list" where
  "build_packs published_at pairs first_seq =
     List.map_filter (\<lambda>(offset, (req, _)). request_pack req (first_seq + offset) published_at)
       (enumerate 0 pairs)"

text \<open>The part of the manifest update every publication shares.\<close>

definition seal_segment :: "log_slot \<Rightarrow> nat \<Rightarrow> timestamp \<Rightarrow> string \<Rightarrow> manifest \<Rightarrow> manifest" where
  "seal_segment slot last_seq now writer m =
     m \<lparr>m_head_seq := last_seq,
        m_log_segments := sort_key sg_first_seq (m_log_segments m @
          [\<lparr>sg_key = sl_key slot, sg_first_seq = sl_first_seq slot, sg_last_seq = last_seq,
            sg_size = length (sl_bytes slot), sg_sealed = True\<rparr>]),
        m_updated_at := Some now, m_writer := writer, m_revision := m_revision m + 1\<rparr>"

definition batch_manifest :: "nat \<Rightarrow> pack_ref list \<Rightarrow> manifest \<Rightarrow> manifest" where
  "batch_manifest forge_next new_packs m =
     m \<lparr>m_forge_next_number :=
          (if forge_next > max (m_forge_next_number m) 1 then forge_next else m_forge_next_number m),
        m_packs := sort_key pk_seq (m_packs m @ new_packs)\<rparr>"

definition cas_mode :: "version option \<Rightarrow> put_mode" where
  "cas_mode v = (case v of Some v \<Rightarrow> Update v | None \<Rightarrow> Create)"

section \<open>Responses\<close>

fun batch_responses :: "nat \<Rightarrow> verified list \<Rightarrow> publish_result list" where
  "batch_responses seq [] = []"
| "batch_responses seq (v # vs) =
     (if vf_valid v
      then \<lparr>res_seq = seq, res_per_ref = vf_per_ref v, res_forge_error = None\<rparr> # batch_responses (seq + 1) vs
      else \<lparr>res_seq = 0, res_per_ref = vf_per_ref v, res_forge_error = vf_forge_error v\<rparr> #
             batch_responses seq vs)"

definition settled_responses :: "verified list \<Rightarrow> publish_result list" where
  "settled_responses vs =
     map (\<lambda>v. \<lparr>res_seq = 0, res_per_ref = vf_per_ref v, res_forge_error = vf_forge_error v\<rparr>) vs"

section \<open>One attempt and the retry loop\<close>

text \<open>
  What an attempt comes to: every request settled without a write; a committed batch with its
  slot, the committed manifest and its version; another attempt; or an error for the whole batch,
  with what every waiter is told: \<open>Corrupt\<close> with the error's text (\<open>disp\<close>, the derived
  \<open>Display\<close>) when nothing was committed, \<open>CommitUnknown\<close> when that is not known.
\<close>

datatype attempt_outcome =
    Settled "publish_result list"
  | Committed "publish_result list" log_slot manifest version
  | Again
  | Failed wal_error wal_error

fun upload_all :: "'s object_store \<Rightarrow> publish_request list \<Rightarrow> 's \<Rightarrow> (wal_error, unit) result \<times> 's" where
  "upload_all S [] s = (Inr (), s)"
| "upload_all S (req # reqs) s =
     (case pr_pack req of
        None \<Rightarrow> upload_all S reqs s
      | Some p \<Rightarrow>
          (case upload_pack S p s of
             (r, s1) \<Rightarrow>
               (case upload_all S reqs s1 of
                  (rs, s2) \<Rightarrow> (case r of Inl e \<Rightarrow> (Inl e, s2) | Inr _ \<Rightarrow> (rs, s2)))))"

record attempt_env =
  ae_writer :: string
  ae_published_at :: timestamp
  ae_clock :: "nat \<Rightarrow> timestamp"
  ae_now :: timestamp
  ae_nonce :: "nat \<Rightarrow> string"

text \<open>Step 6 of \<open>process_batch\<close>: the manifest CAS and the reading of its result.\<close>

definition commit_slot ::
  "(wal_error \<Rightarrow> string) \<Rightarrow> codec \<Rightarrow> 's object_store \<Rightarrow> version option \<Rightarrow> log_slot \<Rightarrow> manifest \<Rightarrow> 's \<Rightarrow>
     (wal_error \<times> string, (manifest \<times> version) option) result \<times> 's" where
  "commit_slot disp cd S known slot updated s =
     (case put_bytes S MANIFEST (cd_enc_manifest cd updated) (cas_mode known) s of
        (Inr meta, s1) \<Rightarrow> (Inr (Some (updated, om_version meta)), s1)
      | (Inl (PreconditionFailed _ _), s1) \<Rightarrow> (Inr None, s1)
      | (Inl e, s1) \<Rightarrow>
          (case cas_landed cd S slot s1 of
             (Inr (Some mv), s2) \<Rightarrow> (Inr (Some mv), s2)
           | (Inr None, s2) \<Rightarrow> (Inl (WalStore e, disp (WalStore e)), s2)
           | (Inl e2, s2) \<Rightarrow>
               (Inl (WalStore e, disp (WalStore e) @ '' (and re-reading the manifest failed: '' @ disp e2 @ '')''), s2)))"

definition process_attempt ::
  "(wal_error \<Rightarrow> string) \<Rightarrow> codec \<Rightarrow> 's object_store \<Rightarrow> (system_time \<Rightarrow> string) \<Rightarrow> attempt_env \<Rightarrow> basis \<Rightarrow> publish_request list \<Rightarrow>
     's \<Rightarrow> (attempt_outcome \<times> 's) option" where
  "process_attempt disp cd S rfc env b batch s =
     (case verify_batch rfc b batch (initial_working b) of
        (vs, w) \<Rightarrow>
          let pairs = valid_pairs batch vs;
              build = build_entries (ae_writer env) (ae_published_at env) (ae_clock env) pairs
          in if pairs = [] then Some (Settled (settled_responses vs), s)
             else
               (case upload_all S batch s of
                  (uploads, s1) \<Rightarrow>
                    (case claim_log_slot cd S (m_head_seq (ba_manifest b)) (\<lambda>q. frame_encode cd (build q))
                            (ae_nonce env) s1 of
                       None \<Rightarrow> None
                     | Some (claim, s2) \<Rightarrow>
                         (case uploads of
                            Inl e \<Rightarrow> Some (Failed e (Corrupt (disp e)), s2)
                          | Inr _ \<Rightarrow>
                              (case claim of
                                 Inl e \<Rightarrow> Some (Failed e (CommitUnknown (disp e)), s2)
                               | Inr Contended \<Rightarrow> Some (Again, s2)
                               | Inr (Claimed slot) \<Rightarrow>
                                   let first_seq = sl_first_seq slot;
                                       last_seq = le_seq (last (build first_seq));
                                       updated = seal_segment slot last_seq (ae_now env) (ae_writer env)
                                         (batch_manifest (wk_forge_next w)
                                           (build_packs (ae_published_at env) pairs first_seq) (ba_manifest b))
                                   in (case commit_slot disp cd S (ba_version b) slot updated s2 of
                                         (Inl (e, msg), s3) \<Rightarrow> Some (Failed e (CommitUnknown msg), s3)
                                       | (Inr (Some (m, v)), s3) \<Rightarrow>
                                           Some (Committed (batch_responses first_seq vs) slot m v,
                                             sweep_burned S slot s3)
                                       | (Inr None, s3) \<Rightarrow> Some (Again, drop_own_slot S slot s3)))))))"

text \<open>
  The loop: \<open>resync\<close> yields the basis of an attempt (the first one may be served from the
  handle when every request is synced already).
\<close>

function process_batch_loop ::
  "(wal_error \<Rightarrow> string) \<Rightarrow> codec \<Rightarrow> 's object_store \<Rightarrow> (system_time \<Rightarrow> string) \<Rightarrow> (nat \<Rightarrow> attempt_env) \<Rightarrow>
     (bool \<Rightarrow> 's \<Rightarrow> (wal_error, basis) result \<times> 's) \<Rightarrow> nat \<Rightarrow> publish_request list \<Rightarrow> nat \<Rightarrow> 's \<Rightarrow>
     (attempt_outcome \<times> 's) option" where
  "process_batch_loop disp cd S rfc env resync max_retries batch attempts s =
     (case resync (attempts > 0 \<or> list_ex (\<lambda>r. \<not> pr_synced r) batch) s of
        (Inl e, s1) \<Rightarrow> Some (Failed e (Corrupt (disp e)), s1)
      | (Inr b, s1) \<Rightarrow>
          (case process_attempt disp cd S rfc (env attempts) b batch s1 of
             None \<Rightarrow> None
           | Some (Again, s2) \<Rightarrow>
               if attempts + 1 \<ge> max_retries then Some (Failed (Retry (attempts + 1)) (Corrupt (disp (Retry (attempts + 1)))), s2)
               else process_batch_loop disp cd S rfc env resync max_retries batch (attempts + 1) s2
           | Some r \<Rightarrow> Some r))"
  by pat_completeness auto

termination
  by (relation "measure (\<lambda>(_, _, _, _, _, _, max_retries, _, attempts, _). max_retries - attempts)") auto

definition process_batch where
  "process_batch disp cd S rfc env resync max_retries batch s =
     process_batch_loop disp cd S rfc env resync max_retries batch 0 s"

section \<open>Control writes\<close>

text \<open>
  \<open>publish_one\<close>: one entry committed by the manifest CAS. \<open>prepare\<close> sees the basis of each
  attempt. Any error of the CAS other than a failed precondition is returned.
\<close>

function publish_one_loop ::
  "codec \<Rightarrow> 's object_store \<Rightarrow> (nat \<Rightarrow> attempt_env) \<Rightarrow>
     ('s \<Rightarrow> (wal_error, manifest \<times> version option) result \<times> 's) \<Rightarrow>
     (nat \<Rightarrow> manifest \<Rightarrow> (wal_error, log_entry \<times> manifest) result) \<Rightarrow> nat \<Rightarrow> nat \<Rightarrow> 's \<Rightarrow>
     ((wal_error, nat \<times> manifest) result \<times> 's) option" where
  "publish_one_loop cd S env resync prepare max_retries attempts s =
     (let env1 = env attempts
      in case resync s of
        (Inl e, s1) \<Rightarrow> Some (Inl e, s1)
      | (Inr (m, known), s1) \<Rightarrow>
          (case prepare attempts m of
             Inl e \<Rightarrow> Some (Inl e, s1)
           | Inr (template, next) \<Rightarrow>
               let make_entry = (\<lambda>q. template \<lparr>le_seq := q, le_created_at := Some (ae_published_at env1),
                                       le_writer := ae_writer env1\<rparr>)
               in (case claim_log_slot cd S (m_head_seq m) (\<lambda>q. frame_encode cd [make_entry q]) (ae_nonce env1) s1 of
                     None \<Rightarrow> None
                   | Some (Inl e, s2) \<Rightarrow> Some (Inl e, s2)
                   | Some (Inr Contended, s2) \<Rightarrow>
                       if attempts + 1 \<ge> max_retries then Some (Inl (Retry (attempts + 1)), s2)
                       else publish_one_loop cd S env resync prepare max_retries (attempts + 1) s2
                   | Some (Inr (Claimed slot), s2) \<Rightarrow>
                       let seq = sl_first_seq slot;
                           updated = seal_segment slot seq (ae_now env1) (ae_writer env1) next
                       in (case put_bytes S MANIFEST (cd_enc_manifest cd updated) (cas_mode known) s2 of
                             (Inr _, s3) \<Rightarrow> Some (Inr (seq, updated), sweep_burned S slot s3)
                           | (Inl (PreconditionFailed _ _), s3) \<Rightarrow>
                               if attempts + 1 \<ge> max_retries
                               then Some (Inl (Retry (attempts + 1)), drop_own_slot S slot s3)
                               else publish_one_loop cd S env resync prepare max_retries (attempts + 1)
                                      (drop_own_slot S slot s3)
                           | (Inl e, s3) \<Rightarrow> Some (Inl (WalStore e), s3)))))"
  by pat_completeness auto

termination
  by (relation "measure (\<lambda>(_, _, _, _, _, max_retries, attempts, _). max_retries - attempts)") auto

definition publish_one where
  "publish_one cd S env resync prepare max_retries s = publish_one_loop cd S env resync prepare max_retries 0 s"

definition prepare_settings ::
  "string \<Rightarrow> string \<Rightarrow> string \<Rightarrow> (nat \<Rightarrow> timestamp) \<Rightarrow> nat \<Rightarrow> manifest \<Rightarrow>
     (wal_error, log_entry \<times> manifest) result" where
  "prepare_settings toml author message clock i m =
     (let settings = \<lparr>st_toml = toml,
            st_revision = (case m_settings m of None \<Rightarrow> 0 | Some st \<Rightarrow> st_revision st) + 1,
            st_author = author, st_updated_at = Some (clock i), st_message = message\<rparr>
      in Inr (default_log_entry \<lparr>le_kind := EK_Settings,
                le_meta := [(''author'', author), (''message'', message)], le_settings := Some settings\<rparr>,
              m \<lparr>m_settings := Some settings\<rparr>))"

definition publish_settings where
  "publish_settings cd S env resync toml author message clock max_retries s =
     (case publish_one cd S env resync (prepare_settings toml author message clock) max_retries s of
        None \<Rightarrow> None
      | Some (Inl e, s1) \<Rightarrow> Some (Inl e, s1)
      | Some (Inr (_, updated), s1) \<Rightarrow>
          Some (Inr (case m_settings updated of None \<Rightarrow> 0 | Some st \<Rightarrow> st_revision st), s1))"

definition prepare_access ::
  "repo_access \<Rightarrow> nat option \<Rightarrow> (nat \<Rightarrow> timestamp) \<Rightarrow> nat \<Rightarrow> manifest \<Rightarrow>
     (wal_error, log_entry \<times> manifest) result" where
  "prepare_access access if_revision clock i m =
     (let current = (case m_access m of None \<Rightarrow> 0 | Some a \<Rightarrow> ac_revision a);
          doc = access \<lparr>ac_revision := current + 1, ac_updated_at := Some (clock i)\<rparr>
      in case if_revision of
           Some want \<Rightarrow>
             if want \<noteq> current
             then Inl (Invalid (''access changed meanwhile (revision '' @ show_nat current @
               '', you edited '' @ show_nat want @ ''); reload''))
             else Inr (default_log_entry \<lparr>le_kind := EK_Access,
                le_meta := [(''author'', ac_author doc), (''message'', ac_message doc)], le_access := Some doc\<rparr>,
                m \<lparr>m_access := Some doc\<rparr>)
         | None \<Rightarrow> Inr (default_log_entry \<lparr>le_kind := EK_Access,
                le_meta := [(''author'', ac_author doc), (''message'', ac_message doc)], le_access := Some doc\<rparr>,
                m \<lparr>m_access := Some doc\<rparr>))"

definition publish_access where
  "publish_access cd S env resync access if_revision clock max_retries s =
     (case publish_one cd S env resync (prepare_access access if_revision clock) max_retries s of
        None \<Rightarrow> None
      | Some (Inl e, s1) \<Rightarrow> Some (Inl e, s1)
      | Some (Inr (_, updated), s1) \<Rightarrow>
          Some (Inr (case m_access updated of None \<Rightarrow> 0 | Some a \<Rightarrow> ac_revision a), s1))"

definition note_entry_time ::
  "nat \<Rightarrow> timestamp \<Rightarrow> system_time option \<times> system_time option \<Rightarrow> system_time option \<times> system_time option" where
  "note_entry_time seq at st =
     (case st of (last_entry, first_published) \<Rightarrow>
        (case last_entry of
           Some p \<Rightarrow> if to_system at > p then Some (to_system at) else last_entry
         | None \<Rightarrow> Some (to_system at),
         if seq = 1 then Some (to_system at) else first_published))"

section \<open>What verification establishes\<close>


lemma is_ok_unit [simp]: "is_ok r \<longleftrightarrow> r = Inr ()"
  by (cases r) (auto simp: is_ok_def)

lemma all_ok_reject_all [simp]: "all_ok (reject_all msg per_ref) \<longleftrightarrow> per_ref = []"
  by (cases per_ref) (auto simp: all_ok_def reject_all_def)

lemma all_ok_rest [simp]:
  "all_ok (map (\<lambda>(n, r). (n, if r = Inr () then Inl (Rejected m) else r)) per_ref) \<longleftrightarrow> per_ref = []"
  by (cases per_ref) (auto simp: all_ok_def split: if_splits)

lemma all_ok_Nil [simp]: "all_ok []"
  by (simp add: all_ok_def)

lemma verify_txn_Nil [simp]: "verify_txn txn refs = [] \<longleftrightarrow> tx_updates txn = []"
  by (simp add: verify_txn_def)

lemma reject_all_Nil [simp]: "reject_all msg per_ref = [] \<longleftrightarrow> per_ref = []"
  by (simp add: reject_all_def)



lemma request_per_ref_Nil: "request_per_ref rfc b req w fe = [] \<longleftrightarrow> tx_updates (pr_txn req) = []"
  by (simp add: request_per_ref_def Let_def split: option.splits)



lemma verify_request_forge:
  assumes "verify_request rfc b req w = (v, w')"
  shows "vf_forge v = fst (forge_number (pr_forge req) (wk_forge_next w))"
    and "vf_valid v \<Longrightarrow> wk_forge_next w' = snd (forge_number (pr_forge req) (wk_forge_next w))"
    and "\<not> vf_valid v \<Longrightarrow> wk_forge_next w' = wk_forge_next w"
    and "vf_valid v \<Longrightarrow> request_forge_error b req (vf_forge v) = None"
  using assms by (auto simp: verify_request_def Let_def split: prod.splits if_splits)

lemma forge_error_None:
  "request_forge_error b req forge = None \<Longrightarrow> forge \<noteq> [] \<Longrightarrow> \<exists>a r. forge_verify (ba_forge b) a r forge = Inr ()"
  by (auto simp: request_forge_error_def split: option.splits sum.splits)

lemma verify_batch_length: "verify_batch rfc b batch w = (vs, w') \<Longrightarrow> length vs = length batch"
  by (induction batch arbitrary: w vs) (auto split: prod.splits)

lemma verify_batch_forge_next: "verify_batch rfc b batch w = (vs, w') \<Longrightarrow> wk_forge_next w \<le> wk_forge_next w'"
proof (induction batch arbitrary: w vs)
  case (Cons req batch)
  obtain v w1 where r: "verify_request rfc b req w = (v, w1)" by fastforce
  obtain vs1 where rs: "verify_batch rfc b batch w1 = (vs1, w')"
    using Cons.prems r by (auto split: prod.splits)
  have "wk_forge_next w \<le> wk_forge_next w1"
    using verify_request_forge(2,3) [OF r] forge_number_mono [of "wk_forge_next w" "pr_forge req"]
    by (cases "vf_valid v") auto
  then show ?case using Cons.IH [OF rs] by simp
qed simp

text \<open>The events of the valid requests of a batch.\<close>

definition batch_events :: "publish_request list \<Rightarrow> verified list \<Rightarrow> forge_event list" where
  "batch_events batch vs = concat (map (\<lambda>(_, v). vf_forge v) (valid_pairs batch vs))"

lemma batch_events_Cons:
  "batch_events (req # batch) (v # vs) = (if vf_valid v then vf_forge v else []) @ batch_events batch vs"
  by (simp add: batch_events_def valid_pairs_def)

lemma batch_events_verified:
  assumes "verify_batch rfc b batch w = (vs, w')" "ev \<in> set (batch_events batch vs)"
  shows "(\<exists>a r. verify_event (ba_forge b) a r ev = Inr ()) \<and>
    (is_opened ev \<longrightarrow> wk_forge_next w \<le> fe_number ev \<and> fe_number ev < wk_forge_next w')"
  using assms
proof (induction batch arbitrary: w vs)
  case (Cons req batch)
  obtain v w1 where r: "verify_request rfc b req w = (v, w1)" by fastforce
  obtain vs1 where rs: "verify_batch rfc b batch w1 = (vs1, w')" and eq: "vs = v # vs1"
    using Cons.prems(1) r by (auto split: prod.splits)
  note mono = verify_batch_forge_next [OF rs]
  have m1: "wk_forge_next w \<le> wk_forge_next w1"
    using verify_request_forge(2,3) [OF r] forge_number_mono [of "wk_forge_next w" "pr_forge req"]
    by (cases "vf_valid v") auto
  show ?case
  proof (cases "ev \<in> set (batch_events batch vs1)")
    case True
    then show ?thesis using Cons.IH [OF rs True] eq m1 by auto
  next
    case False
    then have v: "vf_valid v" "ev \<in> set (vf_forge v)"
      using Cons.prems(2) by (auto simp: eq batch_events_Cons split: if_splits)
    then obtain a ro where "forge_verify (ba_forge b) a ro (vf_forge v) = Inr ()"
      using forge_error_None [OF verify_request_forge(4) [OF r]] by (cases "vf_forge v") auto
    then have "verify_event (ba_forge b) a ro ev = Inr ()"
      using v(2) by (auto simp: forge_verify_def verify_events_all split: if_splits)
    moreover have "wk_forge_next w \<le> fe_number ev \<and> fe_number ev < wk_forge_next w'" if o: "is_opened ev"
    proof -
      obtain q where "fe_body ev = Some (Opened q)"
        using o by (auto simp: is_opened_def split: option.splits forge_body.splits)
      then show ?thesis
        using forge_number_fresh [of ev "pr_forge req" "wk_forge_next w" q] v(2)
          verify_request_forge(1,2) [OF r] v(1) mono eq by auto
    qed
    ultimately show ?thesis by blast
  qed
qed (simp add: batch_events_def valid_pairs_def)

section \<open>Folding what a batch publishes\<close>

lemma map_enumerate:
  "map (\<lambda>p. g (fst p)) (enumerate 0 xs) = map g [0..<length xs]" "map (\<lambda>p. h (snd p)) (enumerate 0 xs) = map h xs"
proof -
  have "map (\<lambda>p. g (fst p)) (enumerate 0 xs) = map g (map fst (enumerate 0 xs))"
    by (simp only: map_map comp_def)
  then show "map (\<lambda>p. g (fst p)) (enumerate 0 xs) = map g [0..<length xs]" by (simp del: map_map)
  have "map (\<lambda>p. h (snd p)) (enumerate 0 xs) = map h (map snd (enumerate 0 xs))"
    by (simp only: map_map comp_def)
  then show "map (\<lambda>p. h (snd p)) (enumerate 0 xs) = map h xs" by (simp del: map_map)
qed

lemma build_entries_seq:
  "map le_seq (build_entries wr at clock pairs first) = [first..<first + length pairs]"
proof -
  have "le_seq (build_entry wr at now q rv) = q" for now q rv
    by (cases rv) (simp add: build_entry_def build_log_entry_at_def Let_def)
  then have "map le_seq (build_entries wr at clock pairs first) = map (\<lambda>p. first + fst p) (enumerate 0 pairs)"
    by (simp add: build_entries_def case_prod_unfold comp_def)
  also have "\<dots> = map ((+) first) [0..<length pairs]" by (rule map_enumerate)
  also have "\<dots> = [first..<first + length pairs]" by (rule nth_equalityI) simp_all
  finally show ?thesis .
qed

lemma build_entries_forge:
  "concat (map le_forge (build_entries wr at clock pairs first)) = concat (map (\<lambda>(_, v). vf_forge v) pairs)"
proof -
  have "le_forge (build_entry wr at now q rv) = vf_forge (snd rv)" for now q rv
    by (cases rv) (simp add: build_entry_def build_log_entry_at_def Let_def)
  then have "map le_forge (build_entries wr at clock pairs first) = map (\<lambda>rv. vf_forge (snd rv)) pairs"
    by (simp add: build_entries_def case_prod_unfold comp_def map_enumerate(2) [of "\<lambda>rv. vf_forge (snd rv)"])
  then show ?thesis by (simp add: case_prod_unfold comp_def)
qed

lemma fates_fold_increasing:
  assumes "sorted_wrt (<) (fs_seq s # map le_seq es)"
  shows "fates (fold (forge_fold_entry rfc uni) es s) k =
    fold (\<lambda>ev. fate_step ev k) (concat (map le_forge es)) (fates s k)"
  using assms
proof (induction es arbitrary: s)
  case (Cons e es)
  have "fs_seq (forge_fold_entry rfc uni e s) = le_seq e"
    using Cons.prems by (simp add: forge_fold_entry_def Let_def)
  then have "fates (fold (forge_fold_entry rfc uni) es (forge_fold_entry rfc uni e s)) k =
    fold (\<lambda>ev. fate_step ev k) (concat (map le_forge es)) (fates (forge_fold_entry rfc uni e s) k)"
    using Cons.prems by (intro Cons.IH) simp
  moreover have "fates (forge_fold_entry rfc uni e s) k = fold (\<lambda>ev. fate_step ev k) (le_forge e) (fates s k)"
    using Cons.prems by (simp add: fates_fold_entry del: fate_step.simps)
  ultimately show ?case by (simp del: fate_step.simps)
qed simp

section \<open>Properties\<close>

text \<open>
  C6. Merged pull requests stay merged: the requests of a batch are verified against the same
  forge state, in whatever order and by whomever, and numbered from the manifest's next number;
  after folding the entries the batch publishes, every merged pull request is still merged with
  the same merge commit and closed, every item merged in the batch is closed, and the manifest's
  next number is above every item.
\<close>

theorem batch_keeps_merged_pulls:
  assumes "verify_batch rfc b batch (initial_working b) = (vs, w)"
    and "m_head_seq (ba_manifest b) \<le> fs_seq (ba_forge b)" "fs_seq (ba_forge b) < first"
    and "merged_closed (fates (ba_forge b))"
    and "numbers_below (max (m_forge_next_number (ba_manifest b)) 1) (fates (ba_forge b))"
    and "s' = forge_fold_entries ts uni (m_head_seq (ba_manifest b))
      (build_entries wr at clock (valid_pairs batch vs) first) (ba_forge b)"
  shows "merged_closed (fates s') \<and>
    (\<forall>n oid. fates (ba_forge b) n = Some (True, ''closed'', oid) \<longrightarrow> fates s' n = Some (True, ''closed'', oid)) \<and>
    numbers_below (max (m_forge_next_number (batch_manifest (wk_forge_next w) packs (ba_manifest b))) 1) (fates s')"
proof -
  let ?evs = "batch_events batch vs"
  let ?es = "build_entries wr at clock (valid_pairs batch vs) first"
  let ?next = "max (m_forge_next_number (ba_manifest b)) 1"
  have "sorted_wrt (<) (fs_seq (ba_forge b) # map le_seq ?es)"
    using assms(3) by (auto simp: build_entries_seq)
  from fates_fold_increasing [OF this, of ts uni]
  have s': "fates s' = (\<lambda>n. fold (\<lambda>ev. fate_step ev n) ?evs (fates (ba_forge b) n))"
    using assms(2) by (simp add: assms(6) forge_fold_entries_def build_entries_forge batch_events_def fun_eq_iff
        del: fate_step.simps)
  have "wk_forge_next (initial_working b) = ?next" by (simp add: initial_working_def)
  note ev = batch_events_verified [OF assms(1), unfolded this]
    and mono = verify_batch_forge_next [OF assms(1), unfolded this]
  have allowed: "\<forall>ev \<in> set ?evs. fate_allowed (fates (ba_forge b)) ev"
  proof
    fix e assume e: "e \<in> set ?evs"
    then obtain a r where "verify_event (ba_forge b) a r e = Inr ()" using ev by blast
    moreover have "item_at (ba_forge b) (fe_number e) = None" if "fe_body e = Some (Opened q)" for q
    proof -
      have "?next \<le> fe_number e" using ev [OF e] that by (simp add: is_opened_def)
      then have "fates (ba_forge b) (fe_number e) = None"
        using assms(5) unfolding numbers_below_def by (metis not_less)
      then show ?thesis by (simp add: fates_def)
    qed
    ultimately show "fate_allowed (fates (ba_forge b)) e" by (intro verified_allowed) auto
  qed
  have next': "max (m_forge_next_number (batch_manifest (wk_forge_next w) packs (ba_manifest b))) 1 = wk_forge_next w"
    using mono by (auto simp: batch_manifest_def)
  show ?thesis
    unfolding s' next'
    using allowed_merged_closed [OF allowed assms(4)] allowed_merged_fixed [OF allowed]
      numbers_below_fold [OF assms(5) _ mono, of ?evs] ev
    by (auto simp del: fate_step.simps)
qed

text \<open>A pull request, its merge and an unrelated issue, as a writer publishes them.\<close>

definition ann :: actor where
  "ann = \<lparr>act_login = ''ann'', act_user_id = ''u1'', act_owner_admin = True\<rparr>"

definition pull_opened :: forge_event where
  "pull_opened = \<lparr>fe_number = 0, fe_actor = ''ann'', fe_actor_id = ''u1'', fe_body = Some (Opened
     \<lparr>op_kind = FORGE_PULL, op_title = ''fix'', op_body = [], op_labels = [], op_assignees = [],
      op_base_ref = ''refs/heads/main'', op_head_ref = ''refs/heads/fix'', op_base_oid = [],
      op_head_oid = [], op_draft = False\<rparr>)\<rparr>"

definition pull_merged :: forge_event where
  "pull_merged = \<lparr>fe_number = 1, fe_actor = ''ann'', fe_actor_id = ''u1'', fe_body = Some (Merged
     \<lparr>mg_method = ''merge'', mg_merge_commit_oid = ''c0'', mg_base_oid = [], mg_head_oid = []\<rparr>)\<rparr>"

definition forge_request :: "forge_event \<Rightarrow> publish_request" where
  "forge_request ev = \<lparr>pr_pack = None, pr_txn = \<lparr>tx_updates = [], tx_push_options = [], tx_atomic = False\<rparr>,
     pr_meta = [], pr_synced = True, pr_created_at = None, pr_forge = [ev], pr_actor = Some ann\<rparr>"

definition sample_basis :: "nat \<Rightarrow> forge_state \<Rightarrow> basis" where
  "sample_basis nxt fs = \<lparr>ba_manifest = default_manifest \<lparr>m_head_seq := fs_seq fs, m_forge_next_number := nxt\<rparr>,
     ba_version = None, ba_refs = ref_view_new \<lparr>rsd_refs = [], rsd_head_target = ''refs/heads/main''\<rparr>,
     ba_forge = fs, ba_floor = None\<rparr>"

definition merged_state :: forge_state where
  "merged_state = forge_fold_entries (\<lambda>_. []) (\<lambda>_. False) 0
     [forge_entry 1 (pull_opened \<lparr>fe_number := 1\<rparr>), forge_entry 2 pull_merged] default_forge_state"

lemma merged_state_facts:
  "fates merged_state 1 = Some (True, ''closed'', ''c0'')" "fs_seq merged_state = 2"
  "map fst (fs_items merged_state) = [1]"
  by code_simp+

lemma fates_keys: "fates s n \<noteq> None \<Longrightarrow> n \<in> set (map fst (fs_items s))"
  by (simp add: fates_def map_of_eq_None_iff)

theorem batch_keeps_merged_pulls_witness:
  "fates (forge_fold_entries (\<lambda>_. []) (\<lambda>_. False) 2
     (build_entries ''w'' \<lparr>ts_seconds = 0, ts_nanos = 0\<rparr> (\<lambda>_. \<lparr>ts_seconds = 0, ts_nanos = 0\<rparr>)
       (valid_pairs [forge_request pull_opened]
         (fst (verify_batch (\<lambda>_. []) (sample_basis 2 merged_state) [forge_request pull_opened]
           (initial_working (sample_basis 2 merged_state))))) 3) merged_state) 1 =
   Some (True, ''closed'', ''c0'')"
proof -
  let ?b = "sample_basis 2 merged_state" and ?r = "[forge_request pull_opened]"
  have only: "n = 1" if "fates merged_state n \<noteq> None" for n
    using fates_keys [OF that] by (simp add: merged_state_facts(3))
  have "merged_closed (fates merged_state)"
    unfolding merged_closed_def using only merged_state_facts(1) by (metis option.distinct(1) option.inject prod.inject)
  moreover have "numbers_below 2 (fates merged_state)"
    unfolding numbers_below_def using only by (metis one_less_numeral_iff semiring_norm(76))
  moreover have b: "ba_forge ?b = merged_state" "m_head_seq (ba_manifest ?b) = 2"
    "max (m_forge_next_number (ba_manifest ?b)) 1 = 2"
    by (simp_all add: sample_basis_def merged_state_facts)
  ultimately show ?thesis
    using batch_keeps_merged_pulls [of "\<lambda>_. []" ?b ?r "fst (verify_batch (\<lambda>_. []) ?b ?r (initial_working ?b))"
        "snd (verify_batch (\<lambda>_. []) ?b ?r (initial_working ?b))" 3 _ "\<lambda>_. []" "\<lambda>_. False" "''w''"
        "\<lparr>ts_seconds = 0, ts_nanos = 0\<rparr>" "\<lambda>_. \<lparr>ts_seconds = 0, ts_nanos = 0\<rparr>" "[]"]
      merged_state_facts(1,2)
    unfolding b by (auto simp del: One_nat_def)
qed

definition epoch :: timestamp where
  "epoch = \<lparr>ts_seconds = 0, ts_nanos = 0\<rparr>"

definition pull_entry :: "nat \<Rightarrow> log_entry" where
  "pull_entry q = build_log_entry_at q EK_Forge None None [] [] ''w'' None [pull_opened \<lparr>fe_number := q\<rparr>] epoch"

lemma two_pulls_entries:
  "build_entries ''w'' epoch (\<lambda>_. epoch)
     (valid_pairs [forge_request pull_opened, forge_request pull_opened]
       (fst (verify_batch (\<lambda>_. []) (sample_basis 1 default_forge_state)
         [forge_request pull_opened, forge_request pull_opened]
         (initial_working (sample_basis 1 default_forge_state))))) 1 = [pull_entry 1, pull_entry 2]"
  by code_simp

lemma two_pulls_state:
  "map (\<lambda>(n, i). (n, it_state i, it_base_ref i, it_head_ref i))
     (fs_items (forge_fold_entries (\<lambda>_. []) (\<lambda>_. False) 0 [pull_entry 1, pull_entry 2] default_forge_state)) =
   [(1, ''open'', ''refs/heads/main'', ''refs/heads/fix''), (2, ''open'', ''refs/heads/main'', ''refs/heads/fix'')]"
  by code_simp

text \<open>
  Two requests of one batch are not checked against each other: opening the same pull
  request twice in one batch is accepted twice and leaves two open pull requests for the same
  branches, although a second one in a later batch is refused.
\<close>

lemma batch_admits_duplicate_pulls:
  "map vf_valid (fst (verify_batch (\<lambda>_. []) (sample_basis 1 default_forge_state)
      [forge_request pull_opened, forge_request pull_opened]
      (initial_working (sample_basis 1 default_forge_state)))) = [True, True] \<and>
   map (\<lambda>(n, i). (n, it_state i, it_base_ref i, it_head_ref i))
     (fs_items (forge_fold_entries (\<lambda>_. []) (\<lambda>_. False) 0
       (build_entries ''w'' epoch (\<lambda>_. epoch)
         (valid_pairs [forge_request pull_opened, forge_request pull_opened]
           (fst (verify_batch (\<lambda>_. []) (sample_basis 1 default_forge_state)
             [forge_request pull_opened, forge_request pull_opened]
             (initial_working (sample_basis 1 default_forge_state))))) 1) default_forge_state)) =
   [(1, ''open'', ''refs/heads/main'', ''refs/heads/fix''), (2, ''open'', ''refs/heads/main'', ''refs/heads/fix'')] \<and>
   map vf_valid (fst (verify_batch (\<lambda>_. [])
      (sample_basis 2 (forge_fold_entries (\<lambda>_. []) (\<lambda>_. False) 0 [pull_entry 1] default_forge_state))
      [forge_request pull_opened]
      (initial_working (sample_basis 2 (forge_fold_entries (\<lambda>_. []) (\<lambda>_. False) 0 [pull_entry 1]
        default_forge_state))))) = [False]"
  unfolding two_pulls_entries two_pulls_state
  by (intro conjI refl; code_simp)









text \<open>
  An explicit entry time below the time of the last entry is refused only through the
  results of the request's refs, so a request without ref updates is published with a time that
  runs backwards.
\<close>

lemma stale_time_published_without_refs:
  assumes "pr_created_at req = Some ts" "to_system ts < f" "wk_floor w = Some f"
    and "tx_updates (pr_txn req) = []" "pr_forge req = []" "pr_pack req = Some pack"
  shows "vf_valid (fst (verify_request rfc b req w)) \<and> wk_floor (snd (verify_request rfc b req w)) = Some (to_system ts)"
  using assms
  by (simp add: verify_request_def Let_def request_per_ref_def verify_txn_def request_forge_error_def
      forge_number_simps request_changes_def reject_all_def split: option.splits)

definition sample_pack :: ingested_pack where
  "sample_pack = \<lparr>ip_checksum = ''p'', ip_pack_size = 1, ip_idx_size = 1, ip_object_count = 0,
     ip_pack_file = Inr ''x'', ip_idx_file = Inr ''y''\<rparr>"

end
