(* ===== verification/Fault_Store.thy ===== *)
theory Fault_Store
  imports Object_Store
begin

text \<open>
  A faulty link to a store (\<open>walgit-store/src/fault.rs\<close>): \<open>FaultStore\<close> wraps a store and lets
  seeded dice decide for every operation whether it fails before it is applied, after it is applied
  (the reply is lost), with a spurious precondition failure, with a stale \<open>304\<close>, or with a truncated
  body; keys may be denied to reads. The generator is the xorshift of the code on 64-bit words and
  a probability \<open>p\<close> is the number \<open>\<lceil>p * 2 ^ 53\<rceil>\<close>: a roll is \<open>n / 2 ^ 53\<close> for a 53-bit \<open>n\<close>, so it
  is below \<open>p\<close> exactly when \<open>n\<close> is below that number. Operations that never return (\<open>p_hang\<close>, \<open>black_hole\<close>) and
  panics end the process, so they have no outcome to model; the statistics, the trace, the gate and
  the sleeping itself have no influence on results.

  The locale \<open>lossy_store\<close> is what a client may rely on over such a link: an accepted write
  happened, a failed precondition wrote nothing, any other error of a write leaves it open whether it
  happened, and what is read is in the store. It holds for every store that meets
  \<open>versioned_store\<close>, for its faulty link, and for prefixed views of both.
\<close>

section \<open>Dice\<close>

definition rng_new :: "64 word \<Rightarrow> 64 word" where
  "rng_new seed = xor (if seed = 0 then 1 else seed) 0x9E3779B97F4A7C15"

definition rng_next :: "64 word \<Rightarrow> 64 word \<times> 64 word" where
  "rng_next r =
     (let a = xor r (drop_bit 12 r); b = xor a (push_bit 25 a); c = xor b (drop_bit 27 b)
      in (c * 0x2545F4914F6CDD1D, c))"

definition rng_f64 :: "64 word \<Rightarrow> nat \<times> 64 word" where
  "rng_f64 r = (let (n, r1) = rng_next r in (unat (drop_bit 11 n), r1))"

definition rng_below :: "nat \<Rightarrow> 64 word \<Rightarrow> nat \<times> 64 word" where
  "rng_below n r = (if n = 0 then (0, r) else let (x, r1) = rng_next r in (unat x mod n, r1))"

record fault_plan =
  fp_delay :: "(nat \<times> nat) option"
  fp_err_before :: nat
  fp_err_after :: nat
  fp_cas_fail :: nat
  fp_stale_304 :: nat
  fp_truncate :: nat
  fp_deny_keys :: "string list"
  fp_only_keys :: "string list option"

definition healthy :: fault_plan where
  "healthy = \<lparr>fp_delay = None, fp_err_before = 0, fp_err_after = 0, fp_cas_fail = 0, fp_stale_304 = 0,
     fp_truncate = 0, fp_deny_keys = [], fp_only_keys = None\<rparr>"

definition stale_forever :: fault_plan where
  "stale_forever = healthy \<lparr>fp_stale_304 := 2 ^ 53\<rparr>"

text \<open>The link: the inner store's state, the current plan and the generator.\<close>

record 's fault_link =
  fl_inner :: 's
  fl_plan :: fault_plan
  fl_rng :: "64 word"

definition link_new :: "'s \<Rightarrow> 64 word \<Rightarrow> 's fault_link" where
  "link_new inner seed = \<lparr>fl_inner = inner, fl_plan = healthy, fl_rng = rng_new seed\<rparr>"

definition link_set :: "fault_plan \<Rightarrow> 's fault_link \<Rightarrow> 's fault_link" where
  "link_set plan l = l \<lparr>fl_plan := plan\<rparr>"

definition link_heal :: "'s fault_link \<Rightarrow> 's fault_link" where
  "link_heal l = l \<lparr>fl_plan := healthy\<rparr>"

datatype decision = Proceed | ErrBefore | ErrAfter | CasFail | Stale | Truncate nat | Denied

definition plan_scope :: "fault_plan \<Rightarrow> string \<Rightarrow> bool" where
  "plan_scope plan key =
     (case fp_only_keys plan of None \<Rightarrow> True | Some ks \<Rightarrow> list_ex (str_contains key) ks)"

definition delay_draw :: "fault_plan \<Rightarrow> 64 word \<Rightarrow> 64 word" where
  "delay_draw plan r =
     (case fp_delay plan of
        None \<Rightarrow> r
      | Some (lo, hi) \<Rightarrow> snd (rng_below (min (min (hi - lo) (2 ^ 64 - 1) + 1) (2 ^ 64 - 1)) r))"

definition decide ::
  "string \<Rightarrow> bool \<Rightarrow> bool \<Rightarrow> bool \<Rightarrow> 's fault_link \<Rightarrow> decision \<times> 's fault_link" where
  "decide key mutation conditional read_body l =
     (let plan = fl_plan l in
      if \<not> mutation \<and> list_ex (str_contains key) (fp_deny_keys plan) then (Denied, l)
      else let r = delay_draw plan (fl_rng l) in
        if \<not> plan_scope plan key then (Proceed, l \<lparr>fl_rng := r\<rparr>)
        else
          let (roll0, r0) = rng_f64 r; (roll1, r1) = rng_f64 r0; (roll2, r2) = rng_f64 r1;
              (roll3, r3) = rng_f64 r2; (roll4, r4) = rng_f64 r3; (roll5, r5) = rng_f64 r4;
              (cut, r6) = rng_below (2 ^ 20) r5
          in (if roll1 < fp_err_before plan then ErrBefore
              else if mutation \<and> conditional \<and> roll2 < fp_cas_fail plan then CasFail
              else if mutation \<and> roll3 < fp_err_after plan then ErrAfter
              else if \<not> mutation \<and> conditional \<and> roll4 < fp_stale_304 plan then Stale
              else if read_body \<and> roll5 < fp_truncate plan then Truncate cut
              else Proceed,
              l \<lparr>fl_rng := r6\<rparr>))"

section \<open>Operations\<close>

definition link_error :: "string \<Rightarrow> string \<Rightarrow> string \<Rightarrow> string \<Rightarrow> store_error" where
  "link_error nm op key at =
     Retryable (''fault-store['' @ nm @ '']: injected transient error '' @ at @ '' '' @ op @ '' '' @ key)"

text \<open>An operation of the inner store.\<close>

definition on_inner :: "('s \<Rightarrow> 'r \<times> 's) \<Rightarrow> 's fault_link \<Rightarrow> 'r \<times> 's fault_link" where
  "on_inner op l = (case op (fl_inner l) of (r, s) \<Rightarrow> (r, l \<lparr>fl_inner := s\<rparr>))"

text \<open>The reply of an applied mutation is lost; its own error is not.\<close>

definition lose_reply :: "store_error \<Rightarrow> (store_error, 'a) result \<times> 's \<Rightarrow> (store_error, 'a) result \<times> 's" where
  "lose_reply e y = (case y of (Inl e', s) \<Rightarrow> (Inl e', s) | (Inr _, s) \<Rightarrow> (Inl e, s))"

fun truncate_loop :: "string \<Rightarrow> nat \<Rightarrow> nat \<Rightarrow> byte_stream \<Rightarrow> byte_stream" where
  "truncate_loop msg at sent [] = []"
| "truncate_loop msg at sent (Inl e # body) = [Inl e]"
| "truncate_loop msg at sent (Inr b # body) =
     (if length b \<le> at - sent then Inr b # truncate_loop msg at (sent + length b) body
      else [Inr (take (at - sent) b), Inl (Retryable msg)])"

definition truncate_stream :: "byte_stream \<Rightarrow> nat \<Rightarrow> string \<Rightarrow> byte_stream" where
  "truncate_stream body at msg = truncate_loop msg at 0 body"

definition truncate_result :: "string \<Rightarrow> string \<Rightarrow> nat \<Rightarrow> get_result \<Rightarrow> get_result" where
  "truncate_result nm key at g =
     (case g of
        GetObject meta body \<Rightarrow>
          let size = om_size meta; at = (if size = 0 then 0 else at mod size)
          in GetObject meta (truncate_stream body at
               (''fault-store['' @ nm @ '']: injected truncation of '' @ key @ '' at '' @ show_nat at @ ''/'' @
                show_nat size))
      | NotModified v \<Rightarrow> NotModified v)"

definition fault_get where
  "fault_get nm S key opts l =
     (case decide key False (go_if_none_match opts \<noteq> None) True l of
        (d, l1) \<Rightarrow>
          (case d of
             ErrBefore \<Rightarrow> (Inl (link_error nm ''get'' key ''before''), l1)
           | Denied \<Rightarrow> (Inl (NotFound key), l1)
           | Stale \<Rightarrow>
               (case go_if_none_match opts of
                  Some v \<Rightarrow> (Inr (NotModified v), l1)
                | None \<Rightarrow> (Inl (OtherError ''stale response needs a conditional version''), l1))
           | Truncate at \<Rightarrow>
               (case on_inner (os_get S key opts) l1 of
                  (Inl e, l2) \<Rightarrow> (Inl e, l2)
                | (Inr g, l2) \<Rightarrow> (Inr (truncate_result nm key at g), l2))
           | _ \<Rightarrow> on_inner (os_get S key opts) l1))"

definition fault_head where
  "fault_head nm S key l =
     (case decide key False False False l of
        (d, l1) \<Rightarrow>
          (case d of
             ErrBefore \<Rightarrow> (Inl (link_error nm ''head'' key ''before''), l1)
           | Denied \<Rightarrow> (Inr None, l1)
           | _ \<Rightarrow> on_inner (os_head S key) l1))"

definition fault_put where
  "fault_put nm S key body opts l =
     (case decide key True (po_mode opts \<noteq> Overwrite) False l of
        (d, l1) \<Rightarrow>
          (case d of
             ErrBefore \<Rightarrow> (Inl (link_error nm ''put'' key ''before''), l1)
           | CasFail \<Rightarrow> (Inl (PreconditionFailed key None), l1)
           | ErrAfter \<Rightarrow>
               lose_reply (link_error nm ''put'' key ''after (applied)'') (on_inner (os_put S key body opts) l1)
           | _ \<Rightarrow> on_inner (os_put S key body opts) l1))"

definition fault_delete where
  "fault_delete nm S key if_version l =
     (case decide key True (if_version \<noteq> None) False l of
        (d, l1) \<Rightarrow>
          (case d of
             ErrBefore \<Rightarrow> (Inl (link_error nm ''delete'' key ''before''), l1)
           | CasFail \<Rightarrow> (Inl (PreconditionFailed key None), l1)
           | ErrAfter \<Rightarrow>
               lose_reply (link_error nm ''delete'' key ''after (applied)'') (on_inner (os_delete S key if_version) l1)
           | _ \<Rightarrow> on_inner (os_delete S key if_version) l1))"

text \<open>Listings roll one die only, and only in scope.\<close>

definition list_decide :: "string \<Rightarrow> 's fault_link \<Rightarrow> bool \<times> 's fault_link" where
  "list_decide pre l =
     (if plan_scope (fl_plan l) pre
      then let (roll, r) = rng_f64 (fl_rng l) in (roll < fp_err_before (fl_plan l), l \<lparr>fl_rng := r\<rparr>)
      else (False, l))"

definition fault_list where
  "fault_list nm S pre start_after l =
     (case list_decide pre l of
        (True, l1) \<Rightarrow> ([Inl (link_error nm ''list'' pre ''before'')], l1)
      | (False, l1) \<Rightarrow> on_inner (os_list S pre start_after) l1)"

definition fault_list_prefixes where
  "fault_list_prefixes nm S pre l =
     (case list_decide pre l of
        (True, l1) \<Rightarrow> (Inl (link_error nm ''list_prefixes'' pre ''before''), l1)
      | (False, l1) \<Rightarrow> on_inner (os_list_prefixes S pre) l1)"

definition fault_compose where
  "fault_compose nm S dest sources opts l =
     (case decide dest True (po_mode opts \<noteq> Overwrite) False l of
        (d, l1) \<Rightarrow>
          (case d of
             ErrBefore \<Rightarrow> (Inl (link_error nm ''compose'' dest ''before''), l1)
           | CasFail \<Rightarrow> (Inl (PreconditionFailed dest None), l1)
           | ErrAfter \<Rightarrow>
               lose_reply (link_error nm ''compose'' dest ''after (applied)'')
                 (on_inner (os_compose S dest sources opts) l1)
           | _ \<Rightarrow> on_inner (os_compose S dest sources opts) l1))"

definition faulty :: "string \<Rightarrow> 's object_store \<Rightarrow> 's fault_link object_store" where
  "faulty nm S =
     \<lparr>os_get = fault_get nm S, os_head = fault_head nm S, os_put = fault_put nm S,
      os_delete = fault_delete nm S, os_list = fault_list nm S,
      os_list_prefixes = fault_list_prefixes nm S, os_compose = fault_compose nm S\<rparr>"

lemma faulty_ops [simp]:
  "os_get (faulty nm S) = fault_get nm S" "os_head (faulty nm S) = fault_head nm S"
  "os_put (faulty nm S) = fault_put nm S" "os_delete (faulty nm S) = fault_delete nm S"
  "os_list (faulty nm S) = fault_list nm S" "os_list_prefixes (faulty nm S) = fault_list_prefixes nm S"
  "os_compose (faulty nm S) = fault_compose nm S"
  by (simp_all add: faulty_def)

section \<open>What a link still guarantees\<close>

lemma decide_inner: "decide key m c b l = (d, l1) \<Longrightarrow> fl_inner l1 = fl_inner l"
  by (auto simp: decide_def Let_def split: if_splits prod.splits)

lemma on_inner_result: "on_inner op l = (r, l') \<Longrightarrow> op (fl_inner l) = (r, fl_inner l')"
  by (auto simp: on_inner_def split: prod.splits)

lemma truncate_loop_collect:
  "collect_loop (truncate_loop msg at sent body) f b = Inr d \<Longrightarrow> collect_loop body f b = Inr d"
proof (induction msg at sent body arbitrary: f b rule: truncate_loop.induct)
  case (3 msg at sent c body)
  then show ?case by (cases f; cases b) (auto split: if_splits)
qed simp_all

text \<open>The contract.\<close>

locale lossy_store =
  fixes S :: "'s object_store"
    and view :: "'s \<Rightarrow> string \<Rightarrow> (version \<times> bytes) option"
  assumes lossy_get: "os_get S k default_get s = (r, s') \<Longrightarrow> view s' = view s"
    and lossy_get_object: "os_get S k default_get s = (Inr (GetObject meta body), s') \<Longrightarrow>
      collect body n = Inr d \<Longrightarrow> view s k = Some (om_version meta, d)"
    and lossy_head: "os_head S k s = (r', s') \<Longrightarrow> view s' = view s"
    and lossy_put: "os_put S k (PutBytes d) opts s = (Inr meta, s') \<Longrightarrow> view s' k = Some (om_version meta, d)"
    and lossy_put_failed: "os_put S k (PutBytes d) opts s = (Inl e, s') \<Longrightarrow>
      view s' = view s \<or> \<not> is_precondition_failed e \<and> (\<exists>v. view s' = (view s)(k \<mapsto> (v, d)))"
    and lossy_put_other: "os_put S k b opts s = (w, s') \<Longrightarrow> k' \<noteq> k \<Longrightarrow> view s' k' = view s k'"
    and lossy_delete_other: "os_delete S k if_version s = (u, s') \<Longrightarrow> k' \<noteq> k \<Longrightarrow> view s' k' = view s k'"
begin

lemma lossy_get_bytes:
  assumes "get_bytes S k s = (r, s')"
  shows "view s' = view s" "r = Inr (Some (meta, d)) \<Longrightarrow> view s k = Some (om_version meta, d)"
proof -
  obtain g s1 where g: "os_get S k default_get s = (g, s1)" by fastforce
  show "view s' = view s"
    using lossy_get [OF g] assms g by (auto simp: get_bytes_def split: sum.splits store_error.splits)
  assume "r = Inr (Some (meta, d))"
  then obtain body where "g = Inr (GetObject meta body)" "collect body (om_size meta) = Inr d"
    using assms g
    by (auto simp: get_bytes_def get_result_bytes_def split: sum.splits store_error.splits get_result.splits)
  then show "view s k = Some (om_version meta, d)" using lossy_get_object g by blast
qed

end

lemma collect_one [simp]: "collect [Inr d] n = Inr d"
  by (simp add: collect_def)

context versioned_store begin

lemma get_default:
  "os_get S k default_get s = (r, s') \<Longrightarrow> s' = s \<and>
     (\<forall>meta body. r = Inr (GetObject meta body) \<longrightarrow> (\<exists>d. view s k = Some (om_version meta, d) \<and> body = [Inr d]))"
  using get_absent [of s k default_get] get_present [of s k]
  by (cases "view s k") (auto simp: object_meta_of_def)

lemma delete_only: "os_delete S k if_version s = (u, s') \<Longrightarrow> k' \<noteq> k \<Longrightarrow> view s' k' = view s k'"
  using delete_absent [of s k if_version] delete_missing [of s k] delete_refused [of s k]
    delete_accepted [of s k _ _ if_version]
  by (cases if_version; cases "view s k") (metis fun_upd_other old.prod.exhaust prod.inject)+

lemma put_result:
  "os_put S k (PutBytes d) opts s = (r, s') \<Longrightarrow>
     (\<forall>meta. r = Inr meta \<longrightarrow> view s' = (view s)(k \<mapsto> (om_version meta, d))) \<and> (\<forall>e. r = Inl e \<longrightarrow> s' = s)"
  using put_accepted [of opts s k d] put_refused [of opts s k d]
  by (cases "put_allowed (po_mode opts) (map_option fst (view s k))") (auto simp: object_meta_of_def)

lemma faulty_lossy: "lossy_store (faulty nm S) (\<lambda>l. view (fl_inner l))"
proof (unfold_locales, unfold faulty_ops, goal_cases)
  case (1 k l r l')
  then show ?case
    by (auto simp: fault_get_def split: prod.splits decision.splits sum.splits option.splits
        dest!: decide_inner on_inner_result get_default)
next
  case (2 k l meta body l' n d)
  then show ?case
    by (auto simp: fault_get_def truncate_result_def truncate_stream_def collect_def Let_def
        split: prod.splits decision.splits sum.splits option.splits get_result.splits
        dest!: decide_inner on_inner_result get_default truncate_loop_collect)
next
  case (3 k l r l')
  then show ?case
    by (auto simp: fault_head_def head_view split: prod.splits decision.splits
        dest!: decide_inner on_inner_result)
next
  case (4 k d opts l meta l')
  then show ?case
    by (auto simp: fault_put_def lose_reply_def split: prod.splits decision.splits sum.splits
        dest!: decide_inner on_inner_result put_result)
next
  case (5 k d opts l e l')
  then show ?case
    by (auto simp: fault_put_def lose_reply_def link_error_def is_precondition_failed_def
        split: prod.splits decision.splits sum.splits dest!: decide_inner on_inner_result put_result)
next
  case (6 k b opts l w l' k')
  then show ?case
    by (auto simp: fault_put_def lose_reply_def split: prod.splits decision.splits sum.splits
        dest!: decide_inner on_inner_result dest: put_other)
next
  case (7 k if_version l u l' k')
  then show ?case
    by (auto simp: fault_delete_def lose_reply_def split: prod.splits decision.splits sum.splits
        dest!: decide_inner on_inner_result dest: delete_only)
qed

end

text \<open>A prefixed view of a lossy store is lossy.\<close>

lemma prefixed_lossy:
  assumes "lossy_store S view"
  shows "lossy_store (prefixed p S) (\<lambda>s k. view s (p @ k))"
proof (intro lossy_store.intro, unfold prefixed_ops, goal_cases)
  case (1 k s r s')
  then show ?case
    by (auto simp: prefixed_get_def full_def fun_eq_iff split: prod.splits sum.splits get_result.splits
        dest!: lossy_store.lossy_get [OF assms])
next
  case (2 k s meta body s' n d)
  then show ?case
    by (auto simp: prefixed_get_def full_def strip_meta_def split: prod.splits sum.splits get_result.splits
        dest!: lossy_store.lossy_get_object [OF assms])
next
  case (3 k s r s')
  then show ?case
    by (auto simp: prefixed_head_def full_def split: prod.splits sum.splits dest!: lossy_store.lossy_head [OF assms])
next
  case (4 k d opts s meta s')
  then show ?case
    by (auto simp: prefixed_put_def full_def strip_meta_def split: prod.splits sum.splits
        dest!: lossy_store.lossy_put [OF assms])
next
  case (5 k d opts s e s')
  then show ?case
    by (auto simp: prefixed_put_def full_def fun_eq_iff split: prod.splits sum.splits
        dest!: lossy_store.lossy_put_failed [OF assms])
next
  case (6 k b opts s w s' k')
  then show ?case
    by (auto simp: prefixed_put_def full_def split: prod.splits sum.splits
        dest: lossy_store.lossy_put_other [OF assms])
next
  case (7 k if_version s u s' k')
  then show ?case
    by (auto simp: prefixed_delete_def full_def dest: lossy_store.lossy_delete_other [OF assms])
qed

text \<open>A store with definite errors is one, too.\<close>

sublocale versioned_store \<subseteq> lossy_store S view
proof (unfold_locales, goal_cases)
  case (1 k s r s')
  then show ?case by (auto dest: get_default)
next
  case (2 k s meta body s' n d)
  then show ?case using get_default [OF 2(1)] by auto
next
  case (3 k s r s')
  then show ?case by (simp add: head_view)
next
  case (4 s k d opts meta s')
  then show ?case by (auto dest: put_result)
next
  case (5 s k d opts e s')
  then show ?case by (auto dest: put_result)
next
  case (6 s k b opts w s' k')
  then show ?case by (rule put_other)
next
  case (7 s k if_version u s' k')
  then show ?case by (rule delete_only)
qed

interpretation link: lossy_store "prefixed p (faulty nm memory_store)" "\<lambda>l k. ms_view (fl_inner l) (p @ k)" for p nm
  by (rule prefixed_lossy) (rule mem.faulty_lossy)

section \<open>Single operations\<close>

lemma put_proceeds:
  "decide (p @ k) True (m \<noteq> Overwrite) False l = (Proceed, l1) \<Longrightarrow>
   put_bytes (prefixed p (faulty nm S)) k b m l = on_inner (put_bytes (prefixed p S) k b m) l1"
  by (auto simp: put_bytes_def prefixed_put_def full_def fault_put_def on_inner_def split: prod.splits sum.splits)

lemma put_loses:
  "decide (p @ k) True (m \<noteq> Overwrite) False l = (ErrAfter, l1) \<Longrightarrow>
   put_bytes (prefixed p (faulty nm S)) k b m l =
     lose_reply (link_error nm ''put'' (p @ k) ''after (applied)'') (on_inner (put_bytes (prefixed p S) k b m) l1)"
  by (auto simp: put_bytes_def prefixed_put_def full_def fault_put_def on_inner_def lose_reply_def
      split: prod.splits sum.splits)

lemma get_denied:
  "decide (p @ k) False False True l = (Denied, l1) \<Longrightarrow>
   get_bytes (prefixed p (faulty nm S)) k l = (Inr None, l1)"
  by (simp add: get_bytes_def prefixed_get_def full_def fault_get_def default_get_def)

lemma rng_f64_bound: "fst (rng_f64 r) < 2 ^ 53"
proof -
  have "unat (drop_bit 11 n) < 2 ^ 53" for n :: "64 word"
  proof -
    have "unat n < 2 ^ 64" using unsigned_less [of n, where ?'a = nat] by simp
    moreover have "unat (drop_bit 11 n) = unat n div 2 ^ 11"
      by (simp add: drop_bit_eq_div unat_div)
    ultimately show ?thesis by simp
  qed
  then show ?thesis by (simp add: rng_f64_def split: prod.splits)
qed

text \<open>Three certain outcomes.\<close>

lemma decide_out_of_scope:
  "fp_delay (fl_plan l) = None \<Longrightarrow> \<not> plan_scope (fl_plan l) key \<Longrightarrow>
   fp_deny_keys (fl_plan l) = [] \<or> m \<Longrightarrow> decide key m c b l = (Proceed, l)"
  by (auto simp: decide_def Let_def delay_draw_def)

lemma decide_denied: "list_ex (str_contains key) (fp_deny_keys (fl_plan l)) \<Longrightarrow> decide key False c b l = (Denied, l)"
  by (simp add: decide_def Let_def)

lemma decide_lost:
  assumes "plan_scope (fl_plan l) key" "fp_err_before (fl_plan l) = 0" "fp_cas_fail (fl_plan l) = 0"
    "fp_err_after (fl_plan l) = 2 ^ 53"
  shows "\<exists>r. decide key True c b l = (ErrAfter, l \<lparr>fl_rng := r\<rparr>)"
  using assms rng_f64_bound
  by (auto simp: decide_def Let_def split: prod.splits) (metis fst_conv)+

end
