(* ===== verification/Commit.thy ===== *)
theory Commit
  imports Publish Fault_Store
begin

text \<open>
  What a publication writes: which objects claiming a slot and a whole \<open>process_batch\<close> touch,
  and what the waiters of a failed batch may conclude from the error they are sent.
\<close>

lemma wal_keys_not_manifest [simp]:
  "pack_key c \<noteq> MANIFEST" "idx_key c \<noteq> MANIFEST"
  by (simp_all add: pack_key_def idx_key_def MANIFEST_def WAL_DIR_def)

lemma manifest_not_segment: "MANIFEST \<notin> log_segment_key ` A"
  by auto

text \<open>The segment of a slot holds the accepted requests of a batch, verified against some basis.\<close>

definition batch_segment ::
  "codec \<Rightarrow> (system_time \<Rightarrow> string) \<Rightarrow> (nat \<Rightarrow> attempt_env) \<Rightarrow> publish_request list \<Rightarrow> log_slot \<Rightarrow> bool" where
  "batch_segment cd rfc env batch slot \<longleftrightarrow>
     (\<exists>att b i. candidate cd (frame_encode cd (build_entries (ae_writer (env att)) (ae_published_at (env att))
        (ae_clock (env att)) (valid_pairs batch (fst (verify_batch rfc b batch (initial_working b))))
        (sl_first_seq slot))) (ae_nonce (env att) i) = Inr (sl_bytes slot))"

context lossy_store begin

lemma lossy_put_bytes:
  assumes "put_bytes S k d m s = (r, s')"
  shows "k' \<noteq> k \<Longrightarrow> view s' k' = view s k'" "r = Inr meta \<Longrightarrow> view s' k = Some (om_version meta, d)"
    "r = Inl e \<Longrightarrow> view s' = view s \<or> \<not> is_precondition_failed e \<and> (\<exists>v. view s' = (view s)(k \<mapsto> (v, d)))"
  using assms lossy_put_other lossy_put lossy_put_failed unfolding put_bytes_def by blast+

lemma lossy_get_message:
  assumes "get_message dec S k s = (r, s')"
  shows "view s' = view s"
    "r = Inr (Some (meta, m)) \<Longrightarrow> \<exists>d. view s k = Some (om_version meta, d) \<and> dec d = Inr m"
proof -
  obtain g s1 where g: "get_bytes S k s = (g, s1)" by fastforce
  show "view s' = view s"
    using lossy_get_bytes(1) [OF g] assms g by (auto simp: get_message_def split: sum.splits option.splits)
  show "\<exists>d. view s k = Some (om_version meta, d) \<and> dec d = Inr m" if "r = Inr (Some (meta, m))"
    using lossy_get_bytes(2) [OF g] assms g that by (auto simp: get_message_def split: sum.splits option.splits)
qed

lemma lossy_read_manifest: "read_manifest_fresh cd S s = (r, s') \<Longrightarrow> view s' = view s"
  using lossy_get_bytes(1) [of MANIFEST s]
  by (auto simp: read_manifest_fresh_def split: prod.splits sum.splits option.splits)

lemma probe_keeps: "probe_loop cd S key seq probes s = (r, s') \<Longrightarrow> view s' = view s"
proof (induction "ORPHAN_GRACE_PROBES - probes" arbitrary: probes s rule: less_induct)
  case less
  obtain x s1 where x: "read_manifest_fresh cd S s = (x, s1)" by fastforce
  obtain h s2 where h: "os_head S key s1 = (h, s2)" by fastforce
  have v: "view s1 = view s" "view s2 = view s1" by (rule lossy_read_manifest [OF x], rule lossy_head [OF h])
  show ?case
  proof (cases "probes + 1 \<ge> ORPHAN_GRACE_PROBES")
    case True
    then show ?thesis using less.prems x h v
      by (auto simp: probe_loop.simps [of _ _ _ _ probes] split: if_splits option.splits sum.splits)
  next
    case False
    then have "ORPHAN_GRACE_PROBES - (probes + 1) < ORPHAN_GRACE_PROBES - probes" by simp
    from less.hyps [OF this] False less.prems x h v show ?thesis
      by (auto simp: probe_loop.simps [of _ _ _ _ probes] split: if_splits option.splits sum.splits)
  qed
qed

text \<open>
  Claiming writes nothing below the sequence number it starts at, and a claimed slot is a segment
  in the store with the bytes to publish.
\<close>

definition claim_footprint ::
  "codec \<Rightarrow> (nat \<Rightarrow> bytes) \<Rightarrow> (nat \<Rightarrow> string) \<Rightarrow> 's \<Rightarrow> nat \<Rightarrow> (string \<times> version) list \<Rightarrow>
     (wal_error, claim_outcome) result \<times> 's \<Rightarrow> bool" where
  "claim_footprint cd encode nonce s seq burned y \<longleftrightarrow>
     (\<forall>k. k \<notin> log_segment_key ` {seq..} \<longrightarrow> view (snd y) k = view s k) \<and>
     (\<forall>slot. fst y = Inr (Claimed slot) \<longrightarrow>
        sl_key slot = log_segment_key (sl_first_seq slot) \<and> seq \<le> sl_first_seq slot \<and>
        view (snd y) (sl_key slot) = Some (sl_version slot, sl_bytes slot) \<and>
        (\<exists>i. candidate cd (encode (sl_first_seq slot)) (nonce i) = Inr (sl_bytes slot)) \<and>
        fst ` set (sl_burned slot) \<subseteq> fst ` set burned \<union> log_segment_key ` {seq..<sl_first_seq slot})"

lemma claim_footprint_later:
  assumes "claim_footprint cd encode nonce s (seq + 1) (burned @ [(log_segment_key seq, v)]) y"
  shows "claim_footprint cd encode nonce s seq burned y"
  unfolding claim_footprint_def
proof (intro conjI allI impI)
  show "view (snd y) k = view s k" if "k \<notin> log_segment_key ` {seq..}" for k
    using assms that unfolding claim_footprint_def by force
  fix slot assume "fst y = Inr (Claimed slot)"
  then have *: "sl_key slot = log_segment_key (sl_first_seq slot)" "Suc seq \<le> sl_first_seq slot"
    "view (snd y) (sl_key slot) = Some (sl_version slot, sl_bytes slot)"
    "\<exists>i. candidate cd (encode (sl_first_seq slot)) (nonce i) = Inr (sl_bytes slot)"
    "fst ` set (sl_burned slot) \<subseteq> insert (log_segment_key seq) (fst ` set burned) \<union>
       log_segment_key ` {Suc seq..<sl_first_seq slot}"
    using assms unfolding claim_footprint_def by auto
  then show "sl_key slot = log_segment_key (sl_first_seq slot)" "seq \<le> sl_first_seq slot"
    "view (snd y) (sl_key slot) = Some (sl_version slot, sl_bytes slot)"
    "\<exists>i. candidate cd (encode (sl_first_seq slot)) (nonce i) = Inr (sl_bytes slot)" by auto
  show "fst ` set (sl_burned slot) \<subseteq> fst ` set burned \<union> log_segment_key ` {seq..<sl_first_seq slot}"
    using *(2,5) by (auto dest!: subsetD)
qed

lemma claim_footprint_same:
  "(\<And>k. k \<notin> log_segment_key ` {seq..} \<Longrightarrow> view s' k = view s k) \<Longrightarrow> (\<And>slot. r \<noteq> Inr (Claimed slot)) \<Longrightarrow>
   claim_footprint cd encode nonce s seq burned (r, s')"
  by (auto simp: claim_footprint_def)

lemma claim_footprint_from:
  "claim_footprint cd encode nonce s2 seq burned y \<Longrightarrow>
   (\<And>k. k \<notin> log_segment_key ` {seq..} \<Longrightarrow> view s2 k = view s k) \<Longrightarrow>
   claim_footprint cd encode nonce s seq burned y"
  unfolding claim_footprint_def by auto

lemma claim_loop_footprint:
  assumes "claim_loop cd S head encode nonce i seq burned s = Some y"
  shows "claim_footprint cd encode nonce s seq burned y"
proof -
  have "S = S \<longrightarrow> claim_footprint cd encode nonce s seq burned y"
  proof (rule claim_loop.raw_induct [where P = "\<lambda>cd T head encode nonce i seq burned s y.
        T = S \<longrightarrow> claim_footprint cd encode nonce s seq burned y", OF _ assms], intro impI)
    fix f cd T head encode nonce i seq burned and s :: 's and y
    assume ih: "\<And>cd T head encode nonce i seq burned s y.
        f cd T head encode nonce i seq burned s = Some y \<Longrightarrow> T = S \<longrightarrow> claim_footprint cd encode nonce s seq burned y"
      and run: "(case candidate cd (encode seq) (nonce i) of
        Inl e \<Rightarrow> Some (Inl e, s)
      | Inr b \<Rightarrow>
          (case put_bytes T (log_segment_key seq) b Create s of
             (r, s1) \<Rightarrow>
               (case r of
                  Inr meta \<Rightarrow>
                    Some (Inr (Claimed \<lparr>sl_key = log_segment_key seq, sl_version = om_version meta,
                      sl_first_seq = seq, sl_bytes = b, sl_burned = burned\<rparr>), s1)
                | Inl e \<Rightarrow>
                    if \<not> is_precondition_failed e then Some (Inl (WalStore e), s1)
                    else
                      (case probe_loop cd T (log_segment_key seq) seq 0 s1 of
                         (p, s2) \<Rightarrow>
                           (case p of
                              Inl e \<Rightarrow> Some (Inl e, s2)
                            | Inr p \<Rightarrow>
                                (case p of
                                   ProbeContended \<Rightarrow> Some (Inr Contended, s2)
                                 | ProbeFree \<Rightarrow> f cd T head encode nonce (i + 1) seq burned s2
                                 | ProbeOrphan v \<Rightarrow>
                                     if length burned + 1 \<ge> MAX_BURN
                                     then Some (Inl (Corrupt (show_nat MAX_BURN @
                                       '' consecutive orphaned log segments from seq '' @ show_nat (head + 1))), s2)
                                     else f cd T head encode nonce (i + 1) (seq + 1)
                                            (burned @ [(log_segment_key seq, v)]) s2)))))) = Some y"
      and T: "T = S"
    show "claim_footprint cd encode nonce s seq burned y"
    proof (cases "candidate cd (encode seq) (nonce i)")
      case (Inl e)
      then show ?thesis using run by (auto intro: claim_footprint_same)
    next
      case (Inr b)
      note c = Inr
      obtain w s1 where w: "put_bytes S (log_segment_key seq) b Create s = (w, s1)" by fastforce
      have o1: "view s1 k = view s k" if "k \<notin> log_segment_key ` {seq..}" for k
        using lossy_put_bytes(1) [OF w, of k] that by auto
      show ?thesis
      proof (cases w)
        case (Inr meta)
        then have "y = (Inr (Claimed \<lparr>sl_key = log_segment_key seq, sl_version = om_version meta,
            sl_first_seq = seq, sl_bytes = b, sl_burned = burned\<rparr>), s1)"
          using run c w T by simp
        then show ?thesis using o1 lossy_put_bytes(2) [OF w Inr] c by (auto simp: claim_footprint_def)
      next
        case (Inl e)
        obtain p s2 where p: "probe_loop cd S (log_segment_key seq) seq 0 s1 = (p, s2)" by fastforce
        then have o2: "view s2 k = view s k" if "k \<notin> log_segment_key ` {seq..}" for k
          using probe_keeps o1 [OF that] by metis
        have "claim_footprint cd encode nonce s seq burned y"
          if "f cd T head encode nonce (i + 1) seq burned s2 = Some y"
          using claim_footprint_from [OF ih [OF that, THEN mp, OF T] o2] .
        moreover have "claim_footprint cd encode nonce s seq burned y"
          if "f cd T head encode nonce (i + 1) (seq + 1) (burned @ [(log_segment_key seq, v)]) s2 = Some y" for v
          using claim_footprint_from [OF claim_footprint_later [OF ih [OF that, THEN mp, OF T]] o2] .
        ultimately show ?thesis
          using run c w Inl p T
          by (auto split: if_splits sum.splits probe.splits intro: claim_footprint_same [OF o1] claim_footprint_same [OF o2])
      qed
    qed
  qed
  then show ?thesis by simp
qed

lemma put_immutable_other:
  assumes "put_immutable_create S k file s = (r, s')" "k' \<noteq> k"
  shows "view s' k' = view s k'"
proof -
  obtain a s1 where a: "os_put S k (PutFile file) ((put_options_from Create) \<lparr>po_immutable := True\<rparr>) s = (a, s1)" by fastforce
  obtain h s2 where h: "os_head S k s1 = (h, s2)" by fastforce
  obtain b s3 where b: "os_put S k (PutFile file) ((put_options_from Overwrite) \<lparr>po_immutable := True\<rparr>) s2 = (b, s3)" by fastforce
  have "s' = s1 \<or> s' = s2 \<or> s' = s3"
    using assms(1) a h b by (auto simp: put_immutable_create_def split: sum.splits store_error.splits option.splits)
  then show ?thesis
    using lossy_put_other [OF a assms(2)] lossy_head [OF h] lossy_put_other [OF b assms(2)] by auto
qed

lemma upload_all_manifest: "upload_all S batch s = (r, s') \<Longrightarrow> view s' MANIFEST = view s MANIFEST"
proof (induction batch arbitrary: s r)
  case (Cons req batch)
  show ?case
  proof (cases "pr_pack req")
    case (Some p)
    obtain a s1 where a: "put_immutable_create S (pack_key (ip_checksum p)) (ip_pack_file p) s = (a, s1)" by fastforce
    obtain b s2 where b: "put_immutable_create S (idx_key (ip_checksum p)) (ip_idx_file p) s1 = (b, s2)" by fastforce
    obtain c s3 where c: "upload_pack S p s = (c, s3)" by fastforce
    then have "view s3 MANIFEST = view s MANIFEST"
      using put_immutable_other [OF a, of MANIFEST] put_immutable_other [OF b, of MANIFEST] a b
      by (auto simp: upload_pack_def wal_keys_not_manifest [symmetric] split: sum.splits)
    moreover obtain d where "upload_all S batch s3 = (d, s')"
      using Cons.prems Some c by (auto split: prod.splits sum.splits)
    ultimately show ?thesis using Cons.IH by simp
  qed (use Cons in auto)
qed simp

text \<open>
  A slot a manifest lists, with the segment in the store: what \<open>cas_landed\<close> looks for after an
  ambiguous error, and what sealing the slot establishes.
\<close>

definition slot_held :: "log_slot \<Rightarrow> manifest \<Rightarrow> 's \<Rightarrow> bool" where
  "slot_held slot m s \<longleftrightarrow>
     (\<exists>g \<in> set (m_log_segments m). sg_key g = sl_key slot \<and> sg_first_seq g = sl_first_seq slot \<and>
        sg_size g = length (sl_bytes slot)) \<and>
     map_option snd (view s (sl_key slot)) = Some (sl_bytes slot)"

lemma slot_held_sealed:
  "view s (sl_key slot) = Some (v, sl_bytes slot) \<Longrightarrow> slot_held slot (seal_segment slot last_seq now wr m) s"
  by (simp add: slot_held_def seal_segment_def)

lemma cas_landed_reads:
  assumes "cas_landed cd S slot s = (r, s')"
  shows "view s' = view s"
    "r = Inr (Some (m, v)) \<Longrightarrow> slot_held slot m s \<and> (\<exists>d. view s MANIFEST = Some (v, d) \<and> cd_dec_manifest cd d = Inr m)"
proof -
  obtain g s1 where g: "get_message (cd_dec_manifest cd) S MANIFEST s = (g, s1)" by fastforce
  obtain h s2 where h: "get_bytes S (sl_key slot) s1 = (h, s2)" by fastforce
  note v1 = lossy_get_message(1) [OF g] and v2 = lossy_get_bytes(1) [OF h]
  show "view s' = view s"
    using assms g h v1 v2 by (auto simp: cas_landed_def split: sum.splits option.splits if_splits)
  assume "r = Inr (Some (m, v))"
  then obtain meta meta' where "g = Inr (Some (meta, m))" "v = om_version meta"
    "h = Inr (Some (meta', sl_bytes slot))"
    and listed: "list_ex (\<lambda>g. sg_key g = sl_key slot \<and> sg_first_seq g = sl_first_seq slot \<and>
      sg_size g = length (sl_bytes slot)) (m_log_segments m)"
    using assms g h by (auto simp: cas_landed_def split: sum.splits option.splits if_splits)
  then show "slot_held slot m s \<and> (\<exists>d. view s MANIFEST = Some (v, d) \<and> cd_dec_manifest cd d = Inr m)"
    using lossy_get_message(2) [OF g] lossy_get_bytes(2) [OF h] v1
    by (auto simp: slot_held_def list_ex_iff)
qed

lemma commit_slot_manifest:
  assumes "commit_slot disp cd S known slot updated s = (r, s')"
    and "sl_key slot \<noteq> MANIFEST" "slot_held slot updated s"
  shows "(r = Inr None \<longrightarrow> view s' = view s) \<and>
    (\<forall>m v. r = Inr (Some (m, v)) \<longrightarrow> slot_held slot m s' \<and>
       (\<exists>d. view s' MANIFEST = Some (v, d) \<and> (m = updated \<and> d = cd_enc_manifest cd updated \<or> cd_dec_manifest cd d = Inr m))) \<and>
    (\<forall>e. r = Inl e \<longrightarrow> view s' = view s \<or> (\<exists>v. view s' = (view s)(MANIFEST \<mapsto> (v, cd_enc_manifest cd updated))))"
proof -
  obtain w s1 where w: "put_bytes S MANIFEST (cd_enc_manifest cd updated) (cas_mode known) s = (w, s1)" by fastforce
  note p = lossy_put_bytes [OF w]
  show ?thesis
  proof (cases w)
    case (Inr meta)
    have "slot_held slot updated s1" using assms(2,3) p(1) by (simp add: slot_held_def)
    then show ?thesis using assms(1) w Inr p(2) [OF Inr] by (auto simp: commit_slot_def)
  next
    case (Inl e)
    obtain c s2 where c: "cas_landed cd S slot s1 = (c, s2)" by fastforce
    note l = cas_landed_reads [OF c]
    have "slot_held slot m s2 \<and> (\<exists>d. view s2 MANIFEST = Some (v, d) \<and> cd_dec_manifest cd d = Inr m)"
      if "c = Inr (Some (m, v))" for m v
      using l(2) [OF that] l(1) by (simp add: slot_held_def)
    then show ?thesis using assms(1) w Inl c l(1) p(3) [OF Inl]
      by (auto simp: commit_slot_def is_precondition_failed_def split: store_error.splits sum.splits option.splits)
  qed
qed

text \<open>
  What an attempt, and a whole batch, may have done to the manifest: a reported commit is the
  manifest in the store; an unknown outcome is either the old manifest or one that lists a segment of
  the batch; everything else left the manifest as it was.
\<close>

definition manifest_outcome ::
  "codec \<Rightarrow> (system_time \<Rightarrow> string) \<Rightarrow> (nat \<Rightarrow> attempt_env) \<Rightarrow> publish_request list \<Rightarrow> 's \<Rightarrow>
     attempt_outcome \<times> 's \<Rightarrow> bool" where
  "manifest_outcome cd rfc env batch s y \<longleftrightarrow>
     (case fst y of
        Committed _ slot m v \<Rightarrow> batch_segment cd rfc env batch slot \<and> slot_held slot m (snd y) \<and>
          (\<exists>d. view (snd y) MANIFEST = Some (v, d) \<and> (d = cd_enc_manifest cd m \<or> cd_dec_manifest cd d = Inr m))
      | Failed _ (CommitUnknown _) \<Rightarrow> view (snd y) MANIFEST = view s MANIFEST \<or>
          (\<exists>slot m v. batch_segment cd rfc env batch slot \<and> slot_held slot m (snd y) \<and>
             view (snd y) MANIFEST = Some (v, cd_enc_manifest cd m))
      | _ \<Rightarrow> view (snd y) MANIFEST = view s MANIFEST)"

lemma manifest_outcome_from:
  "manifest_outcome cd rfc env batch s2 y \<Longrightarrow> view s2 MANIFEST = view s MANIFEST \<Longrightarrow>
   manifest_outcome cd rfc env batch s y"
  by (simp add: manifest_outcome_def split: attempt_outcome.splits wal_error.splits)

lemma manifest_outcome_same:
  "view s' MANIFEST = view s MANIFEST \<Longrightarrow> (\<And>r slot m v. out \<noteq> Committed r slot m v) \<Longrightarrow>
   manifest_outcome cd rfc env batch s (out, s')"
  by (auto simp: manifest_outcome_def split: attempt_outcome.splits wal_error.splits)

lemma sweep_view:
  assumes "k \<notin> fst ` set (sl_burned slot)"
  shows "view (sweep_burned S slot s) k = view s k"
proof -
  have "view (fold (\<lambda>(key, v) s. snd (os_delete S key (Some v) s)) xs s) k = view s k"
    if "k \<notin> fst ` set xs" for xs s
    using that
  proof (induction xs arbitrary: s)
    case (Cons x xs)
    have "k \<noteq> fst x" using Cons.prems by auto
    then have "view (snd (os_delete S (fst x) (Some (snd x)) s)) k = view s k"
      using lossy_delete_other [of "fst x" "Some (snd x)" s] by (metis prod.collapse)
    then show ?case using Cons by (simp add: case_prod_unfold)
  qed simp
  from this [OF assms] show ?thesis by (simp add: sweep_burned_def)
qed

lemma sweep_manifest:
  "fst ` set (sl_burned slot) \<subseteq> range log_segment_key \<Longrightarrow> view (sweep_burned S slot s) MANIFEST = view s MANIFEST"
  by (rule sweep_view) (auto dest!: subsetD)

text \<open>The part of an attempt after a claimed slot.\<close>

lemma seal_attempt_manifest:
  assumes "claim_footprint cd encode nonce s1 seq [] (Inr (Claimed slot), s2)"
    and "commit_slot disp cd S known slot (seal_segment slot last_seq now wr m0) s2 = (r, s3)"
    and "batch_segment cd rfc env batch slot"
  shows "r = Inr None \<Longrightarrow> view (drop_own_slot S slot s3) MANIFEST = view s2 MANIFEST"
    and "r = Inr (Some (m, v)) \<Longrightarrow>
      manifest_outcome cd rfc env batch s2 (Committed resp slot m v, sweep_burned S slot s3)"
    and "r = Inl e \<Longrightarrow> manifest_outcome cd rfc env batch s2 (Failed e' (CommitUnknown msg), s3)"
proof -
  have k: "sl_key slot = log_segment_key (sl_first_seq slot)"
    "fst ` set (sl_burned slot) \<subseteq> log_segment_key ` {seq..<sl_first_seq slot}"
    and held: "view s2 (sl_key slot) = Some (sl_version slot, sl_bytes slot)"
    using assms(1) unfolding claim_footprint_def by auto
  have nm: "sl_key slot \<noteq> MANIFEST" "sl_key slot \<notin> fst ` set (sl_burned slot)"
    "MANIFEST \<notin> fst ` set (sl_burned slot)"
  proof -
    have "log_segment_key (sl_first_seq slot) \<notin> log_segment_key ` {seq..<sl_first_seq slot}" by auto
    then show "sl_key slot \<notin> fst ` set (sl_burned slot)" using k by auto
    show "sl_key slot \<noteq> MANIFEST" using k(1) by simp
    show "MANIFEST \<notin> fst ` set (sl_burned slot)" using k(2) manifest_not_segment by blast
  qed
  note cm = commit_slot_manifest [OF assms(2) nm(1) slot_held_sealed [OF held]]
  show "view (drop_own_slot S slot s3) MANIFEST = view s2 MANIFEST" if "r = Inr None"
    using cm that lossy_delete_other [of "sl_key slot" "Some (sl_version slot)" s3 _ _ MANIFEST] nm(1)
    unfolding drop_own_slot_def by (metis prod.collapse)
  show "manifest_outcome cd rfc env batch s2 (Committed resp slot m v, sweep_burned S slot s3)"
    if "r = Inr (Some (m, v))"
    using cm that assms(3) sweep_view [OF nm(2), of s3] sweep_view [OF nm(3), of s3]
    by (auto simp: manifest_outcome_def slot_held_def)
  show "manifest_outcome cd rfc env batch s2 (Failed e' (CommitUnknown msg), s3)" if "r = Inl e"
  proof -
    from cm that consider "view s3 = view s2"
      | v where "view s3 = (view s2)(MANIFEST \<mapsto> (v, cd_enc_manifest cd (seal_segment slot last_seq now wr m0)))" by blast
    then show ?thesis
    proof cases
      case 2
      then have "slot_held slot (seal_segment slot last_seq now wr m0) s3"
        using slot_held_sealed [OF held, of last_seq now wr m0] nm(1) by (simp add: slot_held_def)
      with 2 assms(3) show ?thesis by (auto simp: manifest_outcome_def)
    qed (simp add: manifest_outcome_def)
  qed
qed

lemma process_attempt_manifest:
  assumes "process_attempt disp cd S rfc (env att) b batch s = Some y"
  shows "manifest_outcome cd rfc env batch s y"
proof -
  obtain vs w where v: "verify_batch rfc b batch (initial_working b) = (vs, w)" by fastforce
  let ?pairs = "valid_pairs batch vs"
  let ?e = "env att"
  let ?build = "build_entries (ae_writer ?e) (ae_published_at ?e) (ae_clock ?e) ?pairs"
  show ?thesis
  proof (cases "?pairs = []")
    case True
    then show ?thesis using assms v by (auto simp: process_attempt_def manifest_outcome_def)
  next
    case False
    obtain u s1 where u: "upload_all S batch s = (u, s1)" by fastforce
    note m1 = upload_all_manifest [OF u]
    obtain c s2 where c: "claim_log_slot cd S (m_head_seq (ba_manifest b)) (\<lambda>q. frame_encode cd (?build q)) (ae_nonce ?e) s1 = Some (c, s2)"
      using assms v u False by (auto simp: process_attempt_def Let_def split: option.splits)
    have fp: "claim_footprint cd (\<lambda>q. frame_encode cd (?build q)) (ae_nonce ?e) s1 (m_head_seq (ba_manifest b) + 1) [] (c, s2)"
      using claim_loop_footprint [OF c [unfolded claim_log_slot_def]] .
    then have m2: "view s2 MANIFEST = view s MANIFEST"
      using m1 manifest_not_segment unfolding claim_footprint_def by (metis snd_conv)
    show ?thesis
    proof (cases "\<exists>slot. u = Inr () \<and> c = Inr (Claimed slot)")
      case False
      then show ?thesis
        using assms v u c m2 \<open>?pairs \<noteq> []\<close>
        by (auto simp: process_attempt_def Let_def split: sum.splits claim_outcome.splits
            intro!: manifest_outcome_same)
    next
      case True
      then obtain slot where slot: "u = Inr ()" "c = Inr (Claimed slot)" by blast
      have seg: "batch_segment cd rfc env batch slot"
        using fp slot(2) v unfolding claim_footprint_def batch_segment_def by auto (metis fst_conv)
      let ?first = "sl_first_seq slot"
      let ?updated = "seal_segment slot (le_seq (last (?build ?first))) (ae_now ?e) (ae_writer ?e)
        (batch_manifest (wk_forge_next w) (build_packs (ae_published_at ?e) ?pairs ?first) (ba_manifest b))"
      obtain r s3 where r: "commit_slot disp cd S (ba_version b) slot ?updated s2 = (r, s3)" by fastforce
      note out = seal_attempt_manifest [OF fp [unfolded slot(2)] r seg]
      have "manifest_outcome cd rfc env batch s2 y"
      proof (cases r)
        case (Inl e)
        then show ?thesis
          using assms v u c slot \<open>?pairs \<noteq> []\<close> r out(3) [OF Inl]
          by (auto simp: process_attempt_def Let_def split: prod.splits)
      next
        case (Inr mv)
        show ?thesis
        proof (cases mv)
          case None
          then have "y = (Again, drop_own_slot S slot s3)"
            using assms v u c slot \<open>?pairs \<noteq> []\<close> r Inr by (auto simp: process_attempt_def Let_def)
          then show ?thesis using out(1) Inr None by (simp add: manifest_outcome_same)
        next
          case (Some x)
          then have "y = (Committed (batch_responses ?first vs) slot (fst x) (snd x), sweep_burned S slot s3)"
            using assms v u c slot \<open>?pairs \<noteq> []\<close> r Inr
            by (auto simp: process_attempt_def Let_def case_prod_unfold)
          then show ?thesis using out(2) [of "fst x" "snd x"] Inr Some by simp
        qed
      qed
      then show ?thesis using m2 by (rule manifest_outcome_from)
    qed
  qed
qed

lemma process_batch_manifest:
  assumes "process_batch_loop disp cd S rfc env resync n batch att s = Some y"
    and "\<forall>force s. view (snd (resync force s)) MANIFEST = view s MANIFEST"
  shows "manifest_outcome cd rfc env batch s y"
  using assms(1)
proof (induction "n - att" arbitrary: att s rule: less_induct)
  case less
  obtain rb s1 where rb: "resync (att > 0 \<or> list_ex (\<lambda>r. \<not> pr_synced r) batch) s = (rb, s1)" by fastforce
  then have m1: "view s1 MANIFEST = view s MANIFEST" using assms(2) by (metis snd_conv)
  show ?case
  proof (cases rb)
    case (Inl e)
    then show ?thesis using less.prems rb m1
      by (auto simp: process_batch_loop.simps [of _ _ _ _ _ _ _ _ att] intro!: manifest_outcome_same)
  next
    case (Inr b)
    then obtain out s2 where a: "process_attempt disp cd S rfc (env att) b batch s1 = Some (out, s2)"
      using less.prems rb by (auto simp: process_batch_loop.simps [of _ _ _ _ _ _ _ _ att] split: option.splits)
    note m2 = manifest_outcome_from [OF process_attempt_manifest [where env = env and att = att, OF a] m1]
    have again: "view s2 MANIFEST = view s MANIFEST" if "out = Again"
      using m2 that by (simp add: manifest_outcome_def)
    show ?thesis
    proof (cases "out = Again \<and> att + 1 < n")
      case True
      then have "process_batch_loop disp cd S rfc env resync n batch (att + 1) s2 = Some y" "n - (att + 1) < n - att"
        using less.prems rb Inr a by (auto simp: process_batch_loop.simps [of _ _ _ _ _ _ _ _ att])
      from manifest_outcome_from [OF less.hyps [OF this(2,1)] again] True show ?thesis by simp
    next
      case False
      then have "y = (out, s2) \<or> out = Again \<and> (\<exists>e e'. y = (Failed e e', s2))"
        using less.prems rb Inr a
        by (auto simp: process_batch_loop.simps [of _ _ _ _ _ _ _ _ att] split: attempt_outcome.splits)
      then show ?thesis using m2 again by (auto intro!: manifest_outcome_same)
    qed
  qed
qed

end

section \<open>Publishing ends\<close>

context versioned_store begin

lemma read_manifest_fresh_pure: "\<exists>r. read_manifest_fresh cd S s = (r, s)"
  by (auto simp: read_manifest_fresh_def get_bytes_view split: option.splits sum.splits)

text \<open>On a store nobody else writes to, an occupied slot is never found free.\<close>

lemma probe_occupied:
  assumes "view s key = Some x"
  shows "\<exists>r. probe_loop cd S key seq probes s = (r, s) \<and> r \<noteq> Inr ProbeFree"
proof (induction "ORPHAN_GRACE_PROBES - probes" arbitrary: probes rule: less_induct)
  case less
  obtain r where r: "read_manifest_fresh cd S s = (r, s)" using read_manifest_fresh_pure by blast
  show ?case
  proof (cases "probes + 1 \<ge> ORPHAN_GRACE_PROBES")
    case True
    then show ?thesis using r assms by (subst probe_loop.simps) (auto simp: head_view split: sum.splits)
  next
    case False
    then have "ORPHAN_GRACE_PROBES - (probes + 1) < ORPHAN_GRACE_PROBES - probes" by simp
    from less [OF this] show ?thesis using r assms False
      by (subst probe_loop.simps) (auto simp: head_view split: sum.splits)
  qed
qed

lemma claim_loop_returns: "\<exists>r. claim_loop cd S head_seq encode nonce i seq burned s = Some r"
proof (induction "MAX_BURN - length burned" arbitrary: i seq burned rule: less_induct)
  case less
  show ?case
  proof (cases "candidate cd (encode seq) (nonce i)")
    case (Inl e)
    then show ?thesis by (simp add: claim_loop.simps)
  next
    case (Inr b)
    show ?thesis
    proof (cases "view s (log_segment_key seq)")
      case None
      then show ?thesis using claim_loop_free [of cd encode seq nonce i b s head_seq burned] Inr by auto
    next
      case (Some x)
      then have "\<not> put_allowed Create (map_option fst (view s (log_segment_key seq)))" by (simp add: put_allowed_def)
      from put_bytes_refused [OF this] obtain k' where
        "put_bytes S (log_segment_key seq) b Create s = (Inl (PreconditionFailed k' (map_option fst (view s (log_segment_key seq)))), s)"
        by metis
      moreover obtain p where "probe_loop cd S (log_segment_key seq) seq 0 s = (p, s)" "p \<noteq> Inr ProbeFree"
        using probe_occupied [OF Some] by metis
      moreover have "\<exists>r. claim_loop cd S head_seq encode nonce (i + 1) (seq + 1) (burned @ [(log_segment_key seq, v)]) s = Some r"
        if "length burned + 1 < MAX_BURN" for v
        using less [of "burned @ [(log_segment_key seq, v)]"] that by simp
      ultimately show ?thesis using Inr
        by (subst claim_loop.simps) (auto simp: is_precondition_failed_def not_le split: sum.splits probe.splits)
    qed
  qed
qed

lemma process_attempt_returns: "\<exists>r. process_attempt disp cd S rfc env b batch s = Some r"
proof -
  obtain vs w where v: "verify_batch rfc b batch (initial_working b) = (vs, w)"
    by (cases "verify_batch rfc b batch (initial_working b)")
  obtain up s1 where up: "upload_all S batch s = (up, s1)" by (cases "upload_all S batch s")
  define enc where "enc = (\<lambda>q. frame_encode cd (build_entries (ae_writer env) (ae_published_at env) (ae_clock env)
    (valid_pairs batch vs) q))"
  have "\<exists>r. claim_log_slot cd S (m_head_seq (ba_manifest b)) enc (ae_nonce env) s1 = Some r"
    unfolding claim_log_slot_def by (rule claim_loop_returns)
  then obtain c s2 where c: "claim_log_slot cd S (m_head_seq (ba_manifest b)) enc (ae_nonce env) s1 = Some (c, s2)"
    by auto
  show ?thesis
    unfolding process_attempt_def Let_def v up prod.case c [unfolded enc_def] option.case
    by (auto split: prod.splits sum.splits option.splits claim_outcome.splits)
qed

lemma process_batch_loop_returns:
  "\<exists>r. process_batch_loop disp cd S rfc env resync max_retries batch attempts s = Some r"
proof (induction "max_retries - attempts" arbitrary: attempts s rule: less_induct)
  case less
  obtain r s1 where r: "resync (attempts > 0 \<or> list_ex (\<lambda>r. \<not> pr_synced r) batch) s = (r, s1)"
    by (cases "resync (attempts > 0 \<or> list_ex (\<lambda>r. \<not> pr_synced r) batch) s")
  show ?case
  proof (cases r)
    case (Inl e)
    then show ?thesis using r by (subst process_batch_loop.simps) simp
  next
    case (Inr b)
    obtain out s2 where out: "process_attempt disp cd S rfc (env attempts) b batch s1 = Some (out, s2)"
      using process_attempt_returns [of disp cd rfc "env attempts" b batch s1] by auto
    have "\<exists>r. process_batch_loop disp cd S rfc env resync max_retries batch (attempts + 1) s2 = Some r"
      if "\<not> attempts + 1 \<ge> max_retries" using that by (intro less) simp
    then show ?thesis using r Inr out
      by (subst process_batch_loop.simps) (cases out; simp del: process_batch_loop.simps)
  qed
qed

lemma publish_one_loop_returns: "\<exists>r. publish_one_loop cd S env resync prepare max_retries attempts s = Some r"
proof (induction "max_retries - attempts" arbitrary: attempts s rule: less_induct)
  case less
  have again: "\<exists>r. publish_one_loop cd S env resync prepare max_retries (attempts + 1) t = Some r"
    if "\<not> attempts + 1 \<ge> max_retries" for t
    using that by (intro less) simp
  have claim: "\<exists>c t. claim_log_slot cd S h encode nonce u = Some (c, t)" for h encode nonce u
    using claim_loop_returns unfolding claim_log_slot_def by (metis surj_pair)
  obtain r s1 where r: "resync s = (r, s1)" by (cases "resync s")
  show ?case
  proof (cases "\<exists>m known template next. r = Inr (m, known) \<and> prepare attempts m = Inr (template, next)")
    case False
    then consider e where "r = Inl e" | m known e where "r = Inr (m, known)" "prepare attempts m = Inl e"
      by (cases r) (force, metis sum.exhaust surj_pair)
    then show ?thesis by cases (subst publish_one_loop.simps, simp add: r Let_def del: publish_one_loop.simps)+
  next
    case True
    then obtain m known template nxt where m: "r = Inr (m, known)" "prepare attempts m = Inr (template, nxt)" by blast
    obtain c s2 where c: "claim_log_slot cd S (m_head_seq m) (\<lambda>q. frame_encode cd [template \<lparr>le_seq := q,
        le_created_at := Some (ae_published_at (env attempts)), le_writer := ae_writer (env attempts)\<rparr>])
        (ae_nonce (env attempts)) s1 = Some (c, s2)" using claim by blast
    show ?thesis
      by (subst publish_one_loop.simps) (use again in \<open>simp add: r m c Let_def del: publish_one_loop.simps
        encode_entries_simps split: sum.splits claim_outcome.splits prod.splits store_error.splits\<close>)
  qed
qed

end

section \<open>Properties\<close>

text \<open>
  C8. What the waiters of a batch may conclude, over a link that may fail an operation before or
  after it took effect, truncate or deny reads and fail preconditions spuriously, while nobody else
  writes the manifest: a batch reported as committed is the manifest in the store, which lists a
  segment that is in the store and holds the batch's accepted requests; after \<open>CommitUnknown\<close> the
  manifest is either the old one or one that lists such a segment; with every other outcome (all
  requests settled without a write, another attempt, a definite error) it is the old one.
\<close>

theorem batch_outcome_tells_commit:
  assumes "process_batch disp cd (prefixed p (faulty nm memory_store)) rfc env resync n batch s = Some (out, s')"
    and "\<forall>force s. ms_view (fl_inner (snd (resync force s))) (p @ MANIFEST) = ms_view (fl_inner s) (p @ MANIFEST)"
  shows "let manifest_at = (\<lambda>s. ms_view (fl_inner s) (p @ MANIFEST));
      committed = (\<lambda>slot m. batch_segment cd rfc env batch slot \<and>
        (\<exists>g \<in> set (m_log_segments m). sg_key g = sl_key slot \<and> sg_first_seq g = sl_first_seq slot \<and>
           sg_size g = length (sl_bytes slot)) \<and>
        map_option snd (ms_view (fl_inner s') (p @ sl_key slot)) = Some (sl_bytes slot))
    in case out of
      Committed _ slot m v \<Rightarrow> committed slot m \<and>
        (\<exists>d. manifest_at s' = Some (v, d) \<and> (d = cd_enc_manifest cd m \<or> cd_dec_manifest cd d = Inr m))
    | Failed _ (CommitUnknown _) \<Rightarrow> manifest_at s' = manifest_at s \<or>
        (\<exists>slot m v. committed slot m \<and> manifest_at s' = Some (v, cd_enc_manifest cd m))
    | _ \<Rightarrow> manifest_at s' = manifest_at s"
  using link.process_batch_manifest [OF assms(1) [unfolded process_batch_def] assms(2)]
  by (simp only: link.manifest_outcome_def link.slot_held_def fst_conv snd_conv Let_def conj_assoc)

text \<open>
  A lost reply: the link applies every mutation of the manifest, loses the answer and hides the
  manifest from reads, as in the test of the repository.
\<close>

definition lost_link :: "memory_state fault_link" where
  "lost_link = \<lparr>fl_inner = memory_new, fl_plan = healthy \<lparr>fp_err_after := 2 ^ 53,
     fp_deny_keys := [MANIFEST], fp_only_keys := Some [MANIFEST]\<rparr>, fl_rng = rng_new 1\<rparr>"

definition lost_env :: "nat \<Rightarrow> attempt_env" where
  "lost_env _ = \<lparr>ae_writer = ''w'', ae_published_at = epoch, ae_clock = (\<lambda>_. epoch), ae_now = epoch,
     ae_nonce = (\<lambda>_. ''n'')\<rparr>"

abbreviation lost_store where
  "lost_store \<equiv> prefixed ''r/'' (faulty ''l'' memory_store)"

lemma lost_segment_put:
  "\<exists>l v. put_bytes lost_store (log_segment_key 1) b Create lost_link =
       (Inr (object_meta_of (log_segment_key 1) (v, b)), l) \<and>
     fl_plan l = fl_plan lost_link \<and> ms_view (fl_inner l) (''r/'' @ MANIFEST) = None"
proof -
  have "\<not> plan_scope (fl_plan lost_link) (''r/'' @ log_segment_key 1)" 
  proof -
    have "CHR ''m'' \<notin> set (''r/'' @ log_segment_key 1)" by code_simp
    moreover have "CHR ''m'' \<in> set MANIFEST" by (simp add: MANIFEST_def)
    ultimately have "\<not> str_contains (''r/'' @ log_segment_key 1) MANIFEST"
      by (metis set_mono_sublist subsetD)
    then show ?thesis by (simp add: lost_link_def plan_scope_def)
  qed
  then have d: "decide (''r/'' @ log_segment_key 1) True (Create \<noteq> Overwrite) False lost_link = (Proceed, lost_link)"
    by (intro decide_out_of_scope) (simp_all add: lost_link_def healthy_def)
  have v: "ms_view (fl_inner lost_link) k = None" for k by (simp add: lost_link_def memory_new_def ms_view_def)
  have "put_allowed Create (map_option fst (ms_view (fl_inner lost_link) (''r/'' @ log_segment_key 1)))"
    by (simp add: v put_allowed_def)
  then obtain v s' where p: "put_bytes (prefixed ''r/'' memory_store) (log_segment_key 1) b Create (fl_inner lost_link) =
      (Inr (object_meta_of (log_segment_key 1) (v, b)), s')"
    "(\<lambda>k. ms_view s' (''r/'' @ k)) = (\<lambda>k. ms_view (fl_inner lost_link) (''r/'' @ k))(log_segment_key 1 \<mapsto> (v, b))"
    by (rule pre.put_bytes_accepted)
  from fun_cong [OF p(2), of MANIFEST] v have "ms_view s' (''r/'' @ MANIFEST) = None" by simp
  moreover have "put_bytes lost_store (log_segment_key 1) b Create lost_link =
      (Inr (object_meta_of (log_segment_key 1) (v, b)), lost_link \<lparr>fl_inner := s'\<rparr>)"
    unfolding put_proceeds [OF d] on_inner_def p(1) by simp
  ultimately show ?thesis
    by (intro exI [of _ "lost_link \<lparr>fl_inner := s'\<rparr>"] exI [of _ v] conjI) simp_all
qed

lemma lost_commit:
  assumes "fl_plan l = fl_plan lost_link" "ms_view (fl_inner l) (''r/'' @ MANIFEST) = None"
  shows "\<exists>e msg l'. commit_slot (\<lambda>_. ''e'') sample_codec lost_store None slot updated l = (Inl (e, msg), l') \<and>
    ms_view (fl_inner l') (''r/'' @ MANIFEST) \<noteq> None"
proof -
  have m: "str_contains (''r/'' @ MANIFEST) MANIFEST"
    unfolding sublist_def by (rule exI [of _ "''r/''"], rule exI [of _ "[]"]) simp
  then have "plan_scope (fl_plan l) (''r/'' @ MANIFEST)" by (simp add: assms(1) lost_link_def plan_scope_def)
  then obtain r where d: "decide (''r/'' @ MANIFEST) True (Create \<noteq> Overwrite) False l = (ErrAfter, l \<lparr>fl_rng := r\<rparr>)"
    using decide_lost [of l "''r/'' @ MANIFEST"] assms(1) by (auto simp: lost_link_def healthy_def)
  have "put_allowed Create (map_option fst (ms_view (fl_inner l) (''r/'' @ MANIFEST)))"
    by (simp add: assms(2) [simplified] put_allowed_def)
  then obtain v s' where p: "put_bytes (prefixed ''r/'' memory_store) MANIFEST (cd_enc_manifest sample_codec updated) Create (fl_inner l) =
      (Inr (object_meta_of MANIFEST (v, cd_enc_manifest sample_codec updated)), s')"
    "(\<lambda>k. ms_view s' (''r/'' @ k)) = (\<lambda>k. ms_view (fl_inner l) (''r/'' @ k))(MANIFEST \<mapsto> (v, cd_enc_manifest sample_codec updated))"
    by (rule pre.put_bytes_accepted)
  let ?l = "l \<lparr>fl_rng := r, fl_inner := s'\<rparr>"
  have "decide (''r/'' @ MANIFEST) False False True ?l = (Denied, ?l)"
    using m by (intro decide_denied) (simp add: assms(1) lost_link_def)
  then have "get_bytes lost_store MANIFEST ?l = (Inr None, ?l)" by (rule get_denied)
  then have "cas_landed sample_codec lost_store slot ?l = (Inr None, ?l)"
    by (simp add: cas_landed_def get_message_def)
  moreover from fun_cong [OF p(2), of MANIFEST] have "ms_view s' (''r/'' @ MANIFEST) \<noteq> None" by simp
  ultimately show ?thesis
    by (simp add: commit_slot_def cas_mode_def put_loses [OF d] on_inner_def p(1) lose_reply_def link_error_def
        del: sample_codec_simps)
qed

lemma lost_verified:
  "map vf_valid (fst (verify_batch (\<lambda>_. []) (sample_basis 1 default_forge_state) [forge_request pull_opened]
     (initial_working (sample_basis 1 default_forge_state)))) = [True]"
  by code_simp

lemma lost_run:
  "\<exists>e msg l'. process_batch (\<lambda>_. ''e'') sample_codec lost_store (\<lambda>_. []) lost_env
      (\<lambda>_ s. (Inr (sample_basis 1 default_forge_state), s)) 3 [forge_request pull_opened] lost_link =
    Some (Failed e (CommitUnknown msg), l') \<and> ms_view (fl_inner l') (''r/'' @ MANIFEST) \<noteq> None"
proof -
  let ?b = "sample_basis 1 default_forge_state" and ?r = "forge_request pull_opened"
  obtain vs w where v: "verify_batch (\<lambda>_. []) ?b [?r] (initial_working ?b) = (vs, w)" by fastforce
  with lost_verified obtain x where vs: "vs = [x]" "vf_valid x" by auto
  let ?build = "build_entries ''w'' epoch (\<lambda>_. epoch) [(?r, x)]"
  have pairs: "valid_pairs [?r] vs = [(?r, x)]" using vs by (simp add: valid_pairs_def)
  obtain c where c: "candidate sample_codec (frame_encode sample_codec (?build 1)) ''n'' = Inr c"
    by (auto simp: candidate_def build_entries_def simp del: encode_entries_simps)
  obtain l v' where p: "put_bytes lost_store (log_segment_key 1) c Create lost_link =
      (Inr (object_meta_of (log_segment_key 1) (v', c)), l)"
    "fl_plan l = fl_plan lost_link" "ms_view (fl_inner l) (''r/'' @ MANIFEST) = None"
    using lost_segment_put by blast
  let ?slot = "\<lparr>sl_key = log_segment_key 1, sl_version = v', sl_first_seq = 1, sl_bytes = c, sl_burned = []\<rparr>"
  have claim: "claim_log_slot sample_codec lost_store 0 (\<lambda>q. frame_encode sample_codec (?build q)) (\<lambda>_. ''n'') lost_link =
      Some (Inr (Claimed ?slot), l)"
    unfolding claim_log_slot_def by (subst claim_loop.simps) (simp add: c p(1) object_meta_of_def del: One_nat_def encode_entries_simps)
  have b: "m_head_seq (ba_manifest ?b) = 0" "ba_version ?b = None" by (simp_all add: sample_basis_def default_forge_state_def)
  let ?u = "seal_segment ?slot (le_seq (last (?build 1))) epoch ''w''
    (batch_manifest (wk_forge_next w) (build_packs epoch [(?r, x)] 1) (ba_manifest ?b))"
  obtain e msg l' where k: "commit_slot (\<lambda>_. ''e'') sample_codec lost_store None ?slot ?u l = (Inl (e, msg), l')"
    "ms_view (fl_inner l') (''r/'' @ MANIFEST) \<noteq> None"
    using lost_commit [OF p(2,3)] by blast
  have "upload_all lost_store [?r] lost_link = (Inr (), lost_link)" by (simp add: forge_request_def)
  then have "process_attempt (\<lambda>_. ''e'') sample_codec lost_store (\<lambda>_. []) (lost_env 0) ?b [?r] lost_link =
      Some (Failed e (CommitUnknown msg), l')"
    unfolding process_attempt_def v prod.case Let_def pairs lost_env_def attempt_env.simps b
    by (simp add: claim k(1) del: One_nat_def encode_entries_simps upload_all.simps)
  then have "process_batch (\<lambda>_. ''e'') sample_codec lost_store (\<lambda>_. []) lost_env
      (\<lambda>_ s. (Inr ?b, s)) 3 [?r] lost_link = Some (Failed e (CommitUnknown msg), l')"
    by (simp add: process_batch_def process_batch_loop.simps del: One_nat_def)
  then show ?thesis using k(2) by blast
qed

theorem batch_outcome_tells_commit_witness:
  "\<exists>e msg l' slot m v. process_batch (\<lambda>_. ''e'') sample_codec lost_store (\<lambda>_. []) lost_env
      (\<lambda>_ s. (Inr (sample_basis 1 default_forge_state), s)) 3 [forge_request pull_opened] lost_link =
    Some (Failed e (CommitUnknown msg), l') \<and>
    batch_segment sample_codec (\<lambda>_. []) lost_env [forge_request pull_opened] slot \<and>
    ms_view (fl_inner l') (''r/'' @ MANIFEST) = Some (v, cd_enc_manifest sample_codec m)"
proof -
  obtain e msg l' where run: "process_batch (\<lambda>_. ''e'') sample_codec lost_store (\<lambda>_. []) lost_env
      (\<lambda>_ s. (Inr (sample_basis 1 default_forge_state), s)) 3 [forge_request pull_opened] lost_link =
    Some (Failed e (CommitUnknown msg), l')" "ms_view (fl_inner l') (''r/'' @ MANIFEST) \<noteq> None"
    using lost_run by blast
  have "ms_view (fl_inner lost_link) (''r/'' @ MANIFEST) = None"
    by (simp add: lost_link_def memory_new_def ms_view_def)
  then obtain slot m v where "batch_segment sample_codec (\<lambda>_. []) lost_env [forge_request pull_opened] slot"
    "ms_view (fl_inner l') (''r/'' @ MANIFEST) = Some (v, cd_enc_manifest sample_codec m)"
    using batch_outcome_tells_commit [OF run(1)] run(2) unfolding Let_def by auto
  with run(1) show ?thesis by blast
qed

text \<open>
  C9. Publishing ends: whatever the batch, the state of the repository and what the handle syncs to
  between attempts, as long as nobody else writes while a slot is claimed, a batch is answered and
  a control write returns.
\<close>

theorem publishing_terminates:
  "(\<exists>out s'. process_batch disp cd (prefixed p memory_store) rfc env resync n batch s = Some (out, s')) \<and>
   (\<exists>r s'. publish_one cd (prefixed p memory_store) env resync1 prepare n s = Some (r, s'))"
  using pre.process_batch_loop_returns [of disp cd p rfc env resync n batch 0 s]
    pre.publish_one_loop_returns [of cd p env resync1 prepare n 0 s]
  unfolding process_batch_def publish_one_def by auto

end
