(* ===== verification/Protocol.thy ===== *)
theory Protocol
  imports Publish
begin

text \<open>
  Several writers publishing to one repository: a step relation whose steps are the store
  operations of \<open>process_batch\<close>, \<open>publish_one\<close> and \<open>write_checkpoint\<close> (\<open>publish.rs\<close>,
  \<open>checkpoint.rs\<close>) in any interleaving, with crashes between any two of them. A writer reads
  a basis, writes a segment at the first sequence number after its head that it finds free
  (burning the ones it finds occupied), commits it with the manifest CAS or drops it after losing
  the CAS, and sweeps what it burned. Probing is over-approximated: a writer may burn an occupied
  sequence number after any number of probes. Writes to other objects are possible at any time.

  The lemmas: the log a manifest lists is always complete in the store, its segments are in
  strictly increasing order, and a committed segment is never overwritten or deleted.
\<close>

datatype phase =
    Idle
  | Based manifest "version option"
  | Claiming manifest "version option" nat "(string \<times> version) list"
  | Probing manifest "version option" nat "(string \<times> version) list"
  | Owns manifest "version option" log_slot
  | Lost log_slot
  | Sweeping manifest "version option" "(string \<times> version) list"

record 's world =
  w_store :: 's
  w_phase :: "nat \<Rightarrow> phase"

definition at_phase :: "nat \<Rightarrow> phase \<Rightarrow> 's \<Rightarrow> 's world \<Rightarrow> 's world" where
  "at_phase i ph s w = \<lparr>w_store = s, w_phase = (w_phase w)(i := ph)\<rparr>"

text \<open>The objects the protocol owns: the manifest and the log segments.\<close>

definition log_object :: "string \<Rightarrow> bool" where
  "log_object k \<longleftrightarrow> k = MANIFEST \<or> k \<in> range log_segment_key"

inductive publish_step :: "codec \<Rightarrow> 's object_store \<Rightarrow> ('s \<Rightarrow> bool) \<Rightarrow> 's world \<Rightarrow> 's world \<Rightarrow> bool"
  for cd S room where
  read_manifest: "get_message (cd_dec_manifest cd) S MANIFEST (w_store w) = (Inr (Some (meta, m)), s) \<Longrightarrow>
    publish_step cd S room w (at_phase i (Based m (Some (om_version meta))) s w)"
| read_absent: "get_message (cd_dec_manifest cd) S MANIFEST (w_store w) = (Inr None, s) \<Longrightarrow>
    m_head_seq m = 0 \<Longrightarrow> m_log_segments m = [] \<Longrightarrow>
    publish_step cd S room w (at_phase i (Based m None) s w)"
| start_claim: "w_phase w i = Based m v \<Longrightarrow>
    publish_step cd S room w (at_phase i (Claiming m v (m_head_seq m + 1) []) (w_store w) w)"
| claim_free: "w_phase w i = Claiming m v q burned \<Longrightarrow> room (w_store w) \<Longrightarrow>
    put_bytes S (log_segment_key q) b Create (w_store w) = (Inr meta, s) \<Longrightarrow>
    publish_step cd S room w (at_phase i (Owns m v \<lparr>sl_key = log_segment_key q, sl_version = om_version meta,
      sl_first_seq = q, sl_bytes = b, sl_burned = burned\<rparr>) s w)"
| claim_occupied: "w_phase w i = Claiming m v q burned \<Longrightarrow>
    put_bytes S (log_segment_key q) b Create (w_store w) = (Inl e, s) \<Longrightarrow>
    publish_step cd S room w (at_phase i (Probing m v q burned) s w)"
| probe_orphan: "w_phase w i = Probing m v q burned \<Longrightarrow>
    os_head S (log_segment_key q) (w_store w) = (Inr (Some meta), s) \<Longrightarrow>
    publish_step cd S room w (at_phase i (Claiming m v (q + 1) (burned @ [(log_segment_key q, om_version meta)])) s w)"
| probe_free: "w_phase w i = Probing m v q burned \<Longrightarrow>
    os_head S (log_segment_key q) (w_store w) = (Inr None, s) \<Longrightarrow>
    publish_step cd S room w (at_phase i (Claiming m v q burned) s w)"
| give_up: "w_phase w i = Claiming m v q burned \<or> w_phase w i = Probing m v q burned \<Longrightarrow>
    publish_step cd S room w (at_phase i (Based m v) (w_store w) w)"
| commit_won: "w_phase w i = Owns m v slot \<Longrightarrow> room (w_store w) \<Longrightarrow>
    m_head_seq m1 = m_head_seq m \<Longrightarrow> m_log_segments m1 = m_log_segments m \<Longrightarrow> sl_first_seq slot \<le> last_seq \<Longrightarrow>
    m2 = seal_segment slot last_seq now wr m1 \<Longrightarrow>
    put_bytes S MANIFEST (cd_enc_manifest cd m2) (cas_mode v) (w_store w) = (Inr meta, s) \<Longrightarrow>
    publish_step cd S room w (at_phase i (Sweeping m2 (Some (om_version meta)) (sl_burned slot)) s w)"
| commit_lost: "w_phase w i = Owns m v slot \<Longrightarrow>
    put_bytes S MANIFEST d (cas_mode v) (w_store w) = (Inl e, s) \<Longrightarrow>
    publish_step cd S room w (at_phase i (Lost slot) s w)"
| drop_own: "w_phase w i = Lost slot \<Longrightarrow>
    publish_step cd S room w (at_phase i Idle (drop_own_slot S slot (w_store w)) w)"
| sweep_one: "w_phase w i = Sweeping m v ((k, u) # burned) \<Longrightarrow>
    os_delete S k (Some u) (w_store w) = (r, s) \<Longrightarrow>
    publish_step cd S room w (at_phase i (Sweeping m v burned) s w)"
| sweep_end: "w_phase w i = Sweeping m v [] \<Longrightarrow>
    publish_step cd S room w (at_phase i (Based m v) (w_store w) w)"
| trim_won: "w_phase w i = Based m v \<Longrightarrow> room (w_store w) \<Longrightarrow>
    m_head_seq m2 = m_head_seq m \<Longrightarrow> m_log_segments m2 = filter keep (m_log_segments m) \<Longrightarrow>
    put_bytes S MANIFEST (cd_enc_manifest cd m2) (cas_mode v) (w_store w) = (Inr meta, s) \<Longrightarrow>
    publish_step cd S room w (at_phase i (Based m2 (Some (om_version meta))) s w)"
| crash: "publish_step cd S room w (at_phase i Idle (w_store w) w)"
| other_put: "\<not> log_object k \<Longrightarrow> room (w_store w) \<Longrightarrow> os_put S k b opts (w_store w) = (r, s) \<Longrightarrow>
    publish_step cd S room w (w \<lparr>w_store := s\<rparr>)"
| other_delete: "\<not> log_object k \<Longrightarrow> os_delete S k u (w_store w) = (r, s) \<Longrightarrow>
    publish_step cd S room w (w \<lparr>w_store := s\<rparr>)"

inductive publish_reach :: "codec \<Rightarrow> 's object_store \<Rightarrow> ('s \<Rightarrow> bool) \<Rightarrow> 's world \<Rightarrow> 's world \<Rightarrow> bool"
  for cd S room where
  reach_refl: "publish_reach cd S room w w"
| reach_step: "publish_reach cd S room w w1 \<Longrightarrow> publish_step cd S room w1 w2 \<Longrightarrow> publish_reach cd S room w w2"

section \<open>What a phase may assume\<close>

definition segments_ok :: "(string \<Rightarrow> (version \<times> bytes) option) \<Rightarrow> manifest \<Rightarrow> bool" where
  "segments_ok V m \<longleftrightarrow>
     sorted_wrt (\<lambda>a b. sg_last_seq a < sg_first_seq b) (m_log_segments m) \<and>
     (\<forall>g \<in> set (m_log_segments m). sg_key g = log_segment_key (sg_first_seq g) \<and>
        sg_first_seq g \<le> sg_last_seq g \<and> sg_last_seq g \<le> m_head_seq m \<and>
        (\<exists>u d. V (sg_key g) = Some (u, d) \<and> length d = sg_size g))"

fun slot_of :: "phase \<Rightarrow> log_slot option" where
  "slot_of (Owns _ _ slot) = Some slot"
| "slot_of (Lost slot) = Some slot"
| "slot_of _ = None"

fun basis_of :: "phase \<Rightarrow> (manifest \<times> version option) option" where
  "basis_of (Based m v) = Some (m, v)"
| "basis_of (Claiming m v _ _) = Some (m, v)"
| "basis_of (Probing m v _ _) = Some (m, v)"
| "basis_of (Owns m v _) = Some (m, v)"
| "basis_of (Sweeping m v _) = Some (m, v)"
| "basis_of _ = None"

definition segs_between :: "nat \<Rightarrow> nat \<Rightarrow> string set" where
  "segs_between a b = log_segment_key ` {a<..<b}"

lemma segs_between_Suc: "a < q \<Longrightarrow> segs_between a (q + 1) = insert (log_segment_key q) (segs_between a q)"
proof -
  assume "a < q"
  then have "{a<..<q + 1} = insert q {a<..<q}" by auto
  then show ?thesis by (simp add: segs_between_def)
qed

context versioned_store begin

definition head_now :: "codec \<Rightarrow> 's \<Rightarrow> nat" where
  "head_now cd s =
     (case view s MANIFEST of
        None \<Rightarrow> 0
      | Some (_, d) \<Rightarrow> (case cd_dec_manifest cd d of Inr m \<Rightarrow> m_head_seq m | Inl _ \<Rightarrow> 0))"

abbreviation manifest_version :: "'s \<Rightarrow> version option" where
  "manifest_version s \<equiv> map_option fst (view s MANIFEST)"

text \<open>\<open>D\<close> holds the keys of the segments committed so far.\<close>

definition store_good :: "codec \<Rightarrow> string set \<Rightarrow> 's \<Rightarrow> bool" where
  "store_good cd D s \<longleftrightarrow> inv s \<and>
     (\<forall>v d. view s MANIFEST = Some (v, d) \<longrightarrow>
        (\<exists>m. d = cd_enc_manifest cd m \<and> segments_ok (view s) m \<and> sg_key ` set (m_log_segments m) \<subseteq> D)) \<and>
     (\<forall>k \<in> D. view s k \<noteq> None \<and> k \<in> log_segment_key ` {..head_now cd s})"

definition basis_good :: "codec \<Rightarrow> 's \<Rightarrow> manifest \<times> version option \<Rightarrow> bool" where
  "basis_good cd s b \<longleftrightarrow>
     (case snd b of
        None \<Rightarrow> m_head_seq (fst b) = 0 \<and> m_log_segments (fst b) = []
      | Some v \<Rightarrow> \<not> fresh s v \<and> (\<forall>d. view s MANIFEST = Some (v, d) \<longrightarrow> d = cd_enc_manifest cd (fst b)))"

definition slot_good :: "string set \<Rightarrow> 's \<Rightarrow> log_slot \<Rightarrow> bool" where
  "slot_good D s sl \<longleftrightarrow> \<not> fresh s (sl_version sl) \<and> sl_key sl = log_segment_key (sl_first_seq sl) \<and>
     (sl_key sl \<in> D \<longrightarrow> map_option fst (view s (sl_key sl)) \<noteq> Some (sl_version sl))"

fun shape_good :: "codec \<Rightarrow> string set \<Rightarrow> 's \<Rightarrow> phase \<Rightarrow> bool" where
  "shape_good cd D s (Claiming m v q burned) \<longleftrightarrow>
     m_head_seq m < q \<and> fst ` set burned \<subseteq> segs_between (m_head_seq m) q"
| "shape_good cd D s (Probing m v q burned) \<longleftrightarrow>
     m_head_seq m < q \<and> fst ` set burned \<subseteq> segs_between (m_head_seq m) q"
| "shape_good cd D s (Owns m v sl) \<longleftrightarrow>
     m_head_seq m < sl_first_seq sl \<and> fst ` set (sl_burned sl) \<subseteq> segs_between (m_head_seq m) (sl_first_seq sl) \<and>
     (v = manifest_version s \<longrightarrow> view s (sl_key sl) = Some (sl_version sl, sl_bytes sl))"
| "shape_good cd D s (Sweeping m v burned) \<longleftrightarrow>
     fst ` set burned \<subseteq> log_segment_key ` {..head_now cd s} - D"
| "shape_good cd D s _ \<longleftrightarrow> True"

definition phase_good :: "codec \<Rightarrow> string set \<Rightarrow> 's \<Rightarrow> phase \<Rightarrow> bool" where
  "phase_good cd D s ph \<longleftrightarrow>
     (\<forall>b. basis_of ph = Some b \<longrightarrow> basis_good cd s b) \<and>
     (\<forall>sl. slot_of ph = Some sl \<longrightarrow> slot_good D s sl) \<and> shape_good cd D s ph"

definition world_good :: "codec \<Rightarrow> string set \<Rightarrow> 's world \<Rightarrow> bool" where
  "world_good cd D w \<longleftrightarrow> store_good cd D (w_store w) \<and>
     (\<forall>i. phase_good cd D (w_store w) (w_phase w i)) \<and>
     (\<forall>i j a b. i \<noteq> j \<longrightarrow> slot_of (w_phase w i) = Some a \<longrightarrow> slot_of (w_phase w j) = Some b \<longrightarrow>
        sl_version a \<noteq> sl_version b)"

text \<open>A step that leaves the store alone.\<close>

lemma good_local:
  assumes "world_good cd D w" "phase_good cd D (w_store w) ph"
    and "slot_of ph = None \<or> slot_of ph = slot_of (w_phase w i)"
  shows "world_good cd D (at_phase i ph (w_store w) w)"
  using assms by (auto simp: world_good_def at_phase_def)

text \<open>A phase keeps its guarantees across a change outside the manifest.\<close>

definition slot_undisturbed :: "string set \<Rightarrow> 's \<Rightarrow> 's \<Rightarrow> phase \<Rightarrow> bool" where
  "slot_undisturbed D s s' ph \<longleftrightarrow>
     (\<forall>sl. slot_of ph = Some sl \<longrightarrow>
        view s' (sl_key sl) = view s (sl_key sl) \<or>
        sl_key sl \<notin> D \<and> (\<forall>m v. ph = Owns m v sl \<longrightarrow> v \<noteq> manifest_version s))"

lemma phase_frame:
  assumes "phase_good cd D s ph" "view s' MANIFEST = view s MANIFEST" "\<forall>v. fresh s' v \<longrightarrow> fresh s v"
    and "slot_undisturbed D s s' ph"
  shows "phase_good cd D s' ph"
proof -
  have h: "head_now cd s' = head_now cd s" using assms(2) by (simp add: head_now_def)
  have b: "basis_good cd s' x" if "basis_of ph = Some x" for x
    using assms(1-3) that by (auto simp: phase_good_def basis_good_def split: option.splits)
  have sl: "slot_good D s' sl" if "slot_of ph = Some sl" for sl
  proof -
    have g: "slot_good D s sl" using assms(1) that by (simp add: phase_good_def)
    from assms(4) that consider "view s' (sl_key sl) = view s (sl_key sl)" | "sl_key sl \<notin> D"
      unfolding slot_undisturbed_def by blast
    then show ?thesis
      using g assms(3) by cases (auto simp: slot_good_def)
  qed
  have "shape_good cd D s' ph"
    using assms(1,2,4) h by (cases ph) (auto simp: phase_good_def slot_undisturbed_def)
  with b sl show ?thesis by (simp add: phase_good_def)
qed

text \<open>A phase keeps its guarantees across a manifest write by another writer.\<close>

lemma phase_frame_manifest:
  assumes "phase_good cd D s ph" "inv s" "view s' = (view s)(MANIFEST \<mapsto> (v', d'))" "fresh s v'" "\<not> fresh s' v'"
    "\<forall>v. fresh s' v \<longrightarrow> fresh s v" "D \<subseteq> D'" "head_now cd s \<le> head_now cd s'"
    and "\<forall>sl. slot_of ph = Some sl \<longrightarrow> sl_key sl \<in> D' - D \<longrightarrow>
      map_option fst (view s (sl_key sl)) \<noteq> Some (sl_version sl)"
    and "D' - D \<subseteq> log_segment_key ` {head_now cd s<..}"
  shows "phase_good cd D' s' ph"
proof -
  have nv: "v \<noteq> Some v'" if "basis_of ph = Some (m, v)" for m v
    using assms(1,4) that by (auto simp: phase_good_def basis_good_def)
  have b: "basis_good cd s' x" if "basis_of ph = Some x" for x
    using assms(1,3,6) nv [of "fst x" "snd x"] that
    by (auto simp: phase_good_def basis_good_def split: option.splits)
  have sl: "slot_good D' s' sl" if "slot_of ph = Some sl" for sl
  proof -
    have "sl_key sl = log_segment_key (sl_first_seq sl)" "slot_good D s sl"
      using assms(1) that by (auto simp: phase_good_def slot_good_def)
    then have "view s' (sl_key sl) = view s (sl_key sl)" using assms(3) by simp
    then show ?thesis
      using \<open>slot_good D s sl\<close> assms(6,9) that by (auto simp: slot_good_def)
  qed
  have "shape_good cd D' s' ph"
  proof (cases ph)
    case (Owns m v sl)
    then show ?thesis using assms(1,3) nv by (auto simp: phase_good_def)
  next
    case (Sweeping m v burned)
    have "log_segment_key ` {..head_now cd s} - D \<subseteq> log_segment_key ` {..head_now cd s'} - D'"
      using assms(8,10) by (auto dest!: subsetD [OF assms(10)] intro: le_trans)
    moreover have "fst ` set burned \<subseteq> log_segment_key ` {..head_now cd s} - D"
      using Sweeping assms(1) by (simp add: phase_good_def)
    ultimately show ?thesis using Sweeping subset_trans by simp
  qed (use assms(1) in \<open>auto simp: phase_good_def\<close>)
  with b sl show ?thesis by (simp add: phase_good_def)
qed

end

context versioned_store begin

lemma store_frame:
  assumes "store_good cd D s" "inv s'" "view s' MANIFEST = view s MANIFEST" "\<forall>k \<in> D. view s' k = view s k"
  shows "store_good cd D s'"
proof -
  have h: "head_now cd s' = head_now cd s" using assms(3) by (simp add: head_now_def)
  have "segments_ok (view s') m" if "segments_ok (view s) m" "sg_key ` set (m_log_segments m) \<subseteq> D" for m
  proof -
    have "view s' (sg_key g) = view s (sg_key g)" if "g \<in> set (m_log_segments m)" for g
      using assms(4) that \<open>sg_key ` set (m_log_segments m) \<subseteq> D\<close> by blast
    then show ?thesis using that(1) unfolding segments_ok_def by metis
  qed
  then show ?thesis using assms h unfolding store_good_def by metis
qed

text \<open>A change of the store outside the manifest by one writer.\<close>

lemma good_change:
  assumes "world_good cd D w" "inv s'" "\<forall>v. fresh s' v \<longrightarrow> fresh (w_store w) v"
    "view s' MANIFEST = view (w_store w) MANIFEST" "\<forall>k \<in> D. view s' k = view (w_store w) k"
    and "\<forall>j. j \<noteq> i \<longrightarrow> slot_undisturbed D (w_store w) s' (w_phase w j)"
    and "phase_good cd D s' ph"
    and "\<forall>j a b. j \<noteq> i \<longrightarrow> slot_of ph = Some a \<longrightarrow> slot_of (w_phase w j) = Some b \<longrightarrow> sl_version a \<noteq> sl_version b"
  shows "world_good cd D (at_phase i ph s' w)"
proof -
  have "store_good cd D s'"
    using store_frame [OF _ assms(2,4,5)] assms(1) by (simp add: world_good_def)
  moreover have "phase_good cd D s' (w_phase w j)" if "j \<noteq> i" for j
    using phase_frame [OF _ assms(4,3)] assms(1,6) that by (simp add: world_good_def)
  ultimately show ?thesis
    using assms(1,7,8) by (auto simp: world_good_def at_phase_def) metis+
qed

lemma put_fresh_mono: "inv s \<Longrightarrow> room s \<Longrightarrow> put_bytes S k d m s = (r, s') \<Longrightarrow> fresh s' v \<Longrightarrow> fresh s v"
  using put_change [of s k "PutBytes d" "put_options_from m"] by (auto simp: put_bytes_def view_change_def)

lemma good_facts:
  assumes "world_good cd D w"
  shows "inv (w_store w)" "phase_good cd D (w_store w) (w_phase w i)" "store_good cd D (w_store w)"
  using assms by (auto simp: world_good_def store_good_def)

lemma good_claim_free:
  assumes "world_good cd D w" "w_phase w i = Claiming m v q burned" "room (w_store w)"
    and "put_bytes S (log_segment_key q) b Create (w_store w) = (Inr meta, s')"
  shows "world_good cd D (at_phase i (Owns m v \<lparr>sl_key = log_segment_key q, sl_version = om_version meta,
      sl_first_seq = q, sl_bytes = b, sl_burned = burned\<rparr>) s' w) \<and> (\<forall>k \<in> D. view s' k = view (w_store w) k) \<and>
      view s' MANIFEST = view (w_store w) MANIFEST"
proof -
  let ?s = "w_store w" and ?k = "log_segment_key q"
  note g = good_facts [OF assms(1)] and p = put_bytes_Inr [OF assms(4)]
  have inv': "inv s'" using put_bytes_evolves(1) [OF g(1) assms(3,4)] .
  have u: "fresh ?s (om_version meta)" "\<not> fresh s' (om_version meta)" using p(4) [OF g(1) assms(3)] by auto
  have none: "view ?s ?k = None" using p(1) by (cases "view ?s ?k") (auto simp: put_allowed_def)
  then have notD: "?k \<notin> D" using g(3) by (auto simp: store_good_def)
  have ph: "phase_good cd D ?s (Claiming m v q burned)" using g(2) [of i] assms(2) by simp
  have mono: "\<forall>v. fresh s' v \<longrightarrow> fresh ?s v" using put_fresh_mono [OF g(1) assms(3,4)] by blast
  have D: "\<forall>k \<in> D. view s' k = view ?s k" and M: "view s' MANIFEST = view ?s MANIFEST" using p(3) notD by auto
  have "world_good cd D (at_phase i (Owns m v \<lparr>sl_key = ?k, sl_version = om_version meta,
      sl_first_seq = q, sl_bytes = b, sl_burned = burned\<rparr>) s' w)"
  proof (rule good_change [OF assms(1) inv' mono M D])
    show "\<forall>j. j \<noteq> i \<longrightarrow> slot_undisturbed D ?s s' (w_phase w j)"
    proof (intro allI impI)
      fix j assume "j \<noteq> i"
      have "phase_good cd D ?s (w_phase w j)" by (rule g(2))
      then show "slot_undisturbed D ?s s' (w_phase w j)"
        using p(3) none notD by (auto simp: slot_undisturbed_def phase_good_def)
    qed
    show "phase_good cd D s' (Owns m v \<lparr>sl_key = ?k, sl_version = om_version meta, sl_first_seq = q,
        sl_bytes = b, sl_burned = burned\<rparr>)"
      using ph p(3) u notD M mono
      by (auto simp: phase_good_def slot_good_def basis_good_def split: option.splits)
    show "\<forall>j a c. j \<noteq> i \<longrightarrow> slot_of (Owns m v \<lparr>sl_key = ?k, sl_version = om_version meta, sl_first_seq = q,
        sl_bytes = b, sl_burned = burned\<rparr>) = Some a \<longrightarrow> slot_of (w_phase w j) = Some c \<longrightarrow> sl_version a \<noteq> sl_version c"
      using g(2) u(1) by (fastforce simp: phase_good_def slot_good_def)
  qed
  with D M show ?thesis by simp
qed

text \<open>Deleting one version of an object.\<close>

lemma delete_version_cases:
  assumes "os_delete S k (Some u) s = (r, s')"
  obtains "view s' = view s" "map_option fst (view s k) \<noteq> Some u"
  | d where "view s k = Some (u, d)" "view s' = (view s)(k := None)"
proof (cases "view s k")
  case None
  then have "s' = s" using delete_missing [OF None, of u] assms by auto
  then show ?thesis using that(1) None by simp
next
  case (Some vd)
  then obtain v d where vd: "view s k = Some (v, d)" by (cases vd) auto
  show ?thesis
  proof (cases "v = u")
    case True
    then show ?thesis using delete_accepted [OF vd, of "Some u"] assms that(2) vd by auto
  next
    case False
    then have "s' = s" using delete_refused [OF vd False] assms by auto
    then show ?thesis using that(1) vd False by simp
  qed
qed

lemma delete_facts:
  assumes "inv s" "os_delete S k (Some u) s = (r, s')"
  shows "inv s'" "\<forall>v. fresh s' v \<longrightarrow> fresh s v"
  using delete_change [OF assms] by (auto simp: view_change_def)

lemma good_delete:
  assumes "world_good cd D w" "os_delete S k (Some u) (w_store w) = (r, s')" "k \<noteq> MANIFEST"
    and "phase_good cd D (w_store w) ph" "slot_of ph = None" "slot_of (w_phase w i) = None \<or> ph = Idle"
    and "k \<in> D \<longrightarrow> map_option fst (view (w_store w) k) \<noteq> Some u"
    and "\<forall>j sl. j \<noteq> i \<longrightarrow> slot_of (w_phase w j) = Some sl \<longrightarrow> sl_key sl = k \<longrightarrow>
      sl_version sl \<noteq> u \<or> (\<forall>m v. w_phase w j = Owns m v sl \<longrightarrow> v \<noteq> manifest_version (w_store w))"
  shows "world_good cd D (at_phase i ph s' w) \<and> (\<forall>k \<in> D. view s' k = view (w_store w) k) \<and>
    view s' MANIFEST = view (w_store w) MANIFEST"
proof -
  let ?s = "w_store w"
  note g = good_facts [OF assms(1)] and d = delete_facts [OF good_facts(1) [OF assms(1)] assms(2)]
  have D: "\<forall>k \<in> D. view s' k = view ?s k" and M: "view s' MANIFEST = view ?s MANIFEST"
    using delete_version_cases [OF assms(2)] assms(3,7) by (metis fun_upd_apply option.map(2) fst_conv)+
  have "slot_undisturbed D ?s s' (w_phase w j)" if "j \<noteq> i" for j
    unfolding slot_undisturbed_def
  proof (intro allI impI)
    fix sl assume sl: "slot_of (w_phase w j) = Some sl"
    show "view s' (sl_key sl) = view ?s (sl_key sl) \<or>
        sl_key sl \<notin> D \<and> (\<forall>m v. w_phase w j = Owns m v sl \<longrightarrow> v \<noteq> manifest_version ?s)"
      using delete_version_cases [OF assms(2)]
    proof cases
      case 1
      then show ?thesis by simp
    next
      case (2 x)
      have "\<forall>m v. w_phase w j = Owns m v sl \<longrightarrow> v \<noteq> manifest_version ?s" if "sl_key sl = k"
        using assms(8) \<open>j \<noteq> i\<close> sl that g(2) [of j] 2(1) by (auto simp: phase_good_def)
      moreover have "sl_key sl \<notin> D" if "sl_key sl = k" using assms(7) 2(1) that by auto
      ultimately show ?thesis using 2(2) by auto
    qed
  qed
  moreover have "phase_good cd D s' ph"
    using phase_frame [OF assms(4) M d(2)] assms(5) by (simp add: slot_undisturbed_def)
  ultimately have "world_good cd D (at_phase i ph s' w)"
    using assms(5) by (intro good_change [OF assms(1) d M D]) auto
  with D M show ?thesis by simp
qed

end

lemma segments_sorted:
  assumes "sorted_wrt (\<lambda>a b. sg_last_seq a < sg_first_seq b) gs" "\<forall>g \<in> set gs. sg_first_seq g \<le> sg_last_seq g"
  shows "sorted (map sg_first_seq gs)"
  using assms by (induction gs) (auto intro: le_trans less_imp_le)

lemma seal_segments:
  assumes "segments_ok V m" "m_head_seq m < sl_first_seq slot"
  shows "m_log_segments (seal_segment slot last_seq now wr m) = m_log_segments m @
    [\<lparr>sg_key = sl_key slot, sg_first_seq = sl_first_seq slot, sg_last_seq = last_seq,
      sg_size = length (sl_bytes slot), sg_sealed = True\<rparr>]"
proof -
  have "\<forall>g \<in> set (m_log_segments m). sg_first_seq g \<le> sl_first_seq slot"
    using assms by (force simp: segments_ok_def)
  moreover have "sorted (map sg_first_seq (m_log_segments m))"
    using assms(1) by (intro segments_sorted) (auto simp: segments_ok_def)
  ultimately show ?thesis
    by (simp add: seal_segment_def sort_key_id_if_sorted sorted_append)
qed

lemma seal_segments_ok:
  assumes "segments_ok V m" "m_head_seq m < sl_first_seq slot" "sl_first_seq slot \<le> last_seq"
    and "sl_key slot = log_segment_key (sl_first_seq slot)" "V (sl_key slot) = Some (u, sl_bytes slot)"
  shows "segments_ok V (seal_segment slot last_seq now wr m)"
  using assms(1-3,5) seal_segments [OF assms(1,2), of last_seq now wr]
  by (auto simp: segments_ok_def sorted_wrt_append assms(4) seal_segment_def intro: le_trans less_imp_le
      le_less_trans)

context versioned_store begin

lemma current_basis:
  assumes "world_good cd D w" "\<forall>m. cd_dec_manifest cd (cd_enc_manifest cd m) = Inr m"
    and "basis_of (w_phase w i) = Some (m, v)" "put_allowed (cas_mode v) (manifest_version (w_store w))"
  shows "v = manifest_version (w_store w)" "head_now cd (w_store w) = m_head_seq m"
    "segments_ok (view (w_store w)) m" "sg_key ` set (m_log_segments m) \<subseteq> D"
proof -
  let ?s = "w_store w"
  have b: "basis_good cd ?s (m, v)" and st: "store_good cd D ?s"
    using assms(1,3) by (auto simp: world_good_def phase_good_def)
  show v: "v = manifest_version ?s"
    using assms(4) by (auto simp: cas_mode_def put_allowed_def split: option.splits)
  have "head_now cd ?s = m_head_seq m \<and> segments_ok (view ?s) m \<and> sg_key ` set (m_log_segments m) \<subseteq> D"
  proof (cases v)
    case None
    then show ?thesis using b v by (auto simp: basis_good_def head_now_def segments_ok_def split: option.splits)
  next
    case (Some x)
    then obtain d where d: "view ?s MANIFEST = Some (x, d)" using v by auto
    then have "d = cd_enc_manifest cd m" using b Some by (simp add: basis_good_def)
    moreover obtain m' where "d = cd_enc_manifest cd m'" "segments_ok (view ?s) m'" "sg_key ` set (m_log_segments m') \<subseteq> D"
      using st d unfolding store_good_def by blast
    moreover from calculation have "m' = m" using assms(2) by (metis sum.inject(2))
    ultimately show ?thesis using d assms(2) by (simp add: head_now_def)
  qed
  then show "head_now cd ?s = m_head_seq m" "segments_ok (view ?s) m" "sg_key ` set (m_log_segments m) \<subseteq> D"
    by auto
qed

lemma good_manifest_write:
  assumes "world_good cd D w" "\<forall>m. cd_dec_manifest cd (cd_enc_manifest cd m) = Inr m" "room (w_store w)"
    and "put_bytes S MANIFEST (cd_enc_manifest cd m2) mode (w_store w) = (Inr meta, s')"
    and "D \<subseteq> D'" "D' - D \<subseteq> log_segment_key ` {head_now cd (w_store w)<..m_head_seq m2}"
    and "head_now cd (w_store w) \<le> m_head_seq m2" "segments_ok (view (w_store w)) m2"
    and "sg_key ` set (m_log_segments m2) \<subseteq> D'" "\<forall>k \<in> D'. view (w_store w) k \<noteq> None"
    and "\<forall>j sl. j \<noteq> i \<longrightarrow> slot_of (w_phase w j) = Some sl \<longrightarrow> sl_key sl \<in> D' - D \<longrightarrow>
      map_option fst (view (w_store w) (sl_key sl)) \<noteq> Some (sl_version sl)"
    and "slot_of ph = None" "basis_of ph = Some (m2, Some (om_version meta))"
    and "\<And>s'. head_now cd s' = m_head_seq m2 \<Longrightarrow> shape_good cd D' s' ph"
  shows "world_good cd D' (at_phase i ph s' w) \<and> (\<forall>k \<in> D. view s' k = view (w_store w) k)"
proof -
  let ?s = "w_store w"
  note g = good_facts [OF assms(1)] and p = put_bytes_Inr [OF assms(4)]
  note u = p(4) [OF g(1) assms(3)]
  have inv': "inv s'" using put_bytes_evolves(1) [OF g(1) assms(3,4)] .
  have mono: "\<forall>v. fresh s' v \<longrightarrow> fresh ?s v" using put_fresh_mono [OF g(1) assms(3,4)] by blast
  have h: "head_now cd s' = m_head_seq m2" using p(3) assms(2) by (simp add: head_now_def)
  have Dkeys: "D' \<subseteq> log_segment_key ` {..m_head_seq m2}"
  proof
    fix k assume "k \<in> D'"
    then consider "k \<in> D" | "k \<in> D' - D" by blast
    then show "k \<in> log_segment_key ` {..m_head_seq m2}"
    proof cases
      case 1
      then have "k \<in> log_segment_key ` {..head_now cd ?s}" using g(3) by (simp add: store_good_def)
      then show ?thesis using assms(7) by (auto intro: le_trans)
    next
      case 2
      then show ?thesis using assms(6) by auto
    qed
  qed
  have same: "view s' k = view ?s k" if "k \<in> D'" for k using p(3) Dkeys that by auto
  have "view s' (sg_key x) = view ?s (sg_key x)" if "x \<in> set (m_log_segments m2)" for x
    using same assms(9) that by blast
  then have "segments_ok (view s') m2" using assms(8) unfolding segments_ok_def by metis
  then have "store_good cd D' s'"
    using inv' p(3) assms(9,10) Dkeys h same by (auto simp: store_good_def)
  moreover have "phase_good cd D' s' (w_phase w j)" if "j \<noteq> i" for j
  proof (rule phase_frame_manifest [OF g(2) g(1) p(3) _ _ mono assms(5)])
    show "D' - D \<subseteq> log_segment_key ` {head_now cd ?s<..}" using assms(6) by auto
  qed (use u assms(7,11) h that in auto)
  moreover have "phase_good cd D' s' ph"
    using assms(12,13) assms(14) [OF h] p(3) u by (simp add: phase_good_def basis_good_def)
  ultimately have "world_good cd D' (at_phase i ph s' w)"
    using assms(1,12) by (auto simp: world_good_def at_phase_def)
  with same assms(5) show ?thesis by auto
qed

end

context versioned_store begin

definition step_keeps :: "codec \<Rightarrow> string set \<Rightarrow> 's world \<Rightarrow> 's world \<Rightarrow> bool" where
  "step_keeps cd D w w' \<longleftrightarrow>
     (\<exists>D'. D \<subseteq> D' \<and> world_good cd D' w' \<and> (\<forall>k \<in> D. view (w_store w') k = view (w_store w) k) \<and>
       head_now cd (w_store w) \<le> head_now cd (w_store w'))"

lemma step_keepsI:
  assumes "world_good cd D w' \<and> (\<forall>k \<in> D. view (w_store w') k = view (w_store w) k) \<and>
    view (w_store w') MANIFEST = view (w_store w) MANIFEST"
  shows "step_keeps cd D w w'"
  using assms unfolding step_keeps_def head_now_def by (metis order_refl)

lemma at_phase_store [simp]: "w_store (at_phase i ph s w) = s" "w_phase (at_phase i ph s w) = (w_phase w)(i := ph)"
  by (simp_all add: at_phase_def)

lemma keeps_local:
  assumes "world_good cd D w" "phase_good cd D (w_store w) ph"
    and "slot_of ph = None \<or> slot_of ph = slot_of (w_phase w i)"
  shows "step_keeps cd D w (at_phase i ph (w_store w) w)"
  using good_local [OF assms] by (intro step_keepsI) simp

lemma keeps_commit:
  assumes "world_good cd D w" "\<forall>m. cd_dec_manifest cd (cd_enc_manifest cd m) = Inr m"
    and "w_phase w i = Owns m v slot" "room (w_store w)"
    and "m_head_seq m1 = m_head_seq m" "m_log_segments m1 = m_log_segments m" "sl_first_seq slot \<le> last_seq"
    and "m2 = seal_segment slot last_seq now wr m1"
    and "put_bytes S MANIFEST (cd_enc_manifest cd m2) (cas_mode v) (w_store w) = (Inr meta, s')"
  shows "step_keeps cd D w (at_phase i (Sweeping m2 (Some (om_version meta)) (sl_burned slot)) s' w)"
proof -
  let ?s = "w_store w" and ?D = "insert (sl_key slot) D"
  have "put_allowed (cas_mode v) (manifest_version ?s)" using put_bytes_Inr(1) [OF assms(9)] .
  note c = current_basis [OF assms(1,2) _ this, of i m]
  have ph: "phase_good cd D ?s (Owns m v slot)" using good_facts(2) [OF assms(1), of i] assms(3) by simp
  then have sl: "sl_key slot = log_segment_key (sl_first_seq slot)" "m_head_seq m < sl_first_seq slot"
    "view ?s (sl_key slot) = Some (sl_version slot, sl_bytes slot)"
    "fst ` set (sl_burned slot) \<subseteq> segs_between (m_head_seq m) (sl_first_seq slot)"
    using c(1) assms(3) unfolding phase_good_def slot_good_def by auto
  have h: "head_now cd ?s = m_head_seq m" using c(2) assms(3) by simp
  have Dk: "D \<subseteq> log_segment_key ` {..m_head_seq m}"
    using good_facts(3) [OF assms(1)] h by (auto simp: store_good_def)
  have m1: "segments_ok (view ?s) m1" using c(3) assms(3) unfolding segments_ok_def assms(5,6) by auto
  have h2: "m_head_seq m2 = last_seq" by (simp add: assms(8) seal_segment_def)
  have segs: "m_log_segments m2 = m_log_segments m @ [\<lparr>sg_key = sl_key slot, sg_first_seq = sl_first_seq slot,
      sg_last_seq = last_seq, sg_size = length (sl_bytes slot), sg_sealed = True\<rparr>]"
    using seal_segments [OF m1, of slot last_seq now wr] sl(2) assms(5,6,8) by simp
  have burned: "fst ` set (sl_burned slot) \<subseteq> log_segment_key ` {..m_head_seq m2} - ?D"
    using sl(1,4) Dk assms(7) h2 by (auto simp: segs_between_def dest!: subsetD)
  have keys: "?D - D \<subseteq> log_segment_key ` {head_now cd ?s<..m_head_seq m2}"
    using sl(1,2) h h2 assms(7) by auto
  have ok2: "segments_ok (view ?s) m2"
    unfolding assms(8) using seal_segments_ok [OF m1 _ assms(7) sl(1,3)] sl(2) assms(5) by simp
  have segs_in: "sg_key ` set (m_log_segments m2) \<subseteq> ?D" using segs c(4) assms(3) by auto
  have present: "\<forall>k \<in> ?D. view ?s k \<noteq> None"
    using sl(3) good_facts(3) [OF assms(1)] by (auto simp: store_good_def)
  have others: "\<forall>j sl'. j \<noteq> i \<longrightarrow> slot_of (w_phase w j) = Some sl' \<longrightarrow> sl_key sl' \<in> ?D - D \<longrightarrow>
      map_option fst (view ?s (sl_key sl')) \<noteq> Some (sl_version sl')"
    using assms(1,3) sl(3) by (fastforce simp: world_good_def)
  have "world_good cd ?D (at_phase i (Sweeping m2 (Some (om_version meta)) (sl_burned slot)) s' w) \<and>
      (\<forall>k \<in> D. view s' k = view ?s k)"
    by (rule good_manifest_write [OF assms(1,2,4,9) _ keys _ ok2 segs_in present others])
      (use h h2 sl(2) assms(7) burned in auto)
  moreover have "head_now cd s' = m_head_seq m2"
    using put_bytes_Inr(3) [OF assms(9)] assms(2) by (simp add: head_now_def)
  ultimately show ?thesis
    using h h2 sl(2) assms(7) unfolding step_keeps_def by (intro exI [of _ ?D]) auto
qed

lemma keeps_trim:
  assumes "world_good cd D w" "\<forall>m. cd_dec_manifest cd (cd_enc_manifest cd m) = Inr m"
    and "w_phase w i = Based m v" "room (w_store w)"
    and "m_head_seq m2 = m_head_seq m" "m_log_segments m2 = filter keep (m_log_segments m)"
    and "put_bytes S MANIFEST (cd_enc_manifest cd m2) (cas_mode v) (w_store w) = (Inr meta, s')"
  shows "step_keeps cd D w (at_phase i (Based m2 (Some (om_version meta))) s' w)"
proof -
  let ?s = "w_store w"
  have "put_allowed (cas_mode v) (manifest_version ?s)" using put_bytes_Inr(1) [OF assms(7)] .
  note c = current_basis [OF assms(1,2) _ this, of i m]
  have h: "head_now cd ?s = m_head_seq m" using c(2) assms(3) by simp
  have "segments_ok (view ?s) m2"
    using c(3) assms(3) unfolding segments_ok_def assms(5,6) set_filter by (auto intro: sorted_wrt_filter)
  moreover have "sg_key ` set (m_log_segments m2) \<subseteq> D" using c(4) assms(3,6) by auto
  moreover have "\<forall>k \<in> D. view ?s k \<noteq> None" using good_facts(3) [OF assms(1)] by (auto simp: store_good_def)
  ultimately have "world_good cd D (at_phase i (Based m2 (Some (om_version meta))) s' w) \<and>
      (\<forall>k \<in> D. view s' k = view ?s k)"
    by (intro good_manifest_write [OF assms(1,2,4,7)]) (use h assms(5) in auto)
  moreover have "head_now cd s' = m_head_seq m2"
    using put_bytes_Inr(3) [OF assms(7)] assms(2) by (simp add: head_now_def)
  ultimately show ?thesis using h assms(5) unfolding step_keeps_def by (intro exI [of _ D]) auto
qed

end

lemma other_not_log: "\<not> log_object k \<Longrightarrow> k \<noteq> MANIFEST \<and> k \<notin> range log_segment_key"
  by (auto simp: log_object_def)

context versioned_store begin

text \<open>A write or deletion of an object the protocol does not own.\<close>

lemma keeps_other:
  assumes "world_good cd D w" "\<not> log_object k" "inv s'" "view_change view fresh (w_store w) s'"
    and "\<forall>k'. k' \<noteq> k \<longrightarrow> view s' k' = view (w_store w) k'"
  shows "step_keeps cd D w (w \<lparr>w_store := s'\<rparr>)"
proof (rule step_keepsI)
  let ?s = "w_store w"
  note g = good_facts [OF assms(1)]
  have M: "view s' MANIFEST = view ?s MANIFEST" and L: "view s' (log_segment_key q) = view ?s (log_segment_key q)" for q
    using assms(2,5) by (auto simp: log_object_def)
  have mono: "\<forall>v. fresh s' v \<longrightarrow> fresh ?s v" using assms(4) by (simp add: view_change_def)
  have D: "\<forall>k \<in> D. view s' k = view ?s k" using g(3) L by (auto simp: store_good_def)
  have "slot_undisturbed D ?s s' (w_phase w j)" for j
    using g(2) [of j] L by (auto simp: slot_undisturbed_def phase_good_def slot_good_def)
  then have "phase_good cd D s' (w_phase w j)" for j using phase_frame [OF g(2) M mono] by blast
  then show "world_good cd D (w \<lparr>w_store := s'\<rparr>) \<and>
      (\<forall>k \<in> D. view (w_store (w \<lparr>w_store := s'\<rparr>)) k = view (w_store w) k) \<and>
      view (w_store (w \<lparr>w_store := s'\<rparr>)) MANIFEST = view (w_store w) MANIFEST"
    using assms(1) store_frame [OF g(3) assms(3) M D] D M by (simp add: world_good_def)
qed

lemma get_message_same: "get_message dec S k s = (r, s') \<Longrightarrow> s' = s"
  by (simp add: get_message_view)

lemma based_good:
  assumes "world_good cd D w" "\<forall>m. cd_dec_manifest cd (cd_enc_manifest cd m) = Inr m"
    and "get_message (cd_dec_manifest cd) S MANIFEST (w_store w) = (Inr (Some (meta, m)), s)"
  shows "phase_good cd D (w_store w) (Based m (Some (om_version meta)))"
proof -
  obtain v d where vd: "view (w_store w) MANIFEST = Some (v, d)" "cd_dec_manifest cd d = Inr m" "om_version meta = v"
    using assms(3) by (auto simp: get_message_view object_meta_of_def split: option.splits sum.splits)
  moreover obtain m' where "d = cd_enc_manifest cd m'"
    using good_facts(3) [OF assms(1)] vd(1) unfolding store_good_def by blast
  ultimately have "d = cd_enc_manifest cd m" using assms(2) by simp
  then show ?thesis
    using vd fresh_unused good_facts(1) [OF assms(1)] by (auto simp: phase_good_def basis_good_def)
qed

lemma publish_step_keeps:
  assumes "publish_step cd S room w w'" "world_good cd D w"
    and law: "\<forall>m. cd_dec_manifest cd (cd_enc_manifest cd m) = Inr m"
  shows "step_keeps cd D w w'"
  using assms(1)
proof cases
  case (read_manifest meta m s i)
  then show ?thesis
    using keeps_local [OF assms(2) based_good [OF assms(2) law read_manifest(2)], of i]
      get_message_same [OF read_manifest(2)] by auto
next
  case (read_absent s m i)
  then show ?thesis
    using keeps_local [OF assms(2), of "Based m None" i] get_message_same [OF read_absent(2)]
    by (auto simp: phase_good_def basis_good_def)
next
  case (start_claim i m v)
  then show ?thesis
    using good_facts(2) [OF assms(2), of i] by (auto intro!: keeps_local [OF assms(2)] simp: phase_good_def)
next
  case (claim_free i m v q burned b meta s)
  from good_claim_free [OF assms(2) this(2-4)] show ?thesis
    using claim_free by (intro step_keepsI) simp
next
  case (claim_occupied i m v q burned b e s)
  then have "s = w_store w" using put_bytes_Inl by metis
  then show ?thesis
    using claim_occupied good_facts(2) [OF assms(2), of i]
    by (auto intro!: keeps_local [OF assms(2)] simp: phase_good_def)
next
  case (probe_orphan i m v q burned meta s)
  have ph: "phase_good cd D (w_store w) (Probing m v q burned)"
    using good_facts(2) [OF assms(2), of i] probe_orphan by simp
  then have "m_head_seq m < q" "fst ` set burned \<subseteq> segs_between (m_head_seq m) q"
    by (simp_all add: phase_good_def)
  then have "fst ` set (burned @ [(log_segment_key q, om_version meta)]) \<subseteq> segs_between (m_head_seq m) (q + 1)"
    unfolding segs_between_Suc [OF \<open>m_head_seq m < q\<close>] set_append image_Un by auto
  then show ?thesis
    using probe_orphan ph by (auto intro!: keeps_local [OF assms(2)] simp: phase_good_def head_view)
next
  case (probe_free i m v q burned s)
  then show ?thesis
    using good_facts(2) [OF assms(2), of i] by (auto intro!: keeps_local [OF assms(2)] simp: phase_good_def head_view)
next
  case (give_up i m v q burned)
  then show ?thesis
    using good_facts(2) [OF assms(2), of i] by (auto intro!: keeps_local [OF assms(2)] simp: phase_good_def)
next
  case (commit_won i m v slot m1 last_seq m2 now wr meta s)
  then show ?thesis using keeps_commit [OF assms(2) law commit_won(2-8)] by simp
next
  case (commit_lost i m v slot d e s)
  then have "s = w_store w" using put_bytes_Inl by metis
  then show ?thesis
    using commit_lost good_facts(2) [OF assms(2), of i]
    by (auto intro!: keeps_local [OF assms(2)] simp: phase_good_def)
next
  case (drop_own i slot)
  obtain r s' where d: "os_delete S (sl_key slot) (Some (sl_version slot)) (w_store w) = (r, s')" by fastforce
  have sl: "slot_good D (w_store w) slot" using good_facts(2) [OF assms(2), of i] drop_own by (simp add: phase_good_def)
  have "world_good cd D (at_phase i Idle s' w) \<and> (\<forall>k \<in> D. view s' k = view (w_store w) k) \<and>
      view s' MANIFEST = view (w_store w) MANIFEST"
    by (rule good_delete [OF assms(2) d])
      (use sl drop_own assms(2) in \<open>auto simp: slot_good_def phase_good_def world_good_def\<close>)
  then show ?thesis using drop_own d by (intro step_keepsI) (simp add: drop_own_slot_def)
next
  case (sweep_one i m v k u burned r s)
  have ph: "phase_good cd D (w_store w) (Sweeping m v ((k, u) # burned))"
    using good_facts(2) [OF assms(2), of i] sweep_one by simp
  then obtain q where q: "k = log_segment_key q" "q \<le> head_now cd (w_store w)" "k \<notin> D"
    by (auto simp: phase_good_def)
  have own: "v' \<noteq> manifest_version (w_store w)"
    if "w_phase w j = Owns m' v' sl" "sl_key sl = k" for j m' v' sl
  proof
    assume v': "v' = manifest_version (w_store w)"
    have "put_allowed (cas_mode v') (manifest_version (w_store w))"
      by (simp add: v' cas_mode_def put_allowed_def split: option.splits)
    then have "head_now cd (w_store w) = m_head_seq m'"
      using current_basis(2) [OF assms(2) law, of j m' v'] that(1) by simp
    moreover have "m_head_seq m' < q"
      using good_facts(2) [OF assms(2), of j] that q(1) by (simp add: phase_good_def slot_good_def)
    ultimately show False using q(2) by simp
  qed
  have "world_good cd D (at_phase i (Sweeping m v burned) s w) \<and> (\<forall>k \<in> D. view s k = view (w_store w) k) \<and>
      view s MANIFEST = view (w_store w) MANIFEST"
    by (rule good_delete [OF assms(2) sweep_one(3)])
      (use q own sweep_one(2) ph in \<open>auto simp: phase_good_def\<close>)
  then show ?thesis using sweep_one by (intro step_keepsI) simp
next
  case (sweep_end i m v)
  then show ?thesis
    using good_facts(2) [OF assms(2), of i] by (auto intro!: keeps_local [OF assms(2)] simp: phase_good_def)
next
  case (trim_won i m v m2 keep meta s)
  then show ?thesis using keeps_trim [OF assms(2) law trim_won(2-6)] by simp
next
  case (crash i)
  then show ?thesis by (auto intro!: keeps_local [OF assms(2)] simp: phase_good_def)
next
  case (other_put k b opts r s)
  then show ?thesis
    using keeps_other [OF assms(2) other_put(2)] put_change [OF good_facts(1) [OF assms(2)] other_put(3,4)]
      put_other [OF other_put(4)] by simp
next
  case (other_delete k u r s)
  then show ?thesis
    using keeps_other [OF assms(2) other_delete(2)] delete_change [OF good_facts(1) [OF assms(2)] other_delete(3)]
      delete_other [OF other_delete(3)] by simp
qed

end

context versioned_store begin

lemma publish_reach_keeps:
  assumes "publish_reach cd S room w w'" "world_good cd D w"
    and "\<forall>m. cd_dec_manifest cd (cd_enc_manifest cd m) = Inr m"
  shows "step_keeps cd D w w'"
  using assms(1,2)
proof (induction rule: publish_reach.induct)
  case (reach_refl w)
  then show ?case unfolding step_keeps_def by blast
next
  case (reach_step w w1 w2)
  then obtain D1 where 1: "D \<subseteq> D1" "world_good cd D1 w1" "\<forall>k \<in> D. view (w_store w1) k = view (w_store w) k"
    "head_now cd (w_store w) \<le> head_now cd (w_store w1)" unfolding step_keeps_def by blast
  from publish_step_keeps [OF reach_step(2) 1(2) assms(3)] obtain D2 where 2: "D1 \<subseteq> D2" "world_good cd D2 w2"
    "\<forall>k \<in> D1. view (w_store w2) k = view (w_store w1) k" "head_now cd (w_store w1) \<le> head_now cd (w_store w2)"
    unfolding step_keeps_def by blast
  have "\<forall>k \<in> D. view (w_store w2) k = view (w_store w) k" using 1(1,3) 2(3) by (metis subsetD)
  then show ?case using 1 2 unfolding step_keeps_def by (meson le_trans subset_trans)
qed

lemma initial_good:
  "inv s \<Longrightarrow> view s MANIFEST = None \<Longrightarrow> world_good cd {} \<lparr>w_store = s, w_phase = (\<lambda>_. Idle)\<rparr>"
  by (simp add: world_good_def store_good_def phase_good_def)

lemma listed_segments:
  assumes "world_good cd D w" "\<forall>m. cd_dec_manifest cd (cd_enc_manifest cd m) = Inr m"
    and "view (w_store w) MANIFEST = Some (v, cd_enc_manifest cd m)"
  shows "segments_ok (view (w_store w)) m" "sg_key ` set (m_log_segments m) \<subseteq> D"
proof -
  obtain m' where "cd_enc_manifest cd m = cd_enc_manifest cd m'" "segments_ok (view (w_store w)) m'"
    "sg_key ` set (m_log_segments m') \<subseteq> D"
    using good_facts(3) [OF assms(1)] assms(3) unfolding store_good_def by blast
  moreover from this have "m' = m" using assms(2) by (metis sum.inject(2))
  ultimately show "segments_ok (view (w_store w)) m" "sg_key ` set (m_log_segments m) \<subseteq> D" by auto
qed

lemma reach_complete:
  assumes "\<forall>m. cd_dec_manifest cd (cd_enc_manifest cd m) = Inr m" "inv s0" "view s0 MANIFEST = None"
    and "publish_reach cd S room \<lparr>w_store = s0, w_phase = (\<lambda>_. Idle)\<rparr> w"
    and "view (w_store w) MANIFEST = Some (v, cd_enc_manifest cd m)"
  shows "segments_ok (view (w_store w)) m"
proof -
  obtain D where "world_good cd D w"
    using publish_reach_keeps [OF assms(4) initial_good [OF assms(2,3)] assms(1)] unfolding step_keeps_def by blast
  from listed_segments(1) [OF this assms(1,5)] show ?thesis .
qed

lemma reach_survives:
  assumes "\<forall>m. cd_dec_manifest cd (cd_enc_manifest cd m) = Inr m" "inv s0" "view s0 MANIFEST = None"
    and "publish_reach cd S room \<lparr>w_store = s0, w_phase = (\<lambda>_. Idle)\<rparr> w" "publish_reach cd S room w w'"
    and "view (w_store w) MANIFEST = Some (v, cd_enc_manifest cd m)" "g \<in> set (m_log_segments m)"
  shows "view (w_store w') (sg_key g) = view (w_store w) (sg_key g)"
proof -
  obtain D where D: "world_good cd D w"
    using publish_reach_keeps [OF assms(4) initial_good [OF assms(2,3)] assms(1)] unfolding step_keeps_def by blast
  then show ?thesis
    using publish_reach_keeps [OF assms(5) D assms(1)] listed_segments(2) [OF D assms(1,6)] assms(7)
    unfolding step_keeps_def by blast
qed

end

section \<open>Properties\<close>

text \<open>
  C1. A committed segment is never lost: whatever the writers of a repository do afterwards, in
  any interleaving and with any crashes, a log segment that a manifest has listed keeps its
  object, version and bytes; dropping one's own segment after a lost CAS and sweeping burned
  segments never hit a committed one.
\<close>

theorem committed_segments_survive:
  assumes "\<forall>m. cd_dec_manifest cd (cd_enc_manifest cd m) = Inr m"
    and "ms_inv s0" "ms_view s0 (p @ MANIFEST) = None"
    and "publish_reach cd (prefixed p memory_store) ms_room \<lparr>w_store = s0, w_phase = (\<lambda>_. Idle)\<rparr> w"
    and "publish_reach cd (prefixed p memory_store) ms_room w w'"
    and "ms_view (w_store w) (p @ MANIFEST) = Some (v, cd_enc_manifest cd m)" "g \<in> set (m_log_segments m)"
  shows "ms_view (w_store w') (p @ sg_key g) = ms_view (w_store w) (p @ sg_key g)"
  using assms by (rule pre.reach_survives)

text \<open>
  C2. The log is always complete: at every moment every segment the manifest lists is in the
  store under its sequence number, with the size the manifest records, and the segments cover
  disjoint, strictly increasing ranges up to the head.
\<close>

theorem manifest_log_complete:
  assumes "\<forall>m. cd_dec_manifest cd (cd_enc_manifest cd m) = Inr m"
    and "ms_inv s0" "ms_view s0 (p @ MANIFEST) = None"
    and "publish_reach cd (prefixed p memory_store) ms_room \<lparr>w_store = s0, w_phase = (\<lambda>_. Idle)\<rparr> w"
    and "ms_view (w_store w) (p @ MANIFEST) = Some (v, cd_enc_manifest cd m)"
  shows "sorted_wrt (\<lambda>a b. sg_last_seq a < sg_first_seq b) (m_log_segments m) \<and>
    (\<forall>g \<in> set (m_log_segments m). sg_key g = log_segment_key (sg_first_seq g) \<and>
       sg_first_seq g \<le> sg_last_seq g \<and> sg_last_seq g \<le> m_head_seq m \<and>
       (\<exists>u d. ms_view (w_store w) (p @ sg_key g) = Some (u, d) \<and> length d = sg_size g))"
  using pre.reach_complete [OF assms] unfolding segments_ok_def .

text \<open>A run: a writer claims the first slot of an empty repository and commits it.\<close>

definition first_slot :: log_slot where
  "first_slot = \<lparr>sl_key = log_segment_key 1, sl_version = ''1'', sl_first_seq = 1, sl_bytes = ''x'', sl_burned = []\<rparr>"

definition first_manifest :: manifest where
  "first_manifest = seal_segment first_slot 1 epoch ''w'' default_manifest"

lemma put_first_segment:
  "put_bytes (prefixed ''r/'' memory_store) (log_segment_key 1) ''x'' Create memory_new =
    (Inr (object_meta_of (log_segment_key 1) (''1'', ''x'')), orphan_store)"
  unfolding orphan_store_def by code_simp

lemma first_commit:
  obtains w v where
    "publish_reach sample_codec (prefixed ''r/'' memory_store) ms_room \<lparr>w_store = memory_new, w_phase = (\<lambda>_. Idle)\<rparr> w"
    "ms_view (w_store w) (''r/'' @ MANIFEST) = Some (v, cd_enc_manifest sample_codec first_manifest)"
proof -
  let ?S = "prefixed ''r/'' memory_store" and ?m = default_manifest
  let ?w0 = "\<lparr>w_store = memory_new, w_phase = (\<lambda>_. Idle)\<rparr>"
  let ?w1 = "at_phase 0 (Based ?m None) memory_new ?w0"
  let ?w2 = "at_phase 0 (Claiming ?m None 1 []) memory_new ?w1"
  let ?w3 = "at_phase 0 (Owns ?m None first_slot) orphan_store ?w2"
  have empty: "ms_view memory_new (''r/'' @ MANIFEST) = None" by (simp add: ms_view_def memory_new_def)
  have "publish_step sample_codec ?S ms_room ?w0 ?w1"
    by (rule read_absent) (use empty in \<open>simp_all add: pre.get_message_view default_manifest_def\<close>)
  moreover have "publish_step sample_codec ?S ms_room ?w1 ?w2"
    using start_claim [of ?w1 0 ?m None] by (simp add: at_phase_def default_manifest_def)
  moreover have "publish_step sample_codec ?S ms_room ?w2 ?w3"
    using claim_free [of ?w2 0 ?m None 1 "[]" ms_room ?S "''x''" _ orphan_store sample_codec] put_first_segment
    by (simp add: at_phase_def first_slot_def object_meta_of_def ms_room_def memory_new_def)
  ultimately have r3: "publish_reach sample_codec ?S ms_room ?w0 ?w3"
    by (meson reach_refl reach_step)
  have "ms_view orphan_store (''r/'' @ MANIFEST) = None" unfolding orphan_store_view by simp
  then have "put_allowed Create (map_option fst (ms_view orphan_store (''r/'' @ MANIFEST)))" by (simp add: put_allowed_def)
  then obtain v s4 where p4: "put_bytes ?S MANIFEST (cd_enc_manifest sample_codec first_manifest) Create orphan_store =
      (Inr (object_meta_of MANIFEST (v, cd_enc_manifest sample_codec first_manifest)), s4)"
    using pre.put_bytes_accepted by metis
  have "ms_counter orphan_store = 1" unfolding orphan_store_def by code_simp
  then have room: "ms_room orphan_store" by (simp add: ms_room_def)
  have "publish_step sample_codec ?S ms_room ?w3
      (at_phase 0 (Sweeping first_manifest (Some v) (sl_burned first_slot)) s4 ?w3)"
    using commit_won [of ?w3 0 ?m None first_slot ms_room ?m 1 first_manifest epoch "''w''" ?S sample_codec _ s4] p4 room
    by (simp add: at_phase_def first_manifest_def first_slot_def object_meta_of_def cas_mode_def)
  from reach_step [OF r3 this] have
    "publish_reach sample_codec ?S ms_room ?w0 (at_phase 0 (Sweeping first_manifest (Some v) (sl_burned first_slot)) s4 ?w3)" .
  moreover have "ms_view s4 (''r/'' @ MANIFEST) = Some (v, cd_enc_manifest sample_codec first_manifest)"
    using fun_cong [OF pre.put_bytes_Inr(3) [OF p4], of MANIFEST] by (simp add: object_meta_of_def)
  ultimately show ?thesis using that by simp
qed

lemma first_manifest_segments:
  "m_log_segments first_manifest = [\<lparr>sg_key = log_segment_key 1, sg_first_seq = 1, sg_last_seq = 1, sg_size = 1, sg_sealed = True\<rparr>]"
  by (simp add: first_manifest_def seal_segment_def first_slot_def default_manifest_def)

theorem committed_segments_survive_witness:
  "\<exists>w. publish_reach sample_codec (prefixed ''r/'' memory_store) ms_room \<lparr>w_store = memory_new, w_phase = (\<lambda>_. Idle)\<rparr> w \<and>
     (\<exists>v. ms_view (w_store w) (''r/'' @ MANIFEST) = Some (v, cd_enc_manifest sample_codec first_manifest)) \<and>
     ms_view (w_store (at_phase 0 Idle (w_store w) w)) (''r/'' @ log_segment_key 1) =
       ms_view (w_store w) (''r/'' @ log_segment_key 1)"
proof -
  obtain w v where w: "publish_reach sample_codec (prefixed ''r/'' memory_store) ms_room
      \<lparr>w_store = memory_new, w_phase = (\<lambda>_. Idle)\<rparr> w"
    "ms_view (w_store w) (''r/'' @ MANIFEST) = Some (v, cd_enc_manifest sample_codec first_manifest)"
    by (rule first_commit)
  have "publish_reach sample_codec (prefixed ''r/'' memory_store) ms_room w (at_phase 0 Idle (w_store w) w)"
    by (rule reach_step [OF reach_refl crash])
  from committed_segments_survive [OF _ ms_inv_new _ w(1) this w(2), of "hd (m_log_segments first_manifest)"]
  have "ms_view (w_store (at_phase 0 Idle (w_store w) w)) (''r/'' @ log_segment_key 1) =
      ms_view (w_store w) (''r/'' @ log_segment_key 1)"
    by (simp add: first_manifest_segments ms_view_def memory_new_def)
  with w show ?thesis by blast
qed

theorem manifest_log_complete_witness:
  "\<exists>w. publish_reach sample_codec (prefixed ''r/'' memory_store) ms_room \<lparr>w_store = memory_new, w_phase = (\<lambda>_. Idle)\<rparr> w \<and>
     (\<exists>u d. ms_view (w_store w) (''r/'' @ log_segment_key 1) = Some (u, d) \<and> length d = 1)"
proof -
  obtain w v where w: "publish_reach sample_codec (prefixed ''r/'' memory_store) ms_room
      \<lparr>w_store = memory_new, w_phase = (\<lambda>_. Idle)\<rparr> w"
    "ms_view (w_store w) (''r/'' @ MANIFEST) = Some (v, cd_enc_manifest sample_codec first_manifest)"
    by (rule first_commit)
  from manifest_log_complete [OF _ ms_inv_new _ w]
  have "\<exists>u d. ms_view (w_store w) (''r/'' @ log_segment_key 1) = Some (u, d) \<and> length d = 1"
    by (simp add: first_manifest_segments ms_view_def memory_new_def)
  with w(1) show ?thesis by blast
qed

end
