(* ===== verification/Accounts.thy ===== *)
theory Accounts
  imports Publish "HOL-Library.Product_Lexorder"
begin

text \<open>
  The user directory (\<open>walgit-wal/src/accounts.rs\<close>): a fold of the account log. Users, orgs and
  the two indices are ordered maps; an event is applied by \<open>accounts_apply\<close>, an entry is checked
  against the fold before it by \<open>accounts_verify\<close>, and a checkpoint stores the records. Unicode
  lower-casing, the text of a git error and the codec of \<open>AccountHistory\<close> are parameters.

  The lemmas: the fold is an instance of the contract of \<open>Event_Fold\<close>; what an accepted entry
  does to the login and identity indices; the indices always agree with the users and orgs.
\<close>

section \<open>State\<close>

definition accounts_log_id :: repo_id where
  "accounts_log_id = repo_id_system ''accounts''"

record user =
  us_user_id :: string
  us_login :: string
  us_email :: string
  us_name :: string
  us_avatar_url :: string
  us_password :: string

record org =
  og_org_id :: string
  og_login :: string
  og_owners :: "string set"

datatype namespace = NsUser user | NsOrg org | NsReserved | NsFree

datatype holder = HUser string | HOrg string | HReserved

record accounts_state =
  as_seq :: nat
  as_genesis :: bool
  as_users :: "(string, user) btree"
  as_orgs :: "(string, org) btree"
  as_by_login :: "(string, holder) btree"
  as_by_identity :: "(string \<times> string, string) btree"
  as_records :: "account_record list"

definition default_accounts :: accounts_state where
  "default_accounts = \<lparr>as_seq = 0, as_genesis = False, as_users = [], as_orgs = [],
     as_by_login = [], as_by_identity = [], as_records = []\<rparr>"

definition RESERVED_LOGINS :: "string list" where
  "RESERVED_LOGINS =
     [''_auth'', ''_ui'', ''_events'', ''api'', ''api-browser'', ''services'', ''healthz'',
      ''readyz'', ''metrics'', ''repos.js'', ''repos.mjs'', ''admin'', ''system'', ''settings'',
      ''login'', ''logout'', ''new'', ''anonymous'', ''anon'']"

definition valid_user_login :: "string \<Rightarrow> (string, unit) result" where
  "valid_user_login login =
     (let ok = login \<noteq> [] \<and> length login \<le> 39 \<and>
            list_all (\<lambda>b. is_ascii_lowercase b \<or> is_ascii_digit b \<or> b = CHR ''-'') login \<and>
            \<not> starts_with login ''-'' \<and> \<not> ends_with login ''-'' \<and> \<not> str_contains login ''--''
      in if \<not> ok
         then Inl (debug_str login @ '' is not a valid username: 1 to 39 lowercase letters, digits or '' @
                ''single hyphens, not at either end'')
         else if login \<in> set RESERVED_LOGINS then Inl (debug_str login @ '' is reserved'')
         else Inr ())"

section \<open>Lookups\<close>

definition accounts_namespace :: "accounts_state \<Rightarrow> string \<Rightarrow> namespace" where
  "accounts_namespace s login =
     (case bt_get (as_by_login s) (to_ascii_lowercase login) of
        Some (HUser i) \<Rightarrow> (case bt_get (as_users s) i of None \<Rightarrow> NsFree | Some u \<Rightarrow> NsUser u)
      | Some (HOrg i) \<Rightarrow> (case bt_get (as_orgs s) i of None \<Rightarrow> NsFree | Some g \<Rightarrow> NsOrg g)
      | Some HReserved \<Rightarrow> NsReserved
      | None \<Rightarrow> NsFree)"

definition user_by_login :: "accounts_state \<Rightarrow> string \<Rightarrow> user option" where
  "user_by_login s login = (case accounts_namespace s login of NsUser u \<Rightarrow> Some u | _ \<Rightarrow> None)"

definition user_by_identity :: "accounts_state \<Rightarrow> string \<Rightarrow> string \<Rightarrow> user option" where
  "user_by_identity s issuer subject =
     (case bt_get (as_by_identity s) (issuer, subject) of
        None \<Rightarrow> None | Some i \<Rightarrow> bt_get (as_users s) i)"

text \<open>\<open>str::split_whitespace\<close> over the characters of a text.\<close>

fun words_loop :: "string list \<Rightarrow> string \<Rightarrow> string list" where
  "words_loop [] cur = (if cur = [] then [] else [cur])"
| "words_loop (c # cs) cur =
     (if c \<in> set white_space then (if cur = [] then words_loop cs [] else cur # words_loop cs [])
      else words_loop cs (cur @ c))"

definition split_whitespace :: "string \<Rightarrow> string list" where
  "split_whitespace s = words_loop (utf8_chars s) []"

definition accounts_search :: "(string \<Rightarrow> string) \<Rightarrow> string \<Rightarrow> nat \<Rightarrow> accounts_state \<Rightarrow> user list" where
  "accounts_search lower pre limit s =
     (let p = to_ascii_lowercase pre in
      take limit (filter (\<lambda>u. starts_with (us_login u) p \<or> starts_with (lower (us_name u)) p \<or>
          list_ex (\<lambda>w. starts_with w p) (split_whitespace (lower (us_name u))))
        (map snd (as_users s))))"

section \<open>Applying events\<close>

text \<open>\<open>BTreeMap::entry(k).or_insert(v)\<close>.\<close>

definition or_insert :: "'k::linorder \<Rightarrow> 'v \<Rightarrow> ('k, 'v) btree \<Rightarrow> ('k, 'v) btree" where
  "or_insert k v t = (case bt_get t k of None \<Rightarrow> bt_insert k v t | Some _ \<Rightarrow> t)"

definition set_nonempty :: "string \<Rightarrow> string \<Rightarrow> string" where
  "set_nonempty v old = (if v \<noteq> [] then v else old)"

fun accounts_apply_body :: "account_body \<Rightarrow> accounts_state \<Rightarrow> accounts_state" where
  "accounts_apply_body (Genesis reserved) s =
     s \<lparr>as_genesis := True,
        as_by_login := fold (\<lambda>l. or_insert (to_ascii_lowercase l) HReserved) reserved (as_by_login s)\<rparr>"
| "accounts_apply_body (NamespaceReserved login) s =
     s \<lparr>as_by_login := or_insert (to_ascii_lowercase login) HReserved (as_by_login s)\<rparr>"
| "accounts_apply_body (UserCreated u) s =
     s \<lparr>as_by_login := bt_insert (to_ascii_lowercase (uc_login u)) (HUser (uc_user_id u)) (as_by_login s),
        as_users := bt_insert (uc_user_id u)
          \<lparr>us_user_id = uc_user_id u, us_login = uc_login u, us_email = uc_email u,
           us_name = uc_name u, us_avatar_url = uc_avatar_url u, us_password = []\<rparr> (as_users s)\<rparr>"
| "accounts_apply_body (IdentityLinked l) s =
     s \<lparr>as_by_identity := bt_insert (il_issuer l, il_subject l) (il_user_id l) (as_by_identity s)\<rparr>"
| "accounts_apply_body (ProfileChanged p) s =
     (case bt_get (as_users s) (pc_user_id p) of
        None \<Rightarrow> s
      | Some u \<Rightarrow>
          s \<lparr>as_users := bt_insert (pc_user_id p)
               (u \<lparr>us_email := set_nonempty (pc_email p) (us_email u),
                   us_name := set_nonempty (pc_name p) (us_name u),
                   us_avatar_url := set_nonempty (pc_avatar_url p) (us_avatar_url u)\<rparr>) (as_users s)\<rparr>)"
| "accounts_apply_body (OrgCreated g) s =
     s \<lparr>as_by_login := bt_insert (to_ascii_lowercase (oc_login g)) (HOrg (oc_org_id g)) (as_by_login s),
        as_orgs := bt_insert (oc_org_id g)
          \<lparr>og_org_id = oc_org_id g, og_login = oc_login g, og_owners = set (oc_owners g)\<rparr> (as_orgs s)\<rparr>"
| "accounts_apply_body (OrgOwnersChanged g) s =
     (case bt_get (as_orgs s) (oo_org_id g) of
        None \<Rightarrow> s
      | Some old \<Rightarrow>
          s \<lparr>as_orgs := bt_insert (oo_org_id g) (old \<lparr>og_owners := set (oo_owners g)\<rparr>) (as_orgs s)\<rparr>)"
| "accounts_apply_body (PasswordSet p) s =
     (case bt_get (as_users s) (ps_user_id p) of
        None \<Rightarrow> s
      | Some u \<Rightarrow> s \<lparr>as_users := bt_insert (ps_user_id p) (u \<lparr>us_password := ps_phc p\<rparr>) (as_users s)\<rparr>)"

definition accounts_apply :: "account_event \<Rightarrow> accounts_state \<Rightarrow> accounts_state" where
  "accounts_apply ev s = (case ev of None \<Rightarrow> s | Some body \<Rightarrow> accounts_apply_body body s)"

lemma accounts_apply_Some [simp]: "accounts_apply (Some b) s = accounts_apply_body b s"
  by (simp add: accounts_apply_def)

definition accounts_apply_record :: "account_record \<Rightarrow> accounts_state \<Rightarrow> accounts_state" where
  "accounts_apply_record r s =
     (let s' = fold accounts_apply (ar_events r) s in s' \<lparr>as_records := as_records s' @ [r]\<rparr>)"

definition accounts_from_history :: "account_history \<Rightarrow> accounts_state" where
  "accounts_from_history h =
     (fold accounts_apply_record (ah_records h) default_accounts) \<lparr>as_seq := ah_seq h\<rparr>"

definition accounts_history_upto :: "nat \<Rightarrow> accounts_state \<Rightarrow> account_history" where
  "accounts_history_upto seq s =
     \<lparr>ah_seq = seq, ah_records = filter (\<lambda>r. ar_seq r \<le> seq) (as_records s)\<rparr>"

definition accounts_fold_entry :: "log_entry \<Rightarrow> accounts_state \<Rightarrow> accounts_state" where
  "accounts_fold_entry e s =
     (if le_seq e \<le> as_seq s then s
      else
        let s1 = (if le_account e \<noteq> []
                  then accounts_apply_record
                         \<lparr>ar_seq = le_seq e, ar_at = le_created_at e, ar_events = le_account e\<rparr> s
                  else s)
        in s1 \<lparr>as_seq := le_seq e\<rparr>)"

definition accounts_fold_entries :: "nat \<Rightarrow> log_entry list \<Rightarrow> accounts_state \<Rightarrow> accounts_state" where
  "accounts_fold_entries after entries s =
     (if as_seq s < after then s else fold accounts_fold_entry entries s)"

section \<open>Preconditions\<close>

definition verify_owners :: "string list \<Rightarrow> (string \<Rightarrow> bool) \<Rightarrow> (string, unit) result" where
  "verify_owners owners exists =
     (if owners = [] then Inl ''an org needs at least one owner''
      else case find (\<lambda>i. \<not> exists i) owners of
             Some i \<Rightarrow> Inl (''no user '' @ debug_str i)
           | None \<Rightarrow> Inr ())"

text \<open>What earlier events of the entry create: the three \<open>HashSet\<close>s of \<open>verify\<close>.\<close>

record account_seen =
  seen_logins :: "string list"
  seen_users :: "string list"
  seen_identities :: "(string \<times> string) list"

definition no_user :: "string \<Rightarrow> string" where
  "no_user i = ''no user '' @ debug_str i"

definition user_exists :: "accounts_state \<Rightarrow> account_seen \<Rightarrow> string \<Rightarrow> bool" where
  "user_exists s seen i \<longleftrightarrow> bt_get (as_users s) i \<noteq> None \<or> i \<in> set (seen_users seen)"

fun verify_account_body ::
  "(git_error \<Rightarrow> string) \<Rightarrow> accounts_state \<Rightarrow> nat \<Rightarrow> account_body \<Rightarrow> account_seen \<Rightarrow>
     (string, account_seen) result" where
  "verify_account_body disp s n (Genesis _) seen =
     (if as_genesis s \<or> n \<noteq> 1 then Inl (''genesis is the log'' @ [CHR 0x27] @ ''s first entry, alone'')
      else Inr seen)"
| "verify_account_body disp s n (NamespaceReserved login) seen =
     (case accounts_namespace s login of
        NsFree \<Rightarrow> Inr seen
      | NsReserved \<Rightarrow> Inr seen
      | _ \<Rightarrow> Inl (debug_str login @ '' belongs to an account''))"
| "verify_account_body disp s n (UserCreated u) seen =
     (if uc_user_id u = [] \<or> bt_get (as_users s) (uc_user_id u) \<noteq> None \<or> uc_user_id u \<in> set (seen_users seen)
      then Inl ''a new user needs a new id''
      else case valid_user_login (uc_login u) of
        Inl e \<Rightarrow> Inl e
      | Inr _ \<Rightarrow>
          (let key = to_ascii_lowercase (uc_login u) in
           if accounts_namespace s key \<noteq> NsFree \<or> key \<in> set (seen_logins seen)
           then Inl (''the username '' @ debug_str (uc_login u) @ '' is taken'')
           else Inr (seen \<lparr>seen_users := uc_user_id u # seen_users seen, seen_logins := key # seen_logins seen\<rparr>)))"
| "verify_account_body disp s n (IdentityLinked l) seen =
     (if il_issuer l = [] \<or> il_subject l = [] then Inl ''an identity needs an issuer and a subject''
      else if \<not> user_exists s seen (il_user_id l) then Inl (no_user (il_user_id l))
      else if bt_get (as_by_identity s) (il_issuer l, il_subject l) \<noteq> None \<or>
              (il_issuer l, il_subject l) \<in> set (seen_identities seen)
      then Inl ''this sign-in is already linked to an account''
      else Inr (seen \<lparr>seen_identities := (il_issuer l, il_subject l) # seen_identities seen\<rparr>))"
| "verify_account_body disp s n (ProfileChanged p) seen =
     (if \<not> user_exists s seen (pc_user_id p) then Inl (no_user (pc_user_id p)) else Inr seen)"
| "verify_account_body disp s n (OrgCreated g) seen =
     (if oc_org_id g = [] \<or> bt_get (as_orgs s) (oc_org_id g) \<noteq> None \<or> bt_get (as_users s) (oc_org_id g) \<noteq> None
      then Inl ''a new org needs a new id''
      else case repo_id_new (oc_login g) ''x'' of
        Inl e \<Rightarrow> Inl (disp e)
      | Inr _ \<Rightarrow>
          (let key = to_ascii_lowercase (oc_login g);
               open = (case accounts_namespace s key of NsFree \<Rightarrow> True | NsReserved \<Rightarrow> True | _ \<Rightarrow> False) in
           if \<not> open \<or> key \<in> set (seen_logins seen) then Inl (debug_str (oc_login g) @ '' is taken'')
           else case verify_owners (oc_owners g) (user_exists s seen) of
                  Inl e \<Rightarrow> Inl e
                | Inr _ \<Rightarrow> Inr (seen \<lparr>seen_logins := key # seen_logins seen\<rparr>)))"
| "verify_account_body disp s n (OrgOwnersChanged g) seen =
     (if bt_get (as_orgs s) (oo_org_id g) = None then Inl (''no org '' @ debug_str (oo_org_id g))
      else case verify_owners (oo_owners g) (user_exists s seen) of Inl e \<Rightarrow> Inl e | Inr _ \<Rightarrow> Inr seen)"
| "verify_account_body disp s n (PasswordSet p) seen =
     (if \<not> user_exists s seen (ps_user_id p) then Inl (no_user (ps_user_id p))
      else if ps_phc p \<noteq> [] \<and> \<not> starts_with (ps_phc p) ''$argon2id$''
      then Inl ''a password is stored as an Argon2id PHC string''
      else Inr seen)"

fun verify_account_events ::
  "(git_error \<Rightarrow> string) \<Rightarrow> accounts_state \<Rightarrow> nat \<Rightarrow> account_event list \<Rightarrow> account_seen \<Rightarrow>
     (string, account_seen) result" where
  "verify_account_events disp s n [] seen = Inr seen"
| "verify_account_events disp s n (ev # evs) seen =
     (case ev of
        None \<Rightarrow> Inl ''empty account event''
      | Some body \<Rightarrow>
          if \<not> as_genesis s \<and> (case body of Genesis _ \<Rightarrow> False | _ \<Rightarrow> True)
          then Inl ''the account log has no genesis entry yet''
          else (case verify_account_body disp s n body seen of
                  Inl e \<Rightarrow> Inl e
                | Inr seen' \<Rightarrow> verify_account_events disp s n evs seen'))"

definition empty_seen :: account_seen where
  "empty_seen = \<lparr>seen_logins = [], seen_users = [], seen_identities = []\<rparr>"

definition accounts_verify ::
  "(git_error \<Rightarrow> string) \<Rightarrow> accounts_state \<Rightarrow> account_event list \<Rightarrow> (string, unit) result" where
  "accounts_verify disp s events =
     (if events = [] then Inl ''no account events''
      else case verify_account_events disp s (length events) events empty_seen of
             Inl e \<Rightarrow> Inl e | Inr _ \<Rightarrow> Inr ())"

section \<open>Loading and publishing\<close>

text \<open>
  \<open>accounts_ensure\<close>: the fold held in memory (\<open>have\<close>) is brought to the head of the manifest,
  from itself when the log still reaches back to it, else from the checkpoint.
\<close>

definition load_accounts ::
  "account_history decoder \<Rightarrow> 's object_store \<Rightarrow> manifest \<Rightarrow> 's \<Rightarrow> (wal_error, accounts_state) result \<times> 's" where
  "load_accounts dec S m s =
     (let key = (case m_checkpoint m of None \<Rightarrow> [] | Some cp \<Rightarrow> cp_accounts_key cp) in
      if key \<noteq> [] then
        (case get_bytes S key s of
           (Inl e, s1) \<Rightarrow> (Inl (WalStore e), s1)
         | (Inr None, s1) \<Rightarrow> (Inl (Corrupt (''account history missing: '' @ key)), s1)
         | (Inr (Some (_, b)), s1) \<Rightarrow>
             (case dec b of
                Inl e \<Rightarrow> (Inl (Corrupt (''account history decode: '' @ e)), s1)
              | Inr h \<Rightarrow> (Inr (accounts_from_history h), s1)))
      else (Inr (default_accounts \<lparr>as_seq := (case m_checkpoint m of None \<Rightarrow> 0 | Some cp \<Rightarrow> cp_seq cp)\<rparr>), s))"

definition accounts_ensure ::
  "codec \<Rightarrow> account_history decoder \<Rightarrow> 's object_store \<Rightarrow> manifest \<Rightarrow> accounts_state option \<Rightarrow> 's \<Rightarrow>
     (wal_error, accounts_state option) result \<times> 's" where
  "accounts_ensure cd dec S m have s =
     (let advance = (\<lambda>guard from_seq s1.
          case read_log_manifest cd S m (from_seq + 1) (Some (m_head_seq m)) s1 of
            (Inl e, s2) \<Rightarrow> (Inl e, s2)
          | (Inr entries, s2) \<Rightarrow> (Inr (map_option (accounts_fold_entries from_seq entries) guard), s2));
          reload = (\<lambda>s1. case load_accounts dec S m s1 of
            (Inl e, s2) \<Rightarrow> (Inl e, s2)
          | (Inr state, s2) \<Rightarrow>
              advance (case have of
                  None \<Rightarrow> Some state
                | Some g \<Rightarrow> if as_seq g < as_seq state then Some state else Some g) (as_seq state) s2)
      in case have of
           None \<Rightarrow> reload s
         | Some g \<Rightarrow>
             if as_seq g \<ge> m_head_seq m then (Inr have, s)
             else if as_seq g + 1 \<ge> max (m_min_seq m) 1 then advance have (as_seq g) s
             else reload s)"

text \<open>\<open>fold_at i\<close> is the fold the handle holds when attempt \<open>i\<close> prepares its entry.\<close>

definition prepare_accounts ::
  "(git_error \<Rightarrow> string) \<Rightarrow> account_event list \<Rightarrow> string \<Rightarrow> (nat \<Rightarrow> accounts_state) \<Rightarrow> nat \<Rightarrow> manifest \<Rightarrow>
     (wal_error, log_entry \<times> manifest) result" where
  "prepare_accounts disp events author fold_at i m =
     (let s = fold_at i in
      if as_seq s < m_head_seq m
      then Inl (Corrupt (''account fold at '' @ show_nat (as_seq s) @ '' behind the basis '' @
             show_nat (m_head_seq m)))
      else case accounts_verify disp s events of
             Inl e \<Rightarrow> Inl (Invalid e)
           | Inr _ \<Rightarrow>
               Inr (default_log_entry \<lparr>le_kind := EK_Account, le_meta := [(''author'', author)],
                      le_account := events\<rparr>, m))"

definition publish_accounts where
  "publish_accounts disp cd S env resync events author fold_at max_retries s =
     (case publish_one cd S env resync (prepare_accounts disp events author fold_at) max_retries s of
        None \<Rightarrow> None
      | Some (Inl e, s1) \<Rightarrow> Some (Inl e, s1)
      | Some (Inr (seq, _), s1) \<Rightarrow> Some (Inr seq, s1))"

text \<open>
  The genesis entry of a bucket that never had one reserves the owners of the repositories
  listed (\<open>Accounts::synced\<close>); \<open>Accounts::reserve\<close> publishes one reservation unless the
  namespace is reserved already.
\<close>

definition genesis_event :: "repo_id list \<Rightarrow> account_event" where
  "genesis_event ids = Some (Genesis (remdups_adj (sort (map rid_owner ids))))"

definition reserve_events :: "accounts_state \<Rightarrow> string \<Rightarrow> account_event list option" where
  "reserve_events s owner =
     (if accounts_namespace s owner = NsReserved then None else Some [Some (NamespaceReserved owner)])"

section \<open>The account log as an event fold\<close>

lemma accounts_apply_body_seq:
  "accounts_apply_body b (s \<lparr>as_seq := n\<rparr>) = (accounts_apply_body b s) \<lparr>as_seq := n\<rparr>"
  by (cases b) (simp_all split: option.splits)

lemma accounts_apply_seq: "accounts_apply ev (s \<lparr>as_seq := n\<rparr>) = (accounts_apply ev s) \<lparr>as_seq := n\<rparr>"
  by (simp add: accounts_apply_def accounts_apply_body_seq split: option.splits)

lemma fold_accounts_apply_seq:
  "fold accounts_apply evs (s \<lparr>as_seq := n\<rparr>) = (fold accounts_apply evs s) \<lparr>as_seq := n\<rparr>"
  by (induction evs arbitrary: s) (simp_all add: accounts_apply_seq)

lemma accounts_apply_body_records [simp]: "as_records (accounts_apply_body b s) = as_records s"
  by (cases b) (simp_all split: option.splits)

lemma accounts_apply_records [simp]: "as_records (accounts_apply ev s) = as_records s"
  by (simp add: accounts_apply_def split: option.splits)

lemma fold_accounts_apply_records [simp]: "as_records (fold accounts_apply evs s) = as_records s"
  by (induction evs arbitrary: s) simp_all

interpretation accounts: event_fold as_seq "\<lambda>n s. s \<lparr>as_seq := n\<rparr>" as_records default_accounts
  accounts_apply_record ar_seq
  "\<lambda>e. if le_account e \<noteq> []
       then Some \<lparr>ar_seq = le_seq e, ar_at = le_created_at e, ar_events = le_account e\<rparr> else None"
  accounts_fold_entry
  by unfold_locales
    (auto simp: default_accounts_def accounts_apply_record_def accounts_fold_entry_def Let_def
      fold_accounts_apply_seq split: if_splits)

section \<open>What an accepted entry keeps\<close>

abbreviation login_holder :: "accounts_state \<Rightarrow> string \<Rightarrow> holder option" where
  "login_holder s \<equiv> bt_get (as_by_login s)"

definition users_kept :: "accounts_state \<Rightarrow> accounts_state \<Rightarrow> bool" where
  "users_kept s t \<longleftrightarrow> (\<forall>i u. bt_get (as_users s) i = Some u \<longrightarrow>
     (\<exists>u'. bt_get (as_users t) i = Some u' \<and> us_user_id u' = us_user_id u \<and> us_login u' = us_login u))"

definition orgs_kept :: "accounts_state \<Rightarrow> accounts_state \<Rightarrow> bool" where
  "orgs_kept s t \<longleftrightarrow> (\<forall>i g. bt_get (as_orgs s) i = Some g \<longrightarrow>
     (\<exists>g'. bt_get (as_orgs t) i = Some g' \<and> og_org_id g' = og_org_id g \<and> og_login g' = og_login g))"

definition holders_kept :: "accounts_state \<Rightarrow> accounts_state \<Rightarrow> bool" where
  "holders_kept s t \<longleftrightarrow>
     (\<forall>k i. login_holder s k = Some (HUser i) \<and> bt_get (as_users s) i \<noteq> None \<longrightarrow>
        login_holder t k = Some (HUser i)) \<and>
     (\<forall>k i. login_holder s k = Some (HOrg i) \<and> bt_get (as_orgs s) i \<noteq> None \<longrightarrow>
        login_holder t k = Some (HOrg i))"

definition reserved_kept :: "accounts_state \<Rightarrow> accounts_state \<Rightarrow> bool" where
  "reserved_kept s t \<longleftrightarrow> (\<forall>k. login_holder s k = Some HReserved \<longrightarrow>
     login_holder t k = Some HReserved \<or>
     (\<exists>i. login_holder t k = Some (HOrg i) \<and> bt_get (as_orgs t) i \<noteq> None))"

definition identities_kept :: "accounts_state \<Rightarrow> accounts_state \<Rightarrow> bool" where
  "identities_kept s t \<longleftrightarrow>
     (\<forall>k i. bt_get (as_by_identity s) k = Some i \<longrightarrow> bt_get (as_by_identity t) k = Some i)"

definition extends :: "accounts_state \<Rightarrow> accounts_state \<Rightarrow> bool" where
  "extends s t \<longleftrightarrow> users_kept s t \<and> orgs_kept s t \<and> holders_kept s t \<and> reserved_kept s t \<and> identities_kept s t"

lemmas kept_defs = users_kept_def orgs_kept_def holders_kept_def reserved_kept_def identities_kept_def

lemma extends_refl [simp]: "extends s s"
  by (simp add: extends_def kept_defs)

lemma users_kept_trans: "users_kept s t \<Longrightarrow> users_kept t u \<Longrightarrow> users_kept s u"
  unfolding users_kept_def by (metis (no_types))

lemma orgs_kept_trans: "orgs_kept s t \<Longrightarrow> orgs_kept t u \<Longrightarrow> orgs_kept s u"
  unfolding orgs_kept_def by (metis (no_types))

lemma users_kept_exist: "users_kept s t \<Longrightarrow> bt_get (as_users s) i \<noteq> None \<Longrightarrow> bt_get (as_users t) i \<noteq> None"
  unfolding users_kept_def by (metis option.exhaust option.distinct(1))

lemma orgs_kept_exist: "orgs_kept s t \<Longrightarrow> bt_get (as_orgs s) i \<noteq> None \<Longrightarrow> bt_get (as_orgs t) i \<noteq> None"
  unfolding orgs_kept_def by (metis option.exhaust option.distinct(1))

lemma holders_kept_trans:
  "users_kept s t \<Longrightarrow> orgs_kept s t \<Longrightarrow> holders_kept s t \<Longrightarrow> holders_kept t u \<Longrightarrow> holders_kept s u"
  unfolding holders_kept_def by (meson users_kept_exist orgs_kept_exist)

lemma reserved_kept_trans:
  assumes "reserved_kept s t" "reserved_kept t u" "holders_kept t u" "orgs_kept t u"
  shows "reserved_kept s u"
  unfolding reserved_kept_def
proof (intro allI impI)
  fix k
  assume "login_holder s k = Some HReserved"
  then consider "login_holder t k = Some HReserved"
    | i where "login_holder t k = Some (HOrg i)" "bt_get (as_orgs t) i \<noteq> None"
    using assms(1) unfolding reserved_kept_def by blast
  then show "login_holder u k = Some HReserved \<or>
      (\<exists>i. login_holder u k = Some (HOrg i) \<and> bt_get (as_orgs u) i \<noteq> None)"
  proof cases
    case 1
    then show ?thesis using assms(2) unfolding reserved_kept_def by blast
  next
    case 2
    then have "login_holder u k = Some (HOrg i)" using assms(3) unfolding holders_kept_def by blast
    then show ?thesis using orgs_kept_exist [OF assms(4) 2(2)] by blast
  qed
qed

lemma extends_trans: "extends s t \<Longrightarrow> extends t u \<Longrightarrow> extends s u"
  unfolding extends_def
  by (meson users_kept_trans orgs_kept_trans holders_kept_trans reserved_kept_trans identities_kept_def)

lemma extends_seq_records [simp]:
  "extends s (t \<lparr>as_seq := n\<rparr>) = extends s t"
  "extends s (t \<lparr>as_records := rs\<rparr>) = extends s t"
  by (simp_all add: extends_def kept_defs)

lemma bt_get_or_insert [simp]:
  "bt_get (or_insert k v t) j = (case bt_get t j of None \<Rightarrow> if j = k then Some v else None | Some x \<Rightarrow> Some x)"
  by (auto simp: or_insert_def split: option.splits)

lemma bt_get_reserve_all:
  "bt_get (fold (\<lambda>l. or_insert (f l) HReserved) ls t) k =
     (case bt_get t k of None \<Rightarrow> if k \<in> f ` set ls then Some HReserved else None | Some x \<Rightarrow> Some x)"
  by (induction ls arbitrary: t) (auto split: option.splits)

lemma to_ascii_lowercase_idem [simp]: "to_ascii_lowercase (to_ascii_lowercase s) = to_ascii_lowercase s"
proof -
  have "\<not> is_ascii_uppercase (char_of (of_char c + 32 :: nat))" if "is_ascii_uppercase c" for c :: char
    using that by (auto simp: ascii_defs)
  then show ?thesis by (simp add: to_ascii_lowercase_def)
qed

lemma namespace_free_iff:
  "accounts_namespace s (to_ascii_lowercase l) = accounts_namespace s l"
  by (simp add: accounts_namespace_def)

lemma reserved_kept_step:
  assumes "reserved_kept s t" "\<And>i. bt_get (as_orgs t) i \<noteq> None \<Longrightarrow> bt_get (as_orgs t') i \<noteq> None"
    and "\<And>k. login_holder t' k = login_holder t k \<or>
      (\<exists>i. login_holder t' k = Some (HOrg i) \<and> bt_get (as_orgs t') i \<noteq> None)"
  shows "reserved_kept s t'"
  using assms unfolding reserved_kept_def by metis

lemma extends_profile: "extends t (accounts_apply_body (ProfileChanged p) t)"
  and extends_password: "extends t (accounts_apply_body (PasswordSet w) t)"
  and extends_owners: "extends t (accounts_apply_body (OrgOwnersChanged g) t)"
  by (simp_all add: extends_def kept_defs split: option.splits)

lemma extends_reserve: "extends t (accounts_apply_body (NamespaceReserved l) t)"
  and extends_genesis: "extends t (accounts_apply_body (Genesis ls) t)"
  by (simp_all add: extends_def kept_defs bt_get_reserve_all)

text \<open>An event accepted against the fold before its entry keeps what that fold holds.\<close>

lemma extends_apply:
  assumes "extends s t" "verify_account_body disp s n b seen = Inr seen'"
  shows "extends s (accounts_apply_body b t)"
proof (cases b)
  case (UserCreated u)
  let ?k = "to_ascii_lowercase (uc_login u)"
  have "bt_get (as_users s) (uc_user_id u) = None" "accounts_namespace s ?k = NsFree"
    using assms(2) by (auto simp: UserCreated Let_def split: if_splits sum.splits)
  moreover from this(2) have "login_holder s ?k \<noteq> Some HReserved"
    "login_holder s ?k = Some (HUser i) \<Longrightarrow> bt_get (as_users s) i = None"
    "login_holder s ?k = Some (HOrg i) \<Longrightarrow> bt_get (as_orgs s) i = None" for i
    by (auto simp: accounts_namespace_def split: option.splits holder.splits)
  ultimately show ?thesis using assms(1) by (auto simp: UserCreated extends_def kept_defs)
next
  case (OrgCreated g)
  let ?k = "to_ascii_lowercase (oc_login g)"
  have new: "bt_get (as_orgs s) (oc_org_id g) = None"
    "accounts_namespace s ?k = NsFree \<or> accounts_namespace s ?k = NsReserved"
    using assms(2) by (auto simp: OrgCreated Let_def split: if_splits sum.splits namespace.splits)
  from new(2) have
    "login_holder s ?k = Some (HUser i) \<Longrightarrow> bt_get (as_users s) i = None"
    "login_holder s ?k = Some (HOrg i) \<Longrightarrow> bt_get (as_orgs s) i = None" for i
    by (auto simp: accounts_namespace_def split: option.splits holder.splits)
  then have "holders_kept s (accounts_apply_body b t)"
    using assms(1) by (auto simp: OrgCreated extends_def holders_kept_def)
  moreover have "reserved_kept s (accounts_apply_body b t)"
  proof (rule reserved_kept_step [of s t])
    show "reserved_kept s t" using assms(1) by (simp add: extends_def)
    show "login_holder (accounts_apply_body b t) k = login_holder t k \<or>
        (\<exists>i. login_holder (accounts_apply_body b t) k = Some (HOrg i) \<and>
          bt_get (as_orgs (accounts_apply_body b t)) i \<noteq> None)" for k
      by (cases "k = ?k") (simp_all add: OrgCreated)
  qed (simp add: OrgCreated)
  moreover have "orgs_kept s (accounts_apply_body b t)"
    using assms(1) new(1) by (auto simp: OrgCreated extends_def orgs_kept_def)
  ultimately show ?thesis using assms(1) by (simp add: OrgCreated extends_def users_kept_def identities_kept_def)
next
  case (IdentityLinked l)
  then have "identities_kept s (accounts_apply_body b t)"
    using assms by (auto simp: extends_def identities_kept_def split: if_splits)
  then show ?thesis using assms(1) unfolding IdentityLinked
    by (simp add: extends_def users_kept_def orgs_kept_def holders_kept_def reserved_kept_def)
qed (use assms(1) in \<open>auto elim!: extends_trans intro: extends_profile extends_password extends_owners
  extends_reserve extends_genesis simp del: accounts_apply_body.simps\<close>)

lemma verify_account_events_cons:
  "verify_account_events disp s n (ev # evs) seen = Inr seen'' \<longleftrightarrow>
     (\<exists>b seen'. ev = Some b \<and> (as_genesis s \<or> (\<exists>ls. b = Genesis ls)) \<and>
        verify_account_body disp s n b seen = Inr seen' \<and> verify_account_events disp s n evs seen' = Inr seen'')"
  by (auto split: option.splits sum.splits account_body.splits)

lemma extends_events:
  assumes "extends s t" "verify_account_events disp s n evs seen = Inr seen'"
  shows "extends s (fold accounts_apply evs t)"
  using assms
proof (induction evs arbitrary: t seen)
  case Nil
  then show ?case by simp
next
  case (Cons ev evs)
  then obtain b seen1 where b: "ev = Some b" "verify_account_body disp s n b seen = Inr seen1"
    "verify_account_events disp s n evs seen1 = Inr seen'"
    unfolding verify_account_events_cons by blast
  show ?case using Cons.IH [OF extends_apply [OF Cons.prems(1) b(2)] b(3)] by (simp add: b accounts_apply_def)
qed

text \<open>An account log: every entry that is applied was accepted against the fold before it.\<close>

definition account_entry_ok :: "(git_error \<Rightarrow> string) \<Rightarrow> accounts_state \<Rightarrow> log_entry \<Rightarrow> bool" where
  "account_entry_ok disp s e \<longleftrightarrow>
     le_seq e \<le> as_seq s \<or> le_account e = [] \<or> accounts_verify disp s (le_account e) = Inr ()"

fun verified_log :: "(git_error \<Rightarrow> string) \<Rightarrow> log_entry list \<Rightarrow> accounts_state \<Rightarrow> bool" where
  "verified_log disp [] s = True"
| "verified_log disp (e # es) s \<longleftrightarrow>
     account_entry_ok disp s e \<and> verified_log disp es (accounts_fold_entry e s)"

lemma verified_log_append:
  "verified_log disp (es1 @ es2) s \<longleftrightarrow>
     verified_log disp es1 s \<and> verified_log disp es2 (fold accounts_fold_entry es1 s)"
  by (induction es1 arbitrary: s) simp_all

lemma extends_entry: "account_entry_ok disp s e \<Longrightarrow> extends s (accounts_fold_entry e s)"
  by (auto simp: account_entry_ok_def accounts_fold_entry_def accounts_apply_record_def accounts_verify_def
      Let_def extends_events [OF extends_refl] split: if_splits sum.splits)

lemma extends_log: "verified_log disp es s \<Longrightarrow> extends s (fold accounts_fold_entry es s)"
proof (induction es arbitrary: s)
  case Nil
  then show ?case by simp
next
  case (Cons e es)
  then show ?case using extends_trans [OF extends_entry, of disp s e] by simp
qed

section \<open>The indices agree with the directory\<close>

definition directory_ok :: "accounts_state \<Rightarrow> bool" where
  "directory_ok s \<longleftrightarrow>
     (\<forall>i u. bt_get (as_users s) i = Some u \<longrightarrow>
        us_user_id u = i \<and> login_holder s (to_ascii_lowercase (us_login u)) = Some (HUser i)) \<and>
     (\<forall>i g. bt_get (as_orgs s) i = Some g \<longrightarrow>
        og_org_id g = i \<and> login_holder s (to_ascii_lowercase (og_login g)) = Some (HOrg i)) \<and>
     (\<forall>k i. login_holder s k = Some (HUser i) \<longrightarrow>
        (\<exists>u. bt_get (as_users s) i = Some u \<and> to_ascii_lowercase (us_login u) = k)) \<and>
     (\<forall>k i. login_holder s k = Some (HOrg i) \<longrightarrow>
        (\<exists>g. bt_get (as_orgs s) i = Some g \<and> to_ascii_lowercase (og_login g) = k)) \<and>
     (\<forall>k i. bt_get (as_by_identity s) k = Some i \<longrightarrow> bt_get (as_users s) i \<noteq> None)"

definition created_orgs :: "account_event list \<Rightarrow> string list" where
  "created_orgs evs = [oc_org_id g. Some (OrgCreated g) \<leftarrow> evs]"

text \<open>What the checks of an entry know of the state \<open>t\<close> its events have built from \<open>s\<close> so far.\<close>

definition logins_known :: "accounts_state \<Rightarrow> accounts_state \<Rightarrow> account_seen \<Rightarrow> bool" where
  "logins_known s t seen \<longleftrightarrow> (\<forall>k. k \<notin> set (seen_logins seen) \<longrightarrow>
     login_holder t k \<in> {None, Some HReserved} \<or> login_holder t k = login_holder s k)"

definition users_known :: "accounts_state \<Rightarrow> accounts_state \<Rightarrow> account_seen \<Rightarrow> bool" where
  "users_known s t seen \<longleftrightarrow>
     dom (bt_get (as_users t)) = dom (bt_get (as_users s)) \<union> set (seen_users seen)"

definition orgs_known :: "accounts_state \<Rightarrow> accounts_state \<Rightarrow> string set \<Rightarrow> bool" where
  "orgs_known s t orgs \<longleftrightarrow> (\<forall>i. i \<notin> orgs \<longrightarrow> bt_get (as_orgs s) i = None \<longrightarrow> bt_get (as_orgs t) i = None)"

definition new_orgs :: "account_body \<Rightarrow> string set" where
  "new_orgs b = (case b of OrgCreated g \<Rightarrow> {oc_org_id g} | _ \<Rightarrow> {})"

lemma logins_known_step:
  assumes "logins_known s t seen" "verify_account_body disp s n b seen = Inr seen'"
  shows "logins_known s (accounts_apply_body b t) seen'"
  using assms
  by (cases b) (auto simp: logins_known_def Let_def bt_get_reserve_all
      split: if_splits sum.splits option.splits namespace.splits)

lemma users_known_step:
  assumes "users_known s t seen" "verify_account_body disp s n b seen = Inr seen'"
  shows "users_known s (accounts_apply_body b t) seen'"
proof -
  have "dom (bt_get (as_users (accounts_apply_body b t))) =
      (case b of UserCreated u \<Rightarrow> insert (uc_user_id u) (dom (bt_get (as_users t)))
       | _ \<Rightarrow> dom (bt_get (as_users t)))"
    by (cases b) (auto split: option.splits if_splits simp del: dom_map_of_conv_image_fst)
  moreover have "set (seen_users seen') =
      (case b of UserCreated u \<Rightarrow> insert (uc_user_id u) (set (seen_users seen)) | _ \<Rightarrow> set (seen_users seen))"
    using assms(2) by (cases b) (auto simp: Let_def split: if_splits sum.splits namespace.splits)
  ultimately show ?thesis
    using assms(1) unfolding users_known_def by (simp split: account_body.splits)
qed

lemma orgs_known_step:
  assumes "orgs_known s t orgs"
  shows "orgs_known s (accounts_apply_body b t) (new_orgs b \<union> orgs)"
  using assms by (cases b) (auto simp: orgs_known_def new_orgs_def split: option.splits)

lemma directory_login_free:
  assumes "directory_ok t" "login_holder t k \<in> {None, Some HReserved}"
  shows "bt_get (as_users t) i = Some v \<Longrightarrow> to_ascii_lowercase (us_login v) \<noteq> k"
    and "bt_get (as_orgs t) i = Some h \<Longrightarrow> to_ascii_lowercase (og_login h) \<noteq> k"
  using assms unfolding directory_ok_def by force+

lemma directory_id_free:
  assumes "directory_ok t"
  shows "bt_get (as_users t) i = None \<Longrightarrow> login_holder t k \<noteq> Some (HUser i)"
    and "bt_get (as_users t) i = None \<Longrightarrow> bt_get (as_by_identity t) j \<noteq> Some i"
    and "bt_get (as_orgs t) i = None \<Longrightarrow> login_holder t k \<noteq> Some (HOrg i)"
  using assms unfolding directory_ok_def by force+

lemma directory_ok_user:
  assumes "directory_ok t" "bt_get (as_users t) (uc_user_id u) = None"
    "login_holder t (to_ascii_lowercase (uc_login u)) \<in> {None, Some HReserved}"
  shows "directory_ok (accounts_apply_body (UserCreated u) t)"
  using assms(1) directory_id_free(1,2) [OF assms(1,2)] directory_login_free [OF assms(1,3)]
  unfolding directory_ok_def accounts_apply_body.simps by (intro conjI) auto

lemma directory_ok_org:
  assumes "directory_ok t" "bt_get (as_orgs t) (oc_org_id g) = None"
    "login_holder t (to_ascii_lowercase (oc_login g)) \<in> {None, Some HReserved}"
  shows "directory_ok (accounts_apply_body (OrgCreated g) t)"
  using assms(1) directory_id_free(3) [OF assms(1,2)] directory_login_free [OF assms(1,3)]
  unfolding directory_ok_def accounts_apply_body.simps by (intro conjI) auto

lemma directory_ok_other:
  assumes "directory_ok t" "\<forall>u. b \<noteq> UserCreated u" "\<forall>g. b \<noteq> OrgCreated g"
    "\<forall>l. b = IdentityLinked l \<longrightarrow> bt_get (as_users t) (il_user_id l) \<noteq> None"
  shows "directory_ok (accounts_apply_body b t)"
proof (cases b)
  case (Genesis ls)
  then show ?thesis using assms(1) by (auto simp: directory_ok_def bt_get_reserve_all split: option.splits if_splits)
next
  case (NamespaceReserved l)
  then show ?thesis using assms(1) by (auto simp: directory_ok_def split: option.splits if_splits)
next
  case (IdentityLinked l)
  then show ?thesis using assms(1,4) by (simp add: directory_ok_def)
qed (use assms in \<open>fastforce simp: directory_ok_def split: option.splits\<close>)+

lemma directory_ok_step:
  assumes "directory_ok s" "directory_ok t" "logins_known s t seen" "users_known s t seen" "orgs_known s t orgs"
    and "verify_account_body disp s n b seen = Inr seen'" "new_orgs b \<inter> orgs = {}"
  shows "directory_ok (accounts_apply_body b t)"
proof (cases b)
  case (UserCreated u)
  let ?k = "to_ascii_lowercase (uc_login u)"
  have v: "\<not> user_exists s seen (uc_user_id u)" "accounts_namespace s ?k = NsFree" "?k \<notin> set (seen_logins seen)"
    using assms(6) by (auto simp: UserCreated user_exists_def Let_def split: if_splits sum.splits)
  from v(2) have "login_holder s ?k \<in> {None, Some HReserved}"
    using directory_id_free [OF assms(1)]
    by (auto simp: accounts_namespace_def split: option.splits holder.splits)
  with v(3) assms(3) have "login_holder t ?k \<in> {None, Some HReserved}"
    unfolding logins_known_def by metis
  moreover have "bt_get (as_users t) (uc_user_id u) = None"
    using v(1) assms(4) unfolding users_known_def user_exists_def by blast
  ultimately show ?thesis unfolding UserCreated using directory_ok_user assms(2) by blast
next
  case (OrgCreated g)
  let ?k = "to_ascii_lowercase (oc_login g)"
  have v: "bt_get (as_orgs s) (oc_org_id g) = None" "?k \<notin> set (seen_logins seen)"
    "accounts_namespace s ?k = NsFree \<or> accounts_namespace s ?k = NsReserved"
    using assms(6) by (auto simp: OrgCreated Let_def split: if_splits sum.splits namespace.splits)
  from v(3) have "login_holder s ?k \<in> {None, Some HReserved}"
    using directory_id_free [OF assms(1)]
    by (auto simp: accounts_namespace_def split: option.splits holder.splits)
  with v(2) assms(3) have "login_holder t ?k \<in> {None, Some HReserved}"
    unfolding logins_known_def by metis
  moreover have "bt_get (as_orgs t) (oc_org_id g) = None"
    using v(1) assms(5,7) by (simp add: orgs_known_def OrgCreated new_orgs_def)
  ultimately show ?thesis unfolding OrgCreated using directory_ok_org assms(2) by blast
next
  case (IdentityLinked l)
  then have "user_exists s seen (il_user_id l)" using assms(6) by (auto split: if_splits)
  then have "bt_get (as_users t) (il_user_id l) \<noteq> None"
    using assms(4) unfolding users_known_def user_exists_def by blast
  then show ?thesis by (intro directory_ok_other [OF assms(2)]) (simp_all add: IdentityLinked)
qed (rule directory_ok_other [OF assms(2)]; simp)+

lemma directory_ok_events:
  assumes "directory_ok s" "directory_ok t" "logins_known s t seen" "users_known s t seen" "orgs_known s t orgs"
    and "verify_account_events disp s n evs seen = Inr seen'"
    and "distinct (created_orgs evs)" "set (created_orgs evs) \<inter> orgs = {}"
  shows "directory_ok (fold accounts_apply evs t)"
  using assms(2-)
proof (induction evs arbitrary: t seen orgs)
  case Nil
  then show ?case by simp
next
  case (Cons ev evs)
  then obtain b seen1 where b: "ev = Some b" "verify_account_body disp s n b seen = Inr seen1"
    "verify_account_events disp s n evs seen1 = Inr seen'"
    unfolding verify_account_events_cons by blast
  have orgs: "new_orgs b \<inter> orgs = {}" "set (created_orgs evs) \<inter> (new_orgs b \<union> orgs) = {}" "distinct (created_orgs evs)"
    using Cons.prems(6,7) by (auto simp: b created_orgs_def new_orgs_def split: account_body.splits)
  have "directory_ok (fold accounts_apply evs (accounts_apply_body b t))"
    by (rule Cons.IH [OF directory_ok_step [OF assms(1) Cons.prems(1-4) b(2) orgs(1)]
          logins_known_step [OF Cons.prems(2) b(2)] users_known_step [OF Cons.prems(3) b(2)]
          orgs_known_step [OF Cons.prems(4)] b(3) orgs(3) orgs(2)])
  then show ?case by (simp add: b)
qed

lemma directory_ok_default [simp]: "directory_ok default_accounts"
  by (simp add: directory_ok_def default_accounts_def)

lemma directory_ok_seq_records [simp]:
  "directory_ok (s \<lparr>as_seq := n\<rparr>) = directory_ok s" "directory_ok (s \<lparr>as_records := rs\<rparr>) = directory_ok s"
  by (simp_all add: directory_ok_def)

lemma directory_ok_entry:
  assumes "directory_ok s" "account_entry_ok disp s e" "distinct (created_orgs (le_account e))"
  shows "directory_ok (accounts_fold_entry e s)"
proof -
  have "directory_ok (fold accounts_apply (le_account e) s)"
    if "verify_account_events disp s n (le_account e) empty_seen = Inr seen" for n seen
    using assms(1,3) that
    by (intro directory_ok_events [OF assms(1) assms(1), of empty_seen "{}"])
      (simp_all add: logins_known_def users_known_def orgs_known_def empty_seen_def)
  then show ?thesis using assms(1,2)
    by (auto simp: account_entry_ok_def accounts_fold_entry_def accounts_apply_record_def accounts_verify_def
        Let_def split: if_splits sum.splits)
qed

lemma directory_ok_log:
  assumes "directory_ok s" "verified_log disp es s" "\<forall>e \<in> set es. distinct (created_orgs (le_account e))"
  shows "directory_ok (fold accounts_fold_entry es s)"
  using assms by (induction es arbitrary: s) (auto intro: directory_ok_entry)

section \<open>Properties\<close>

text \<open>
  C26. The directory is consistent: after any log whose entries were accepted by the publisher
  (and create no org id twice in one entry), every user and every org is found under its login,
  so no two of them share one in any capitalisation, and every linked identity resolves to a
  user.
\<close>

theorem account_directory_consistent:
  assumes "verified_log disp es default_accounts"
    and "\<forall>e \<in> set es. distinct (created_orgs (le_account e))"
    and "s = accounts_fold_entries 0 es default_accounts"
  shows "(\<forall>i u. bt_get (as_users s) i = Some u \<longrightarrow> us_user_id u = i \<and> user_by_login s (us_login u) = Some u) \<and>
    (\<forall>i g. bt_get (as_orgs s) i = Some g \<longrightarrow> og_org_id g = i \<and> accounts_namespace s (og_login g) = NsOrg g) \<and>
    (\<forall>issuer subject. bt_get (as_by_identity s) (issuer, subject) \<noteq> None \<longrightarrow> user_by_identity s issuer subject \<noteq> None)"
proof -
  have "directory_ok s"
    using directory_ok_log [OF directory_ok_default assms(1,2)] assms(3)
    by (simp add: accounts_fold_entries_def default_accounts_def)
  then show ?thesis
    by (auto simp: directory_ok_def user_by_login_def accounts_namespace_def user_by_identity_def)
qed

text \<open>A sign-up after the genesis entry.\<close>

definition sign_up_log :: "log_entry list" where
  "sign_up_log =
     [default_log_entry \<lparr>le_seq := 1, le_account := [Some (Genesis [''examples''])]\<rparr>,
      default_log_entry \<lparr>le_seq := 2, le_account :=
        [Some (UserCreated \<lparr>uc_user_id = ''u1'', uc_login = ''alice'', uc_email = [], uc_name = [], uc_avatar_url = []\<rparr>),
         Some (IdentityLinked \<lparr>il_user_id = ''u1'', il_issuer = ''id'', il_subject = ''a''\<rparr>)]\<rparr>]"

definition org_entry :: log_entry where
  "org_entry = default_log_entry \<lparr>le_seq := 3, le_account :=
     [Some (OrgCreated \<lparr>oc_org_id = ''o1'', oc_login = ''Examples'', oc_owners = [''u1'']\<rparr>)]\<rparr>"

lemma sign_up_verified: "verified_log (\<lambda>_. []) (sign_up_log @ [org_entry]) default_accounts"
  by code_simp

lemma sign_up_orgs: "\<forall>e \<in> set (sign_up_log @ [org_entry]). distinct (created_orgs (le_account e))"
  by code_simp

theorem account_directory_consistent_witness:
  "user_by_login (accounts_fold_entries 0 (sign_up_log @ [org_entry]) default_accounts) ''alice'' =
     Some \<lparr>us_user_id = ''u1'', us_login = ''alice'', us_email = [], us_name = [], us_avatar_url = [], us_password = []\<rparr>"
proof -
  let ?u = "\<lparr>us_user_id = ''u1'', us_login = ''alice'', us_email = [], us_name = [], us_avatar_url = [], us_password = []\<rparr>"
  have "bt_get (as_users (accounts_fold_entries 0 (sign_up_log @ [org_entry]) default_accounts)) ''u1'' = Some ?u"
    by code_simp
  with account_directory_consistent [OF sign_up_verified sign_up_orgs refl] show ?thesis by fastforce
qed

lemma account_names_kept:
  assumes "verified_log disp (es1 @ es2) default_accounts"
    and "s1 = accounts_fold_entries 0 es1 default_accounts"
    and "s2 = accounts_fold_entries 0 (es1 @ es2) default_accounts"
  shows "accounts_namespace s1 l = NsUser u \<Longrightarrow>
      \<exists>u'. accounts_namespace s2 l = NsUser u' \<and> us_user_id u' = us_user_id u \<and> us_login u' = us_login u"
    and "accounts_namespace s1 l = NsOrg g \<Longrightarrow>
      \<exists>g'. accounts_namespace s2 l = NsOrg g' \<and> og_org_id g' = og_org_id g \<and> og_login g' = og_login g"
    and "accounts_namespace s1 l = NsReserved \<Longrightarrow>
      accounts_namespace s2 l = NsReserved \<or> (\<exists>g. accounts_namespace s2 l = NsOrg g)"
    and "user_by_identity s1 issuer subject = Some v \<Longrightarrow>
      \<exists>v'. user_by_identity s2 issuer subject = Some v' \<and> us_user_id v' = us_user_id v"
proof -
  let ?k = "to_ascii_lowercase l"
  have "extends s1 s2"
    using assms extends_log [of disp es2 s1]
    by (simp add: accounts_fold_entries_def default_accounts_def verified_log_append)
  then have u: "users_kept s1 s2" and g: "orgs_kept s1 s2" and h: "holders_kept s1 s2"
    and r: "reserved_kept s1 s2" and k: "identities_kept s1 s2"
    by (simp_all add: extends_def)
  show "\<exists>u'. accounts_namespace s2 l = NsUser u' \<and> us_user_id u' = us_user_id u \<and> us_login u' = us_login u"
    if ns: "accounts_namespace s1 l = NsUser u"
  proof -
    obtain i where i: "login_holder s1 ?k = Some (HUser i)" "bt_get (as_users s1) i = Some u"
      using ns by (auto simp: accounts_namespace_def split: option.splits holder.splits)
    then have "login_holder s2 ?k = Some (HUser i)" using h by (simp add: holders_kept_def)
    then show ?thesis using u i(2) by (fastforce simp: users_kept_def accounts_namespace_def)
  qed
  show "\<exists>g'. accounts_namespace s2 l = NsOrg g' \<and> og_org_id g' = og_org_id g \<and> og_login g' = og_login g"
    if ns: "accounts_namespace s1 l = NsOrg g"
  proof -
    obtain i where i: "login_holder s1 ?k = Some (HOrg i)" "bt_get (as_orgs s1) i = Some g"
      using ns by (auto simp: accounts_namespace_def split: option.splits holder.splits)
    then have "login_holder s2 ?k = Some (HOrg i)" using h by (simp add: holders_kept_def)
    then show ?thesis using g i(2) by (fastforce simp: orgs_kept_def accounts_namespace_def)
  qed
  show "accounts_namespace s2 l = NsReserved \<or> (\<exists>g. accounts_namespace s2 l = NsOrg g)"
    if "accounts_namespace s1 l = NsReserved"
  proof -
    have "login_holder s1 ?k = Some HReserved"
      using that by (auto simp: accounts_namespace_def split: option.splits holder.splits)
    then show ?thesis using r by (fastforce simp: reserved_kept_def accounts_namespace_def)
  qed
  show "\<exists>v'. user_by_identity s2 issuer subject = Some v' \<and> us_user_id v' = us_user_id v"
    if "user_by_identity s1 issuer subject = Some v"
    using that u k by (fastforce simp: user_by_identity_def users_kept_def identities_kept_def split: option.splits)
qed

text \<open>
  C25. Names and identities are never taken over: later accepted entries leave a login with the
  same user or the same org, a reserved namespace reserved or in the hands of an org, and an
  identity linked to the same user.
\<close>

theorem account_names_permanent:
  assumes "verified_log disp (es1 @ es2) default_accounts"
    and "s1 = accounts_fold_entries 0 es1 default_accounts"
    and "s2 = accounts_fold_entries 0 (es1 @ es2) default_accounts"
  shows "(case accounts_namespace s1 l of
      NsUser u \<Rightarrow> \<exists>u'. accounts_namespace s2 l = NsUser u' \<and> us_user_id u' = us_user_id u \<and> us_login u' = us_login u
    | NsOrg g \<Rightarrow> \<exists>g'. accounts_namespace s2 l = NsOrg g' \<and> og_org_id g' = og_org_id g \<and> og_login g' = og_login g
    | NsReserved \<Rightarrow> accounts_namespace s2 l = NsReserved \<or> (\<exists>g. accounts_namespace s2 l = NsOrg g)
    | NsFree \<Rightarrow> True) \<and>
    (\<forall>v. user_by_identity s1 issuer subject = Some v \<longrightarrow>
      (\<exists>v'. user_by_identity s2 issuer subject = Some v' \<and> us_user_id v' = us_user_id v))"
  using account_names_kept [OF assms] by (simp split: namespace.splits)

theorem account_names_permanent_witness:
  "\<exists>g. accounts_namespace (accounts_fold_entries 0 (sign_up_log @ [org_entry]) default_accounts) ''examples'' = NsOrg g"
proof -
  have "accounts_namespace (accounts_fold_entries 0 sign_up_log default_accounts) ''examples'' = NsReserved"
    by code_simp
  with account_names_permanent [OF sign_up_verified refl refl, of "''examples''"]
  have "accounts_namespace (accounts_fold_entries 0 (sign_up_log @ [org_entry]) default_accounts) ''examples'' = NsReserved \<or>
      ?thesis" by simp
  moreover have "accounts_namespace (accounts_fold_entries 0 (sign_up_log @ [org_entry]) default_accounts) ''examples'' \<noteq> NsReserved"
    by code_simp
  ultimately show ?thesis by blast
qed

text \<open>
  A checkpoint of the account log loses nothing: the directory rebuilt from the records up to
  the checkpoint and advanced over the entries after it is the directory folded from the whole
  log.
\<close>

lemma accounts_checkpoint_resume:
  assumes "sorted_wrt (<) (0 # map le_seq (es1 @ es2))" "es1 \<noteq> []" "n = le_seq (last es1)"
  shows "accounts_fold_entries n es2 (accounts_from_history (accounts_history_upto n
      (accounts_fold_entries 0 (es1 @ es2) default_accounts))) =
    accounts_fold_entries 0 (es1 @ es2) default_accounts"
  using accounts.checkpoint_resume [OF assms]
  by (simp add: accounts_fold_entries_def accounts_from_history_def accounts_history_upto_def)

text \<open>
  One entry may create the same org id twice: it is accepted, and the first login then leads
  to an org that bears the second one.
\<close>

lemma entry_admits_duplicate_org:
  "(let s = accounts_fold_entries 0 sign_up_log default_accounts;
        evs = [Some (OrgCreated \<lparr>oc_org_id = ''o1'', oc_login = ''one'', oc_owners = [''u1'']\<rparr>),
               Some (OrgCreated \<lparr>oc_org_id = ''o1'', oc_login = ''two'', oc_owners = [''u1'']\<rparr>)];
        s' = accounts_fold_entries 2 [default_log_entry \<lparr>le_seq := 3, le_account := evs\<rparr>] s
    in accounts_verify (\<lambda>_. []) s evs = Inr () \<and>
       (case accounts_namespace s' ''one'' of NsOrg g \<Rightarrow> og_login g = ''two'' | _ \<Rightarrow> False))"
  by code_simp

end
