(* ===== verification/Checkpoint.thy ===== *)
theory Checkpoint
  imports Accounts
begin

text \<open>
  Checkpoints (\<open>walgit-wal/src/checkpoint.rs\<close>): when one is due, and the writer, which stores the
  refs at the head, the pack set and the folded histories as immutable objects and then names them
  in the manifest by compare-and-swap, dropping the log segments they cover. The fold of issues
  and pull requests is loaded as in \<open>forge.rs\<close>. What the handle holds (the view to checkpoint,
  the manifest and version it knows, the folds, the clock) are arguments; the four objects of the
  first round, written concurrently, are written in the order the code names them.

  The lemmas: reading a manifest's log is filtering one list of entries; the refs replayed from
  the new checkpoint are the refs replayed from the old one.
\<close>

section \<open>When a checkpoint is due\<close>

datatype checkpoint_trigger = TriggerEntries | TriggerAge | TriggerTailBytes

fun trigger_str :: "checkpoint_trigger \<Rightarrow> string" where
  "trigger_str TriggerEntries = ''entries''"
| "trigger_str TriggerAge = ''age''"
| "trigger_str TriggerTailBytes = ''tail-bytes''"

text \<open>The fields of \<open>WalConfig\<close> used here; an interval is in nanoseconds.\<close>

record wal_config =
  wc_snapshot_every_entries :: nat
  wc_checkpoint_interval :: nat
  wc_checkpoint_tail_bytes :: nat
  wc_cas_max_retries :: nat

definition checkpoint_due :: "manifest \<Rightarrow> wal_config \<Rightarrow> system_time \<Rightarrow> checkpoint_trigger option" where
  "checkpoint_due m cfg now =
     (let head = m_head_seq m;
          seq = (case m_checkpoint m of None \<Rightarrow> 0 | Some c \<Rightarrow> cp_seq c);
          entries = head - seq;
          tail_max = wc_checkpoint_tail_bytes cfg;
          tail_size = sum_list (map sg_size (filter (\<lambda>g. sg_last_seq g > seq) (m_log_segments m)));
          since = (case m_checkpoint m of
                     Some c \<Rightarrow> map_option to_system (cp_created_at c)
                   | None \<Rightarrow> map_option to_system (m_updated_at m))
      in if head = 0 then None
         else if seq \<ge> head then None
         else if wc_snapshot_every_entries cfg > 0 \<and> entries \<ge> wc_snapshot_every_entries cfg
         then Some TriggerEntries
         else if tail_max > 0 \<and> tail_size > tail_max then Some TriggerTailBytes
         else if wc_checkpoint_interval cfg \<noteq> 0 \<and>
                 (case since of None \<Rightarrow> False
                  | Some t \<Rightarrow> nat (max 0 (now - t)) \<ge> wc_checkpoint_interval cfg)
         then Some TriggerAge
         else None)"

section \<open>The fold of issues and pull requests\<close>

definition load_forge ::
  "(timestamp option \<Rightarrow> string) \<Rightarrow> (string \<Rightarrow> bool) \<Rightarrow> forge_history decoder \<Rightarrow> 's object_store \<Rightarrow>
     manifest \<Rightarrow> 's \<Rightarrow> (wal_error, forge_state) result \<times> 's" where
  "load_forge rfc uni dec S m s =
     (let key = (case m_checkpoint m of None \<Rightarrow> [] | Some cp \<Rightarrow> cp_forge_key cp) in
      if key \<noteq> [] then
        (case get_bytes S key s of
           (Inl e, s1) \<Rightarrow> (Inl (WalStore e), s1)
         | (Inr None, s1) \<Rightarrow> (Inl (Corrupt (''forge history missing: '' @ key)), s1)
         | (Inr (Some (_, b)), s1) \<Rightarrow>
             (case dec b of
                Inl e \<Rightarrow> (Inl (Corrupt (''forge history decode: '' @ e)), s1)
              | Inr h \<Rightarrow> (Inr (forge_from_history rfc uni h), s1)))
      else (Inr (default_forge_state \<lparr>fs_seq := (case m_checkpoint m of None \<Rightarrow> 0 | Some cp \<Rightarrow> cp_seq cp)\<rparr>), s))"

definition forge_ensure ::
  "codec \<Rightarrow> (timestamp option \<Rightarrow> string) \<Rightarrow> (string \<Rightarrow> bool) \<Rightarrow> forge_history decoder \<Rightarrow> 's object_store \<Rightarrow>
     manifest \<Rightarrow> forge_state option \<Rightarrow> 's \<Rightarrow> (wal_error, forge_state option) result \<times> 's" where
  "forge_ensure cd rfc uni dec S m have s =
     (let advance = (\<lambda>guard from_seq s1.
          case read_log_manifest cd S m (from_seq + 1) (Some (m_head_seq m)) s1 of
            (Inl e, s2) \<Rightarrow> (Inl e, s2)
          | (Inr entries, s2) \<Rightarrow> (Inr (map_option (forge_fold_entries rfc uni from_seq entries) guard), s2));
          reload = (\<lambda>s1. case load_forge rfc uni dec S m s1 of
            (Inl e, s2) \<Rightarrow> (Inl e, s2)
          | (Inr state, s2) \<Rightarrow>
              advance (case have of
                  None \<Rightarrow> Some state
                | Some g \<Rightarrow> if fs_seq g < fs_seq state then Some state else Some g) (fs_seq state) s2)
      in case have of
           None \<Rightarrow> reload s
         | Some g \<Rightarrow>
             if fs_seq g \<ge> m_head_seq m then (Inr have, s)
             else if fs_seq g + 1 \<ge> max (m_min_seq m) 1 then advance have (fs_seq g) s
             else reload s)"

section \<open>Writing a checkpoint\<close>

text \<open>What the handle and the clock contribute to one checkpoint.\<close>

record checkpoint_env =
  ce_writer :: string
  ce_uuid :: string
  ce_created_at :: timestamp
  ce_now :: "nat \<Rightarrow> timestamp"
  ce_first_entry_time :: "system_time option"
  ce_first_seq_published_at :: "system_time option"
  ce_last_entry_time :: "system_time option"

definition or_else :: "'a option \<Rightarrow> 'a option \<Rightarrow> 'a option" where
  "or_else a b = (case a of None \<Rightarrow> b | Some _ \<Rightarrow> a)"

definition first_state_at :: "checkpoint_env \<Rightarrow> checkpoint_ref option \<Rightarrow> timestamp option" where
  "first_state_at env prev =
     or_else (Option.bind prev cp_first_state_at)
       (or_else (map_option from_system (ce_first_entry_time env))
         (or_else (map_option from_system (ce_first_seq_published_at env))
           (Option.bind prev cp_created_at)))"

definition checkpoint_as_of :: "checkpoint_env \<Rightarrow> checkpoint_ref option \<Rightarrow> timestamp option" where
  "checkpoint_as_of env prev =
     or_else (map_option from_system (ce_last_entry_time env))
       (or_else (Option.bind prev cp_as_of) (Some (ce_created_at env)))"

definition checkpoint_doc :: "checkpoint_env \<Rightarrow> manifest \<Rightarrow> ref_snapshot \<Rightarrow> string \<Rightarrow> checkpoint" where
  "checkpoint_doc env m snap refs_key =
     \<lparr>ck_seq = m_head_seq m, ck_object_format = m_object_format m, ck_packs = m_packs m,
      ck_refs_key = refs_key, ck_ref_count = length (sn_refs snap), ck_bundle_key = [],
      ck_created_at = Some (ce_created_at env), ck_writer = ce_writer env\<rparr>"

text \<open>A folded history to store beside the checkpoint, with the error when the fold lags.\<close>

definition side_history ::
  "string \<Rightarrow> nat \<Rightarrow> ('f \<Rightarrow> nat) \<Rightarrow> (nat \<Rightarrow> 'f \<Rightarrow> bytes) \<Rightarrow> (bytes \<Rightarrow> string) \<Rightarrow> 'f \<Rightarrow>
     (wal_error, string \<times> bytes) result" where
  "side_history what seq seq_of history key st =
     (if seq_of st \<ge> seq then (let b = history seq st in Inr (key b, b))
      else Inl (Corrupt (what @ '' behind the checkpoint'')))"

definition side_put ::
  "'s object_store \<Rightarrow> (string \<times> bytes) option \<Rightarrow> 's \<Rightarrow> (wal_error, unit) result \<times> 's" where
  "side_put S side s = (case side of None \<Rightarrow> (Inr (), s) | Some (key, b) \<Rightarrow> put_snapshot S key b s)"

definition side_key :: "(string \<times> bytes) option \<Rightarrow> string" where
  "side_key side = (case side of None \<Rightarrow> [] | Some (key, _) \<Rightarrow> key)"

definition checkpoint_manifest ::
  "checkpoint_ref \<Rightarrow> nat \<Rightarrow> timestamp \<Rightarrow> string \<Rightarrow> manifest \<Rightarrow> manifest" where
  "checkpoint_manifest cp seq now writer m =
     m \<lparr>m_checkpoint := Some cp, m_min_seq := seq + 1,
        m_log_segments := filter (\<lambda>g. sg_last_seq g > seq) (m_log_segments m),
        m_updated_at := Some now, m_writer := writer, m_revision := m_revision m + 1\<rparr>"

definition checkpoint_past :: "nat \<Rightarrow> manifest \<Rightarrow> checkpoint_ref option" where
  "checkpoint_past seq m =
     Option.bind (m_checkpoint m) (\<lambda>c. if cp_seq c \<ge> seq then Some c else None)"

text \<open>
  Round 2. \<open>pair i\<close> is the manifest and version the handle knows at attempt \<open>i\<close>: what it held for
  the first one, what it synced to after each failed one.
\<close>

function checkpoint_loop ::
  "codec \<Rightarrow> 's object_store \<Rightarrow> (nat \<Rightarrow> 's \<Rightarrow> (wal_error, manifest \<times> version option) result \<times> 's) \<Rightarrow>
     checkpoint_env \<Rightarrow> checkpoint_ref \<Rightarrow> nat \<Rightarrow> nat \<Rightarrow> nat \<Rightarrow> 's \<Rightarrow> (wal_error, checkpoint_ref) result \<times> 's" where
  "checkpoint_loop cd S pair env cp seq max_retries attempts s =
     (case pair attempts s of
        (Inl e, s1) \<Rightarrow> (Inl e, s1)
      | (Inr (m, known), s1) \<Rightarrow>
          (case checkpoint_past seq m of
             Some c \<Rightarrow> (Inr c, s1)
           | None \<Rightarrow>
               (let updated = checkpoint_manifest cp seq (ce_now env attempts) (ce_writer env) m in
                case put_bytes S MANIFEST (cd_enc_manifest cd updated) (cas_mode known) s1 of
                  (Inr _, s2) \<Rightarrow> (Inr cp, s2)
                | (Inl (PreconditionFailed _ _), s2) \<Rightarrow>
                    if attempts + 1 \<ge> max_retries then (Inl (Retry (attempts + 1)), s2)
                    else checkpoint_loop cd S pair env cp seq max_retries (attempts + 1) s2
                | (Inl e, s2) \<Rightarrow> (Inl (WalStore e), s2))))"
  by pat_completeness auto

termination
  by (relation "measure (\<lambda>(_, _, _, _, _, _, max_retries, attempts, _). max_retries - attempts)") auto

declare checkpoint_loop.simps [simp del]

text \<open>
  \<open>write_checkpoint_inner\<close>: \<open>view\<close> is the publication view (canonical refs and manifest),
  \<open>forge_at\<close> and \<open>accounts_at\<close> the folds after their \<open>ensure\<close>; the histories are encoded by
  \<open>enc_forge\<close> and \<open>enc_accounts\<close>.
\<close>

definition checkpoint_sides ::
  "codec \<Rightarrow> forge_history encoder \<Rightarrow> account_history encoder \<Rightarrow> bool \<Rightarrow>
     ('s \<Rightarrow> (wal_error, forge_state) result \<times> 's) \<Rightarrow> ('s \<Rightarrow> (wal_error, accounts_state) result \<times> 's) \<Rightarrow>
     manifest \<Rightarrow> 's \<Rightarrow> (wal_error, (string \<times> bytes) option \<times> (string \<times> bytes) option) result \<times> 's" where
  "checkpoint_sides cd enc_forge enc_accounts is_account_log forge_at accounts_at m s =
     (let seq = m_head_seq m;
          forge = (if m_forge_next_number m > 0
            then (case forge_at s of
                    (Inl e, s1) \<Rightarrow> (Inl e, s1)
                  | (Inr st, s1) \<Rightarrow>
                      (map_sum id Some (side_history ''forge state'' seq fs_seq
                         (\<lambda>q st. enc_forge (forge_history_upto q st)) (forge_key (cd_sha256 cd)) st), s1))
            else (Inr None, s))
      in case forge of
           (Inl e, s1) \<Rightarrow> (Inl e, s1)
         | (Inr f, s1) \<Rightarrow>
             if is_account_log
             then (case accounts_at s1 of
                     (Inl e, s2) \<Rightarrow> (Inl e, s2)
                   | (Inr st, s2) \<Rightarrow>
                       (map_sum id (\<lambda>a. (f, Some a)) (side_history ''account fold'' seq as_seq
                          (\<lambda>q st. enc_accounts (accounts_history_upto q st)) (accounts_key (cd_sha256 cd)) st), s2))
             else (Inr (f, None), s1))"

definition write_checkpoint where
  "write_checkpoint cd enc_forge enc_accounts S view pair forge_at accounts_at is_account_log env max_retries s =
     (case view s of
        (Inl e, s1) \<Rightarrow> (Inl e, s1)
      | (Inr (m, snap), s1) \<Rightarrow>
          (case Option.bind (m_checkpoint m) (\<lambda>c. if cp_seq c = m_head_seq m then Some c else None) of
             Some c \<Rightarrow> (Inr c, s1)
           | None \<Rightarrow>
               if m_head_seq m = 0 then (Inl (Corrupt ''cannot checkpoint empty repo (head_seq=0)''), s1)
               else (case encode_snapshot (cd_enc_snapshot cd) snap of
                  Inl e \<Rightarrow> (Inl (Corrupt (snapshot_error_str e)), s1)
                | Inr snap_bytes \<Rightarrow>
                    let seq = m_head_seq m;
                        refs_key = snapshot_key (cd_sha256 cd) snap_bytes;
                        prev = m_checkpoint m;
                        doc = checkpoint_doc env m snap refs_key;
                        key = checkpoint_attempt_key seq (ce_uuid env)
                    in (case checkpoint_sides cd enc_forge enc_accounts is_account_log forge_at accounts_at m s1 of
                          (Inl e, s2) \<Rightarrow> (Inl e, s2)
                        | (Inr (forge, accounts), s2) \<Rightarrow>
                            let (r_refs, s3) = put_snapshot S refs_key snap_bytes s2;
                                (r_cp, s4) = os_put S key (PutBytes (cd_enc_checkpoint cd doc))
                                  ((put_options_from Create) \<lparr>po_immutable := True\<rparr>) s3;
                                (r_forge, s5) = side_put S forge s4;
                                (r_accounts, s6) = side_put S accounts s5;
                                cp = \<lparr>cp_seq = seq, cp_key = key, cp_created_at = Some (ce_created_at env),
                                      cp_first_state_at = first_state_at env prev,
                                      cp_as_of = checkpoint_as_of env prev, cp_refs_key = refs_key,
                                      cp_forge_key = side_key forge, cp_accounts_key = side_key accounts\<rparr>
                            in (case r_refs of
                                  Inl e \<Rightarrow> (Inl e, s6)
                                | Inr _ \<Rightarrow>
                                    (case r_cp of
                                       Inl e \<Rightarrow> (Inl (WalStore e), s6)
                                     | Inr _ \<Rightarrow>
                                         (case r_forge of
                                            Inl e \<Rightarrow> (Inl e, s6)
                                          | Inr _ \<Rightarrow>
                                              (case r_accounts of
                                                 Inl e \<Rightarrow> (Inl e, s6)
                                               | Inr _ \<Rightarrow> checkpoint_loop cd S pair env cp seq max_retries 0 s6))))))))"

section \<open>Reading a quiet log\<close>

definition segment_entries ::
  "codec \<Rightarrow> (string \<Rightarrow> (version \<times> bytes) option) \<Rightarrow> log_segment_ref \<Rightarrow> log_entry list option" where
  "segment_entries cd V g =
     (case V (sg_key g) of
        None \<Rightarrow> None
      | Some (_, d) \<Rightarrow> (case frame_decode cd d of Some (Inr (es, _)) \<Rightarrow> Some es | _ \<Rightarrow> None))"

text \<open>
  A readable log: the segments are in the order of their sequence numbers, under their own keys,
  and each decodes to entries in strictly increasing order within its range.
\<close>

definition log_wf :: "codec \<Rightarrow> (string \<Rightarrow> (version \<times> bytes) option) \<Rightarrow> manifest \<Rightarrow> bool" where
  "log_wf cd V m \<longleftrightarrow>
     sorted_wrt (\<lambda>a b. sg_last_seq a < sg_first_seq b) (m_log_segments m) \<and>
     (\<forall>g \<in> set (m_log_segments m). sg_key g = log_segment_key (sg_first_seq g) \<and>
        (\<exists>es. segment_entries cd V g = Some es \<and> sorted_wrt (<) (map le_seq es) \<and>
           (\<forall>e \<in> set es. sg_first_seq g \<le> le_seq e \<and> le_seq e \<le> sg_last_seq g)))"

definition log_entries ::
  "codec \<Rightarrow> (string \<Rightarrow> (version \<times> bytes) option) \<Rightarrow> log_segment_ref list \<Rightarrow> log_entry list" where
  "log_entries cd V segs = concat (map (\<lambda>g. the (segment_entries cd V g)) segs)"

lemma log_wf_entries:
  assumes "log_wf cd V m" "g \<in> set (m_log_segments m)" "e \<in> set (the (segment_entries cd V g))"
  shows "sg_first_seq g \<le> le_seq e" "le_seq e \<le> sg_last_seq g"
  using assms unfolding log_wf_def by fastforce+

lemma log_wf_present:
  assumes "log_wf cd V m" "g \<in> set (m_log_segments m)"
  shows "sg_key g \<noteq> MANIFEST" "V (sg_key g) \<noteq> None"
proof -
  have g: "sg_key g = log_segment_key (sg_first_seq g)" "segment_entries cd V g \<noteq> None"
    using assms by (auto simp: log_wf_def)
  then show "sg_key g \<noteq> MANIFEST" by simp
  show "V (sg_key g) \<noteq> None" using g(2) by (auto simp: segment_entries_def split: option.splits)
qed

lemma concat_sorted:
  assumes "sorted_wrt (\<lambda>a b. hi a < (lo b :: nat)) xs"
    and "\<forall>x \<in> set xs. sorted_wrt (<) (map f (es x)) \<and> (\<forall>e \<in> set (es x). lo x \<le> f e \<and> f e \<le> hi x)"
  shows "sorted_wrt (<) (map f (concat (map es xs)))"
  using assms by (induction xs) (auto simp: sorted_wrt_append, meson le_less_trans less_le_trans)

lemma log_entries_sorted: "log_wf cd V m \<Longrightarrow> sorted_wrt (<) (map le_seq (log_entries cd V (m_log_segments m)))"
  unfolding log_entries_def
  by (rule concat_sorted [of sg_last_seq sg_first_seq]) (auto simp: log_wf_def)

lemma filter_concat_skip:
  assumes "\<forall>x \<in> set xs. \<not> Q x \<longrightarrow> (\<forall>e \<in> set (es x). \<not> P e)"
  shows "filter P (concat (map es (filter Q xs))) = filter P (concat (map es xs))"
  using assms by (induction xs) (auto simp: filter_empty_conv)

lemma sort_key_sorted: "sorted_wrt (<) (map f xs) \<Longrightarrow> sort_key f (filter P xs) = filter P xs" for f :: "'a \<Rightarrow> nat"
  by (rule sort_key_id_if_sorted, rule sorted_filter) (simp add: strict_sorted_iff)

context versioned_store begin

lemma read_segments_quiet:
  assumes "\<forall>g \<in> set segs. segment_entries cd (view s) g \<noteq> None"
  shows "read_segments cd S a b segs acc s =
    (Inr (acc @ filter (\<lambda>e. a \<le> le_seq e \<and> le_seq e \<le> b) (log_entries cd (view s) segs)), s)"
  using assms
proof (induction segs arbitrary: acc)
  case Nil
  then show ?case by (simp add: log_entries_def)
next
  case (Cons g segs)
  then obtain es where es: "segment_entries cd (view s) g = Some es" by auto
  then obtain v d n where d: "view s (sg_key g) = Some (v, d)" "frame_decode cd d = Some (Inr (es, n))"
    by (auto simp: segment_entries_def split: option.splits sum.splits)
  have "collect [Inr d] (om_size (object_meta_of (sg_key g) (v, d))) = Inr d"
    by (simp add: collect_def object_meta_of_def)
  with d es Cons show ?case
    by (simp add: get_present log_entries_def)
qed

lemma read_log_quiet:
  assumes "log_wf cd (view s) m"
  shows "read_log_manifest cd S m from_seq (Some q) s =
    (Inr (filter (\<lambda>e. from_seq \<le> le_seq e \<and> le_seq e \<le> min q (m_head_seq m))
       (log_entries cd (view s) (m_log_segments m))), s)"
proof (cases "from_seq > min q (m_head_seq m)")
  case True
  then have e: "filter (\<lambda>e. from_seq \<le> le_seq e \<and> le_seq e \<le> min q (m_head_seq m))
      (log_entries cd (view s) (m_log_segments m)) = []"
    by (auto simp: filter_empty_conv)
  show ?thesis using True unfolding e by (simp add: read_log_manifest_def)
next
  case False
  let ?to = "min q (m_head_seq m)"
  let ?P = "\<lambda>e. from_seq \<le> le_seq e \<and> le_seq e \<le> ?to"
  let ?Q = "\<lambda>g. from_seq \<le> sg_last_seq g \<and> sg_first_seq g \<le> ?to"
  have "filter ?P (log_entries cd (view s) (filter ?Q (m_log_segments m))) =
      filter ?P (log_entries cd (view s) (m_log_segments m))"
    unfolding log_entries_def using log_wf_entries [OF assms]
    by (intro filter_concat_skip) (meson order_trans)
  moreover have "\<forall>g \<in> set (filter ?Q (m_log_segments m)). segment_entries cd (view s) g \<noteq> None"
    using assms by (auto simp: log_wf_def)
  note read_segments_quiet [OF this, of from_seq ?to "[]"]
  ultimately show ?thesis
    using False sort_key_sorted [OF log_entries_sorted [OF assms], of ?P]
    by (simp add: read_log_manifest_def Let_def)
qed

end

section \<open>Replaying from a checkpoint\<close>

text \<open>The refs map and symbolic HEAD replayed from a snapshot over some entries.\<close>

definition replayed :: "ref_snapshot \<Rightarrow> log_entry list \<Rightarrow> (string, git_ref) btree \<times> string" where
  "replayed sn es = fold replay_update (concat (map entry_updates es))
     (fold (\<lambda>r. bt_insert (r_name r) r) (sn_refs sn) [], sn_head_target sn)"

lemma replayed_append: "replayed sn (es1 @ es2) =
    fold replay_update (concat (map entry_updates es2)) (replayed sn es1)"
  by (simp add: replayed_def)

lemma replayed_ok: "bt_ok (fst (replayed sn es)) \<and> keyed (fst (replayed sn es))"
  unfolding replayed_def using start_ok [of "[]" "sn_refs sn"]
  by (intro fold_replay_ok) (simp add: keyed_def)

lemma replay_from_upto:
  "list_all (\<lambda>e. le_seq e \<le> q) es \<Longrightarrow>
     sn_refs (fst (replay_from (CutSeq q) fmt sn from_seq es)) = map snd (fst (replayed sn es)) \<and>
     sn_head_target (fst (replay_from (CutSeq q) fmt sn from_seq es)) = snd (replayed sn es) \<and>
     sn_object_format (fst (replay_from (CutSeq q) fmt sn from_seq es)) = fmt"
  using replay_entries_all [of "CutSeq q" es]
  by (simp add: replay_from_def replayed_def Let_def case_prod_unfold past_cut_def not_less)

lemma bt_insert_last: "\<forall>x \<in> set (map fst t). x < k \<Longrightarrow> bt_insert k v t = t @ [(k, v)]"
  by (induction t) auto

lemma bt_of_sorted_refs:
  assumes "names_sorted refs" "\<forall>r \<in> set refs. \<forall>x \<in> set (map fst t). x < r_name r"
  shows "fold (\<lambda>r. bt_insert (r_name r) r) refs t = t @ map (\<lambda>r. (r_name r, r)) refs"
  using assms
proof (induction refs arbitrary: t)
  case (Cons r refs)
  then have "bt_insert (r_name r) r t = t @ [(r_name r, r)]" by (intro bt_insert_last) simp
  with Cons show ?case by (auto simp del: bt_insert.simps)
qed simp

lemma keyed_refs: "keyed t \<Longrightarrow> map (\<lambda>r. (r_name r, r)) (map snd t) = t"
  by (induction t) (auto simp: keyed_def)

text \<open>A snapshot of a replayed state restarts the replay where it was.\<close>

lemma replayed_restart:
  assumes "canonicalize sn = Inr sn'" "sn_refs sn = map snd (fst (replayed sn0 es1))"
    "sn_head_target sn = snd (replayed sn0 es1)"
  shows "replayed sn' es2 = replayed sn0 (es1 @ es2)"
proof -
  let ?t = "fst (replayed sn0 es1)"
  have ok: "bt_ok ?t" "keyed ?t" using replayed_ok by blast+
  have names: "names_sorted (map snd ?t)" using ok by (simp add: keyed_names del: map_map)
  have c: "sn' = sn \<lparr>sn_refs := sort_key r_name (sn_refs sn), sn_created_at := None\<rparr>"
    using assms(1) by (simp add: canonicalize_Inr)
  have "sort_key r_name (map snd ?t) = map snd ?t"
    using names by (intro sort_key_id_if_sorted) (simp add: strict_sorted_iff del: map_map)
  then have "sn_refs sn' = map snd ?t" "sn_head_target sn' = snd (replayed sn0 es1)"
    by (simp_all add: c assms(2,3))
  moreover have "fold (\<lambda>r. bt_insert (r_name r) r) (map snd ?t) [] = ?t"
    using bt_of_sorted_refs [OF names, of "[]"] keyed_refs [OF ok(2)] by (simp del: map_map)
  ultimately show ?thesis unfolding replayed_append by (simp add: replayed_def [of sn'])
qed

lemma filter_split_sorted:
  assumes "sorted_wrt (<) (map f xs)" "a \<le> c" "c \<le> (b :: nat)"
  shows "filter (\<lambda>x. a < f x \<and> f x \<le> b) xs =
    filter (\<lambda>x. a < f x \<and> f x \<le> c) xs @ filter (\<lambda>x. c < f x \<and> f x \<le> b) xs"
  using assms(1)
proof (induction xs)
  case (Cons x xs)
  show ?case
  proof (cases "f x \<le> c")
    case True
    then show ?thesis using Cons assms(2,3) by auto
  next
    case False
    then have "filter (\<lambda>x. a < f x \<and> f x \<le> c) xs = []"
      using Cons.prems by (auto simp: filter_empty_conv)
    then show ?thesis using Cons False assms(2,3) by auto
  qed
qed simp

context versioned_store begin

lemma read_snapshot_quiet: "\<exists>r. read_snapshot cd S key seq fmt s = (r, s)"
  by (auto simp: read_snapshot_def get_bytes_view Let_def split: option.splits sum.splits)

lemma checkpoint_snapshot_quiet: "\<exists>r. checkpoint_snapshot cd S cp fmt s = (r, s)"
  using read_snapshot_quiet
  by (auto simp: checkpoint_snapshot_def get_bytes_view Let_def split: option.splits sum.splits)

text \<open>Where a replay to \<open>q\<close> starts.\<close>

definition starts_at :: "codec \<Rightarrow> 's \<Rightarrow> manifest \<Rightarrow> nat \<Rightarrow> ref_snapshot \<Rightarrow> nat \<Rightarrow> bool" where
  "starts_at cd s m q sn0 from_seq \<longleftrightarrow>
     (case m_checkpoint m of
        None \<Rightarrow> \<not> (m_min_seq m > 1 \<and> m_min_seq m > q) \<and> sn0 = default_snapshot \<and> from_seq = 0
      | Some cp \<Rightarrow> cp_seq cp \<le> q \<and> from_seq = cp_seq cp \<and>
          checkpoint_snapshot cd S cp (m_object_format m) s = (Inr sn0, s))"

lemma refs_at_seq_quiet:
  assumes "log_wf cd (view s) m" "q \<le> m_head_seq m" "starts_at cd s m q sn0 from_seq"
  shows "refs_at_seq cd S learn m q s =
    (Inr (fst (replay_from (CutSeq q) (m_object_format m) sn0 from_seq
       (filter (\<lambda>e. from_seq < le_seq e \<and> le_seq e \<le> q) (log_entries cd (view s) (m_log_segments m))))), s)"
  using assms
  by (auto simp: refs_at_seq_def replay_refs_def starts_at_def read_log_quiet Let_def Suc_le_eq min_absorb1
      case_prod_unfold split: option.splits simp del: min.bounded_iff)

lemma refs_at_seq_start:
  assumes "refs_at_seq cd S learn m q s = (Inr sn, s1)" "checkpoint_past q m = None"
  obtains sn0 from_seq where "starts_at cd s m q sn0 from_seq" "from_seq \<le> q" "q \<le> m_head_seq m"
proof (cases "m_checkpoint m")
  case None
  then show ?thesis using assms(1) that [of default_snapshot 0]
    by (auto simp: starts_at_def refs_at_seq_def Let_def split: if_splits)
next
  case (Some cp)
  then have le: "cp_seq cp \<le> q" using assms(2) by (auto simp: checkpoint_past_def split: if_splits)
  obtain r where r: "checkpoint_snapshot cd S cp (m_object_format m) s = (r, s)"
    using checkpoint_snapshot_quiet by blast
  show ?thesis
  proof (cases r)
    case (Inl e)
    then show ?thesis using assms(1) Some le r
      by (auto simp: refs_at_seq_def replay_refs_def Let_def split: if_splits)
  next
    case (Inr sn0)
    moreover have "q \<le> m_head_seq m" using assms(1) by (auto simp: refs_at_seq_def split: if_splits)
    ultimately show ?thesis using that [of sn0 "cp_seq cp"] Some le r by (simp add: starts_at_def)
  qed
qed

lemma read_snapshot_back:
  assumes "\<And>x. cd_dec_snapshot cd (cd_enc_snapshot cd x) = Inr x"
    and "canonicalize sn = Inr sn" "key = snapshot_key (cd_sha256 cd) (cd_enc_snapshot cd sn)"
    and "view s key = Some (v, cd_enc_snapshot cd sn)"
  shows "read_snapshot cd S key (sn_seq sn) (sn_object_format sn) s = (Inr sn, s)"
proof -
  have "decode_verified (cd_sha256 cd) (cd_dec_snapshot cd) (cd_enc_snapshot cd) key (cd_enc_snapshot cd sn) = Inr sn"
    using assms(1-3) by (simp add: decode_verified_def encode_snapshot_def)
  moreover have "starts_with key ''checkpoints/refs/''" by (simp add: assms(3) snapshot_key_def)
  moreover have "sn \<lparr>sn_created_at := None\<rparr> = sn" using assms(2) by (cases sn) (simp add: canonicalize_Inr)
  ultimately show ?thesis using assms(4) by (simp add: read_snapshot_def get_bytes_view)
qed

end

definition same_refs :: "ref_snapshot \<Rightarrow> ref_snapshot \<Rightarrow> bool" where
  "same_refs a b \<longleftrightarrow> sn_refs a = sn_refs b \<and> sn_head_target a = sn_head_target b \<and>
     sn_object_format a = sn_object_format b"

lemma segment_entries_cong: "V (sg_key g) = V' (sg_key g) \<Longrightarrow> segment_entries cd V g = segment_entries cd V' g"
  by (simp add: segment_entries_def)

lemma log_wf_trim:
  assumes "log_wf cd V m" "\<forall>g \<in> set (m_log_segments m). V' (sg_key g) = V (sg_key g)"
  shows "log_wf cd V' (checkpoint_manifest cp seq now w m)"
  using assms segment_entries_cong [of V' _ V cd]
  by (auto simp: log_wf_def checkpoint_manifest_def intro: sorted_wrt_filter)

lemma log_entries_trim:
  assumes "log_wf cd V m" "\<forall>g \<in> set (m_log_segments m). V' (sg_key g) = V (sg_key g)"
  shows "filter (\<lambda>e. seq < le_seq e \<and> le_seq e \<le> q)
      (log_entries cd V' (m_log_segments (checkpoint_manifest cp seq now w m))) =
    filter (\<lambda>e. seq < le_seq e \<and> le_seq e \<le> q) (log_entries cd V (m_log_segments m))"
proof -
  have "log_entries cd V' (filter Q (m_log_segments m)) = log_entries cd V (filter Q (m_log_segments m))" for Q
    unfolding log_entries_def using assms(2) segment_entries_cong [of V' _ V cd]
    by (intro arg_cong [of _ _ concat] map_cong) auto
  then show ?thesis
    unfolding checkpoint_manifest_def using log_wf_entries [OF assms(1)]
    by (simp add: log_entries_def) (intro filter_concat_skip, fastforce)
qed

context versioned_store begin

lemma checkpoint_refs_same:
  assumes dec: "\<And>x. cd_dec_snapshot cd (cd_enc_snapshot cd x) = Inr x"
    and log: "log_wf cd (view s) m"
    and refs: "refs_at_seq cd S learn m seq s = (Inr sn, s1)" "canonicalize (sn \<lparr>sn_seq := seq\<rparr>) = Inr snap"
    and past: "checkpoint_past seq m = None" and q: "seq \<le> q" "q \<le> m_head_seq m"
    and stored: "\<forall>g \<in> set (m_log_segments m). view s2 (sg_key g) = view s (sg_key g)"
      "view s2 (cp_refs_key cp) = Some (v, cd_enc_snapshot cd snap)"
    and cp: "cp_seq cp = seq" "cp_refs_key cp = snapshot_key (cd_sha256 cd) (cd_enc_snapshot cd snap)"
  shows "\<exists>sn1 sn2. refs_at_seq cd S learn m q s = (Inr sn1, s) \<and>
    refs_at_seq cd S learn (checkpoint_manifest cp seq now w m) q s2 = (Inr sn2, s2) \<and> same_refs sn1 sn2"
proof -
  let ?m = "checkpoint_manifest cp seq now w m" and ?E = "log_entries cd (view s) (m_log_segments m)"
  obtain sn0 b where start: "starts_at cd s m seq sn0 b" "b \<le> seq" "seq \<le> m_head_seq m"
    using refs_at_seq_start [OF refs(1) past] .
  then have start_q: "starts_at cd s m q sn0 b" using q by (auto simp: starts_at_def split: option.splits)
  let ?E1 = "filter (\<lambda>e. b < le_seq e \<and> le_seq e \<le> seq) ?E"
  let ?E2 = "filter (\<lambda>e. seq < le_seq e \<and> le_seq e \<le> q) ?E"
  have split: "filter (\<lambda>e. b < le_seq e \<and> le_seq e \<le> q) ?E = ?E1 @ ?E2"
    using filter_split_sorted [OF log_entries_sorted [OF log] start(2) q(1)] .
  have "sn_refs sn = map snd (fst (replayed sn0 ?E1)) \<and> sn_head_target sn = snd (replayed sn0 ?E1) \<and>
      sn_object_format sn = m_object_format m"
    using refs_at_seq_quiet [OF log start(3,1)] refs(1)
      replay_from_upto [of seq ?E1 "m_object_format m" sn0 b] by (auto simp: list_all_iff)
  then have sn: "sn_refs (sn \<lparr>sn_seq := seq\<rparr>) = map snd (fst (replayed sn0 ?E1))"
    "sn_head_target (sn \<lparr>sn_seq := seq\<rparr>) = snd (replayed sn0 ?E1)" "sn_object_format sn = m_object_format m"
    by simp_all
  note snap = canonicalize_idem [OF refs(2)]
  have "snap = (sn \<lparr>sn_seq := seq\<rparr>) \<lparr>sn_refs := sort_key r_name (sn_refs sn), sn_created_at := None\<rparr>"
    using refs(2) by (simp add: canonicalize_Inr)
  then have snap_eqs: "sn_seq snap = seq" "sn_object_format snap = m_object_format m" using sn(3) by simp_all
  have "checkpoint_snapshot cd S cp (m_object_format m) s2 = (Inr snap, s2)"
    using read_snapshot_back [OF dec snap cp(2) stored(2)] cp snap_eqs
    by (simp add: checkpoint_snapshot_def snapshot_key_def)
  then have start2: "starts_at cd s2 ?m q snap seq" using q cp(1) by (simp add: starts_at_def checkpoint_manifest_def)
  have head: "q \<le> m_head_seq ?m" "m_object_format ?m = m_object_format m" using q by (simp_all add: checkpoint_manifest_def)
  have old: "refs_at_seq cd S learn m q s =
      (Inr (fst (replay_from (CutSeq q) (m_object_format m) sn0 b (?E1 @ ?E2))), s)"
    using refs_at_seq_quiet [OF log q(2) start_q] unfolding split .
  have new: "refs_at_seq cd S learn ?m q s2 =
      (Inr (fst (replay_from (CutSeq q) (m_object_format m) snap seq ?E2)), s2)"
    using refs_at_seq_quiet [OF log_wf_trim [OF log stored(1)] head(1) start2]
    unfolding log_entries_trim [OF log stored(1)] head(2) .
  have "list_all (\<lambda>e. le_seq e \<le> q) (?E1 @ ?E2)" "list_all (\<lambda>e. le_seq e \<le> q) ?E2"
    using q by (auto simp: list_all_iff)
  from this [THEN replay_from_upto] have "same_refs (fst (replay_from (CutSeq q) (m_object_format m) sn0 b (?E1 @ ?E2)))
      (fst (replay_from (CutSeq q) (m_object_format m) snap seq ?E2))"
    using replayed_restart [OF refs(2) sn(1,2), of ?E2] by (simp add: same_refs_def)
  then show ?thesis using old new by blast
qed

end

section \<open>What the writer stores\<close>

context versioned_store begin

text \<open>An object that exists survives every write that must create its object.\<close>

lemma create_keeps:
  assumes "os_put S k (PutBytes d) opts s = (r, s')" "po_mode opts = Create" "view s j = Some x"
  shows "view s' j = Some x"
proof (cases "j = k")
  case True
  then have "\<not> put_allowed (po_mode opts) (map_option fst (view s k))" using assms(2,3) by (simp add: put_allowed_def)
  then obtain k' where "os_put S k (PutBytes d) opts s = (Inl (PreconditionFailed k' (map_option fst (view s k))), s)"
    using put_refused by metis
  then show ?thesis using assms(1,3) by simp
qed (use put_other [OF assms(1)] assms(3) in simp)

lemma put_snapshot_keeps:
  assumes "put_snapshot S k b s = (r, s')" "view s j = Some x"
  shows "view s' j = Some x"
proof -
  obtain p t where t: "put_bytes S k b Create s = (p, t)" by (cases "put_bytes S k b Create s")
  then have "view t j = Some x"
    using create_keeps [of k b "put_options_from Create" s p t] assms(2) by (simp add: put_bytes_def put_options_from_def)
  moreover have "s' = t"
    using assms(1) t by (auto simp: put_snapshot_def get_bytes_view split: sum.splits store_error.splits option.splits if_splits)
  ultimately show ?thesis by simp
qed

lemma side_put_keeps: "side_put S side s = (r, s') \<Longrightarrow> view s j = Some x \<Longrightarrow> view s' j = Some x"
  by (auto simp: side_put_def put_snapshot_keeps split: option.splits)

lemma put_snapshot_stores:
  assumes "put_snapshot S k b s = (Inr (), s')"
  obtains v where "view s' k = Some (v, b)"
proof (cases "put_bytes S k b Create s")
  case (Pair p t)
  show ?thesis
  proof (cases p)
    case (Inr meta)
    then show ?thesis using that put_bytes_Inr(3) [of k b Create s meta t] Pair assms
      by (auto simp: put_snapshot_def)
  next
    case (Inl e)
    then have "t = s" using put_bytes_Inl [of k b Create s e t] Pair by metis
    then show ?thesis using that Pair assms Inl
      by (auto simp: put_snapshot_def get_bytes_view split: store_error.splits option.splits if_splits)
  qed
qed

lemma checkpoint_loop_committed:
  assumes "\<forall>i t. pair i t = (Inr (m, known), t)" "checkpoint_past seq m = None"
    and "checkpoint_loop cd S pair env cp seq max_retries attempts s = (Inr c, s')"
  shows "c = cp \<and> (\<exists>i v. view s' = (view s)(MANIFEST \<mapsto>
    (v, cd_enc_manifest cd (checkpoint_manifest cp seq (ce_now env i) (ce_writer env) m))))"
  using assms(3)
proof (induction "max_retries - attempts" arbitrary: attempts rule: less_induct)
  case less
  let ?d = "cd_enc_manifest cd (checkpoint_manifest cp seq (ce_now env attempts) (ce_writer env) m)"
  obtain p t where t: "put_bytes S MANIFEST ?d (cas_mode known) s = (p, t)"
    by (cases "put_bytes S MANIFEST ?d (cas_mode known) s")
  show ?case
  proof (cases p)
    case (Inr meta)
    then have "c = cp" "s' = t" using less.prems t assms(1,2) by (simp_all add: checkpoint_loop.simps [of cd S pair env cp seq max_retries attempts])
    then show ?thesis using put_bytes_Inr(3) t Inr by blast
  next
    case (Inl e)
    then obtain k' where e: "t = s" "e = PreconditionFailed k' (map_option fst (view s MANIFEST))"
      using put_bytes_Inl t by metis
    then have "attempts + 1 < max_retries" "checkpoint_loop cd S pair env cp seq max_retries (attempts + 1) s = (Inr c, s')"
      using less.prems t assms(1,2) Inl
      by (auto simp: checkpoint_loop.simps [of cd S pair env cp seq max_retries attempts] split: if_splits)
    then show ?thesis using less.hyps [of "attempts + 1"] by simp
  qed
qed

lemma write_checkpoint_committed:
  assumes "vw s = (Inr (m, snap), s)" "canonicalize snap = Inr snap"
    and "\<forall>i t. pair i t = (Inr (m1, known), t)"
    and "\<forall>t. \<exists>r. forge_at t = (r, t)" "\<forall>t. \<exists>r. accounts_at t = (r, t)"
    and "checkpoint_past (m_head_seq m) m = None" "checkpoint_past (m_head_seq m) m1 = None"
    and "write_checkpoint cd enc_forge enc_accounts S vw pair forge_at accounts_at is_log env max_retries s = (Inr cp, s')"
  shows "cp_seq cp = m_head_seq m" "cp_refs_key cp = snapshot_key (cd_sha256 cd) (cd_enc_snapshot cd snap)"
    and "\<exists>v. view s' (cp_refs_key cp) = Some (v, cd_enc_snapshot cd snap)"
    and "\<exists>i v. view s' MANIFEST = Some (v, cd_enc_manifest cd
      (checkpoint_manifest cp (m_head_seq m) (ce_now env i) (ce_writer env) m1))"
    and "\<And>k x. k \<noteq> MANIFEST \<Longrightarrow> view s k = Some x \<Longrightarrow> view s' k = Some x"
proof -
  let ?seq = "m_head_seq m" and ?b = "cd_enc_snapshot cd snap"
  let ?refs = "snapshot_key (cd_sha256 cd) ?b"
  have enc: "encode_snapshot (cd_enc_snapshot cd) snap = Inr ?b" using assms(2) by (simp add: encode_snapshot_def)
  have none: "Option.bind (m_checkpoint m) (\<lambda>c. if cp_seq c = ?seq then Some c else None) = None"
    using assms(6) by (auto simp: checkpoint_past_def Option.bind_eq_None_conv split: if_splits)
  have pure: "\<exists>r. checkpoint_sides cd enc_forge enc_accounts is_log forge_at accounts_at m s = (r, s)"
  proof -
    obtain f where "forge_at s = (f, s)" using assms(4) by blast
    moreover obtain a where "accounts_at s = (a, s)" using assms(5) by blast
    ultimately show ?thesis by (auto simp: checkpoint_sides_def Let_def split: sum.splits)
  qed
  note run = assms(8) [unfolded write_checkpoint_def assms(1) prod.case sum.case none option.case enc Let_def]
  have pos: "?seq \<noteq> 0" using run by (auto split: if_splits)
  obtain forge accounts where sides:
    "checkpoint_sides cd enc_forge enc_accounts is_log forge_at accounts_at m s = (Inr (forge, accounts), s)"
    using pure run pos by (cases "checkpoint_sides cd enc_forge enc_accounts is_log forge_at accounts_at m s")
      (auto split: sum.splits)
  let ?key = "checkpoint_attempt_key ?seq (ce_uuid env)"
  let ?d = "cd_enc_checkpoint cd (checkpoint_doc env m snap ?refs)"
  let ?o = "(put_options_from Create) \<lparr>po_immutable := True\<rparr>"
  define c where "c = \<lparr>cp_seq = ?seq, cp_key = ?key, cp_created_at = Some (ce_created_at env),
      cp_first_state_at = first_state_at env (m_checkpoint m), cp_as_of = checkpoint_as_of env (m_checkpoint m),
      cp_refs_key = ?refs, cp_forge_key = side_key forge, cp_accounts_key = side_key accounts\<rparr>"
  obtain r1 s3 where p1: "put_snapshot S ?refs ?b s = (r1, s3)" by (cases "put_snapshot S ?refs ?b s")
  obtain r2 s4 where p2: "os_put S ?key (PutBytes ?d) ?o s3 = (r2, s4)" by (cases "os_put S ?key (PutBytes ?d) ?o s3")
  obtain r3 s5 where p3: "side_put S forge s4 = (r3, s5)" by (cases "side_put S forge s4")
  obtain r4 s6 where p4: "side_put S accounts s5 = (r4, s6)" by (cases "side_put S accounts s5")
  have ok: "r1 = Inr ()" and loop: "checkpoint_loop cd S pair env c ?seq max_retries 0 s6 = (Inr cp, s')"
    using run by (auto simp: pos sides p1 p2 p3 p4 c_def split: sum.splits)
  have keeps: "view s6 j = Some x" if "view s3 j = Some x" for j x
    using side_put_keeps [OF p4] side_put_keeps [OF p3] create_keeps [OF p2 _ that] by (simp add: put_options_from_def)
  from checkpoint_loop_committed [OF assms(3,7) loop] obtain i v where
    cp: "cp = c" and v: "view s' = (view s6)(MANIFEST \<mapsto>
      (v, cd_enc_manifest cd (checkpoint_manifest c ?seq (ce_now env i) (ce_writer env) m1)))" by blast
  show "cp_seq cp = ?seq" "cp_refs_key cp = ?refs" by (simp_all add: cp c_def)
  show "\<exists>i v. view s' MANIFEST = Some (v, cd_enc_manifest cd
      (checkpoint_manifest cp ?seq (ce_now env i) (ce_writer env) m1))" using v cp by auto
  show "view s' k = Some x" if "k \<noteq> MANIFEST" "view s k = Some x" for k x
    using that keeps put_snapshot_keeps [OF p1] v by simp
  obtain u where "view s3 ?refs = Some (u, ?b)" using put_snapshot_stores p1 ok by metis
  then show "\<exists>v. view s' (cp_refs_key cp) = Some (v, ?b)"
    using keeps v by (simp add: cp c_def snapshot_key_def MANIFEST_def)
qed

end

context versioned_store begin

text \<open>With nobody else writing and no side histories, the writer succeeds.\<close>

lemma write_checkpoint_succeeds:
  assumes "vw s = (Inr (m, snap), s)" "canonicalize snap = Inr snap"
    and "\<forall>i t. pair i t = (Inr (m, map_option fst (view s MANIFEST)), t)"
    and "checkpoint_past (m_head_seq m) m = None" "m_head_seq m \<noteq> 0" "m_forge_next_number m = 0"
    and "key = checkpoint_attempt_key (m_head_seq m) (ce_uuid env)"
      "refs = snapshot_key (cd_sha256 cd) (cd_enc_snapshot cd snap)"
    and "view s key = None" "view s refs = None" "key \<noteq> refs" "key \<noteq> MANIFEST"
  shows "\<exists>cp s'. write_checkpoint cd enc_forge enc_accounts S vw pair forge_at accounts_at False env max_retries s = (Inr cp, s')"
proof -
  have none: "Option.bind (m_checkpoint m) (\<lambda>c. if cp_seq c = m_head_seq m then Some c else None) = None"
    using assms(4) by (auto simp: checkpoint_past_def Option.bind_eq_None_conv split: if_splits)
  have enc: "encode_snapshot (cd_enc_snapshot cd) snap = Inr (cd_enc_snapshot cd snap)"
    using assms(2) by (simp add: encode_snapshot_def)
  have sides: "checkpoint_sides cd enc_forge enc_accounts False forge_at accounts_at m s = (Inr (None, None), s)"
    using assms(6) by (simp add: checkpoint_sides_def)
  obtain v1 s3 where p1: "put_bytes S refs (cd_enc_snapshot cd snap) Create s =
      (Inr (object_meta_of refs (v1, cd_enc_snapshot cd snap)), s3)" "view s3 = (view s)(refs \<mapsto> (v1, cd_enc_snapshot cd snap))"
    by (rule put_bytes_accepted [of Create s refs]) (use assms(10) in \<open>simp_all add: put_allowed_def\<close>)
  define d where "d = cd_enc_checkpoint cd (checkpoint_doc env m snap refs)"
  obtain meta s4 where p2: "os_put S key (PutBytes d) ((put_options_from Create) \<lparr>po_immutable := True\<rparr>) s3 = (Inr meta, s4)"
    using put_accepted [of "(put_options_from Create) \<lparr>po_immutable := True\<rparr>" s3 key d] assms(9,11) p1(2)
    by (auto simp: put_options_from_def put_allowed_def)
  have "view s4 MANIFEST = view s MANIFEST"
    using put_other [OF p2, of MANIFEST] assms(8,12) p1(2) by (simp add: snapshot_key_def MANIFEST_def)
  then have "put_allowed (cas_mode (map_option fst (view s MANIFEST))) (map_option fst (view s4 MANIFEST))"
    by (simp add: put_allowed_def cas_mode_def split: option.splits)
  note cas = put_bytes_accepted [OF this]
  have loop: "\<exists>s'. checkpoint_loop cd S pair env c (m_head_seq m) max_retries 0 s4 = (Inr c, s')" for c
    by (rule cas [of "cd_enc_manifest cd (checkpoint_manifest c (m_head_seq m) (ce_now env 0) (ce_writer env) m)"])
      (simp add: checkpoint_loop.simps assms(3,4))
  show ?thesis
    unfolding write_checkpoint_def assms(1)
    by (simp add: none enc assms(5) sides p1(1) p2 [unfolded d_def] put_snapshot_def side_put_def
        Let_def assms(7,8) [symmetric]) (rule exI, rule loop)
qed

end

section \<open>Properties\<close>

text \<open>
  C3. A checkpoint keeps every ref readable at every later point of the log: when the writer
  reports its checkpoint, the manifest it stored names it and still reaches the same head, and the
  refs at any sequence number from the checkpoint on, read through that manifest after the trimmed
  log, are the refs read before through the old one. The manifest may have advanced past the refs
  that were checkpointed.
\<close>

theorem checkpoint_keeps_refs:
  assumes "\<And>x. cd_dec_snapshot cd (cd_enc_snapshot cd x) = Inr x"
    and "log_wf cd (\<lambda>k. ms_view s (p @ k)) m1"
    and "refs_at_seq cd (prefixed p memory_store) learn m1 (m_head_seq m) s = (Inr sn, s1)"
    and "canonicalize (sn \<lparr>sn_seq := m_head_seq m\<rparr>) = Inr snap"
    and "vw s = (Inr (m, snap), s)" "\<forall>i t. pair i t = (Inr (m1, known), t)"
    and "\<forall>t. \<exists>r. forge_at t = (r, t)" "\<forall>t. \<exists>r. accounts_at t = (r, t)"
    and "checkpoint_past (m_head_seq m) m = None" "checkpoint_past (m_head_seq m) m1 = None"
    and "write_checkpoint cd enc_forge enc_accounts (prefixed p memory_store) vw pair forge_at accounts_at
      is_log env max_retries s = (Inr cp, s')"
    and "m_head_seq m \<le> q" "q \<le> m_head_seq m1"
  shows "\<exists>v m2 sn1 sn2. ms_view s' (p @ MANIFEST) = Some (v, cd_enc_manifest cd m2) \<and>
    m_checkpoint m2 = Some cp \<and> m_head_seq m2 = m_head_seq m1 \<and>
    refs_at_seq cd (prefixed p memory_store) learn m1 q s = (Inr sn1, s) \<and>
    refs_at_seq cd (prefixed p memory_store) learn m2 q s' = (Inr sn2, s') \<and> same_refs sn1 sn2"
proof -
  note fin = pre.write_checkpoint_committed [OF assms(5) canonicalize_idem [OF assms(4)] assms(6-11)]
  obtain i v where m2: "ms_view s' (p @ MANIFEST) = Some (v, cd_enc_manifest cd
      (checkpoint_manifest cp (m_head_seq m) (ce_now env i) (ce_writer env) m1))"
    using fin(4) by blast
  obtain u where u: "ms_view s' (p @ cp_refs_key cp) = Some (u, cd_enc_snapshot cd snap)" using fin(3) by blast
  have "ms_view s' (p @ sg_key g) = ms_view s (p @ sg_key g)" if "g \<in> set (m_log_segments m1)" for g
  proof -
    have "sg_key g \<noteq> MANIFEST" "ms_view s (p @ sg_key g) \<noteq> None"
      using log_wf_present [OF assms(2) that] by simp_all
    then show ?thesis using fin(5) [of "sg_key g"] by auto
  qed
  then show ?thesis
    using pre.checkpoint_refs_same [OF assms(1) assms(2-4) assms(10,12,13) _ u fin(1,2), of "ce_now env i" "ce_writer env"] m2
    by (auto simp: checkpoint_manifest_def)
qed

text \<open>A repository with one push, in its store.\<close>

definition pushed_segment :: log_segment_ref where
  "pushed_segment = \<lparr>sg_key = log_segment_key 1, sg_first_seq = 1, sg_last_seq = 1,
     sg_size = length (frame_encode sample_codec [push_main]), sg_sealed = True\<rparr>"

definition pushed_manifest :: manifest where
  "pushed_manifest = default_manifest \<lparr>m_format_version := WAL_FORMAT_VERSION, m_object_format := ''sha1'',
     m_head_seq := 1, m_log_segments := [pushed_segment]\<rparr>"

definition pushed_store :: memory_state where
  "pushed_store = snd (put_bytes (prefixed ''r/'' memory_store) MANIFEST (cd_enc_manifest sample_codec pushed_manifest) Create
     (snd (put_bytes (prefixed ''r/'' memory_store) (log_segment_key 1) (frame_encode sample_codec [push_main]) Create
       memory_new)))"

lemma segment_store_view:
  "\<exists>v1 v2. (\<lambda>k. ms_view (snd (put_bytes (prefixed ''r/'' memory_store) MANIFEST md Create
       (snd (put_bytes (prefixed ''r/'' memory_store) (log_segment_key 1) sd Create memory_new)))) (''r/'' @ k)) =
     Map.empty(log_segment_key 1 \<mapsto> (v1, sd), MANIFEST \<mapsto> (v2, md))"
proof -
  let ?S = "prefixed ''r/'' memory_store"
  have new: "(\<lambda>k. ms_view memory_new (''r/'' @ k)) = Map.empty" by (simp add: fun_eq_iff ms_view_def memory_new_def)
  obtain v1 s1 where 1: "put_bytes ?S (log_segment_key 1) sd Create memory_new =
      (Inr (object_meta_of (log_segment_key 1) (v1, sd)), s1)"
    "(\<lambda>k. ms_view s1 (''r/'' @ k)) = Map.empty(log_segment_key 1 \<mapsto> (v1, sd))"
    by (rule pre.put_bytes_accepted [of Create memory_new "''r/''" "log_segment_key 1" sd, unfolded new])
      (simp_all add: put_allowed_def ms_view_def memory_new_def)
  have "ms_view s1 (''r/'' @ MANIFEST) = None" using fun_cong [OF 1(2), of MANIFEST] by simp
  then have free: "put_allowed Create (map_option fst (ms_view s1 (''r/'' @ MANIFEST)))" by (simp add: put_allowed_def)
  obtain v2 s2 where "put_bytes ?S MANIFEST md Create s1 = (Inr (object_meta_of MANIFEST (v2, md)), s2)"
    "(\<lambda>k. ms_view s2 (''r/'' @ k)) = (\<lambda>k. ms_view s1 (''r/'' @ k))(MANIFEST \<mapsto> (v2, md))"
    using pre.put_bytes_accepted [OF free] by metis
  with 1 show ?thesis by auto
qed

lemma pushed_store_view:
  "\<exists>v1 v2. (\<lambda>k. ms_view pushed_store (''r/'' @ k)) =
     Map.empty(log_segment_key 1 \<mapsto> (v1, frame_encode sample_codec [push_main]),
       MANIFEST \<mapsto> (v2, cd_enc_manifest sample_codec pushed_manifest))"
  unfolding pushed_store_def by (rule segment_store_view)

definition quiet_env :: checkpoint_env where
  "quiet_env = \<lparr>ce_writer = ''w'', ce_uuid = ''u'', ce_created_at = epoch, ce_now = (\<lambda>_. epoch),
     ce_first_entry_time = None, ce_first_seq_published_at = None, ce_last_entry_time = None\<rparr>"

definition pushed_refs :: ref_snapshot where
  "pushed_refs = \<lparr>sn_seq = 1, sn_object_format = ''sha1'',
     sn_refs = [\<lparr>r_name = ''refs/heads/main'', r_oid = replicate 40 (CHR ''a''), r_peeled = []\<rparr>],
     sn_head_target = [], sn_created_at = None\<rparr>"

lemma segment_log_view:
  assumes "V (log_segment_key 1) = Some (v, frame_encode sample_codec [e])" "le_seq e = 1"
  shows "log_wf sample_codec V pushed_manifest"
    and "log_entries sample_codec V (m_log_segments pushed_manifest) = [e]"
proof -
  have g: "sg_key pushed_segment = log_segment_key (sg_first_seq pushed_segment)"
    "sg_first_seq pushed_segment = 1" "sg_last_seq pushed_segment = 1"
    "m_log_segments pushed_manifest = [pushed_segment]"
    by (simp_all add: pushed_segment_def pushed_manifest_def)
  have "segment_entries sample_codec V pushed_segment = Some [e]"
    unfolding segment_entries_def g(1,2) assms(1) by (simp del: encode_entries_simps)
  then show "log_wf sample_codec V pushed_manifest" "log_entries sample_codec V (m_log_segments pushed_manifest) = [e]"
    using g assms(2) by (simp_all add: log_wf_def log_entries_def)
qed

lemma pushed_log:
  "log_wf sample_codec (\<lambda>k. ms_view pushed_store (''r/'' @ k)) pushed_manifest"
  "log_entries sample_codec (\<lambda>k. ms_view pushed_store (''r/'' @ k)) (m_log_segments pushed_manifest) = [push_main]"
proof -
  obtain v1 v2 where v: "(\<lambda>k. ms_view pushed_store (''r/'' @ k)) =
     Map.empty(log_segment_key 1 \<mapsto> (v1, frame_encode sample_codec [push_main]),
       MANIFEST \<mapsto> (v2, cd_enc_manifest sample_codec pushed_manifest))" using pushed_store_view by blast
  have seg: "ms_view pushed_store (''r/'' @ log_segment_key 1) = Some (v1, frame_encode sample_codec [push_main])"
    using fun_cong [OF v, of "log_segment_key 1"] by simp
  have one: "le_seq push_main = 1" by (simp add: push_main_def)
  show "log_wf sample_codec (\<lambda>k. ms_view pushed_store (''r/'' @ k)) pushed_manifest"
    "log_entries sample_codec (\<lambda>k. ms_view pushed_store (''r/'' @ k)) (m_log_segments pushed_manifest) = [push_main]"
    using segment_log_view [of "\<lambda>k. ms_view pushed_store (''r/'' @ k)", OF seg one] .
qed

lemma pushed_refs_at_head:
  "refs_at_seq sample_codec (prefixed ''r/'' memory_store) learn pushed_manifest 1 pushed_store = (Inr pushed_refs, pushed_store)"
proof -
  have m: "m_head_seq pushed_manifest = 1" "m_checkpoint pushed_manifest = None" "m_min_seq pushed_manifest = 0"
    "m_object_format pushed_manifest = ''sha1''"
    by (simp_all add: pushed_manifest_def default_manifest_def)
  have "fst (replay_from (CutSeq 1) ''sha1'' default_snapshot 0 [push_main]) = pushed_refs" by code_simp
  moreover have "filter (\<lambda>e. 0 < le_seq e \<and> le_seq e \<le> 1) [push_main] = [push_main]" by (simp add: push_main_def)
  ultimately show ?thesis
    using pre.refs_at_seq_quiet [OF pushed_log(1), of 1 default_snapshot 0 learn]
    unfolding pushed_log(2) by (simp add: m pre.starts_at_def)
qed

theorem checkpoint_keeps_refs_witness:
  "\<exists>cp s' v m2 sn1 sn2.
    write_checkpoint sample_codec (\<lambda>_. []) (\<lambda>_. []) (prefixed ''r/'' memory_store)
      (\<lambda>t. (Inr (pushed_manifest, pushed_refs), t))
      (\<lambda>i t. (Inr (pushed_manifest, map_option fst (ms_view pushed_store (''r/'' @ MANIFEST))), t))
      (\<lambda>t. (Inr default_forge_state, t)) (\<lambda>t. (Inr default_accounts, t)) False quiet_env 3 pushed_store = (Inr cp, s') \<and>
    ms_view s' (''r/'' @ MANIFEST) = Some (v, cd_enc_manifest sample_codec m2) \<and> m_checkpoint m2 = Some cp \<and>
    refs_at_seq sample_codec (prefixed ''r/'' memory_store) (\<lambda>t. (Inr None, t)) m2 1 s' = (Inr sn2, s') \<and>
    sn_refs sn2 = sn_refs pushed_refs"
proof -
  let ?S = "prefixed ''r/'' memory_store" and ?learn = "\<lambda>t. (Inr None, t)"
  let ?key = "checkpoint_attempt_key 1 ''u''"
  let ?refs = "snapshot_key (cd_sha256 sample_codec) (cd_enc_snapshot sample_codec pushed_refs)"
  have m: "m_head_seq pushed_manifest = 1" "checkpoint_past 1 pushed_manifest = None" "m_forge_next_number pushed_manifest = 0"
    by (simp_all add: pushed_manifest_def default_manifest_def checkpoint_past_def)
  have c: "canonicalize (pushed_refs \<lparr>sn_seq := 1\<rparr>) = Inr pushed_refs" "canonicalize pushed_refs = Inr pushed_refs"
    by code_simp+
  obtain v1 v2 where v: "(\<lambda>k. ms_view pushed_store (''r/'' @ k)) =
     Map.empty(log_segment_key 1 \<mapsto> (v1, frame_encode sample_codec [push_main]),
       MANIFEST \<mapsto> (v2, cd_enc_manifest sample_codec pushed_manifest))" using pushed_store_view by blast
  have ne: "?key \<noteq> ?refs" "?key \<noteq> MANIFEST" "?key \<noteq> log_segment_key 1"
    "?refs \<noteq> MANIFEST" "?refs \<noteq> log_segment_key 1"
  proof -
    show "?key \<noteq> ?refs"
    proof -
      have "?key = ''checkpoints/0000000000000001/attempts/u/checkpoint.pb''" by code_simp
      then show ?thesis by (simp add: snapshot_key_def)
    qed
  qed (simp_all add: snapshot_key_def checkpoint_attempt_key_def CHECKPOINTS_DIR_def MANIFEST_def
      log_segment_key_def LOG_DIR_def)
  have free: "ms_view pushed_store (''r/'' @ ?key) = None" "ms_view pushed_store (''r/'' @ ?refs) = None"
    using fun_cong [OF v, of ?key] fun_cong [OF v, of ?refs] ne by simp_all
  have "\<exists>cp s'. write_checkpoint sample_codec (\<lambda>_. []) (\<lambda>_. []) ?S
      (\<lambda>t. (Inr (pushed_manifest, pushed_refs), t))
      (\<lambda>i t. (Inr (pushed_manifest, map_option fst (ms_view pushed_store (''r/'' @ MANIFEST))), t))
      (\<lambda>t. (Inr default_forge_state, t)) (\<lambda>t. (Inr default_accounts, t)) False quiet_env 3 pushed_store = (Inr cp, s')"
    by (rule pre.write_checkpoint_succeeds [where key = ?key and refs = ?refs and m = pushed_manifest and snap = pushed_refs])
      (use c(2) m free ne in \<open>simp_all add: quiet_env_def\<close>)
  then obtain cp s' where run: "write_checkpoint sample_codec (\<lambda>_. []) (\<lambda>_. []) ?S
      (\<lambda>t. (Inr (pushed_manifest, pushed_refs), t))
      (\<lambda>i t. (Inr (pushed_manifest, map_option fst (ms_view pushed_store (''r/'' @ MANIFEST))), t))
      (\<lambda>t. (Inr default_forge_state, t)) (\<lambda>t. (Inr default_accounts, t)) False quiet_env 3 pushed_store = (Inr cp, s')"
    by blast
  have dec: "cd_dec_snapshot sample_codec (cd_enc_snapshot sample_codec x) = Inr x" for x by simp
  have "\<exists>v m2 sn1 sn2. ms_view s' (''r/'' @ MANIFEST) = Some (v, cd_enc_manifest sample_codec m2) \<and>
      m_checkpoint m2 = Some cp \<and> m_head_seq m2 = m_head_seq pushed_manifest \<and>
      refs_at_seq sample_codec ?S ?learn pushed_manifest 1 pushed_store = (Inr sn1, pushed_store) \<and>
      refs_at_seq sample_codec ?S ?learn m2 1 s' = (Inr sn2, s') \<and> same_refs sn1 sn2"
    by (rule checkpoint_keeps_refs [OF dec pushed_log(1) _ _ _ _ _ _ _ _ run, where m = pushed_manifest
          and sn = pushed_refs and ?s1.0 = pushed_store])
      (use c(1) m pushed_refs_at_head [of ?learn] in simp_all)
  then show ?thesis using run pushed_refs_at_head [of ?learn] by (auto simp: same_refs_def) metis
qed

end
