(* ===== verification/Policy.thy ===== *)
theory Policy
  imports Refs
begin

text \<open>
  The push policy of a repository (\<open>walgit-server/src/policy.rs\<close>): the document, its
  validation, the glob dialect, actors and groups, and the evaluation of a transaction. The
  JSON reader and writer of \<open>serde_json\<close> are the parameters \<open>from_slice\<close> and
  \<open>to_vec_pretty\<close>. A \<open>HashMap\<close> collected from pairs is the reversed association list
  (the last of two equal keys wins), a \<open>HashSet\<close> that is only tested and extended is the
  list of its elements.

  The lemmas relate the operational code to what \<open>docs/POLICY.md\<close> says: the backtracking
  glob matcher to the language of a pattern, the search through groups with its shared set of
  visited names to reachability, and the verdict on an update to a statement over both.
\<close>

section \<open>The document\<close>

record policy_group =
  pg_name :: string
  pg_members :: "string list"
  pg_comment :: "string option"

record rule_match =
  rm_refs :: "string list"
  rm_principals :: "string list"
  rm_paths :: "string list"
  rm_comment :: "string option"

datatype restrict = R_Create | R_Update | R_Delete | R_ForcePush

record protect_effect =
  pe_restricts :: "restrict list option"
  pe_bypass :: "string list"
  pe_comment :: "string option"

record history_effect =
  he_allowed_forwards :: "nat option"
  he_allow_unrelated :: "bool option"
  he_comment :: "string option"

record size_effect =
  se_blob_bytes :: "nat option"
  se_push_bytes :: "nat option"
  se_comment :: "string option"

record rule_effect =
  ef_protect :: "protect_effect option"
  ef_history :: "history_effect option"
  ef_size :: "size_effect option"
  ef_comment :: "string option"

record policy_rule =
  ru_name :: string
  ru_match :: rule_match
  ru_effect :: rule_effect
  ru_mode :: "string option"
  ru_comment :: "string option"

record repo_policy =
  rp_version :: nat
  rp_groups :: "policy_group list"
  rp_rules :: "policy_rule list"
  rp_comment :: "string option"

definition default_version :: nat where "default_version = 1"

text \<open>What \<open>Option::deserialize\<close> gave for the key \<open>restricts\<close>, checked.\<close>

definition deserialize_restricts ::
  "restrict list option \<Rightarrow> (string, restrict list option) result" where
  "deserialize_restricts v =
     (case v of
        None \<Rightarrow> Inl ''restricts: null is a parse error (omit the key for all four ops)''
      | Some [] \<Rightarrow> Inl ''restricts: [] is a parse error (omit the key for all four ops)''
      | Some list \<Rightarrow> Inr (Some list))"

definition repo_policy_empty :: repo_policy where
  "repo_policy_empty = \<lparr>rp_version = 1, rp_groups = [], rp_rules = [], rp_comment = None\<rparr>"

definition has_protect :: "repo_policy \<Rightarrow> bool" where
  "has_protect p = list_ex (\<lambda>r. ef_protect (ru_effect r) \<noteq> None) (rp_rules p)"

definition valid_name :: "string \<Rightarrow> bool" where
  "valid_name b =
     (1 \<le> length b \<and> length b \<le> 63 \<and> is_ascii_lowercase (b ! 0)
      \<and> list_all (\<lambda>c. is_ascii_lowercase c \<or> is_ascii_digit c \<or> c = CHR ''-'') b)"

definition restrict_set :: "protect_effect \<Rightarrow> restrict list" where
  "restrict_set p =
     (case pe_restricts p of
        None \<Rightarrow> [R_Create, R_Update, R_Delete, R_ForcePush]
      | Some v \<Rightarrow> v)"

definition is_disjoint :: "'a list \<Rightarrow> 'a list \<Rightarrow> bool" where
  "is_disjoint a b = list_all (\<lambda>x. x \<notin> set b) a"

section \<open>Globs\<close>

text \<open>
  \<open>glob_bytes\<close>: \<open>pat\<close> and \<open>text\<close> are the slices from the indices \<open>pi\<close> and \<open>ti\<close>. After a
  doublestar and after a star the rest of the pattern is tried on every suffix in turn
  (\<open>glob_any\<close>, the inner \<open>loop\<close>; \<open>glob_segment\<close>, the inner \<open>while\<close>).
\<close>

function (sequential) glob_bytes :: "string \<Rightarrow> string \<Rightarrow> bool"
  and glob_any :: "string \<Rightarrow> string \<Rightarrow> bool"
  and glob_segment :: "string \<Rightarrow> string \<Rightarrow> bool" where
  "glob_bytes [] text = (text = [])"
| "glob_bytes (c # pat) text =
     (if c = CHR ''*'' \<and> pat \<noteq> [] \<and> hd pat = CHR ''*'' then
        (let rest = (if tl pat \<noteq> [] \<and> hd (tl pat) = CHR ''/'' then tl (tl pat) else tl pat)
         in if rest = [] then True else glob_any rest text)
      else if c = CHR ''*'' then glob_segment pat text
      else if c = CHR ''?'' then
        (if text = [] \<or> hd text = CHR ''/'' then False else glob_bytes pat (tl text))
      else (if text = [] \<or> hd text \<noteq> c then False else glob_bytes pat (tl text)))"
| "glob_any rest text =
     (if glob_bytes rest text then True
      else (case text of [] \<Rightarrow> False | _ # text' \<Rightarrow> glob_any rest text'))"
| "glob_segment rest text =
     (if glob_bytes rest text then True
      else (case text of
              [] \<Rightarrow> False
            | t # text' \<Rightarrow> if t \<noteq> CHR ''/'' then glob_segment rest text' else False))"
  by pat_completeness auto

termination
  by (relation "inv_image (less_than <*lex*> less_than <*lex*> less_than)
        (\<lambda>x. case x of
            Inl (p, t) \<Rightarrow> (length p, length t, 0)
          | Inr (Inl (p, t)) \<Rightarrow> (length p, length t, 1)
          | Inr (Inr (p, t)) \<Rightarrow> (length p, length t, 1))")
    (auto simp: Let_def split: if_splits)

declare glob_bytes.simps [simp del] glob_any.simps [simp del] glob_segment.simps [simp del]

definition glob_match :: "string \<Rightarrow> string \<Rightarrow> bool" where
  "glob_match pat text = (if pat = ''HEAD'' then text = ''HEAD'' else glob_bytes pat text)"

text \<open>The loop over the patterns keeps the three flags \<open>any_inc\<close>, \<open>inc\<close> and \<open>exc\<close>.\<close>

definition pattern_step :: "string \<Rightarrow> string \<Rightarrow> bool \<times> bool \<times> bool \<Rightarrow> bool \<times> bool \<times> bool" where
  "pattern_step text p =
     (\<lambda>(any_inc, inc, exc).
        case strip_prefix ''^'' p of
          Some rest \<Rightarrow> (any_inc, inc, exc \<or> glob_match rest text)
        | None \<Rightarrow> (True, inc \<or> glob_match p text, exc))"

definition pattern_list_matches :: "string list \<Rightarrow> string \<Rightarrow> bool" where
  "pattern_list_matches patterns text =
     (case fold (pattern_step text) patterns (False, False, False) of
        (any_inc, inc, exc) \<Rightarrow> (inc \<or> \<not> any_inc) \<and> \<not> exc)"

section \<open>Overlapping rules\<close>

definition trim_end_char :: "char \<Rightarrow> string \<Rightarrow> string" where
  "trim_end_char c s = rev (dropWhile (\<lambda>x. x = c) (rev s))"

definition glob_may_overlap :: "string \<Rightarrow> string \<Rightarrow> bool" where
  "glob_may_overlap a b =
     (if a = b then True
      else glob_match a (trim_end_char CHR ''/'' (trim_end_char CHR ''*'' b))
           \<or> glob_match b (trim_end_char CHR ''/'' (trim_end_char CHR ''*'' a))
           \<or> str_contains a ''**'' \<or> str_contains b ''**'')"

definition ref_patterns_may_overlap :: "string list \<Rightarrow> string list \<Rightarrow> bool" where
  "ref_patterns_may_overlap a b =
     (if a = [] \<or> b = [] then True
      else let ia = filter (\<lambda>p. \<not> starts_with p ''^'') a;
               ib = filter (\<lambda>p. \<not> starts_with p ''^'') b
           in if ia = [] \<or> ib = [] then True
              else list_ex (\<lambda>x. list_ex (\<lambda>y. glob_may_overlap x y) ib) ia)"

definition protect_of :: "policy_rule \<Rightarrow> protect_effect" where
  "protect_of r = the (ef_protect (ru_effect r))"

definition bypass_conflict :: "policy_rule \<Rightarrow> policy_rule \<Rightarrow> bool" where
  "bypass_conflict a b =
     (if \<not> ref_patterns_may_overlap (rm_refs (ru_match a)) (rm_refs (ru_match b)) then False
      else if is_disjoint (restrict_set (protect_of a)) (restrict_set (protect_of b)) then False
      else let ba = pe_bypass (protect_of a); bb = pe_bypass (protect_of b)
           in if ba = [] \<or> bb = [] then False else is_disjoint ba bb)"

fun overlap_loop :: "policy_rule list \<Rightarrow> (string, unit) result" where
  "overlap_loop [] = Inr ()"
| "overlap_loop (a # protect) =
     (case find (bypass_conflict a) protect of
        Some b \<Rightarrow> Inl (''protect rules '' @ debug_str (ru_name a) @ '' and '' @
                       debug_str (ru_name b) @ '' overlap with disjoint bypass lists'')
      | None \<Rightarrow> overlap_loop protect)"

definition check_overlap_bypass :: "repo_policy \<Rightarrow> (string, unit) result" where
  "check_overlap_bypass p =
     overlap_loop (filter (\<lambda>r. ef_protect (ru_effect r) \<noteq> None) (rp_rules p))"

section \<open>Validation\<close>

fun validate_groups :: "string list \<Rightarrow> policy_group list \<Rightarrow> (string, unit) result" where
  "validate_groups group_names [] = Inr ()"
| "validate_groups group_names (g # gs) =
     (if \<not> valid_name (pg_name g) then Inl (''groups: bad name '' @ debug_str (pg_name g))
      else if pg_name g \<in> set group_names
        then Inl (''groups: duplicate name '' @ debug_str (pg_name g))
      else validate_groups (pg_name g # group_names) gs)"

definition effect_count :: "rule_effect \<Rightarrow> nat" where
  "effect_count e =
     of_bool (ef_protect e \<noteq> None) + of_bool (ef_history e \<noteq> None) + of_bool (ef_size e \<noteq> None)"

definition validate_rule :: "policy_rule \<Rightarrow> (string, unit) result" where
  "validate_rule r =
     (if effect_count (ru_effect r) \<noteq> 1
      then Inl (''rule '' @ debug_str (ru_name r) @
                '': effect must have exactly one of protect, history, size'')
      else if ru_mode r \<noteq> None \<and> ru_mode r \<noteq> Some ''enforce'' \<and> ru_mode r \<noteq> Some ''audit''
      then Inl (''rule '' @ debug_str (ru_name r) @ '': mode must be enforce|audit'')
      else if (ef_history (ru_effect r) \<noteq> None \<or> ef_size (ru_effect r) \<noteq> None)
        \<and> list_ex (\<lambda>pats. list_ex (\<lambda>p. starts_with p ''^'') pats)
             [rm_refs (ru_match r), rm_principals (ru_match r), rm_paths (ru_match r)]
      then Inl (''rule '' @ debug_str (ru_name r) @
                '': ^ exclusions are illegal on history/size (first-match)'')
      else Inr ())"

fun validate_rules :: "string list \<Rightarrow> policy_rule list \<Rightarrow> (string, unit) result" where
  "validate_rules rule_names [] = Inr ()"
| "validate_rules rule_names (r # rs) =
     (if \<not> valid_name (ru_name r) then Inl (''rules: bad name '' @ debug_str (ru_name r))
      else if ru_name r \<in> set rule_names
        then Inl (''rules: duplicate name '' @ debug_str (ru_name r))
      else case validate_rule r of
             Inl e \<Rightarrow> Inl e
           | Inr _ \<Rightarrow> validate_rules (ru_name r # rule_names) rs)"

definition repo_policy_validate :: "repo_policy \<Rightarrow> (string, unit) result" where
  "repo_policy_validate p =
     (if rp_version p \<noteq> 1 then Inl (''unsupported policy version '' @ show_nat (rp_version p))
      else case validate_groups [] (rp_groups p) of
             Inl e \<Rightarrow> Inl e
           | Inr _ \<Rightarrow>
               (case validate_rules [] (rp_rules p) of
                  Inl e \<Rightarrow> Inl e
                | Inr _ \<Rightarrow> check_overlap_bypass p))"

section \<open>Actors and groups\<close>

definition eq_ignore_ascii_case :: "string \<Rightarrow> string \<Rightarrow> bool" where
  "eq_ignore_ascii_case a b = (to_ascii_lowercase a = to_ascii_lowercase b)"

type_synonym group_table = "(string \<times> policy_group) list"

definition group_table :: "policy_group list \<Rightarrow> group_table" where
  "group_table gs = rev (map (\<lambda>g. (pg_name g, g)) gs)"

definition unseen :: "group_table \<Rightarrow> string list \<Rightarrow> nat" where
  "unseen groups seen = card (fst ` set groups - set seen)"

lemma unseen_mono: "set a \<subseteq> set b \<Longrightarrow> unseen groups b \<le> unseen groups a"
  unfolding unseen_def by (rule card_mono) auto

lemma unseen_visit:
  assumes "map_of groups name = Some g" "name \<notin> set seen"
  shows "unseen groups (name # seen) < unseen groups seen"
proof -
  have "name \<in> fst ` set groups" using assms(1) by (metis domI dom_map_of_conv_image_fst)
  then show ?thesis
    unfolding unseen_def by (intro psubset_card_mono) (use assms(2) in auto)
qed

text \<open>
  \<open>principal_matches\<close> with the set \<open>seen\<close> it extends; \<open>members_match\<close> is the \<open>any\<close> over the
  members, which stops at the first hit.
\<close>

function (sequential) principal_matches ::
    "string list \<Rightarrow> group_table \<Rightarrow> string \<Rightarrow> string list \<Rightarrow> bool \<times> string list"
  and members_match ::
    "string list \<Rightarrow> group_table \<Rightarrow> string list \<Rightarrow> string list \<Rightarrow> bool \<times> string list" where
  "principal_matches actor groups spec seen =
     (case strip_prefix ''group:'' spec of
        Some name \<Rightarrow>
          (if name \<in> set seen then (False, seen)
           else (case map_of groups name of
                   None \<Rightarrow> (False, name # seen)
                 | Some g \<Rightarrow> members_match actor groups (pg_members g) (name # seen)))
      | None \<Rightarrow>
          (if starts_with spec ''@'' then (False, seen)
           else (list_ex (\<lambda>p. eq_ignore_ascii_case spec p) actor, seen)))"
| "members_match actor groups [] seen = (False, seen)"
| "members_match actor groups (m # ms) seen =
     (case principal_matches actor groups m seen of
        (True, seen') \<Rightarrow> (True, seen')
      | (False, seen') \<Rightarrow> members_match actor groups ms seen')"
  by pat_completeness auto

termination
proof (relation "inv_image (less_than <*lex*> less_than)
        (\<lambda>x. case x of
            Inl (pr, gs, spec, seen) \<Rightarrow> (unseen gs seen, 0)
          | Inr (pr, gs, ms, seen) \<Rightarrow> (unseen gs seen, Suc (length ms)))", goal_cases)
  case (4 actor groups m ms seen x seen')
  have "principal_matches_members_match_dom (Inl (actor, groups, spec, seen)) \<Longrightarrow>
          set seen \<subseteq> set (snd (principal_matches actor groups spec seen))"
    and "principal_matches_members_match_dom (Inr (actor, groups, ms, seen)) \<Longrightarrow>
          set seen \<subseteq> set (snd (members_match actor groups ms seen))"
    for actor groups spec ms seen
  proof (induction actor groups spec seen and actor groups ms seen
      rule: principal_matches_members_match.pinduct)
    case (1 actor groups spec seen)
    then show ?case by (auto simp: principal_matches.psimps split: option.splits)
  next
    case (2 actor groups seen)
    then show ?case by (simp add: members_match.psimps)
  next
    case (3 actor groups m ms seen)
    show ?case
    proof (cases "principal_matches actor groups m seen")
      case (Pair hit seen')
      then show ?thesis using 3 by (cases hit) (auto simp: members_match.psimps)
    qed
  qed
  from this(1) [of actor groups m seen] 4 have "set seen \<subseteq> set seen'"
    by (metis snd_conv)
  then show ?case using unseen_mono [of seen seen' groups] by auto
qed (auto dest: unseen_visit)

declare principal_matches.simps [simp del]

definition actor_step ::
  "string list \<Rightarrow> group_table \<Rightarrow> string \<Rightarrow> bool \<times> bool \<times> bool \<Rightarrow> bool \<times> bool \<times> bool" where
  "actor_step actor groups p =
     (\<lambda>(any_inc, inc, exc).
        case strip_prefix ''^'' p of
          Some rest \<Rightarrow>
            (if starts_with rest ''group:'' \<and> map_of groups (drop 6 rest) = None
             then (any_inc, inc, True)
             else (any_inc, inc, exc \<or> fst (principal_matches actor groups rest [])))
        | None \<Rightarrow> (True, inc \<or> fst (principal_matches actor groups p []), exc))"

definition actor_list_matches :: "string list \<Rightarrow> string list \<Rightarrow> group_table \<Rightarrow> bool" where
  "actor_list_matches patterns actor groups =
     (case fold (actor_step actor groups) patterns (False, False, False) of
        (any_inc, inc, exc) \<Rightarrow> (inc \<or> \<not> any_inc) \<and> \<not> exc)"

section \<open>Evaluation\<close>

datatype ref_op = NoOp | OpCreate | OpDelete | OpUpdate

definition classify :: "string \<Rightarrow> string \<Rightarrow> ref_op" where
  "classify old new =
     (if old = [] \<and> new = [] then NoOp
      else if old = [] then OpCreate
      else if new = [] then OpDelete
      else if old = new then NoOp
      else OpUpdate)"

definition rule_matches :: "rule_match \<Rightarrow> string \<Rightarrow> string list \<Rightarrow> group_table \<Rightarrow> bool" where
  "rule_matches m ref_name actor groups =
     (if rm_refs m \<noteq> [] \<and> \<not> pattern_list_matches (rm_refs m) ref_name then False
      else if rm_principals m \<noteq> [] \<and> \<not> actor_list_matches (rm_principals m) actor groups
      then False
      else True)"

definition bypasses :: "protect_effect \<Rightarrow> string list \<Rightarrow> group_table \<Rightarrow> bool" where
  "bypasses p actor groups =
     (if pe_bypass p = [] then False else actor_list_matches (pe_bypass p) actor groups)"

definition op_hit :: "ref_op \<Rightarrow> bool \<Rightarrow> restrict list \<Rightarrow> bool" where
  "op_hit op force rset =
     (case op of
        OpCreate \<Rightarrow> R_Create \<in> set rset
      | OpDelete \<Rightarrow> R_Delete \<in> set rset
      | OpUpdate \<Rightarrow>
          (if force then R_ForcePush \<in> set rset \<or> R_Update \<in> set rset
           else R_Update \<in> set rset)
      | NoOp \<Rightarrow> False)"

definition reject_message :: "policy_rule \<Rightarrow> string" where
  "reject_message rule = ''rejected by rule '' @ [CHR 0x27] @ ru_name rule @ [CHR 0x27]"

fun deny_loop ::
  "policy_rule list \<Rightarrow> group_table \<Rightarrow> string list \<Rightarrow> string \<Rightarrow> ref_op \<Rightarrow> bool \<Rightarrow> string option" where
  "deny_loop [] groups actor name op force = None"
| "deny_loop (rule # rules) groups actor name op force =
     (case ef_protect (ru_effect rule) of
        None \<Rightarrow> deny_loop rules groups actor name op force
      | Some protect \<Rightarrow>
          (if \<not> rule_matches (ru_match rule) name actor groups
           then deny_loop rules groups actor name op force
           else if bypasses protect actor groups
           then deny_loop rules groups actor name op force
           else if op_hit op force (restrict_set protect)
           then Some (reject_message rule)
           else deny_loop rules groups actor name op force))"

definition deny_reason ::
  "repo_policy \<Rightarrow> group_table \<Rightarrow> string list \<Rightarrow> ref_update \<Rightarrow> (ref_update \<Rightarrow> bool) \<Rightarrow> string option" where
  "deny_reason policy groups actor u is_force =
     (let op = classify (u_old_oid u) (u_new_oid u)
      in if op = NoOp then None
         else deny_loop (rp_rules policy) groups actor (u_name u) op
                (is_force u \<or> starts_with (u_name u) ''refs/tags/''))"

record policy_eval =
  ev_publish :: ref_transaction
  ev_per_ref :: "(string \<times> (string, unit) result) list"

definition any_denied :: "policy_eval \<Rightarrow> bool" where
  "any_denied ev = list_ex (\<lambda>(_, r). \<not> is_ok r) (ev_per_ref ev)"

definition any_allowed :: "policy_eval \<Rightarrow> bool" where
  "any_allowed ev = (tx_updates (ev_publish ev) \<noteq> [])"

definition eval_step ::
  "(ref_update \<Rightarrow> string option) \<Rightarrow> ref_update \<Rightarrow>
     (string \<times> (string, unit) result) list \<times> ref_update list \<Rightarrow>
     (string \<times> (string, unit) result) list \<times> ref_update list" where
  "eval_step deny u =
     (\<lambda>(per_ref, allowed).
        case deny u of
          None \<Rightarrow> (per_ref @ [(u_name u, Inr ())], allowed @ [u])
        | Some msg \<Rightarrow> (per_ref @ [(u_name u, Inl msg)], allowed))"

definition evaluate ::
  "repo_policy \<Rightarrow> string list \<Rightarrow> ref_transaction \<Rightarrow> (ref_update \<Rightarrow> bool) \<Rightarrow> policy_eval" where
  "evaluate policy actor txn is_force =
     (let groups = group_table (rp_groups policy);
          (per_ref, allowed) =
            fold (eval_step (\<lambda>u. deny_reason policy groups actor u is_force))
              (tx_updates txn) ([], [])
      in if tx_atomic txn \<and> list_ex (\<lambda>(_, r). \<not> is_ok r) per_ref
         then \<lparr>ev_publish = \<lparr>tx_updates = [], tx_push_options = tx_push_options txn,
                             tx_atomic = True\<rparr>,
               ev_per_ref = per_ref\<rparr>
         else \<lparr>ev_publish = \<lparr>tx_updates = allowed, tx_push_options = tx_push_options txn,
                             tx_atomic = tx_atomic txn\<rparr>,
               ev_per_ref = per_ref\<rparr>)"

section \<open>The stored document\<close>

definition policy_store_key :: "repo_id \<Rightarrow> string" where
  "policy_store_key rid = policy_key (rid_owner rid) (rid_name rid)"

type_synonym policy_reader = "bytes \<Rightarrow> (string, repo_policy) result"
type_synonym policy_writer = "repo_policy \<Rightarrow> (string, bytes) result"

definition parse_bytes :: "policy_reader \<Rightarrow> bytes \<Rightarrow> (store_error, repo_policy) result" where
  "parse_bytes from_slice b =
     (case from_slice b of
        Inl e \<Rightarrow> Inl (InvalidArgument (''policy.json: '' @ e))
      | Inr policy \<Rightarrow>
          (case repo_policy_validate policy of
             Inl e \<Rightarrow> Inl (InvalidArgument (''policy.json: '' @ e))
           | Inr _ \<Rightarrow> Inr policy))"

definition policy_load ::
  "'s object_store \<Rightarrow> policy_reader \<Rightarrow> repo_id \<Rightarrow> 's \<Rightarrow> (store_error, repo_policy) result \<times> 's" where
  "policy_load S from_slice rid s =
     (case os_get S (policy_store_key rid) default_get s of
        (Inr got, s') \<Rightarrow>
          ((case get_result_bytes got of
              Inl e \<Rightarrow> Inl e
            | Inr None \<Rightarrow> Inr repo_policy_empty
            | Inr (Some (_, b)) \<Rightarrow> parse_bytes from_slice b), s')
      | (Inl (NotFound _), s') \<Rightarrow> (Inr repo_policy_empty, s')
      | (Inl e, s') \<Rightarrow> (Inl e, s'))"

definition policy_save ::
  "'s object_store \<Rightarrow> policy_writer \<Rightarrow> repo_id \<Rightarrow> repo_policy \<Rightarrow> 's \<Rightarrow>
     (store_error, unit) result \<times> 's" where
  "policy_save S to_vec_pretty rid policy s =
     (case repo_policy_validate policy of
        Inl e \<Rightarrow> (Inl (InvalidArgument e), s)
      | Inr _ \<Rightarrow>
          (case to_vec_pretty policy of
             Inl e \<Rightarrow> (Inl (InvalidArgument (''encode policy: '' @ e)), s)
           | Inr body \<Rightarrow>
               (case os_put S (policy_store_key rid) (PutBytes body) (put_options_from Overwrite) s of
                  (Inl e, s') \<Rightarrow> (Inl e, s')
                | (Inr _, s') \<Rightarrow> (Inr (), s'))))"

definition policy_clear ::
  "'s object_store \<Rightarrow> repo_id \<Rightarrow> 's \<Rightarrow> (store_error, unit) result \<times> 's" where
  "policy_clear S rid s =
     (case os_delete S (policy_store_key rid) None s of
        (Inr _, s') \<Rightarrow> (Inr (), s')
      | (Inl (NotFound _), s') \<Rightarrow> (Inr (), s')
      | (Inl e, s') \<Rightarrow> (Inl e, s'))"

section \<open>The language of a glob\<close>

datatype glob_token = Any_Path | Any_Segment | Any_Byte | Byte char

text \<open>
  What the pattern says, read from left to right: a doublestar takes a slash after it along.
\<close>

function glob_tokens :: "string \<Rightarrow> glob_token list" where
  "glob_tokens [] = []"
| "glob_tokens (c # pat) =
     (if prefix ''**/'' (c # pat) then Any_Path # glob_tokens (drop 2 pat)
      else if prefix ''**'' (c # pat) then Any_Path # glob_tokens (drop 1 pat)
      else if c = CHR ''*'' then Any_Segment # glob_tokens pat
      else if c = CHR ''?'' then Any_Byte # glob_tokens pat
      else Byte c # glob_tokens pat)"
  by pat_completeness auto

termination
  by (relation "measure length") auto

primrec token_lang :: "glob_token \<Rightarrow> string set" where
  "token_lang Any_Path = UNIV"
| "token_lang Any_Segment = {u. CHR ''/'' \<notin> set u}"
| "token_lang Any_Byte = {[c] |c. c \<noteq> CHR ''/''}"
| "token_lang (Byte c) = {[c]}"

primrec glob_lang :: "glob_token list \<Rightarrow> string set" where
  "glob_lang [] = {[]}"
| "glob_lang (t # ts) = {u @ v |u v. u \<in> token_lang t \<and> v \<in> glob_lang ts}"

lemma split_Cons:
  "(\<exists>u v. t # s = u @ v \<and> P u v) \<longleftrightarrow> P [] (t # s) \<or> (\<exists>u v. s = u @ v \<and> P (t # u) v)"
  by (auto simp: Cons_eq_append_conv)

lemma glob_any_iff: "glob_any rest s \<longleftrightarrow> (\<exists>u v. s = u @ v \<and> glob_bytes rest v)"
proof (induction s)
  case Nil
  then show ?case by (simp add: glob_any.simps [of rest "[]"])
next
  case (Cons t s)
  then show ?case by (simp add: glob_any.simps [of rest "t # s"] split_Cons)
qed

lemma glob_segment_iff:
  "glob_segment rest s \<longleftrightarrow> (\<exists>u v. s = u @ v \<and> CHR ''/'' \<notin> set u \<and> glob_bytes rest v)"
proof (induction s)
  case Nil
  then show ?case by (simp add: glob_segment.simps [of rest "[]"])
next
  case (Cons t s)
  then show ?case by (auto simp: glob_segment.simps [of rest "t # s"] split_Cons)
qed

lemma glob_bytes_Nil [simp]: "glob_bytes [] bs \<longleftrightarrow> bs = []"
  by (simp add: glob_bytes.simps)

lemma glob_bytes_path:
  "glob_bytes (''**/'' @ pat) bs \<longleftrightarrow> (\<exists>u v. bs = u @ v \<and> glob_bytes pat v)"
  by (auto simp: glob_bytes.simps(2) glob_any_iff)

lemma glob_bytes_doublestar:
  assumes "\<not> prefix ''/'' pat"
  shows "glob_bytes (''**'' @ pat) bs \<longleftrightarrow> (\<exists>u v. bs = u @ v \<and> glob_bytes pat v)"
  using assms by (cases pat) (auto simp: glob_bytes.simps(2) glob_any_iff)

lemma glob_bytes_language: "glob_bytes pat bs \<longleftrightarrow> bs \<in> glob_lang (glob_tokens pat)"
proof (induction pat arbitrary: bs rule: glob_tokens.induct)
  case 1
  then show ?case by simp
next
  case (2 c pat)
  consider (path) pat' where "c # pat = ''**/'' @ pat'"
    | (doublestar) pat' where "c # pat = ''**'' @ pat'" "\<not> prefix ''/'' pat'"
    | (single) "\<not> prefix ''**'' (c # pat)"
  proof (cases "prefix ''**/'' (c # pat)")
    case True
    then show ?thesis using path unfolding prefix_def by blast
  next
    case False
    then show ?thesis
      using doublestar single by (cases pat) (auto simp: prefix_def)
  qed
  then show ?case
  proof cases
    case path
    then show ?thesis using 2(1) by (simp add: glob_bytes_path [simplified])
  next
    case doublestar
    then show ?thesis using 2(2) by (cases pat') (auto simp: glob_bytes_doublestar [simplified])
  next
    case single
    then have "\<not> (c = CHR ''*'' \<and> pat \<noteq> [] \<and> hd pat = CHR ''*'')" by (cases pat) auto
    then have skip: "\<And>a b. (if c = CHR ''*'' \<and> pat \<noteq> [] \<and> hd pat = CHR ''*'' then a else b :: bool) = b"
      by (rule if_not_P)
    have code: "glob_bytes (c # pat) bs \<longleftrightarrow>
        (if c = CHR ''*'' then glob_segment pat bs
         else \<exists>t v. bs = t # v \<and> (if c = CHR ''?'' then t \<noteq> CHR ''/'' else t = c)
                \<and> glob_bytes pat v)"
      unfolding glob_bytes.simps(2) skip by (cases bs) auto
    have npath: "\<not> prefix ''**/'' (c # pat)" using single by (cases pat) auto
    consider "c = CHR ''*''" | "c = CHR ''?''" | "c \<noteq> CHR ''*''" "c \<noteq> CHR ''?''" by blast
    then show ?thesis
    proof cases
      case 1
      then show ?thesis unfolding code using "2.IH"(3) [OF npath single] npath single
        by (simp add: glob_segment_iff)
    next
      case 2
      then show ?thesis unfolding code using "2.IH"(4) [OF npath single] npath single
        by (cases bs) (auto simp: split_Cons)
    next
      case 3
      then show ?thesis unfolding code using "2.IH"(5) [OF npath single] npath single
        by simp
    qed
  qed
qed

lemma glob_match_language: "glob_match pat bs \<longleftrightarrow> bs \<in> glob_lang (glob_tokens pat)"
  by (auto simp: glob_match_def glob_bytes_language)

section \<open>Groups as reachability\<close>

inductive resolves :: "group_table \<Rightarrow> string \<Rightarrow> string \<Rightarrow> bool" for groups where
  plain: "strip_prefix ''group:'' s = None \<Longrightarrow> resolves groups s s"
| member: "map_of groups name = Some g \<Longrightarrow> m \<in> set (pg_members g) \<Longrightarrow> resolves groups m s
    \<Longrightarrow> resolves groups (''group:'' @ name) s"

definition leaf_hit :: "string list \<Rightarrow> string \<Rightarrow> bool" where
  "leaf_hit actor s =
     (strip_prefix ''group:'' s = None \<and> \<not> starts_with s ''@''
      \<and> list_ex (\<lambda>p. eq_ignore_ascii_case s p) actor)"

definition admits :: "group_table \<Rightarrow> string list \<Rightarrow> string \<Rightarrow> bool" where
  "admits groups actor spec = (\<exists>s. resolves groups spec s \<and> leaf_hit actor s)"

definition settled :: "string list \<Rightarrow> string list \<Rightarrow> string \<Rightarrow> bool" where
  "settled actor seen spec =
     (case strip_prefix ''group:'' spec of
        Some name \<Rightarrow> name \<in> set seen
      | None \<Rightarrow> \<not> leaf_hit actor spec)"

definition explored :: "string list \<Rightarrow> group_table \<Rightarrow> string list \<Rightarrow> string list \<Rightarrow> bool" where
  "explored actor groups seen seen' =
     (set seen \<subseteq> set seen' \<and>
      (\<forall>name g m. name \<in> set seen' - set seen \<longrightarrow> map_of groups name = Some g
         \<longrightarrow> m \<in> set (pg_members g) \<longrightarrow> settled actor seen' m))"

lemma strip_group [simp]:
  "strip_prefix ''group:'' (CHR ''g'' # CHR ''r'' # CHR ''o'' # CHR ''u'' # CHR ''p'' # CHR '':'' # s)
     = Some s"
  using strip_prefix_append [of "''group:''" s] by simp

lemma admits_group:
  "map_of groups name = Some g \<Longrightarrow> m \<in> set (pg_members g) \<Longrightarrow> admits groups actor m
     \<Longrightarrow> admits groups actor (''group:'' @ name)"
  unfolding admits_def by (blast intro: resolves.member)

lemma admits_leaf: "leaf_hit actor s \<Longrightarrow> admits groups actor s"
  unfolding admits_def leaf_hit_def by (blast intro: resolves.plain)

lemma settled_mono: "settled actor seen m \<Longrightarrow> set seen \<subseteq> set seen' \<Longrightarrow> settled actor seen' m"
  by (auto simp: settled_def split: option.splits)

lemma explored_trans:
  "explored actor groups a b \<Longrightarrow> explored actor groups b c \<Longrightarrow> explored actor groups a c"
  unfolding explored_def by (metis DiffE DiffI order_trans settled_mono)

lemma principal_matches_sound:
  "fst (principal_matches actor groups spec seen) \<Longrightarrow> admits groups actor spec"
  "fst (members_match actor groups ms seen) \<Longrightarrow> \<exists>m \<in> set ms. admits groups actor m"
proof (induction actor groups spec seen and actor groups ms seen
    rule: principal_matches_members_match.induct)
  case (1 actor groups spec seen)
  then show ?case
    by (auto simp: principal_matches.simps strip_prefix_Some leaf_hit_def admits_leaf
        dest: admits_group [simplified] split: option.splits if_splits)
next
  case (2 actor groups seen)
  then show ?case by simp
next
  case (3 actor groups m ms seen)
  then show ?case by (auto split: prod.splits bool.splits)
qed

lemma principal_matches_explores:
  "principal_matches actor groups spec seen = (False, seen') \<Longrightarrow>
     settled actor seen' spec \<and> explored actor groups seen seen'"
  "members_match actor groups ms seen = (False, seen') \<Longrightarrow>
     (\<forall>m \<in> set ms. settled actor seen' m) \<and> explored actor groups seen seen'"
proof (induction actor groups spec seen and actor groups ms seen arbitrary: seen' and seen'
    rule: principal_matches_members_match.induct)
  case (1 actor groups spec seen)
  show ?case
  proof (cases "strip_prefix ''group:'' spec")
    case None
    then show ?thesis using "1.prems"
      by (auto simp: principal_matches.simps settled_def leaf_hit_def explored_def
          split: if_splits)
  next
    case (Some name)
    consider (seen) "name \<in> set seen" | (missing) "name \<notin> set seen" "map_of groups name = None"
      | (group) g where "name \<notin> set seen" "map_of groups name = Some g" by fastforce
    then show ?thesis
    proof cases
      case group
      then have "members_match actor groups (pg_members g) (name # seen) = (False, seen')"
        using "1.prems" Some by (simp add: principal_matches.simps)
      then have "\<forall>m \<in> set (pg_members g). settled actor seen' m"
        and sub: "explored actor groups (name # seen) seen'"
        using "1.IH" [OF Some group] by auto
      then show ?thesis using Some group by (auto simp: settled_def explored_def)
    qed (use "1.prems" Some in \<open>auto simp: principal_matches.simps settled_def explored_def\<close>)
  qed
next
  case (2 actor groups seen)
  then show ?case by (simp add: explored_def)
next
  case (3 actor groups m ms seen)
  obtain hit s1 where m: "principal_matches actor groups m seen = (hit, s1)" by fastforce
  with "3.prems" have hit: "\<not> hit" and ms: "members_match actor groups ms s1 = (False, seen')"
    by (auto split: bool.splits)
  have one: "settled actor s1 m" "explored actor groups seen s1"
    using "3.IH"(1) m hit by auto
  have rest: "\<forall>x \<in> set ms. settled actor seen' x" "explored actor groups s1 seen'"
    using "3.IH"(2) [OF m [symmetric]] hit ms by auto
  have "settled actor seen' m"
    using one(1) rest(2) settled_mono unfolding explored_def by blast
  then show ?case using rest one(2) explored_trans by auto
qed

lemma resolves_settled:
  assumes "resolves groups spec s" "explored actor groups [] seen" "settled actor seen spec"
  shows "\<not> leaf_hit actor s"
  using assms
proof (induction rule: resolves.induct)
  case (plain s)
  then show ?case by (simp add: settled_def)
next
  case (member name g m s)
  then have "settled actor seen m"
    unfolding explored_def settled_def [of _ _ "''group:'' @ name"] by auto
  then show ?case using member by simp
qed

lemma principal_matches_iff:
  "fst (principal_matches actor groups spec []) \<longleftrightarrow> admits groups actor spec"
proof
  assume "admits groups actor spec"
  then obtain s where "resolves groups spec s" "leaf_hit actor s" by (auto simp: admits_def)
  moreover obtain hit seen where "principal_matches actor groups spec [] = (hit, seen)"
    by fastforce
  ultimately show "fst (principal_matches actor groups spec [])"
    using principal_matches_explores(1) [of actor groups spec "[]" seen] resolves_settled
    by (cases hit) auto
qed (rule principal_matches_sound(1))

section \<open>What a policy says\<close>

text \<open>
  The lists of a rule: some inclusion applies, or there is none, and no exclusion applies.
\<close>

definition included :: "(string \<Rightarrow> bool) \<Rightarrow> (string \<Rightarrow> bool) \<Rightarrow> string list \<Rightarrow> bool" where
  "included inc exc pats =
     (((\<exists>p \<in> set pats. \<not> starts_with p ''^'' \<and> inc p) \<or> (\<forall>p \<in> set pats. starts_with p ''^''))
      \<and> (\<forall>p \<in> set pats. \<forall>r. p = CHR ''^'' # r \<longrightarrow> \<not> exc r))"

definition ref_in :: "string list \<Rightarrow> string \<Rightarrow> bool" where
  "ref_in pats name =
     included (\<lambda>p. name \<in> glob_lang (glob_tokens p)) (\<lambda>p. name \<in> glob_lang (glob_tokens p)) pats"

definition actor_in :: "group_table \<Rightarrow> string list \<Rightarrow> string list \<Rightarrow> bool" where
  "actor_in groups actor pats =
     included (admits groups actor)
       (\<lambda>r. admits groups actor r \<or> (\<exists>name. r = ''group:'' @ name \<and> map_of groups name = None)) pats"

definition forbids ::
  "group_table \<Rightarrow> string list \<Rightarrow> (ref_update \<Rightarrow> bool) \<Rightarrow> policy_rule \<Rightarrow> ref_update \<Rightarrow> bool" where
  "forbids groups actor is_force rule u =
     (\<exists>protect. ef_protect (ru_effect rule) = Some protect
        \<and> ref_in (rm_refs (ru_match rule)) (u_name u)
        \<and> actor_in groups actor (rm_principals (ru_match rule))
        \<and> \<not> (pe_bypass protect \<noteq> [] \<and> actor_in groups actor (pe_bypass protect))
        \<and> op_hit (classify (u_old_oid u) (u_new_oid u))
             (is_force u \<or> starts_with (u_name u) ''refs/tags/'') (restrict_set protect))"

definition forbidden ::
  "repo_policy \<Rightarrow> string list \<Rightarrow> (ref_update \<Rightarrow> bool) \<Rightarrow> ref_update \<Rightarrow> bool" where
  "forbidden policy actor is_force u =
     (\<exists>rule \<in> set (rp_rules policy). forbids (group_table (rp_groups policy)) actor is_force rule u)"

lemma flags_fold:
  assumes "\<And>p a i e. step p (a, i, e) =
    (case strip_prefix ''^'' p of Some r \<Rightarrow> (a, i, e \<or> exc r) | None \<Rightarrow> (True, i \<or> inc p, e))"
  shows "fold step pats (a, i, e) =
    (a \<or> (\<exists>p \<in> set pats. \<not> starts_with p ''^''),
     i \<or> (\<exists>p \<in> set pats. \<not> starts_with p ''^'' \<and> inc p),
     e \<or> (\<exists>r. CHR ''^'' # r \<in> set pats \<and> exc r))"
proof (induction pats arbitrary: a i e)
  case Nil
  then show ?case by simp
next
  case (Cons p pats)
  show ?case
  proof (cases "strip_prefix ''^'' p")
    case None
    then have "\<not> starts_with p ''^''" by (simp add: strip_prefix_def split: if_splits)
    then show ?thesis using Cons None by (auto simp: assms)
  next
    case (Some r)
    then have "p = CHR ''^'' # r" by (simp add: strip_prefix_Some)
    then show ?thesis using Cons Some by (auto simp: assms)
  qed
qed

lemma pattern_list_matches_iff: "pattern_list_matches pats name \<longleftrightarrow> ref_in pats name"
proof -
  have "pattern_step name p (a, i, e) =
      (case strip_prefix ''^'' p of
         Some r \<Rightarrow> (a, i, e \<or> name \<in> glob_lang (glob_tokens r))
       | None \<Rightarrow> (True, i \<or> name \<in> glob_lang (glob_tokens p), e))" for p a i e
    by (simp add: pattern_step_def glob_match_language split: option.splits)
  from flags_fold [OF this] show ?thesis
    by (auto simp: pattern_list_matches_def ref_in_def included_def)
qed

lemma actor_list_matches_iff: "actor_list_matches pats actor groups \<longleftrightarrow> actor_in groups actor pats"
proof -
  have "actor_step actor groups p (a, i, e) =
      (case strip_prefix ''^'' p of
         Some r \<Rightarrow> (a, i, e \<or> admits groups actor r
                            \<or> (\<exists>name. r = ''group:'' @ name \<and> map_of groups name = None))
       | None \<Rightarrow> (True, i \<or> admits groups actor p, e))" for p a i e
    by (auto simp: actor_step_def principal_matches_iff prefix_def split: option.splits)
  from flags_fold [OF this] show ?thesis
    by (auto simp: actor_list_matches_def actor_in_def included_def)
qed

lemma included_Nil [simp]: "included inc exc []"
  by (simp add: included_def)

lemma rule_matches_iff:
  "rule_matches m name actor groups \<longleftrightarrow>
     ref_in (rm_refs m) name \<and> actor_in groups actor (rm_principals m)"
  by (auto simp: rule_matches_def pattern_list_matches_iff actor_list_matches_iff
      ref_in_def [of "[]"] actor_in_def [of _ _ "[]"])

lemma bypasses_iff:
  "bypasses p actor groups \<longleftrightarrow> pe_bypass p \<noteq> [] \<and> actor_in groups actor (pe_bypass p)"
  by (simp add: bypasses_def actor_list_matches_iff)

lemma deny_loop_rule:
  assumes "op = classify (u_old_oid u) (u_new_oid u)"
    and "force = (is_force u \<or> starts_with (u_name u) ''refs/tags/'')"
  shows "deny_loop rules groups actor (u_name u) op force =
    map_option reject_message
      (find (\<lambda>rule. forbids groups actor is_force rule u) rules)"
  using assms
  by (induction rules) (auto simp: forbids_def rule_matches_iff bypasses_iff split: option.splits)

lemma deny_reason_rule:
  "deny_reason policy groups actor u is_force =
    map_option reject_message
      (find (\<lambda>rule. forbids groups actor is_force rule u) (rp_rules policy))"
proof (cases "classify (u_old_oid u) (u_new_oid u) = NoOp")
  case True
  then have "find (\<lambda>rule. forbids groups actor is_force rule u) (rp_rules policy) = None"
    by (simp add: find_None_iff forbids_def op_hit_def)
  then show ?thesis using True by (simp add: deny_reason_def)
next
  case False
  then show ?thesis by (simp add: deny_reason_def deny_loop_rule)
qed

lemma eval_fold:
  "fold (eval_step deny) us (per_ref, allowed) =
     (per_ref @ map (\<lambda>u. (u_name u, case deny u of None \<Rightarrow> Inr () | Some msg \<Rightarrow> Inl msg)) us,
      allowed @ filter (\<lambda>u. deny u = None) us)"
  by (induction us arbitrary: per_ref allowed) (auto simp: eval_step_def split: option.splits)

lemma forbidden_deny:
  "forbidden policy actor is_force u \<longleftrightarrow>
     deny_reason policy (group_table (rp_groups policy)) actor u is_force \<noteq> None"
  by (auto simp: deny_reason_rule find_None_iff forbidden_def)

lemma deny_reason_names:
  assumes "deny_reason policy groups actor u is_force = Some msg"
  shows "\<exists>rule \<in> set (rp_rules policy). forbids groups actor is_force rule u
    \<and> msg = reject_message rule"
proof -
  obtain rule where
    "find (\<lambda>rule. forbids groups actor is_force rule u) (rp_rules policy) = Some rule"
    and "msg = reject_message rule"
    using assms by (auto simp: deny_reason_rule)
  then show ?thesis by (metis find_Some_iff nth_mem)
qed

definition verdict ::
  "repo_policy \<Rightarrow> string list \<Rightarrow> (ref_update \<Rightarrow> bool) \<Rightarrow> ref_update \<Rightarrow> (string, unit) result" where
  "verdict policy actor is_force u =
     (case deny_reason policy (group_table (rp_groups policy)) actor u is_force of
        None \<Rightarrow> Inr () | Some msg \<Rightarrow> Inl msg)"

lemma is_ok_verdict [simp]:
  "is_ok (verdict policy actor is_force u) \<longleftrightarrow> \<not> forbidden policy actor is_force u"
  "verdict policy actor is_force u = Inr () \<longleftrightarrow> \<not> forbidden policy actor is_force u"
  "Inr () = verdict policy actor is_force u \<longleftrightarrow> \<not> forbidden policy actor is_force u"
  by (auto simp: verdict_def forbidden_deny split: option.splits)

lemma evaluate_per_ref:
  "ev_per_ref (evaluate policy actor txn is_force) =
     map (\<lambda>u. (u_name u, verdict policy actor is_force u)) (tx_updates txn)"
  by (simp add: evaluate_def eval_fold Let_def verdict_def)

lemma evaluate_publish:
  "tx_updates (ev_publish (evaluate policy actor txn is_force)) =
     (if tx_atomic txn \<and> (\<exists>u \<in> set (tx_updates txn). forbidden policy actor is_force u) then []
      else filter (\<lambda>u. \<not> forbidden policy actor is_force u) (tx_updates txn))"
proof -
  let ?f = "\<lambda>u. forbidden policy actor is_force u"
  have "list_ex (\<lambda>(_, r). \<not> is_ok r)
      (map (\<lambda>u. (u_name u, verdict policy actor is_force u)) (tx_updates txn))
      \<longleftrightarrow> (\<exists>u \<in> set (tx_updates txn). ?f u)"
    by (auto simp: list_ex_iff)
  then show ?thesis
    by (auto simp: evaluate_def eval_fold Let_def forbidden_deny verdict_def)
qed

text \<open>
  C14. The verdict on a push is the one the policy document describes. An update is forbidden
  when some protect rule selects its ref (in the language of the globs, minus exclusions) and
  the actor (through any nesting of groups), restricts its operation and has no bypass that
  admits the actor. The transaction that goes on to be published holds the updates that are not
  forbidden, in order; an atomic one with a forbidden update holds none. Every ref of the push
  is answered in order: without an error exactly when its update is not forbidden, and else
  with the name of a rule that forbids it.
\<close>

theorem policy_verdict_specified:
  "tx_updates (ev_publish (evaluate policy actor txn is_force)) =
     (if tx_atomic txn \<and> (\<exists>u \<in> set (tx_updates txn). forbidden policy actor is_force u) then []
      else filter (\<lambda>u. \<not> forbidden policy actor is_force u) (tx_updates txn))
   \<and> list_all2 (\<lambda>u (name, r). name = u_name u
        \<and> (is_ok r \<longleftrightarrow> \<not> forbidden policy actor is_force u)
        \<and> (\<forall>msg. r = Inl msg \<longrightarrow>
             (\<exists>rule \<in> set (rp_rules policy).
                forbids (group_table (rp_groups policy)) actor is_force rule u
                \<and> msg = reject_message rule)))
      (tx_updates txn) (ev_per_ref (evaluate policy actor txn is_force))"
proof
  show "list_all2 (\<lambda>u (name, r). name = u_name u
        \<and> (is_ok r \<longleftrightarrow> \<not> forbidden policy actor is_force u)
        \<and> (\<forall>msg. r = Inl msg \<longrightarrow>
             (\<exists>rule \<in> set (rp_rules policy).
                forbids (group_table (rp_groups policy)) actor is_force rule u
                \<and> msg = reject_message rule)))
      (tx_updates txn) (ev_per_ref (evaluate policy actor txn is_force))"
    unfolding evaluate_per_ref list_all2_map2
    by (rule list_all2_refl)
       (auto simp: verdict_def [of policy actor is_force] forbidden_deny
          dest: deny_reason_names split: option.splits)
qed (rule evaluate_publish)

text \<open>The policy of the module's tests: one locked branch and the group that may move it.\<close>

definition lock_main :: repo_policy where
  "lock_main =
     \<lparr>rp_version = 1,
      rp_groups = [\<lparr>pg_name = ''admins'', pg_members = [''alice@example.com''], pg_comment = None\<rparr>],
      rp_rules = [\<lparr>ru_name = ''lock-main'',
        ru_match = \<lparr>rm_refs = [''refs/heads/main''], rm_principals = [], rm_paths = [],
                    rm_comment = None\<rparr>,
        ru_effect = \<lparr>ef_protect = Some \<lparr>pe_restricts = Some [R_Delete, R_ForcePush],
                                         pe_bypass = [''group:admins''], pe_comment = None\<rparr>,
                     ef_history = None, ef_size = None, ef_comment = None\<rparr>,
        ru_mode = None, ru_comment = None\<rparr>],
      rp_comment = None\<rparr>"

definition drop_main :: ref_update where
  "drop_main = \<lparr>u_name = ''refs/heads/main'', u_old_oid = ''a'', u_new_oid = [],
                u_new_symbolic_target = [], u_new_peeled = []\<rparr>"

definition drop_txn :: ref_transaction where
  "drop_txn = \<lparr>tx_updates = [drop_main], tx_push_options = [], tx_atomic = False\<rparr>"

theorem policy_verdict_specified_witness:
  "forbidden lock_main [''bob''] (\<lambda>_. False) drop_main
   \<and> \<not> forbidden lock_main [''ALICE@example.com''] (\<lambda>_. False) drop_main"
proof -
  have "ev_per_ref (evaluate lock_main [''bob''] drop_txn (\<lambda>_. False)) =
      [(''refs/heads/main'', Inl (''rejected by rule '' @ [CHR 0x27] @ ''lock-main'' @ [CHR 0x27]))]"
    by code_simp
  moreover have "ev_per_ref (evaluate lock_main [''ALICE@example.com''] drop_txn (\<lambda>_. False)) =
      [(''refs/heads/main'', Inr ())]"
    by code_simp
  moreover have "tx_updates drop_txn = [drop_main]" by (simp add: drop_txn_def)
  ultimately show ?thesis
    using policy_verdict_specified [of lock_main "[''bob'']" drop_txn "\<lambda>_. False"]
      policy_verdict_specified [of lock_main "[''ALICE@example.com'']" drop_txn "\<lambda>_. False"]
    by simp
qed

text \<open>Two rules whose patterns cross.\<close>

definition crossing_rule :: "string \<Rightarrow> string \<Rightarrow> string \<Rightarrow> policy_rule" where
  "crossing_rule name pat bypass =
     \<lparr>ru_name = name,
      ru_match = \<lparr>rm_refs = [pat], rm_principals = [], rm_paths = [], rm_comment = None\<rparr>,
      ru_effect = \<lparr>ef_protect = Some \<lparr>pe_restricts = None, pe_bypass = [bypass],
                                       pe_comment = None\<rparr>,
                   ef_history = None, ef_size = None, ef_comment = None\<rparr>,
      ru_mode = None, ru_comment = None\<rparr>"

definition crossing :: repo_policy where
  "crossing =
     \<lparr>rp_version = 1, rp_groups = [],
      rp_rules = [crossing_rule ''first'' ''refs/heads/a*'' ''ci'',
                  crossing_rule ''second'' ''refs/heads/*b'' ''queue''],
      rp_comment = None\<rparr>"

definition create_ab :: ref_update where
  "create_ab = \<lparr>u_name = ''refs/heads/ab'', u_old_oid = [], u_new_oid = ''a'',
                u_new_symbolic_target = [], u_new_peeled = []\<rparr>"

lemma crossing_admits:
  assumes "\<not> starts_with pat ''group:''" "\<not> starts_with pat ''^''" "\<not> starts_with pat ''@''"
  shows "actor_in groups [name] [pat] \<longleftrightarrow> eq_ignore_ascii_case pat name"
proof -
  have "strip_prefix ''group:'' pat = None" using assms(1) by (simp add: strip_prefix_def)
  then have "admits groups [name] pat \<longleftrightarrow> eq_ignore_ascii_case pat name"
    using assms(3) by (simp add: principal_matches_iff [symmetric] principal_matches.simps)
  then show ?thesis using assms(2) by (auto simp: actor_in_def included_def)
qed

lemma crossing_verdict:
  assumes "pattern_list_matches [pat] ''refs/heads/ab''"
    and "\<not> starts_with bypass ''group:''" "\<not> starts_with bypass ''^''" "\<not> starts_with bypass ''@''"
  shows "forbids groups [name] is_force (crossing_rule rule pat bypass) create_ab
    \<longleftrightarrow> \<not> eq_ignore_ascii_case bypass name"
  using assms(1) crossing_admits [OF assms(2-)]
  by (simp add: forbids_def crossing_rule_def create_ab_def pattern_list_matches_iff
      actor_in_def [of _ _ "[]"] op_hit_def classify_def restrict_set_def)

text \<open>
  The load-time check for locked-out branches misses some. It takes two glob patterns to
  overlap only when one matches the other without its trailing stars, so two rules over
  \<open>refs/heads/a*\<close> and \<open>refs/heads/*b\<close> with disjoint bypass lists pass validation, and then
  nobody at all may create \<open>refs/heads/ab\<close>, neither the actor the first rule exempts nor the
  one the second does.
\<close>

lemma overlap_check_misses_lockout:
  "repo_policy_validate crossing = Inr ()
   \<and> (\<forall>name. forbidden crossing [name] (\<lambda>_. False) create_ab)"
proof
  show "repo_policy_validate crossing = Inr ()" by code_simp
  have one: "pattern_list_matches [''refs/heads/a*''] ''refs/heads/ab''" by code_simp
  have two: "pattern_list_matches [''refs/heads/*b''] ''refs/heads/ab''" by code_simp
  have "\<not> eq_ignore_ascii_case ''ci'' name \<or> \<not> eq_ignore_ascii_case ''queue'' name" for name
    by (auto simp: eq_ignore_ascii_case_def to_ascii_lowercase_def dest: map_eq_imp_length_eq)
  then show "\<forall>name. forbidden crossing [name] (\<lambda>_. False) create_ab"
    by (auto simp: forbidden_def crossing_def crossing_verdict [OF one] crossing_verdict [OF two])
qed

section \<open>Saving and loading\<close>

lemma parse_bytes_valid: "parse_bytes from_slice b = Inr p \<Longrightarrow> repo_policy_validate p = Inr ()"
  by (auto simp: parse_bytes_def split: sum.splits)

lemma empty_valid [simp]: "repo_policy_validate repo_policy_empty = Inr ()"
  by (simp add: repo_policy_validate_def repo_policy_empty_def check_overlap_bypass_def)

context versioned_store
begin

lemma policy_load_view:
  "policy_load S from_slice rid s =
     (case view s (policy_store_key rid) of
        None \<Rightarrow> Inr repo_policy_empty
      | Some (v, d) \<Rightarrow> parse_bytes from_slice d, s)"
proof (cases "view s (policy_store_key rid)")
  case None
  then show ?thesis
    using get_absent [of s "policy_store_key rid" default_get] by (auto simp: policy_load_def)
next
  case (Some vd)
  then show ?thesis
    by (cases vd) (simp add: policy_load_def get_present get_result_bytes_def)
qed

lemma policy_load_valid:
  "policy_load S from_slice rid s = (Inr p, s') \<Longrightarrow> s' = s \<and> repo_policy_validate p = Inr ()"
  by (auto simp: policy_load_view dest: parse_bytes_valid split: option.splits)

text \<open>A saved policy is loaded again, and no other repository's policy changes.\<close>

lemma policy_save_load:
  assumes "repo_policy_validate p = Inr ()" "to_vec_pretty p = Inr body" "from_slice body = Inr p"
  obtains s' where "policy_save S to_vec_pretty rid p s = (Inr (), s')"
    and "policy_load S from_slice rid s' = (Inr p, s')"
    and "\<And>rid'. policy_store_key rid' \<noteq> policy_store_key rid \<Longrightarrow>
      fst (policy_load S from_slice rid' s') = fst (policy_load S from_slice rid' s)"
proof -
  obtain v s' where put: "os_put S (policy_store_key rid) (PutBytes body) (put_options_from Overwrite) s
      = (Inr (object_meta_of (policy_store_key rid) (v, body)), s')"
    and view: "view s' = (view s)(policy_store_key rid \<mapsto> (v, body))"
    using put_accepted [of "put_options_from Overwrite" s "policy_store_key rid" body]
    by (auto simp: put_allowed_def)
  show ?thesis
  proof
    show "policy_save S to_vec_pretty rid p s = (Inr (), s')"
      using assms(1,2) put by (simp add: policy_save_def)
    show "policy_load S from_slice rid s' = (Inr p, s')"
      using assms by (simp add: policy_load_view view parse_bytes_def)
  qed (simp add: policy_load_view view)
qed

lemma policy_clear_load:
  obtains s' where "policy_clear S rid s = (Inr (), s')"
    and "policy_load S from_slice rid s' = (Inr repo_policy_empty, s')"
proof (cases "view s (policy_store_key rid)")
  case None
  then show ?thesis using that [of s]
    by (simp add: policy_clear_def delete_absent policy_load_view)
next
  case (Some vd)
  then obtain s' where "os_delete S (policy_store_key rid) None s = (Inr (), s')"
    "view s' = (view s)(policy_store_key rid := None)"
    using delete_accepted [of s "policy_store_key rid" "fst vd" "snd vd" None] by auto
  then show ?thesis using that [of s'] by (simp add: policy_clear_def policy_load_view)
qed

end

end
