(* ===== verification/Pkt.thy ===== *)
theory Pkt
  imports Refs
begin

text \<open>
  The Git wire protocol: pkt-lines, the sideband, protocol-v2 commands
  (\<open>walgit-git/src/pkt.rs\<close>) and the receive-pack request and report
  (\<open>walgit-git/src/receive.rs\<close>). A reader is the bytes it has left, a writer the bytes it has
  written; errors of the underlying socket are left out, an early end of input is not. A
  \<open>HashMap\<close> is an ordered map.

  The lemmas: what the writers frame, the readers give back and no more is consumed; whatever a
  client sends, the updates of an accepted request are valid and the rest is left for the pack.
\<close>

section \<open>Text from bytes\<close>

text \<open>
  \<open>String::from_utf8_lossy\<close>: \<open>utf8_step\<close> is the length of the next character, or of the
  longest invalid sequence to replace by U+FFFD.
\<close>

definition in_range :: "nat \<Rightarrow> nat \<Rightarrow> string \<Rightarrow> nat \<Rightarrow> bool" where
  "in_range lo hi s i \<longleftrightarrow> i < length s \<and> lo \<le> of_char (s ! i) \<and> of_char (s ! i) \<le> hi"

definition utf8_step :: "string \<Rightarrow> bool \<times> nat" where
  "utf8_step s =
     (let b = (case s of [] \<Rightarrow> 0 | c # _ \<Rightarrow> of_char c) :: nat;
          cont = in_range 0x80 0xBF s
      in if b < 0x80 then (True, 1)
         else if 0xC2 \<le> b \<and> b \<le> 0xDF then (if cont 1 then (True, 2) else (False, 1))
         else if 0xE0 \<le> b \<and> b \<le> 0xEF then
           (let second = (if b = 0xE0 then in_range 0xA0 0xBF s 1
                          else if b = 0xED then in_range 0x80 0x9F s 1 else cont 1)
            in if \<not> second then (False, 1) else if \<not> cont 2 then (False, 2) else (True, 3))
         else if 0xF0 \<le> b \<and> b \<le> 0xF4 then
           (let second = (if b = 0xF0 then in_range 0x90 0xBF s 1
                          else if b = 0xF4 then in_range 0x80 0x8F s 1 else cont 1)
            in if \<not> second then (False, 1) else if \<not> cont 2 then (False, 2)
               else if \<not> cont 3 then (False, 3) else (True, 4))
         else (False, 1))"

lemma utf8_step_pos: "0 < snd (utf8_step s)"
  by (auto simp: utf8_step_def Let_def)

definition REPLACEMENT :: string where
  "REPLACEMENT = [char_of (0xEF :: nat), char_of (0xBF :: nat), char_of (0xBD :: nat)]"

function from_utf8_lossy :: "bytes \<Rightarrow> string" where
  "from_utf8_lossy s =
     (if s = [] then []
      else let (ok, n) = utf8_step s
           in (if ok then take n s else REPLACEMENT) @ from_utf8_lossy (drop n s))"
  by pat_completeness auto
termination
proof (relation "measure length", simp, goal_cases)
  case (1 s x ok n)
  then have "n = snd (utf8_step s)" by (metis snd_conv)
  then show ?case using 1 utf8_step_pos [of s] by (cases s) auto
qed

declare from_utf8_lossy.simps [simp del]

definition is_ascii :: "string \<Rightarrow> bool" where
  "is_ascii s \<longleftrightarrow> list_all (\<lambda>c. of_char c < (128 :: nat)) s"

lemma from_utf8_lossy_ascii: "is_ascii s \<Longrightarrow> from_utf8_lossy s = s"
proof (induction s)
  case Nil
  then show ?case by (simp add: from_utf8_lossy.simps)
next
  case (Cons c s)
  then show ?case by (subst from_utf8_lossy.simps) (simp add: is_ascii_def utf8_step_def)
qed

section \<open>Pkt-lines\<close>

definition MAX_PKT_DATA :: nat where "MAX_PKT_DATA = 65516"

datatype pkt_line = PktData bytes | PktFlush | PktDelim | PktResponseEnd

definition as_data :: "pkt_line \<Rightarrow> bytes option" where
  "as_data l = (case l of PktData b \<Rightarrow> Some b | _ \<Rightarrow> None)"

datatype protocol = V0 | V2

definition is_ascii_whitespace :: "char \<Rightarrow> bool" where
  "is_ascii_whitespace c \<longleftrightarrow> c \<in> {CHR '' '', CHR 0x09, CHR 0x0A, CHR 0x0C, CHR 0x0D}"

fun split_by :: "(char \<Rightarrow> bool) \<Rightarrow> string \<Rightarrow> string list" where
  "split_by P [] = [[]]"
| "split_by P (x # xs) =
     (if P x then [] # split_by P xs
      else (case split_by P xs of [] \<Rightarrow> [[x]] | p # ps \<Rightarrow> (x # p) # ps))"

definition from_git_protocol_header :: "string option \<Rightarrow> protocol" where
  "from_git_protocol_header header =
     (case header of
        None \<Rightarrow> V0
      | Some h \<Rightarrow>
          if list_ex (\<lambda>part. to_ascii_lowercase (trim part) = ''version=2'')
               (split_by (\<lambda>c. c = CHR '';'' \<or> is_ascii_whitespace c) h)
          then V2 else V0)"

definition git_protocol_env :: "protocol \<Rightarrow> string" where
  "git_protocol_env p = (case p of V2 \<Rightarrow> ''version=2'' | V0 \<Rightarrow> ''version=0'')"

definition hex_value :: "char \<Rightarrow> nat option" where
  "hex_value b =
     (if CHR ''0'' \<le> b \<and> b \<le> CHR ''9'' then Some (of_char b - of_char (CHR ''0''))
      else if CHR ''a'' \<le> b \<and> b \<le> CHR ''f'' then Some (of_char b - of_char (CHR ''a'') + 10)
      else if CHR ''A'' \<le> b \<and> b \<le> CHR ''F'' then Some (of_char b - of_char (CHR ''A'') + 10)
      else None)"

fun parse_pkt_len_loop :: "string \<Rightarrow> nat \<Rightarrow> (git_error, nat) result" where
  "parse_pkt_len_loop [] val = Inr val"
| "parse_pkt_len_loop (b # bs) val =
     (case hex_value b of
        None \<Rightarrow> Inl (GitProtocol (''non-hex pkt-line char 0x'' @ digits 16 (of_char b)))
      | Some d \<Rightarrow> parse_pkt_len_loop bs (val * 16 + d))"

definition parse_pkt_len :: "string \<Rightarrow> (git_error, nat) result" where
  "parse_pkt_len hdr = parse_pkt_len_loop hdr 0"

definition read_pkt_line :: "bytes \<Rightarrow> (git_error, pkt_line option \<times> bytes) result" where
  "read_pkt_line r =
     (let hdr = take 4 r; rest = drop 4 r in
      if hdr = [] then Inr (None, rest)
      else if length hdr < 4 then Inl (GitProtocol ''short pkt-line header'')
      else case parse_pkt_len hdr of
        Inl e \<Rightarrow> Inl e
      | Inr len \<Rightarrow>
          if len = 0 then Inr (Some PktFlush, rest)
          else if len = 1 then Inr (Some PktDelim, rest)
          else if len = 2 then Inr (Some PktResponseEnd, rest)
          else if len < 4 then Inl (GitProtocol (''invalid pkt-line length '' @ show_nat len))
          else if length rest < len - 4 then Inl (GitIo ''early eof'')
          else Inr (Some (PktData (take (len - 4) rest)), drop (len - 4) rest))"

lemma read_pkt_line_shrinks: "read_pkt_line r = Inr (Some l, rest) \<Longrightarrow> length rest < length r"
  by (auto simp: read_pkt_line_def Let_def split: if_splits sum.splits)

section \<open>Writing\<close>

definition pkt_len_hex :: "nat \<Rightarrow> string" where
  "pkt_len_hex len = show_hex_pad 4 len"

function chunks :: "nat \<Rightarrow> 'a list \<Rightarrow> 'a list list" where
  "chunks n xs = (if xs = [] \<or> n = 0 then [] else take n xs # chunks n (drop n xs))"
  by pat_completeness auto
termination by (relation "measure (\<lambda>(_, xs). length xs)") auto

declare chunks.simps [simp del]

definition write_pkt_line :: "bytes \<Rightarrow> bytes" where
  "write_pkt_line d =
     (if d = [] then ''0004''
      else concat (map (\<lambda>c. pkt_len_hex (length c + 4) @ c) (chunks MAX_PKT_DATA d)))"

definition write_flush :: bytes where "write_flush = ''0000''"
definition write_delim :: bytes where "write_delim = ''0001''"
definition write_response_end :: bytes where "write_response_end = ''0002''"

definition write_channel :: "nat \<Rightarrow> bytes \<Rightarrow> bytes" where
  "write_channel channel buf =
     (if buf = [] then pkt_len_hex (4 + 1) @ [char_of channel]
      else concat (map (\<lambda>c. pkt_len_hex (length c + 4 + 1) @ [char_of channel] @ c)
             (chunks (MAX_PKT_DATA - 1) buf)))"

text \<open>\<open>encode_data\<close>: each digit of the length is masked to four bits.\<close>

definition encode_data :: "bytes \<Rightarrow> bytes" where
  "encode_data d =
     (let total = length d + 4 in
      [digit_char (total div 4096 mod 16), digit_char (total div 256 mod 16),
       digit_char (total div 16 mod 16), digit_char (total mod 16)] @ d)"

definition encode_section :: "string \<Rightarrow> string list \<Rightarrow> bytes" where
  "encode_section section lines =
     encode_data (section @ [CHR 0x0A]) @ concat (map encode_data lines) @ write_flush"

section \<open>Protocol v2 commands\<close>

record v2_command =
  vc_name :: string
  vc_caps :: "(string, string) btree"
  vc_args :: "string list"

definition has_cap :: "v2_command \<Rightarrow> string \<Rightarrow> bool" where
  "has_cap cmd key \<longleftrightarrow> bt_get (vc_caps cmd) key \<noteq> None"

definition command_line :: "bytes \<Rightarrow> v2_command \<times> bool \<Rightarrow> v2_command \<times> bool" where
  "command_line b st =
     (case st of (cmd, saw_name) \<Rightarrow>
        let s = trim_end (from_utf8_lossy b) in
        case strip_prefix ''command='' s of
          Some rest \<Rightarrow> (cmd \<lparr>vc_name := rest\<rparr>, True)
        | None \<Rightarrow>
            (case split_once (CHR ''='') s of
               Some (k, v) \<Rightarrow>
                 (cmd \<lparr>vc_args := (if k = ''server-option'' then vc_args cmd @ [s] else vc_args cmd),
                       vc_caps := bt_insert k v (vc_caps cmd)\<rparr>, saw_name)
             | None \<Rightarrow>
                 (cmd \<lparr>vc_caps := (if s \<noteq> [] \<and> CHR '' '' \<notin> set s \<and> bt_get (vc_caps cmd) s = None
                                   then bt_insert s [] (vc_caps cmd) else vc_caps cmd),
                       vc_args := vc_args cmd @ [s]\<rparr>, saw_name)))"

function read_command_loop ::
  "bytes \<Rightarrow> v2_command \<times> bool \<Rightarrow> (git_error, (v2_command \<times> bool) \<times> bytes) result" where
  "read_command_loop r st =
     (case read_pkt_line r of
        Inl e \<Rightarrow> Inl e
      | Inr (None, rest) \<Rightarrow> Inr (st, rest)
      | Inr (Some (PktData b), rest) \<Rightarrow> read_command_loop rest (command_line b st)
      | Inr (Some _, rest) \<Rightarrow> Inr (st, rest))"
  by pat_completeness auto
termination
  by (relation "measure (\<lambda>(r, _). length r)") (auto dest: read_pkt_line_shrinks)

declare read_command_loop.simps [simp del]

definition read_command :: "bytes \<Rightarrow> (git_error, v2_command \<times> bytes) result" where
  "read_command r =
     (case read_command_loop r (\<lparr>vc_name = [], vc_caps = [], vc_args = []\<rparr>, False) of
        Inl e \<Rightarrow> Inl e
      | Inr ((cmd, saw_name), rest) \<Rightarrow>
          if \<not> saw_name \<and> vc_name cmd = [] then Inl (GitProtocol ''v2 request missing command='')
          else Inr (cmd, rest))"

record ls_refs_request =
  lr_prefixes :: "string list"
  lr_symrefs :: bool
  lr_peel :: bool
  lr_unborn :: bool

definition parse_ls_refs_line :: "string \<Rightarrow> ls_refs_request \<Rightarrow> ls_refs_request" where
  "parse_ls_refs_line line req =
     (case strip_prefix ''ref-prefix '' line of
        Some p \<Rightarrow> req \<lparr>lr_prefixes := lr_prefixes req @ [p]\<rparr>
      | None \<Rightarrow>
          (case strip_prefix ''ref-prefix='' line of
             Some p \<Rightarrow> req \<lparr>lr_prefixes := lr_prefixes req @ [p]\<rparr>
           | None \<Rightarrow>
               if line = ''symrefs'' then req \<lparr>lr_symrefs := True\<rparr>
               else if line = ''peel'' then req \<lparr>lr_peel := True\<rparr>
               else if line = ''unborn'' then req \<lparr>lr_unborn := True\<rparr>
               else req))"

definition parse_ls_refs :: "v2_command \<Rightarrow> ls_refs_request" where
  "parse_ls_refs cmd =
     fold (\<lambda>(key, value) req.
         if key = ''ref-prefix'' \<and> value \<noteq> [] then req \<lparr>lr_prefixes := lr_prefixes req @ [value]\<rparr>
         else if value = [] then parse_ls_refs_line key req else req)
       (vc_caps cmd)
       (fold parse_ls_refs_line (vc_args cmd)
         \<lparr>lr_prefixes = [], lr_symrefs = False, lr_peel = False, lr_unborn = False\<rparr>)"

function read_ls_refs_args :: "bytes \<Rightarrow> ls_refs_request \<Rightarrow> (git_error, ls_refs_request) result" where
  "read_ls_refs_args r req =
     (case read_pkt_line r of
        Inl e \<Rightarrow> Inl e
      | Inr (Some (PktData d), rest) \<Rightarrow>
          read_ls_refs_args rest (parse_ls_refs_line (trim_end (from_utf8_lossy d)) req)
      | Inr (Some PktDelim, rest) \<Rightarrow> read_ls_refs_args rest req
      | Inr (_, rest) \<Rightarrow> Inr req)"
  by pat_completeness auto
termination
  by (relation "measure (\<lambda>(r, _). length r)") (auto dest: read_pkt_line_shrinks)

declare read_ls_refs_args.simps [simp del]

definition parse_object_info :: "v2_command \<Rightarrow> string list" where
  "parse_object_info cmd = List.map_filter (strip_prefix ''oid '') (vc_args cmd)"

section \<open>Receive-pack requests (receive.rs)\<close>

record receive_caps =
  rc_report_status :: bool
  rc_report_status_v2 :: bool
  rc_side_band_64k :: bool
  rc_atomic :: bool
  rc_quiet :: bool
  rc_push_options :: bool
  rc_ofs_delta :: bool
  rc_agent :: "string option"
  rc_object_format :: "string option"
  rc_shallow :: "string list"

definition default_caps :: receive_caps where
  "default_caps = \<lparr>rc_report_status = False, rc_report_status_v2 = False, rc_side_band_64k = False,
     rc_atomic = False, rc_quiet = False, rc_push_options = False, rc_ofs_delta = False,
     rc_agent = None, rc_object_format = None, rc_shallow = []\<rparr>"

definition apply_cap :: "string \<Rightarrow> receive_caps \<Rightarrow> receive_caps" where
  "apply_cap tok caps =
     (if tok = ''report-status'' then caps \<lparr>rc_report_status := True\<rparr>
      else if tok = ''report-status-v2'' then caps \<lparr>rc_report_status_v2 := True\<rparr>
      else if tok = ''side-band-64k'' then caps \<lparr>rc_side_band_64k := True\<rparr>
      else if tok = ''atomic'' then caps \<lparr>rc_atomic := True\<rparr>
      else if tok = ''quiet'' then caps \<lparr>rc_quiet := True\<rparr>
      else if tok = ''push-options'' then caps \<lparr>rc_push_options := True\<rparr>
      else if tok = ''ofs-delta'' then caps \<lparr>rc_ofs_delta := True\<rparr>
      else case split_once (CHR ''='') tok of
        Some (k, v) \<Rightarrow>
          if k = ''agent'' then caps \<lparr>rc_agent := Some v\<rparr>
          else if k = ''object-format'' then caps \<lparr>rc_object_format := Some v\<rparr>
          else caps
      | None \<Rightarrow> caps)"

definition apply_caps :: "string \<Rightarrow> receive_caps \<Rightarrow> receive_caps" where
  "apply_caps s caps =
     fold (\<lambda>tok caps. if trim tok = [] then caps else apply_cap (trim tok) caps)
       (split_by (\<lambda>c. c = CHR '' '' \<or> c = CHR 0x0A) s) caps"

text \<open>\<open>str::trim_end_matches\<close> for a newline.\<close>

definition trim_newlines :: "string \<Rightarrow> string" where
  "trim_newlines s = rev (dropWhile (\<lambda>c. c = CHR 0x0A) (rev s))"

definition parse_command_line :: "bytes \<Rightarrow> (git_error, ref_update \<times> string) result" where
  "parse_command_line b =
     (let (cmd_bytes, caps_bytes) = (case split_once (CHR 0x00) b of Some (c, d) \<Rightarrow> (c, d) | None \<Rightarrow> (b, []));
          s = trim_newlines (from_utf8_lossy cmd_bytes)
      in case split_once (CHR '' '') s of
           None \<Rightarrow> Inl (GitProtocol ''missing new oid'')
         | Some (old, s1) \<Rightarrow>
             (case split_once (CHR '' '') s1 of
                None \<Rightarrow> Inl (GitProtocol ''missing ref name'')
              | Some (new, name) \<Rightarrow>
                  (let u = \<lparr>u_name = name, u_old_oid = old, u_new_oid = new, u_new_symbolic_target = [],
                            u_new_peeled = []\<rparr>
                   in case validate_ref_update u of
                        Inl e \<Rightarrow> Inl e
                      | Inr _ \<Rightarrow> Inr (u, from_utf8_lossy caps_bytes))))"

definition shallow_oid :: "bytes \<Rightarrow> string option" where
  "shallow_oid b = map_option (\<lambda>rest. trim (from_utf8_lossy rest)) (strip_prefix ''shallow '' b)"

definition add_shallow :: "string \<Rightarrow> receive_caps \<Rightarrow> receive_caps" where
  "add_shallow oid caps = caps \<lparr>rc_shallow := rc_shallow caps @ [oid]\<rparr>"

function parse_first :: "bytes \<Rightarrow> receive_caps \<Rightarrow> (git_error, pkt_line option \<times> receive_caps \<times> bytes) result" where
  "parse_first r caps =
     (case read_pkt_line r of
        Inl e \<Rightarrow> Inl e
      | Inr (Some (PktData b), rest) \<Rightarrow>
          (case shallow_oid b of
             Some oid \<Rightarrow> parse_first rest (add_shallow oid caps)
           | None \<Rightarrow> Inr (Some (PktData b), caps, rest))
      | Inr (other, rest) \<Rightarrow> Inr (other, caps, rest))"
  by pat_completeness auto
termination
  by (relation "measure (\<lambda>(r, _). length r)") (auto dest: read_pkt_line_shrinks)

declare parse_first.simps [simp del]

function parse_commands ::
  "bytes \<Rightarrow> ref_update list \<Rightarrow> receive_caps \<Rightarrow> (git_error, ref_update list \<times> receive_caps \<times> bytes) result" where
  "parse_commands r updates caps =
     (case read_pkt_line r of
        Inl e \<Rightarrow> Inl e
      | Inr (Some (PktData b), rest) \<Rightarrow>
          (case shallow_oid b of
             Some oid \<Rightarrow> parse_commands rest updates (add_shallow oid caps)
           | None \<Rightarrow>
               (case parse_command_line b of
                  Inl e \<Rightarrow> Inl e
                | Inr (u, _) \<Rightarrow> parse_commands rest (updates @ [u]) caps))
      | Inr (_, rest) \<Rightarrow> Inr (updates, caps, rest))"
  by pat_completeness auto
termination
  by (relation "measure (\<lambda>(r, _). length r)") (auto dest: read_pkt_line_shrinks)

declare parse_commands.simps [simp del]

function parse_push_options :: "bytes \<Rightarrow> string list \<Rightarrow> (git_error, string list \<times> bytes) result" where
  "parse_push_options r opts =
     (case read_pkt_line r of
        Inl e \<Rightarrow> Inl e
      | Inr (Some (PktData b), rest) \<Rightarrow> parse_push_options rest (opts @ [trim_newlines (from_utf8_lossy b)])
      | Inr (_, rest) \<Rightarrow> Inr (opts, rest))"
  by pat_completeness auto
termination
  by (relation "measure (\<lambda>(r, _). length r)") (auto dest: read_pkt_line_shrinks)

declare parse_push_options.simps [simp del]

definition receive_parse :: "bytes \<Rightarrow> (git_error, ref_transaction \<times> receive_caps \<times> bytes) result" where
  "receive_parse r =
     (case parse_first r default_caps of
        Inl e \<Rightarrow> Inl e
      | Inr (None, caps, rest) \<Rightarrow>
          Inr (\<lparr>tx_updates = [], tx_push_options = [], tx_atomic = False\<rparr>, caps, rest)
      | Inr (Some PktFlush, caps, rest) \<Rightarrow>
          Inr (\<lparr>tx_updates = [], tx_push_options = [], tx_atomic = False\<rparr>, caps, rest)
      | Inr (Some (PktData b), caps, rest) \<Rightarrow>
          (case parse_command_line b of
             Inl e \<Rightarrow> Inl e
           | Inr (u, cap_str) \<Rightarrow>
               (let caps1 = apply_caps cap_str caps in
                case parse_commands rest [u] caps1 of
                  Inl e \<Rightarrow> Inl e
                | Inr (updates, caps2, rest2) \<Rightarrow>
                    if rc_push_options caps2
                    then (case parse_push_options rest2 [] of
                            Inl e \<Rightarrow> Inl e
                          | Inr (opts, rest3) \<Rightarrow>
                              Inr (\<lparr>tx_updates = updates, tx_push_options = opts, tx_atomic = rc_atomic caps1\<rparr>,
                                   caps2, rest3))
                    else Inr (\<lparr>tx_updates = updates, tx_push_options = [], tx_atomic = rc_atomic caps1\<rparr>,
                              caps2, rest2)))
      | Inr (Some _, caps, rest) \<Rightarrow> Inl (GitProtocol ''unexpected delim before commands''))"

section \<open>Report-status\<close>

fun split_inclusive :: "char \<Rightarrow> bytes \<Rightarrow> bytes list" where
  "split_inclusive c [] = []"
| "split_inclusive c (x # xs) =
     (if x = c then [x] # split_inclusive c xs
      else (case split_inclusive c xs of [] \<Rightarrow> [[x]] | p # ps \<Rightarrow> (x # p) # ps))"

definition unpack_line :: "(string, unit) result \<Rightarrow> bytes" where
  "unpack_line unpack =
     (case unpack of Inr _ \<Rightarrow> ''unpack ok'' | Inl msg \<Rightarrow> ''unpack ng '' @ msg) @ [CHR 0x0A]"

definition ref_line :: "string \<times> (string, unit) result \<Rightarrow> bytes" where
  "ref_line pr =
     (case pr of (name, res) \<Rightarrow>
        (case res of Inr _ \<Rightarrow> ''ok '' @ name | Inl msg \<Rightarrow> ''ng '' @ name @ '' '' @ msg) @ [CHR 0x0A])"

definition report_status ::
  "receive_caps \<Rightarrow> (string, unit) result \<Rightarrow> (string \<times> (string, unit) result) list \<Rightarrow> bytes" where
  "report_status caps unpack per_ref =
     (let body = unpack_line unpack @ concat (map ref_line per_ref);
          framed = concat (map encode_data (split_inclusive (CHR 0x0A) body)) @ write_flush
      in if rc_side_band_64k caps then write_channel 1 framed @ write_flush else framed)"

definition txn_from_snapshot :: "ref_snapshot_data \<Rightarrow> ref_transaction" where
  "txn_from_snapshot snap =
     \<lparr>tx_updates =
        map (\<lambda>r. \<lparr>u_name = r_name r, u_old_oid = [], u_new_oid = r_oid r, u_new_symbolic_target = [],
                  u_new_peeled = []\<rparr>) (rsd_refs snap) @
        (if rsd_head_target snap \<noteq> []
         then [\<lparr>u_name = ''HEAD'', u_old_oid = [], u_new_oid = [],
                u_new_symbolic_target = rsd_head_target snap, u_new_peeled = []\<rparr>] else []),
      tx_push_options = [], tx_atomic = True\<rparr>"

section \<open>Frames\<close>

lemma hex_value_digit: "d < 16 \<Longrightarrow> hex_value (digit_char d) = Some d"
proof -
  have "\<forall>d \<in> set [0..<16]. hex_value (digit_char d) = Some d" by code_simp
  then show "d < 16 \<Longrightarrow> hex_value (digit_char d) = Some d" by simp
qed

lemma parse_pkt_len_digits:
  "digit_str 16 s \<Longrightarrow> parse_pkt_len_loop s v = Inr (v * 16 ^ length s + digits_val 16 s)"
proof (induction s arbitrary: v)
  case Nil
  then show ?case by (simp add: digits_val_def)
next
  case (Cons c s)
  then obtain d where "d < 16" "c = digit_char d" by auto
  then show ?case using Cons by (simp add: hex_value_digit digits_val_Cons algebra_simps)
qed

lemma zero_digit: "CHR ''0'' = digit_char 0"
  by code_simp

lemma pkt_len_hex_parse:
  assumes "n < 65536"
  shows "length (pkt_len_hex n) = 4" "parse_pkt_len (pkt_len_hex n) = Inr n"
proof -
  show len: "length (pkt_len_hex n) = 4"
    using digits_length [of 16 4 n] assms by (simp add: pkt_len_hex_def show_hex_pad_def pad_left_def)
  have "digit_str 16 (pkt_len_hex n)"
    by (auto simp: pkt_len_hex_def show_hex_pad_def pad_left_def digit_str_digits digit_str_def [of 16 "replicate _ _"]
        list_all_iff zero_digit intro: exI [of _ 0])
  then show "parse_pkt_len (pkt_len_hex n) = Inr n"
    by (simp add: parse_pkt_len_def parse_pkt_len_digits) (simp add: pkt_len_hex_def show_hex_pad_def digits_val_digits)
qed

lemma read_frame:
  assumes "length h = 4" "parse_pkt_len h = Inr (length d + 4)"
  shows "read_pkt_line (h @ d @ rest) = Inr (Some (PktData d), rest)"
  using assms by (auto simp: read_pkt_line_def Let_def)

lemma read_hex_frame:
  "length d + 4 < 65536 \<Longrightarrow> read_pkt_line (pkt_len_hex (length d + 4) @ d @ rest) = Inr (Some (PktData d), rest)"
  by (rule read_frame) (simp_all add: pkt_len_hex_parse)

lemma encode_data_hex: "length d + 4 < 65536 \<Longrightarrow> \<exists>h. encode_data d = h @ d \<and> length h = 4 \<and> parse_pkt_len h = Inr (length d + 4)"
proof -
  assume *: "length d + 4 < 65536"
  define t where "t = length d + 4"
  let ?h = "[digit_char (t div 4096 mod 16), digit_char (t div 256 mod 16), digit_char (t div 16 mod 16), digit_char (t mod 16)]"
  have "parse_pkt_len ?h = Inr (((t div 4096 mod 16 * 16 + t div 256 mod 16) * 16 + t div 16 mod 16) * 16 + t mod 16)"
    by (simp add: parse_pkt_len_def hex_value_digit)
  also have "((t div 4096 mod 16 * 16 + t div 256 mod 16) * 16 + t div 16 mod 16) * 16 + t mod 16 = t"
  proof -
    define a b where "a = t div 16" and "b = a div 16"
    have "t div 256 = b" "t div 4096 = b div 16"
      using div_mult2_eq [of t 16 16] div_mult2_eq [of t 16 256] div_mult2_eq [of a 16 16] by (simp_all add: a_def b_def)
    moreover have "b div 16 < 16"
      using * unfolding t_def [symmetric] b_def a_def by (simp add: div_mult2_eq [symmetric] less_mult_imp_div_less)
    ultimately show ?thesis using div_mult_mod_eq [of b 16] div_mult_mod_eq [of a 16] div_mult_mod_eq [of t 16]
      by (simp add: a_def b_def)
  qed
  finally show ?thesis unfolding encode_data_def Let_def t_def [symmetric] by (intro exI [of _ ?h]) simp
qed

lemma read_encode_data: "length d + 4 < 65536 \<Longrightarrow> read_pkt_line (encode_data d @ rest) = Inr (Some (PktData d), rest)"
  using encode_data_hex [of d] read_frame by fastforce

lemma read_marks [simp]:
  "read_pkt_line (write_flush @ rest) = Inr (Some PktFlush, rest)"
  "read_pkt_line (write_delim @ rest) = Inr (Some PktDelim, rest)"
  "read_pkt_line (write_response_end @ rest) = Inr (Some PktResponseEnd, rest)"
proof -
  have p: "parse_pkt_len ''0000'' = Inr 0" "parse_pkt_len ''0001'' = Inr 1" "parse_pkt_len ''0002'' = Inr 2"
    by code_simp+
  show "read_pkt_line (write_flush @ rest) = Inr (Some PktFlush, rest)"
    "read_pkt_line (write_delim @ rest) = Inr (Some PktDelim, rest)"
    "read_pkt_line (write_response_end @ rest) = Inr (Some PktResponseEnd, rest)"
    by (simp_all add: read_pkt_line_def write_flush_def write_delim_def write_response_end_def p)
qed

text \<open>What a peer reads up to a flush.\<close>

function read_section :: "bytes \<Rightarrow> (git_error, bytes list \<times> bytes) result" where
  "read_section r =
     (case read_pkt_line r of
        Inl e \<Rightarrow> Inl e
      | Inr (Some (PktData b), rest) \<Rightarrow>
          (case read_section rest of Inl e \<Rightarrow> Inl e | Inr (bs, rest') \<Rightarrow> Inr (b # bs, rest'))
      | Inr (Some PktFlush, rest) \<Rightarrow> Inr ([], rest)
      | Inr (_, rest) \<Rightarrow> Inl (GitProtocol ''no flush''))"
  by pat_completeness auto
termination
  by (relation "measure length") (auto dest: read_pkt_line_shrinks)

declare read_section.simps [simp del]

lemma read_section_flush [simp]: "read_section (write_flush @ rest) = Inr ([], rest)"
  by (simp add: read_section.simps)

lemma read_section_frames:
  assumes "\<And>d rest. d \<in> set ds \<Longrightarrow> read_pkt_line (f d @ rest) = Inr (Some (PktData (g d)), rest)"
  shows "read_section (concat (map f ds) @ write_flush @ rest) = Inr (map g ds, rest)"
  using assms by (induction ds) (simp_all add: read_section.simps [of "_ @ _"])

lemma chunks_props:
  assumes "0 < n"
  shows "concat (chunks n xs) = xs" "\<forall>c \<in> set (chunks n xs). c \<noteq> [] \<and> length c \<le> n"
proof -
  show "concat (chunks n xs) = xs"
  proof (induction "length xs" arbitrary: xs rule: less_induct)
    case less
    then show ?case using assms by (subst chunks.simps) (cases xs; simp)
  qed
  show "\<forall>c \<in> set (chunks n xs). c \<noteq> [] \<and> length c \<le> n"
  proof (induction "length xs" arbitrary: xs rule: less_induct)
    case less
    show ?case
    proof (cases "xs = []")
      case False
      then have "\<forall>c \<in> set (chunks n (drop n xs)). c \<noteq> [] \<and> length c \<le> n" using assms by (intro less) simp
      then show ?thesis using False assms by (subst chunks.simps) simp
    qed (simp add: chunks.simps)
  qed
qed

lemma write_pkt_line_read:
  "read_section (write_pkt_line d @ write_flush @ rest) =
     Inr (if d = [] then [[]] else chunks MAX_PKT_DATA d, rest)"
proof (cases "d = []")
  case True
  have "pkt_len_hex 4 = ''0004''" by code_simp
  then have "read_pkt_line (''0004'' @ s) = Inr (Some (PktData []), s)" for s
    using read_hex_frame [of "[]" s] by simp
  then have "read_section (''0004'' @ write_flush @ rest) = Inr ([[]], rest)" by (subst read_section.simps) simp
  then show ?thesis using True by (simp add: write_pkt_line_def)
next
  case False
  have "read_pkt_line ((pkt_len_hex (length c + 4) @ c) @ s) = Inr (Some (PktData c), s)"
    if "c \<in> set (chunks MAX_PKT_DATA d)" for c s
  proof -
    have "length c \<le> MAX_PKT_DATA" using that chunks_props(2) [of MAX_PKT_DATA d] by (simp add: MAX_PKT_DATA_def)
    then show ?thesis using read_hex_frame [of c s] by (simp add: MAX_PKT_DATA_def)
  qed
  from read_section_frames [of "chunks MAX_PKT_DATA d" "\<lambda>c. pkt_len_hex (length c + 4) @ c" "\<lambda>c. c", OF this]
  show ?thesis using False by (simp add: write_pkt_line_def)
qed

lemma write_channel_read:
  assumes "buf \<noteq> []"
  shows "read_section (write_channel n buf @ write_flush @ rest) =
    Inr (map (\<lambda>c. char_of n # c) (chunks (MAX_PKT_DATA - 1) buf), rest)"
proof -
  have "read_pkt_line ((pkt_len_hex (length c + 4 + 1) @ [char_of n] @ c) @ s) = Inr (Some (PktData (char_of n # c)), s)"
    if "c \<in> set (chunks (MAX_PKT_DATA - 1) buf)" for c s
  proof -
    have "length c \<le> MAX_PKT_DATA - 1" using that chunks_props(2) [of "MAX_PKT_DATA - 1" buf] by (simp add: MAX_PKT_DATA_def)
    then show ?thesis using read_hex_frame [of "char_of n # c" s] by (simp add: MAX_PKT_DATA_def)
  qed
  from read_section_frames [of "chunks (MAX_PKT_DATA - 1) buf" "\<lambda>c. pkt_len_hex (length c + 4 + 1) @ [char_of n] @ c"
      "\<lambda>c. char_of n # c", OF this]
  show ?thesis using assms by (simp add: write_channel_def)
qed

lemma split_inclusive_line: "c \<notin> set l \<Longrightarrow> split_inclusive c ((l @ [c]) @ s) = (l @ [c]) # split_inclusive c s"
  by (induction l) auto

lemma split_inclusive_lines:
  "\<forall>l \<in> set ls. \<exists>p. l = p @ [c] \<and> c \<notin> set p \<Longrightarrow> split_inclusive c (concat ls) = ls"
proof (induction ls)
  case (Cons l ls)
  then obtain p where "l = p @ [c]" "c \<notin> set p" by auto
  then show ?case using Cons split_inclusive_line [of c p "concat ls"] by simp
qed simp

text \<open>The bytes a client takes out of the sideband: the payload of channel 1.\<close>

definition demux :: "receive_caps \<Rightarrow> bytes \<Rightarrow> (git_error, bytes) result" where
  "demux caps out =
     (if rc_side_band_64k caps
      then (case read_section out of
              Inl e \<Rightarrow> Inl e
            | Inr (frames, _) \<Rightarrow> Inr (concat [drop 1 f. f \<leftarrow> frames, take 1 f = [CHR 0x01]]))
      else Inr out)"

lemma demux_report:
  assumes "framed \<noteq> []"
  shows "demux caps (if rc_side_band_64k caps then write_channel 1 framed @ write_flush else framed) = Inr framed"
proof -
  have "char_of (1 :: nat) = CHR 0x01" by code_simp
  then have "[drop 1 f. f \<leftarrow> map (\<lambda>c. char_of (1 :: nat) # c) cs, take 1 f = [CHR 0x01]] = cs" for cs :: "bytes list"
    by (induction cs) simp_all
  then show ?thesis
    using write_channel_read [OF assms, of 1 "[]"] chunks_props(1) [of "MAX_PKT_DATA - 1" framed]
    by (simp add: demux_def MAX_PKT_DATA_def)
qed

section \<open>Requests\<close>

text \<open>Readers leave a suffix of their input.\<close>

lemma read_pkt_line_suffix: "read_pkt_line r = Inr (l, rest) \<Longrightarrow> suffix rest r"
  by (auto simp: read_pkt_line_def Let_def suffix_drop intro: suffix_order.trans split: if_splits sum.splits)

lemma parse_first_suffix: "parse_first r caps = Inr (l, caps', rest) \<Longrightarrow> suffix rest r"
proof (induction "length r" arbitrary: r caps rule: less_induct)
  case less
  obtain k r1 where k: "read_pkt_line r = Inr (k, r1)"
    using less.prems by (subst (asm) parse_first.simps) (auto split: sum.splits)
  note suf = read_pkt_line_suffix [OF k]
  show ?case
  proof (cases "\<exists>b oid. k = Some (PktData b) \<and> shallow_oid b = Some oid")
    case True
    then obtain b oid where b: "k = Some (PktData b)" "shallow_oid b = Some oid" by blast
    then have "parse_first r1 (add_shallow oid caps) = Inr (l, caps', rest)"
      using less.prems k by (subst (asm) parse_first.simps) simp
    then have "suffix rest r1" using less.hyps read_pkt_line_shrinks k b by blast
    then show ?thesis using suf suffix_order.trans by blast
  next
    case False
    then show ?thesis using less.prems k suf
      by (subst (asm) parse_first.simps) (auto split: option.splits pkt_line.splits)
  qed
qed

lemma parse_command_valid:
  "parse_command_line b = Inr (u, c) \<Longrightarrow> validate_ref_update u = Inr () \<and> u_new_symbolic_target u = []"
  by (auto simp: parse_command_line_def Let_def split: option.splits sum.splits prod.splits)

lemma parse_commands_valid:
  assumes "parse_commands r updates caps = Inr (updates', caps', rest)"
    and "\<forall>u \<in> set updates. validate_ref_update u = Inr () \<and> u_new_symbolic_target u = []"
  shows "(\<forall>u \<in> set updates'. validate_ref_update u = Inr () \<and> u_new_symbolic_target u = []) \<and> suffix rest r"
  using assms
proof (induction "length r" arbitrary: r updates caps rule: less_induct)
  case less
  obtain k r1 where k: "read_pkt_line r = Inr (k, r1)"
    using less.prems(1) by (subst (asm) parse_commands.simps) (auto split: sum.splits)
  note suf = read_pkt_line_suffix [OF k]
  show ?case
  proof (cases "\<exists>b. k = Some (PktData b)")
    case True
    then obtain b where b: "k = Some (PktData b)" by blast
    then have shorter: "length r1 < length r" using read_pkt_line_shrinks k by blast
    from less.prems(1) k b consider
        (shallow) oid where "parse_commands r1 updates (add_shallow oid caps) = Inr (updates', caps', rest)"
      | (command) u c where "parse_command_line b = Inr (u, c)"
          "parse_commands r1 (updates @ [u]) caps = Inr (updates', caps', rest)"
      by (subst (asm) parse_commands.simps) (auto split: option.splits sum.splits)
    then show ?thesis
    proof cases
      case shallow
      then show ?thesis using less.hyps [OF shorter shallow less.prems(2)] suf suffix_order.trans by blast
    next
      case command
      then have "\<forall>u \<in> set (updates @ [u]). validate_ref_update u = Inr () \<and> u_new_symbolic_target u = []"
        using less.prems(2) parse_command_valid by auto
      then show ?thesis using less.hyps [OF shorter command(2)] suf suffix_order.trans by blast
    qed
  next
    case False
    then show ?thesis using less.prems k suf
      by (subst (asm) parse_commands.simps) (auto split: option.splits pkt_line.splits)
  qed
qed

lemma parse_push_options_suffix: "parse_push_options r opts = Inr (opts', rest) \<Longrightarrow> suffix rest r"
proof (induction "length r" arbitrary: r opts rule: less_induct)
  case less
  obtain k r1 where k: "read_pkt_line r = Inr (k, r1)"
    using less.prems by (subst (asm) parse_push_options.simps) (auto split: sum.splits)
  note suf = read_pkt_line_suffix [OF k]
  show ?case
  proof (cases "\<exists>b. k = Some (PktData b)")
    case True
    then obtain b where b: "k = Some (PktData b)" by blast
    then have "parse_push_options r1 (opts @ [trim_newlines (from_utf8_lossy b)]) = Inr (opts', rest)"
      using less.prems k by (subst (asm) parse_push_options.simps) simp
    then have "suffix rest r1" using less.hyps read_pkt_line_shrinks k b by blast
    then show ?thesis using suf suffix_order.trans by blast
  next
    case False
    then show ?thesis using less.prems k suf
      by (subst (asm) parse_push_options.simps) (auto split: option.splits pkt_line.splits)
  qed
qed

text \<open>A request as a client writes it, and the conditions under which it is one.\<close>

definition command_text :: "ref_update \<Rightarrow> string" where
  "command_text u = u_old_oid u @ '' '' @ u_new_oid u @ '' '' @ u_name u"

definition request_bytes :: "ref_update list \<Rightarrow> string \<Rightarrow> string list option \<Rightarrow> bytes" where
  "request_bytes us caps opts =
     (case us of
        [] \<Rightarrow> []
      | u # us \<Rightarrow>
          encode_data (command_text u @ [CHR 0x00] @ caps) @
          concat (map (\<lambda>u. encode_data (command_text u)) us)) @ write_flush @
     (case opts of None \<Rightarrow> [] | Some os \<Rightarrow> concat (map encode_data os) @ write_flush)"

definition sendable :: "string \<Rightarrow> ref_update \<Rightarrow> bool" where
  "sendable caps u \<longleftrightarrow> validate_ref_update u = Inr () \<and> u_new_symbolic_target u = [] \<and> u_new_peeled u = [] \<and>
     from_utf8_lossy (command_text u) = command_text u \<and>
     length (command_text u) + length caps + 5 < 65536"

lemma oid_chars:
  assumes "validate_oid oid = Inr ()"
  shows "CHR '' '' \<notin> set oid" "CHR 0x00 \<notin> set oid" "CHR 0x0A \<notin> set oid" "CHR ''s'' \<notin> set oid"
proof -
  have zero: "is_ascii_hexdigit (CHR ''0'')" by code_simp
  have "oid = [] \<or> list_all (\<lambda>b. b = CHR ''0'') oid \<or> list_all is_ascii_hexdigit oid"
  proof (rule ccontr)
    assume "\<not> ?thesis"
    then show False using assms by (simp add: validate_oid_def)
  qed
  then have "list_all is_ascii_hexdigit oid"
  proof (elim disjE)
    assume "list_all (\<lambda>b. b = CHR ''0'') oid"
    then show ?thesis by (rule list.pred_mono_strong) (simp add: zero)
  qed simp_all
  then have "c \<in> set oid \<Longrightarrow> is_ascii_hexdigit c" for c by (simp add: list_all_iff)
  moreover have "\<not> is_ascii_hexdigit (CHR '' '')" "\<not> is_ascii_hexdigit (CHR 0x00)" "\<not> is_ascii_hexdigit (CHR 0x0A)"
    "\<not> is_ascii_hexdigit (CHR ''s'')" by code_simp+
  ultimately show "CHR '' '' \<notin> set oid" "CHR 0x00 \<notin> set oid" "CHR 0x0A \<notin> set oid" "CHR ''s'' \<notin> set oid"
    by blast+
qed

lemma name_chars:
  assumes "validate_ref_name n = Inr ()"
  shows "CHR 0x00 \<notin> set n" "CHR 0x0A \<notin> set n" "n \<noteq> []"
proof -
  have "n = ''HEAD'' \<or> n \<noteq> [] \<and>
      \<not> list_ex (\<lambda>b. b = CHR 0x00 \<or> b = CHR 0x0A \<or> b = CHR 0x0D \<or> b \<in> set '' ~^:?*['' \<or> b = CHR 0x5C) n"
  proof (rule ccontr)
    assume "\<not> ?thesis"
    then show False using assms by (simp add: validate_ref_name_def split: if_split_asm)
  qed
  then show "CHR 0x00 \<notin> set n" "CHR 0x0A \<notin> set n" "n \<noteq> []" by (auto simp: list_ex_iff)
qed

lemma sendable_parts:
  assumes "sendable caps u"
  shows "validate_oid (u_old_oid u) = Inr ()" "validate_oid (u_new_oid u) = Inr ()" "validate_ref_name (u_name u) = Inr ()"
  using assms by (auto simp: sendable_def validate_ref_update_def split: sum.splits)

lemma trim_newlines_id: "s = [] \<or> last s \<noteq> CHR 0x0A \<Longrightarrow> trim_newlines s = s"
  by (cases s rule: rev_cases) (simp_all add: trim_newlines_def)

lemma parse_command_text:
  assumes "sendable caps u" "b = command_text u @ [CHR 0x00] @ c \<or> b = command_text u \<and> c = []"
  shows "parse_command_line b = Inr (u, from_utf8_lossy c)"
proof -
  note v = sendable_parts [OF assms(1)]
  let ?t = "command_text u"
  have nul: "CHR 0x00 \<notin> set ?t"
    using oid_chars [OF v(1)] oid_chars [OF v(2)] name_chars [OF v(3)] by (simp add: command_text_def)
  have "last ?t \<noteq> CHR 0x0A" using name_chars [OF v(3)] by (auto simp: command_text_def dest: last_in_set)
  then have trim: "trim_newlines (from_utf8_lossy ?t) = ?t"
    using assms(1) by (simp add: sendable_def trim_newlines_id)
  have u: "\<lparr>u_name = u_name u, u_old_oid = u_old_oid u, u_new_oid = u_new_oid u, u_new_symbolic_target = [],
      u_new_peeled = []\<rparr> = u" "validate_ref_update u = Inr ()" using assms(1) by (simp_all add: sendable_def)
  have parts: "split_once (CHR '' '') ?t = Some (u_old_oid u, u_new_oid u @ '' '' @ u_name u)"
    "split_once (CHR '' '') (u_new_oid u @ '' '' @ u_name u) = Some (u_new_oid u, u_name u)"
    using oid_chars(1) [OF v(1)] oid_chars(1) [OF v(2)] by (simp_all add: command_text_def)
  have "split_once (CHR 0x00) b = (if b = ?t then None else Some (?t, c)) \<and> (b = ?t \<longrightarrow> c = [])"
    using assms(2) nul by (auto simp: split_once_None)
  then show ?thesis
    using trim parts u by (auto simp: parse_command_line_def split: if_splits)
qed

lemma command_not_shallow: "sendable caps u \<Longrightarrow> shallow_oid (command_text u @ s) = None"
  using oid_chars(4) [OF sendable_parts(1), of caps u]
  by (cases "u_old_oid u") (auto simp: shallow_oid_def command_text_def strip_prefix_def)

lemma parse_commands_read:
  assumes "\<forall>u \<in> set us. sendable [] u"
  shows "parse_commands (concat (map (\<lambda>u. encode_data (command_text u)) us) @ write_flush @ rest) updates caps =
    Inr (updates @ us, caps, rest)"
  using assms
proof (induction us arbitrary: updates)
  case Nil
  then show ?case by (simp add: parse_commands.simps)
next
  case (Cons u us)
  have "read_pkt_line (encode_data (command_text u) @ s) = Inr (Some (PktData (command_text u)), s)" for s
    using Cons.prems by (intro read_encode_data) (simp add: sendable_def)
  moreover have "parse_command_line (command_text u) = Inr (u, from_utf8_lossy [])"
    using Cons.prems by (intro parse_command_text [of "[]"]) auto
  moreover have "shallow_oid (command_text u) = None" using command_not_shallow [of "[]" u "[]"] Cons.prems by simp
  ultimately show ?case using Cons by (subst parse_commands.simps) simp
qed

lemma parse_push_options_read:
  assumes "\<forall>s \<in> set os. length s + 4 < 65536"
  shows "parse_push_options (concat (map encode_data os) @ write_flush @ rest) opts =
    Inr (opts @ map (\<lambda>s. trim_newlines (from_utf8_lossy s)) os, rest)"
  using assms
proof (induction os arbitrary: opts)
  case Nil
  then show ?case by (simp add: parse_push_options.simps)
next
  case (Cons s os)
  then show ?case by (subst parse_push_options.simps) (simp add: read_encode_data)
qed

lemma receive_parse_request:
  assumes "sendable caps u" "\<forall>v \<in> set us. sendable [] v"
    and "from_utf8_lossy caps = caps"
    and "opts \<noteq> None \<longleftrightarrow> rc_push_options (apply_caps caps default_caps)"
    and "\<forall>os. opts = Some os \<longrightarrow> (\<forall>s \<in> set os. length s + 4 < 65536 \<and> trim_newlines (from_utf8_lossy s) = s)"
  shows "receive_parse (request_bytes (u # us) caps opts @ pack) =
    Inr (\<lparr>tx_updates = u # us, tx_push_options = (case opts of None \<Rightarrow> [] | Some os \<Rightarrow> os),
          tx_atomic = rc_atomic (apply_caps caps default_caps)\<rparr>,
         apply_caps caps default_caps, pack)"
proof -
  let ?b = "command_text u @ [CHR 0x00] @ caps" and ?caps = "apply_caps caps default_caps"
  let ?rest = "(case opts of None \<Rightarrow> [] | Some os \<Rightarrow> concat (map encode_data os) @ write_flush) @ pack"
  let ?cmds = "concat (map (\<lambda>u. encode_data (command_text u)) us) @ write_flush @ ?rest"
  have req: "request_bytes (u # us) caps opts @ pack = encode_data ?b @ ?cmds" by (simp add: request_bytes_def)
  have "read_pkt_line (encode_data ?b @ ?cmds) = Inr (Some (PktData ?b), ?cmds)"
    using assms(1) by (intro read_encode_data) (simp add: sendable_def)
  then have first: "parse_first (encode_data ?b @ ?cmds) default_caps = Inr (Some (PktData ?b), default_caps, ?cmds)"
    using command_not_shallow [OF assms(1), of "[CHR 0x00] @ caps"] by (simp add: parse_first.simps)
  have line: "parse_command_line ?b = Inr (u, caps)" using parse_command_text [OF assms(1), of ?b caps] assms(3) by simp
  have cmds: "parse_commands ?cmds [u] ?caps = Inr (u # us, ?caps, ?rest)"
    using parse_commands_read [OF assms(2), of ?rest "[u]" ?caps] by simp
  show ?thesis
  proof (cases opts)
    case None
    then show ?thesis using assms(4) cmds line unfolding receive_parse_def req first by (simp add: Let_def)
  next
    case (Some os)
    then have "parse_push_options ?rest [] = Inr (os, pack)"
      using parse_push_options_read [of os pack "[]"] assms(5) by (simp add: map_idI)
    then show ?thesis using Some assms(4) cmds line unfolding receive_parse_def req first by (simp add: Let_def)
  qed
qed

definition new_branch :: ref_update where
  "new_branch = \<lparr>u_name = ''refs/heads/main'', u_old_oid = replicate 40 (CHR ''0''), u_new_oid = replicate 40 (CHR ''a''),
     u_new_symbolic_target = [], u_new_peeled = []\<rparr>"

lemma new_branch_sendable: "length caps < 1000 \<Longrightarrow> sendable caps new_branch"
proof -
  have v: "validate_ref_update new_branch = Inr ()" by code_simp
  have "is_ascii (command_text new_branch)"
    by (simp add: is_ascii_def command_text_def new_branch_def list_all_iff)
  then show "length caps < 1000 \<Longrightarrow> sendable caps new_branch"
    using v from_utf8_lossy_ascii by (simp add: sendable_def command_text_def new_branch_def)
qed

section \<open>Properties\<close>

text \<open>
  C27. A push request is understood as sent: the commands, capabilities and push options a client
  writes are read back exactly, and reading stops at the first byte of the pack.
\<close>

theorem receive_parse_roundtrip:
  assumes "sendable caps u" "\<forall>v \<in> set us. sendable [] v"
    and "from_utf8_lossy caps = caps"
    and "opts \<noteq> None \<longleftrightarrow> rc_push_options (apply_caps caps default_caps)"
    and "\<forall>os. opts = Some os \<longrightarrow> (\<forall>s \<in> set os. length s + 4 < 65536 \<and> trim_newlines (from_utf8_lossy s) = s)"
  shows "receive_parse (request_bytes (u # us) caps opts @ pack) =
    Inr (\<lparr>tx_updates = u # us, tx_push_options = (case opts of None \<Rightarrow> [] | Some os \<Rightarrow> os),
          tx_atomic = rc_atomic (apply_caps caps default_caps)\<rparr>,
         apply_caps caps default_caps, pack)"
  using assms by (rule receive_parse_request)

theorem receive_parse_roundtrip_witness:
  "receive_parse (request_bytes [new_branch] ''atomic push-options'' (Some [''ci.skip'']) @ ''PACK'') =
    Inr (\<lparr>tx_updates = [new_branch], tx_push_options = [''ci.skip''], tx_atomic = True\<rparr>,
         default_caps \<lparr>rc_atomic := True, rc_push_options := True\<rparr>, ''PACK'')"
proof -
  have ascii: "from_utf8_lossy ''atomic push-options'' = ''atomic push-options''" "from_utf8_lossy ''ci.skip'' = ''ci.skip''"
    by (rule from_utf8_lossy_ascii, simp add: is_ascii_def)+
  have caps: "apply_caps ''atomic push-options'' default_caps = default_caps \<lparr>rc_atomic := True, rc_push_options := True\<rparr>"
    by code_simp
  show ?thesis
    using receive_parse_roundtrip [OF new_branch_sendable, of "''atomic push-options''" "[]" "Some [''ci.skip'']" "''PACK''"] ascii
    unfolding caps by (simp add: trim_newlines_def)
qed

text \<open>
  C28. Whatever bytes a client sends, an accepted request carries only valid, non-symbolic ref
  updates, and what is left for the pack is the end of what was sent.
\<close>

theorem receive_parse_valid:
  assumes "receive_parse r = Inr (txn, caps, rest)"
  shows "list_all (\<lambda>u. validate_ref_update u = Inr () \<and> u_new_symbolic_target u = []) (tx_updates txn) \<and> suffix rest r"
proof -
  obtain k caps0 r1 where first: "parse_first r default_caps = Inr (k, caps0, r1)"
    using assms by (auto simp: receive_parse_def split: sum.splits)
  note suf = parse_first_suffix [OF first]
  show ?thesis
  proof (cases "\<exists>b. k = Some (PktData b)")
    case True
    then obtain b u cs us caps2 r2 where b: "k = Some (PktData b)" "parse_command_line b = Inr (u, cs)"
      "parse_commands r1 [u] (apply_caps cs caps0) = Inr (us, caps2, r2)" "tx_updates txn = us" "suffix rest r2"
      using assms first
      by (auto simp: receive_parse_def Let_def parse_push_options_suffix split: sum.splits prod.splits if_splits)
    have "(\<forall>u \<in> set us. validate_ref_update u = Inr () \<and> u_new_symbolic_target u = []) \<and> suffix r2 r1"
      using parse_commands_valid [OF b(3)] parse_command_valid [OF b(2)] by simp
    then show ?thesis using b(4,5) suf by (auto simp: list_all_iff intro: suffix_order.trans)
  next
    case False
    then show ?thesis using assms first suf
      by (auto simp: receive_parse_def split: option.splits pkt_line.splits)
  qed
qed

theorem receive_parse_valid_witness:
  "\<exists>txn rest. receive_parse (request_bytes [new_branch] [] None @ ''PACK'') = Inr (txn, default_caps, rest) \<and>
     tx_updates txn = [new_branch] \<and> list_all (\<lambda>u. validate_ref_update u = Inr ()) (tx_updates txn) \<and>
     suffix rest (request_bytes [new_branch] [] None @ ''PACK'')"
proof -
  have "apply_caps [] default_caps = default_caps" by code_simp
  moreover have "from_utf8_lossy [] = []" by (simp add: from_utf8_lossy.simps)
  ultimately have "receive_parse (request_bytes [new_branch] [] None @ ''PACK'') =
      Inr (\<lparr>tx_updates = [new_branch], tx_push_options = [], tx_atomic = False\<rparr>, default_caps, ''PACK'')"
    using receive_parse_request [OF new_branch_sendable, of "[]" "[]" None "''PACK''"] by (simp add: default_caps_def)
  moreover from receive_parse_valid [OF this] this show ?thesis by simp
qed

text \<open>
  C32. The report reaches the client line by line, as long as no name or reason contains a newline
  and each line fits a frame: out of the sideband, if there is one, a client then reads one pkt-line
  for the pack and one for each ref. The server keeps neither condition: it passes on what \<open>git
  index-pack\<close> says about a bad pack, newlines included (\<open>newline_tears_report\<close>), and a frame too long
  gets a wrong length (\<open>encode_data_overflow\<close>).
\<close>

theorem report_status_readable:
  assumes "\<forall>l \<in> set (unpack_line unpack # map ref_line per_ref).
      CHR 0x0A \<notin> set (butlast l) \<and> length l + 4 < 65536"
  shows "\<exists>payload. demux caps (report_status caps unpack per_ref) = Inr payload \<and>
    read_section payload = Inr (unpack_line unpack # map ref_line per_ref, [])"
proof -
  let ?ls = "unpack_line unpack # map ref_line per_ref"
  let ?framed = "concat (map encode_data ?ls) @ write_flush"
  have "\<exists>p. l = p @ [CHR 0x0A]" if "l \<in> set ?ls" for l
    using that by (auto simp: unpack_line_def ref_line_def split: sum.splits)
  then have "\<forall>l \<in> set ?ls. \<exists>p. l = p @ [CHR 0x0A] \<and> CHR 0x0A \<notin> set p"
    using assms by (metis butlast_snoc)
  from split_inclusive_lines [OF this]
  have "report_status caps unpack per_ref =
      (if rc_side_band_64k caps then write_channel 1 ?framed @ write_flush else ?framed)"
    by (simp add: report_status_def Let_def)
  moreover have "?framed \<noteq> []" by (simp add: write_flush_def)
  moreover have "read_section ?framed = Inr (?ls, [])"
    using read_section_frames [of ?ls encode_data "\<lambda>l. l" "[]"] read_encode_data assms by simp
  ultimately show ?thesis using demux_report [of ?framed caps] by (intro exI [of _ ?framed]) simp
qed

theorem report_status_readable_witness:
  "\<exists>payload. demux (default_caps \<lparr>rc_side_band_64k := True\<rparr>)
      (report_status (default_caps \<lparr>rc_side_band_64k := True\<rparr>) (Inr ()) [(''refs/heads/main'', Inl ''stale info'')]) = Inr payload \<and>
    read_section payload = Inr ([''unpack ok'' @ [CHR 0x0A], ''ng refs/heads/main stale info'' @ [CHR 0x0A]], [])"
  using report_status_readable [of "Inr ()" "[(''refs/heads/main'', Inl ''stale info'')]"]
  by (simp add: unpack_line_def ref_line_def)

text \<open>
  A reason with a newline is torn apart: the report is framed line by line, so the client reads the
  rest of the reason as a status line of its own.
\<close>

lemma newline_tears_report:
  "read_section (report_status default_caps (Inl (''a'' @ [CHR 0x0A] @ ''b'')) []) =
     Inr ([''unpack ng a'' @ [CHR 0x0A], ''b'' @ [CHR 0x0A]], [])"
  by code_simp

text \<open>
  A frame longer than its header can say is sent with a wrong length: \<open>encode_data\<close> keeps
  the low sixteen bits, so a reader takes a payload of 65532 bytes for a flush and goes on
  reading inside it.
\<close>

lemma encode_data_overflow:
  assumes "length d = 65532"
  shows "read_pkt_line (encode_data d @ rest) = Inr (Some PktFlush, d @ rest)"
proof -
  have "encode_data d = ''0000'' @ d" using assms by (simp add: encode_data_def digit_char_0)
  then show ?thesis using read_marks(1) [of "d @ rest"] by (simp add: write_flush_def)
qed

end
