(* ===== verification/Auth.thy ===== *)
theory Auth
  imports Policy Pkt Forge
begin

text \<open>
  Authentication (\<open>walgit-server/src/auth.rs\<close>): what the headers of a request prove about who
  sent it. A \<open>HeaderMap\<close> is the list of its fields with lower-case names. HMAC-SHA256, the
  URL-safe base64 engine, the JSON form of a pending identity, the ID-token library and the
  issuer's key set are parameters (\<open>crypto\<close> and \<open>id_token_lib\<close>); the Basic decoder is the
  program's own. The clock is an argument: the Unix seconds, or \<open>None\<close> before the epoch.

  The lemmas: signed values of different kinds are never confused and are read back until they
  expire; a credential that names an account was proved by one of the accepted means.
\<close>

section \<open>Data\<close>

datatype auth_mode = ModeNone | ModeToken | ModeOidc

datatype password_accounts = PwOff | PwAdmin | PwOpen

record identity =
  id_issuer :: string
  id_subject :: string
  id_email :: string
  id_name :: string
  id_picture :: string

datatype auth_credential =
    CAnonymous
  | CLocal
  | CToken string bool bool
  | CAccount string
  | CIdentity identity

record email_flags =
  ef_can_create :: bool
  ef_site_admin :: bool

record static_token =
  st_user :: string
  st_token :: string
  st_token_env :: "string option"
  st_write :: bool
  st_admin :: bool

datatype auth_error =
    AuthInvalid | AuthUnauthorized | AuthForbidden | AuthUnavailable | NoAccount string

definition auth_error_status :: "auth_error \<Rightarrow> nat" where
  "auth_error_status e =
     (case e of
        AuthInvalid \<Rightarrow> 401 | AuthUnauthorized \<Rightarrow> 401
      | AuthForbidden \<Rightarrow> 403 | NoAccount _ \<Rightarrow> 403
      | AuthUnavailable \<Rightarrow> 503)"

text \<open>The part of the configuration the authenticator reads (\<open>server.auth\<close>).\<close>

record auth_config =
  au_mode :: auth_mode
  au_anonymous_read :: bool
  au_tokens :: "static_token list"
  au_issuer :: string
  au_allowed_domains :: "string list"
  au_allowed_emails :: "string list"
  au_trusted_forwarders :: "string list"
  au_admin_emails :: "string list"
  au_admin_domains :: "string list"
  au_audiences :: "string list"
  au_write_domains :: "string list option"
  au_session_secret :: "string option"
  au_session_ttl :: nat
  au_access_token_ttl :: nat
  au_oauth_client_id :: "string option"
  au_oauth_client_secret :: "string option"
  au_passwords :: password_accounts

text \<open>The \<open>Authenticator\<close>; its key set and discovery source are in \<open>id_token_lib\<close>.\<close>

record authenticator =
  at_mode :: auth_mode
  at_anonymous_read :: bool
  at_tokens :: "static_token list"
  at_issuer :: string
  at_allowed_domains :: "string list"
  at_allowed_emails :: "string list"
  at_trusted_forwarders :: "string list"
  at_admin_emails :: "string list"
  at_admin_domains :: "string list"
  at_audiences :: "string list"
  at_write_domains :: "string list option"
  at_session_secret :: "string option"
  at_session_ttl :: nat
  at_access_token_ttl :: nat
  at_oauth_client_id :: "string option"
  at_oauth_client_secret :: "string option"
  at_passwords :: password_accounts

definition nonempty :: "string option \<Rightarrow> string option" where
  "nonempty s = (case s of Some [] \<Rightarrow> None | _ \<Rightarrow> s)"

text \<open>\<open>resolve_tokens\<close>; \<open>env\<close> is \<open>std::env::var\<close>.\<close>

definition resolve_token :: "(string \<Rightarrow> string option) \<Rightarrow> static_token \<Rightarrow> static_token" where
  "resolve_token env t =
     \<lparr>st_user = st_user t,
      st_token = (case Option.bind (st_token_env t) env of Some v \<Rightarrow> v | None \<Rightarrow> st_token t),
      st_token_env = None, st_write = st_write t, st_admin = st_admin t\<rparr>"

definition resolve_tokens :: "(string \<Rightarrow> string option) \<Rightarrow> static_token list \<Rightarrow> static_token list" where
  "resolve_tokens env ts = filter (\<lambda>t. st_token t \<noteq> []) (map (resolve_token env) ts)"

definition authenticator_build :: "(string \<Rightarrow> string option) \<Rightarrow> auth_config \<Rightarrow> authenticator" where
  "authenticator_build env auth =
     (let oauth_client_id = nonempty (au_oauth_client_id auth);
          audiences = (case oauth_client_id of
              Some i \<Rightarrow> if i \<in> set (au_audiences auth) then au_audiences auth else au_audiences auth @ [i]
            | None \<Rightarrow> au_audiences auth)
      in \<lparr>at_mode = au_mode auth, at_anonymous_read = au_anonymous_read auth,
          at_tokens = resolve_tokens env (au_tokens auth),
          at_issuer = trim_end_char CHR ''/'' (au_issuer auth),
          at_allowed_domains = map to_ascii_lowercase (au_allowed_domains auth),
          at_allowed_emails = map to_ascii_lowercase (au_allowed_emails auth),
          at_trusted_forwarders = map to_ascii_lowercase (au_trusted_forwarders auth),
          at_admin_emails = map to_ascii_lowercase (au_admin_emails auth),
          at_admin_domains = map to_ascii_lowercase (au_admin_domains auth),
          at_audiences = audiences,
          at_write_domains = map_option (map to_ascii_lowercase) (au_write_domains auth),
          at_session_secret = nonempty (au_session_secret auth),
          at_session_ttl = au_session_ttl auth, at_access_token_ttl = au_access_token_ttl auth,
          at_oauth_client_id = oauth_client_id,
          at_oauth_client_secret = nonempty (au_oauth_client_secret auth),
          at_passwords = au_passwords auth\<rparr>)"

definition oidc_login_enabled :: "authenticator \<Rightarrow> bool" where
  "oidc_login_enabled a =
     (at_mode a = ModeOidc \<and> at_session_secret a \<noteq> None \<and> at_oauth_client_id a \<noteq> None
      \<and> at_oauth_client_secret a \<noteq> None)"

definition browser_login_enabled :: "authenticator \<Rightarrow> bool" where
  "browser_login_enabled a =
     (oidc_login_enabled a \<or> (at_passwords a \<noteq> PwOff \<and> at_session_secret a \<noteq> None))"

definition issued_tokens_enabled :: "authenticator \<Rightarrow> bool" where
  "issued_tokens_enabled a = (at_mode a \<noteq> ModeNone \<and> at_session_secret a \<noteq> None)"

definition oauth_client :: "authenticator \<Rightarrow> (string \<times> string) option" where
  "oauth_client a =
     (case (at_oauth_client_id a, at_oauth_client_secret a) of
        (Some i, Some s) \<Rightarrow> Some (i, s) | _ \<Rightarrow> None)"

section \<open>Text\<close>

function is_utf8 :: "bytes \<Rightarrow> bool" where
  "is_utf8 s = (if s = [] then True else fst (utf8_step s) \<and> is_utf8 (drop (snd (utf8_step s)) s))"
  by pat_completeness auto
termination
proof (relation "measure length", simp, goal_cases)
  case (1 s)
  then show ?case using utf8_step_pos [of s] by (cases s) auto
qed

declare is_utf8.simps [simp del]

text \<open>\<open>String::from_utf8\<close>, \<open>str::rsplit_once\<close>, \<open>str::splitn\<close> and \<open>str::parse::<u64>\<close>.\<close>

definition from_utf8 :: "bytes \<Rightarrow> string option" where
  "from_utf8 b = (if is_utf8 b then Some b else None)"

definition rsplit_once :: "char \<Rightarrow> string \<Rightarrow> (string \<times> string) option" where
  "rsplit_once c s = map_option (\<lambda>(a, b). (rev b, rev a)) (split_once c (rev s))"

fun splitn :: "nat \<Rightarrow> char \<Rightarrow> string \<Rightarrow> string list" where
  "splitn 0 c s = []"
| "splitn (Suc 0) c s = [s]"
| "splitn (Suc (Suc n)) c s =
     (case split_once c s of None \<Rightarrow> [s] | Some (a, b) \<Rightarrow> a # splitn (Suc n) c b)"

definition u64_from_str :: "string \<Rightarrow> nat option" where
  "u64_from_str s =
     (let d = (case s of c # r \<Rightarrow> if c = CHR ''+'' then r else s | [] \<Rightarrow> s)
      in if d \<noteq> [] \<and> list_all is_ascii_digit d then parse_u64 d else None)"

section \<open>Headers\<close>

type_synonym headers = "(string \<times> bytes) list"

text \<open>\<open>HeaderValue::to_str\<close>: visible ASCII, space and tab only.\<close>

definition to_str :: "bytes \<Rightarrow> string option" where
  "to_str v =
     (if list_all (\<lambda>c. ((32 :: nat) \<le> of_char c \<and> of_char c < (127 :: nat)) \<or> of_char c = (9 :: nat)) v
      then Some v else None)"

definition header_get :: "headers \<Rightarrow> string \<Rightarrow> string option" where
  "header_get hs name = Option.bind (map_of hs name) to_str"

definition header_get_all :: "headers \<Rightarrow> string \<Rightarrow> string list" where
  "header_get_all hs name = List.map_filter to_str (map snd (filter (\<lambda>(n, _). n = name) hs))"

definition parse_bearer :: "string \<Rightarrow> string option" where
  "parse_bearer value =
     (case split_once (CHR '' '') value of
        None \<Rightarrow> None
      | Some (scheme, rest) \<Rightarrow>
          if \<not> eq_ignore_ascii_case scheme ''Bearer'' then None
          else let tok = trim rest in if tok = [] then None else Some tok)"

definition edge_owns_authorization :: "headers \<Rightarrow> bool" where
  "edge_owns_authorization hs =
     list_ex (\<lambda>c. eq_ignore_ascii_case (trim c) ''client-authorization'')
       (concat (map (split_on (CHR '','')) (header_get_all hs ''x-walgit-capabilities'')))"

definition client_authorization :: "headers \<Rightarrow> string option" where
  "client_authorization hs =
     (if \<not> edge_owns_authorization hs then header_get hs ''authorization''
      else nonempty (map_option trim (header_get hs ''x-walgit-authorization'')))"

definition bearer_token :: "headers \<Rightarrow> string option" where
  "bearer_token hs = Option.bind (client_authorization hs) parse_bearer"

definition cookie_part :: "string \<Rightarrow> string \<Rightarrow> string option" where
  "cookie_part name part =
     Option.bind (strip_prefix name (trim part)) (strip_prefix ''='')"

definition cookie_value :: "headers \<Rightarrow> string \<Rightarrow> string option" where
  "cookie_value hs name =
     (case List.map_filter (cookie_part name)
             (concat (map (split_on (CHR '';'')) (header_get_all hs ''cookie''))) of
        [] \<Rightarrow> None | v # _ \<Rightarrow> Some v)"

definition base64_table :: string where
  "base64_table = ''ABCDEFGHIJKLMNOPQRSTUVWXYZabcdefghijklmnopqrstuvwxyz0123456789+/''"

fun position :: "string \<Rightarrow> char \<Rightarrow> nat \<Rightarrow> nat option" where
  "position [] b i = None"
| "position (t # ts) b i = (if t = b then Some i else position ts b (Suc i))"

text \<open>The decoder's buffer is a \<open>u32\<close>; the bytes it yields are the low eight bits shifted out.\<close>

fun base64_loop :: "bytes \<Rightarrow> 32 word \<Rightarrow> nat \<Rightarrow> bytes \<Rightarrow> bytes option" where
  "base64_loop [] buf bits out = Some out"
| "base64_loop (b # bs) buf bits out =
     (if b = CHR ''='' then Some out
      else case position base64_table b 0 of
        None \<Rightarrow> None
      | Some val \<Rightarrow>
          (let buf1 = or (push_bit 6 buf) (of_nat val); bits1 = bits + 6
           in if bits1 \<ge> 8 then
                (let bits2 = bits1 - 8
                 in base64_loop bs (take_bit bits2 buf1) bits2
                      (out @ [char_of (unat (drop_bit bits2 buf1))]))
              else base64_loop bs buf1 bits1 out))"

definition base64_decode :: "string \<Rightarrow> bytes option" where
  "base64_decode s = base64_loop s 0 0 []"

definition basic_credentials :: "headers \<Rightarrow> (string \<times> string) option" where
  "basic_credentials hs =
     (case client_authorization hs of
        None \<Rightarrow> None
      | Some v \<Rightarrow>
          (case split_once (CHR '' '') v of
             None \<Rightarrow> None
           | Some (scheme, rest) \<Rightarrow>
               if \<not> eq_ignore_ascii_case scheme ''Basic'' then None
               else Option.bind (Option.bind (base64_decode (trim rest)) from_utf8)
                      (split_once (CHR '':''))))"

section \<open>Signed values\<close>

record crypto =
  hmac :: "bytes \<Rightarrow> bytes \<Rightarrow> bytes"
  b64_encode :: "bytes \<Rightarrow> string"
  b64_decode :: "string \<Rightarrow> bytes option"
  identity_to_json :: "identity \<Rightarrow> string option"
  identity_from_json :: "string \<Rightarrow> identity option"

definition ACCESS_TOKEN_PREFIX :: string where "ACCESS_TOKEN_PREFIX = ''wgt_''"

definition SESSION_COOKIE :: string where "SESSION_COOKIE = ''walgit_session''"

definition PENDING_TTL :: nat where "PENDING_TTL = 15 * 60"

definition sign :: "crypto \<Rightarrow> authenticator \<Rightarrow> bytes \<Rightarrow> string option" where
  "sign cr a payload =
     (case at_session_secret a of
        None \<Rightarrow> None
      | Some secret \<Rightarrow>
          Some (b64_encode cr payload @ ''.'' @ b64_encode cr (hmac cr secret payload)))"

definition verify_signed :: "crypto \<Rightarrow> authenticator \<Rightarrow> string \<Rightarrow> bytes option" where
  "verify_signed cr a value =
     (case at_session_secret a of
        None \<Rightarrow> None
      | Some secret \<Rightarrow>
          (case split_once (CHR ''.'') value of
             None \<Rightarrow> None
           | Some (p, t) \<Rightarrow>
               (case (b64_decode cr p, b64_decode cr t) of
                  (Some payload, Some tag) \<Rightarrow>
                    if hmac cr secret payload = tag then Some payload else None
                | _ \<Rightarrow> None)))"

definition mint :: "crypto \<Rightarrow> authenticator \<Rightarrow> nat option \<Rightarrow> string \<Rightarrow> nat \<Rightarrow> string \<Rightarrow> string option" where
  "mint cr a clock value ttl kind =
     (case clock of
        None \<Rightarrow> None
      | Some now \<Rightarrow>
          sign cr a (kind @ [CHR 0x0A] @ show_nat (now + ttl) @ [CHR 0x0A] @ show_nat now @
                     [CHR 0x0A] @ value))"

definition claims_of ::
  "crypto \<Rightarrow> authenticator \<Rightarrow> nat option \<Rightarrow> string \<Rightarrow> string \<Rightarrow> (nat \<times> nat \<times> string) option" where
  "claims_of cr a clock value kind =
     (case Option.bind (verify_signed cr a value) from_utf8 of
        None \<Rightarrow> None
      | Some payload \<Rightarrow>
          (case splitn 4 (CHR 0x0A) payload of
             k # e # i # v # _ \<Rightarrow>
               if k \<noteq> kind then None
               else (case (u64_from_str e, u64_from_str i) of
                       (Some exp, Some iat) \<Rightarrow>
                         (case clock of
                            None \<Rightarrow> None
                          | Some now \<Rightarrow> if now \<ge> exp then None else Some (exp, iat, v))
                     | _ \<Rightarrow> None)
           | _ \<Rightarrow> None))"

definition session_cookie_value :: "crypto \<Rightarrow> authenticator \<Rightarrow> nat option \<Rightarrow> string \<Rightarrow> string option" where
  "session_cookie_value cr a clock user_id = mint cr a clock user_id (at_session_ttl a) ''session''"

definition access_token :: "crypto \<Rightarrow> authenticator \<Rightarrow> nat option \<Rightarrow> string \<Rightarrow> string option" where
  "access_token cr a clock user_id =
     (if \<not> issued_tokens_enabled a then None
      else map_option (\<lambda>m. ACCESS_TOKEN_PREFIX @ m)
             (mint cr a clock user_id (at_access_token_ttl a) ''token''))"

definition access_token_claims ::
  "crypto \<Rightarrow> authenticator \<Rightarrow> nat option \<Rightarrow> string \<Rightarrow> (nat \<times> string) option" where
  "access_token_claims cr a clock token =
     (case strip_prefix ACCESS_TOKEN_PREFIX token of
        None \<Rightarrow> None
      | Some raw \<Rightarrow> map_option (\<lambda>(exp, _, user_id). (exp, user_id)) (claims_of cr a clock raw ''token''))"

definition session_claims ::
  "crypto \<Rightarrow> authenticator \<Rightarrow> nat option \<Rightarrow> headers \<Rightarrow> (nat \<times> nat \<times> string) option" where
  "session_claims cr a clock hs =
     (case cookie_value hs SESSION_COOKIE of
        None \<Rightarrow> None
      | Some raw \<Rightarrow> claims_of cr a clock raw ''session'')"

definition session_refresh_value :: "crypto \<Rightarrow> authenticator \<Rightarrow> nat option \<Rightarrow> headers \<Rightarrow> string option" where
  "session_refresh_value cr a clock hs =
     (case (session_claims cr a clock hs, clock) of
        (Some (_, iat, user_id), Some now) \<Rightarrow>
          if now - iat < at_session_ttl a div 4 then None
          else session_cookie_value cr a clock user_id
      | _ \<Rightarrow> None)"

definition pending_value :: "crypto \<Rightarrow> authenticator \<Rightarrow> nat option \<Rightarrow> identity \<Rightarrow> string option" where
  "pending_value cr a clock identity =
     (case identity_to_json cr identity of
        None \<Rightarrow> None
      | Some json \<Rightarrow> mint cr a clock json PENDING_TTL ''pending'')"

definition pending_identity :: "crypto \<Rightarrow> authenticator \<Rightarrow> nat option \<Rightarrow> string \<Rightarrow> identity option" where
  "pending_identity cr a clock value =
     (case claims_of cr a clock value ''pending'' of
        None \<Rightarrow> None
      | Some (_, _, json) \<Rightarrow> identity_from_json cr json)"

section \<open>ID tokens\<close>

datatype jwt_alg = RS256 | ES256 | OtherAlg

record jwt_header =
  jh_alg :: jwt_alg
  jh_kid :: "string option"

record id_claims =
  cl_sub :: string
  cl_email :: string
  cl_email_verified :: bool
  cl_name :: string
  cl_picture :: string

text \<open>
  The token library and the key set: \<open>find_key\<close> is \<open>KeySet::find\<close> at this moment, \<open>jwt_decode\<close>
  checks the signature, the expiry with its leeway, and that the issuer and the audience are
  among those given.
\<close>

record 'key id_token_lib =
  decode_header :: "string \<Rightarrow> jwt_header option"
  find_key :: "string option \<Rightarrow> (auth_error, 'key \<times> jwt_alg) result"
  jwt_decode :: "string \<Rightarrow> 'key \<Rightarrow> jwt_alg \<Rightarrow> nat \<Rightarrow> string list \<Rightarrow> string list \<Rightarrow> id_claims option"

definition ID_TOKEN_LEEWAY_SECS :: nat where "ID_TOKEN_LEEWAY_SECS = 30"

definition issuer_forms :: "string \<Rightarrow> string list" where
  "issuer_forms issuer =
     issuer # (case strip_prefix ''https://'' issuer of Some bare \<Rightarrow> [bare] | None \<Rightarrow> [])"

definition email_flags_of :: "authenticator \<Rightarrow> string \<Rightarrow> (auth_error, email_flags) result" where
  "email_flags_of a email =
     (case rsplit_once (CHR ''@'') email of
        None \<Rightarrow> Inl AuthInvalid
      | Some (_, domain) \<Rightarrow>
          (let email_lower = to_ascii_lowercase email; domain_lower = to_ascii_lowercase domain
           in if \<not> (domain_lower \<in> set (at_allowed_domains a) \<or> email_lower \<in> set (at_allowed_emails a))
              then Inl AuthForbidden
              else Inr \<lparr>ef_can_create = (case at_write_domains a of
                            None \<Rightarrow> True | Some domains \<Rightarrow> domain_lower \<in> set domains),
                        ef_site_admin = (email_lower \<in> set (at_admin_emails a)
                            \<or> domain_lower \<in> set (at_admin_domains a))\<rparr>))"

definition verify_id_token ::
  "'key id_token_lib \<Rightarrow> authenticator \<Rightarrow> string \<Rightarrow> string list \<Rightarrow> (auth_error, identity) result" where
  "verify_id_token lib a token only_aud =
     (case decode_header lib token of
        None \<Rightarrow> Inl AuthInvalid
      | Some h \<Rightarrow>
          if jh_alg h \<noteq> RS256 \<and> jh_alg h \<noteq> ES256 then Inl AuthInvalid
          else case find_key lib (jh_kid h) of
            Inl e \<Rightarrow> Inl e
          | Inr (key, alg) \<Rightarrow>
              if alg \<noteq> jh_alg h then Inl AuthInvalid
              else let audiences = (if only_aud = [] then at_audiences a else only_aud)
                in if audiences = [] then Inl AuthInvalid
                   else case jwt_decode lib token key alg ID_TOKEN_LEEWAY_SECS
                               (issuer_forms (at_issuer a)) audiences of
                     None \<Rightarrow> Inl AuthInvalid
                   | Some claims \<Rightarrow>
                       if \<not> cl_email_verified claims then Inl AuthInvalid
                       else case email_flags_of a (cl_email claims) of
                         Inl e \<Rightarrow> Inl e
                       | Inr _ \<Rightarrow>
                           if cl_sub claims = [] then Inl AuthInvalid
                           else Inr \<lparr>id_issuer = at_issuer a, id_subject = cl_sub claims,
                                     id_email = cl_email claims, id_name = cl_name claims,
                                     id_picture = cl_picture claims\<rparr>)"

definition verify_login_id_token ::
  "'key id_token_lib \<Rightarrow> authenticator \<Rightarrow> string \<Rightarrow> (auth_error, identity) result" where
  "verify_login_id_token lib a token =
     (case oauth_client a of
        None \<Rightarrow> Inl AuthUnavailable
      | Some (client_id, _) \<Rightarrow> verify_id_token lib a token [client_id])"

section \<open>The credential of a request\<close>

definition opaque_token ::
  "crypto \<Rightarrow> authenticator \<Rightarrow> nat option \<Rightarrow> string \<Rightarrow> (auth_error, auth_credential) result option" where
  "opaque_token cr a clock tok =
     (case find (\<lambda>t. st_token t = tok) (at_tokens a) of
        Some st \<Rightarrow> Some (Inr (CToken (st_user st) (st_write st) (st_admin st)))
      | None \<Rightarrow>
          if starts_with tok ACCESS_TOKEN_PREFIX
          then Some (case access_token_claims cr a clock tok of
                       Some (_, user_id) \<Rightarrow> Inr (CAccount user_id)
                     | None \<Rightarrow> Inl AuthInvalid)
          else None)"

definition session_credential :: "crypto \<Rightarrow> authenticator \<Rightarrow> nat option \<Rightarrow> headers \<Rightarrow> auth_credential" where
  "session_credential cr a clock hs =
     (case session_claims cr a clock hs of
        Some (_, _, user_id) \<Rightarrow> CAccount user_id
      | None \<Rightarrow> CAnonymous)"

definition opaque_or_invalid ::
  "crypto \<Rightarrow> authenticator \<Rightarrow> nat option \<Rightarrow> string \<Rightarrow> (auth_error, auth_credential) result" where
  "opaque_or_invalid cr a clock tok =
     (case opaque_token cr a clock tok of Some r \<Rightarrow> r | None \<Rightarrow> Inl AuthInvalid)"

definition authenticate_inner ::
  "crypto \<Rightarrow> 'key id_token_lib \<Rightarrow> authenticator \<Rightarrow> nat option \<Rightarrow> headers \<Rightarrow>
     (auth_error, auth_credential) result" where
  "authenticate_inner cr lib a clock hs =
     (case at_mode a of
        ModeNone \<Rightarrow> Inr CLocal
      | ModeToken \<Rightarrow>
          (case (case bearer_token hs of
                   Some t \<Rightarrow> Some t
                 | None \<Rightarrow> map_option snd (basic_credentials hs)) of
             Some tok \<Rightarrow> opaque_or_invalid cr a clock tok
           | None \<Rightarrow> Inr (session_credential cr a clock hs))
      | ModeOidc \<Rightarrow>
          (case bearer_token hs of
             Some tok \<Rightarrow>
               (case opaque_token cr a clock tok of
                  Some r \<Rightarrow> r
                | None \<Rightarrow>
                    (case verify_id_token lib a tok [] of
                       Inl e \<Rightarrow> Inl e
                     | Inr i \<Rightarrow> Inr (CIdentity i)))
           | None \<Rightarrow>
               (case basic_credentials hs of
                  Some (_, pass) \<Rightarrow> opaque_or_invalid cr a clock pass
                | None \<Rightarrow> Inr (session_credential cr a clock hs))))"

definition forwarded_principal :: "headers \<Rightarrow> string option" where
  "forwarded_principal hs = nonempty (map_option trim (header_get hs ''x-walgit-principal''))"

definition credential ::
  "crypto \<Rightarrow> 'key id_token_lib \<Rightarrow> authenticator \<Rightarrow> nat option \<Rightarrow> headers \<Rightarrow>
     (auth_error, auth_credential) result" where
  "credential cr lib a clock hs =
     (case authenticate_inner cr lib a clock hs of
        Inl e \<Rightarrow> Inl e
      | Inr caller \<Rightarrow>
          (case forwarded_principal hs of
             None \<Rightarrow> Inr caller
           | Some forwarded \<Rightarrow>
               (case caller of
                  CToken user write _ \<Rightarrow>
                    if write \<and> list_ex (\<lambda>f. eq_ignore_ascii_case f user) (at_trusted_forwarders a)
                    then Inr (CAccount forwarded) else Inr caller
                | _ \<Rightarrow> Inr caller)))"

definition token_flags :: "authenticator \<Rightarrow> string \<Rightarrow> email_flags" where
  "token_flags a login =
     fold (\<lambda>t f. \<lparr>ef_can_create = (ef_can_create f \<or> st_write t),
                  ef_site_admin = (ef_site_admin f \<or> st_admin t)\<rparr>)
       (filter (\<lambda>t. eq_ignore_ascii_case (st_user t) login) (at_tokens a))
       \<lparr>ef_can_create = False, ef_site_admin = False\<rparr>"

section \<open>Signed values are read back\<close>

lemma digit_char_digit: "d < 10 \<Longrightarrow> is_ascii_digit (digit_char d) \<and> digit_val (digit_char d) = of_char (digit_char d) - 48"
  by (simp add: digit_char_def ascii_defs digit_val_def Let_def)

lemma show_nat_digits: "c \<in> set (show_nat n) \<Longrightarrow> is_ascii_digit c \<and> digit_val c = of_char c - 48"
  using digit_str_digits [of 10 n] digit_char_digit
  by (auto simp: show_nat_def digit_str_def list_all_iff)

lemma show_nat_nonempty [simp]: "show_nat n \<noteq> []"
  by (subst show_nat_def, subst digits.simps) simp

lemma u64_show_nat [simp]:
  assumes "n < 2 ^ 64"
  shows "u64_from_str (show_nat n) = Some n"
proof -
  have "foldl (\<lambda>n b. n * 10 + (of_char b - 48)) 0 (show_nat n) = digits_val 10 (show_nat n)"
    unfolding digits_val_def by (rule foldl_cong) (simp_all add: show_nat_digits)
  also have "\<dots> = n" by (simp add: show_nat_def digits_val_digits)
  finally have "parse_u64 (show_nat n) = Some n" using assms by (simp add: parse_u64_def)
  moreover have "list_all is_ascii_digit (show_nat n)" by (simp add: list_all_iff show_nat_digits)
  ultimately show ?thesis
    by (cases "show_nat n") (auto simp: u64_from_str_def ascii_defs)
qed

lemma show_nat_no_newline [simp]: "CHR 0x0A \<notin> set (show_nat n)"
  using show_nat_digits [of "CHR 0x0A" n] by (auto simp: ascii_defs)

lemma is_utf8_ascii: "is_ascii s \<Longrightarrow> is_utf8 (s @ t) \<longleftrightarrow> is_utf8 t"
proof (induction s)
  case (Cons c s)
  then show ?case by (subst is_utf8.simps) (simp add: is_ascii_def utf8_step_def)
qed simp

lemma is_ascii_simps [simp]:
  "is_ascii []" "is_ascii (c # s) \<longleftrightarrow> of_char c < (128 :: nat) \<and> is_ascii s"
  "is_ascii (s @ t) \<longleftrightarrow> is_ascii s \<and> is_ascii t"
  by (simp_all add: is_ascii_def)

lemma is_ascii_show_nat [simp]: "is_ascii (show_nat n)"
proof -
  have "of_char c < (128 :: nat)" if "c \<in> set (show_nat n)" for c
    using show_nat_digits [OF that] by (simp add: ascii_defs)
  then show ?thesis by (simp add: is_ascii_def list_all_iff)
qed

text \<open>What the program relies on of the base64 engine.\<close>

definition crypto_ok :: "crypto \<Rightarrow> bool" where
  "crypto_ok cr =
     (\<forall>b. b64_decode cr (b64_encode cr b) = Some b \<and> CHR ''.'' \<notin> set (b64_encode cr b))"

lemma verify_sign:
  assumes "crypto_ok cr" "sign cr a payload = Some minted"
  shows "verify_signed cr a minted = Some payload"
  using assms by (auto simp: sign_def verify_signed_def crypto_ok_def split: option.splits)

text \<open>
  C18. A signed value is read back as what it was minted for until it expires, and only under
  its own kind: whatever a session cookie, an access token or a pending sign-up carries, none of
  them is accepted as another, even though one key signs them all.
\<close>

theorem signed_values_keep_their_kind:
  assumes "crypto_ok cr" "now + ttl < 2 ^ 64"
    and "CHR 0x0A \<notin> set kind" "is_ascii kind" "is_utf8 value"
    and "mint cr a (Some now) value ttl kind = Some minted"
  shows "claims_of cr a (Some later) minted kind' =
    (if kind' = kind \<and> later < now + ttl then Some (now + ttl, now, value) else None)"
proof -
  let ?payload = "kind @ [CHR 0x0A] @ show_nat (now + ttl) @ [CHR 0x0A] @ show_nat now @
    [CHR 0x0A] @ value"
  have "verify_signed cr a minted = Some ?payload"
    using assms(1,6) verify_sign by (simp add: mint_def)
  moreover have "is_utf8 ?payload"
    using is_utf8_ascii [of "kind @ [CHR 0x0A] @ show_nat (now + ttl) @ [CHR 0x0A] @ show_nat now @
      [CHR 0x0A]" "value"] assms(4,5) by simp
  moreover have "splitn 4 (CHR 0x0A) ?payload = [kind, show_nat (now + ttl), show_nat now, value]"
    using assms(3) by (simp add: numeral_eq_Suc)
  ultimately show ?thesis using assms(2) by (simp add: claims_of_def from_utf8_def)
qed

text \<open>An engine for the witnesses: two hexadecimal digits a byte.\<close>

fun hex_encode :: "bytes \<Rightarrow> string" where
  "hex_encode [] = []"
| "hex_encode (c # cs) =
     digit_char (of_char c div 16) # digit_char (of_char c mod 16) # hex_encode cs"

fun hex_decode :: "string \<Rightarrow> bytes option" where
  "hex_decode [] = Some []"
| "hex_decode [c] = None"
| "hex_decode (h # l # cs) =
     map_option (\<lambda>bs. char_of (digit_val h * 16 + digit_val l) # bs) (hex_decode cs)"

definition sample_crypto :: crypto where
  "sample_crypto =
     \<lparr>hmac = (\<lambda>k p. k @ p), b64_encode = hex_encode, b64_decode = hex_decode,
      identity_to_json = (\<lambda>i. Some (id_subject i)), identity_from_json = (\<lambda>_. None)\<rparr>"

lemma of_char_div: "of_char c div 16 < (16 :: nat)"
  by (cases c) (simp add: of_char_def)

lemma hex_decode_encode: "hex_decode (hex_encode b) = Some b"
  by (induction b) (simp_all add: of_char_div)

lemma digit_char_no_dot [simp]: "d < 16 \<Longrightarrow> CHR ''.'' \<noteq> digit_char d"
  by (auto simp: digit_char_def dest: arg_cong [of _ _ "of_char :: char \<Rightarrow> nat"])

lemma hex_encode_no_dot: "CHR ''.'' \<notin> set (hex_encode b)"
  by (induction b) (simp_all add: of_char_div)

lemma sample_crypto_ok: "crypto_ok sample_crypto"
  by (simp add: crypto_ok_def sample_crypto_def hex_decode_encode hex_encode_no_dot)

definition sample_auth :: authenticator where
  "sample_auth = authenticator_build (\<lambda>_. None)
     \<lparr>au_mode = ModeToken, au_anonymous_read = False,
      au_tokens = [\<lparr>st_user = ''edge'', st_token = ''s3cret'', st_token_env = None, st_write = True,
                    st_admin = False\<rparr>],
      au_issuer = [], au_allowed_domains = [], au_allowed_emails = [],
      au_trusted_forwarders = [''edge''], au_admin_emails = [], au_admin_domains = [],
      au_audiences = [], au_write_domains = None, au_session_secret = Some ''k'',
      au_session_ttl = 100, au_access_token_ttl = 1000, au_oauth_client_id = None,
      au_oauth_client_secret = None, au_passwords = PwAdmin\<rparr>"

lemma sample_auth_secret: "at_session_secret sample_auth = Some ''k''"
  by (simp add: sample_auth_def authenticator_build_def nonempty_def Let_def)

theorem signed_values_keep_their_kind_witness:
  "\<exists>m. session_cookie_value sample_crypto sample_auth (Some 7) ''u1'' = Some m
     \<and> claims_of sample_crypto sample_auth (Some 20) m ''session'' = Some (107, 7, ''u1'')
     \<and> claims_of sample_crypto sample_auth (Some 107) m ''session'' = None
     \<and> claims_of sample_crypto sample_auth (Some 20) m ''token'' = None"
proof -
  have ttl: "at_session_ttl sample_auth = 100"
    by (simp add: sample_auth_def authenticator_build_def Let_def)
  obtain m where m: "mint sample_crypto sample_auth (Some 7) ''u1'' 100 ''session'' = Some m"
    by (simp add: mint_def sign_def sample_auth_secret)
  have u1: "is_utf8 ''u1''"
    using is_utf8_ascii [of "''u1''" "[]"] by (simp add: is_ascii_def is_utf8.simps [of "[]"])
  have "claims_of sample_crypto sample_auth (Some later) m kind =
      (if kind = ''session'' \<and> later < 7 + 100 then Some (7 + 100, 7, ''u1'') else None)" for later kind
    by (rule signed_values_keep_their_kind [OF sample_crypto_ok _ _ _ u1 m])
       (simp_all add: is_ascii_def)
  then show ?thesis using m by (auto simp: session_cookie_value_def ttl)
qed

section \<open>What a credential rests on\<close>

text \<open>A token the client presents: its bearer, or else its Basic password.\<close>

definition presents :: "headers \<Rightarrow> string \<Rightarrow> bool" where
  "presents hs tok \<longleftrightarrow>
     bearer_token hs = Some tok
     \<or> bearer_token hs = None \<and> (\<exists>user. basic_credentials hs = Some (user, tok))"

text \<open>
  A signed value that proves an account: the payload and its HMAC under the configured secret, both in
  base64 and separated by a dot, where the payload is the kind, an expiry after the present second, the
  time of issue and the account, one a line.
\<close>

definition signed_for :: "crypto \<Rightarrow> authenticator \<Rightarrow> nat option \<Rightarrow> string \<Rightarrow> string \<Rightarrow> string \<Rightarrow> bool" where
  "signed_for cr a clock kind uid raw \<longleftrightarrow>
     (\<exists>secret now p t payload e i exp.
        at_session_secret a = Some secret \<and> clock = Some now \<and>
        raw = p @ CHR ''.'' # t \<and> b64_decode cr p = Some payload \<and>
        b64_decode cr t = Some (hmac cr secret payload) \<and>
        payload = kind @ CHR 0x0A # e @ CHR 0x0A # i @ CHR 0x0A # uid \<and>
        u64_from_str e = Some exp \<and> now < exp)"

text \<open>
  An ID token that proves an identity: signed with a key of the issuer under the algorithm the key is
  for, issued by the configured issuer (with or without its scheme) for one of the configured
  audiences, with a verified email of an allowed domain or address and a subject.
\<close>

definition id_token_for :: "'key id_token_lib \<Rightarrow> authenticator \<Rightarrow> identity \<Rightarrow> string \<Rightarrow> bool" where
  "id_token_for lib a ident tok \<longleftrightarrow>
     (\<exists>h key issuers claims local_part domain.
        decode_header lib tok = Some h \<and> jh_alg h \<in> {RS256, ES256} \<and>
        find_key lib (jh_kid h) = Inr (key, jh_alg h) \<and> at_audiences a \<noteq> [] \<and>
        set issuers \<subseteq> {iss. iss = at_issuer a \<or> ''https://'' @ iss = at_issuer a} \<and>
        jwt_decode lib tok key (jh_alg h) 30 issuers (at_audiences a) = Some claims \<and>
        cl_email_verified claims \<and> cl_email claims = local_part @ CHR ''@'' # domain \<and>
        (to_ascii_lowercase domain \<in> set (at_allowed_domains a)
         \<or> to_ascii_lowercase (cl_email claims) \<in> set (at_allowed_emails a)) \<and>
        cl_sub claims \<noteq> [] \<and>
        ident = \<lparr>id_issuer = at_issuer a, id_subject = cl_sub claims, id_email = cl_email claims,
                 id_name = cl_name claims, id_picture = cl_picture claims\<rparr>)"

text \<open>What each credential rests on; the anonymous and the local one rest on the mode alone.\<close>

definition proved ::
  "crypto \<Rightarrow> 'key id_token_lib \<Rightarrow> authenticator \<Rightarrow> nat option \<Rightarrow> headers \<Rightarrow> auth_credential \<Rightarrow> bool" where
  "proved cr lib a clock hs c =
     (case c of
        CAnonymous \<Rightarrow> at_mode a \<noteq> ModeNone \<and> (\<forall>tok. \<not> presents hs tok)
      | CLocal \<Rightarrow> at_mode a = ModeNone
      | CToken user write admin \<Rightarrow>
          (\<exists>t \<in> set (at_tokens a). presents hs (st_token t)
             \<and> user = st_user t \<and> write = st_write t \<and> admin = st_admin t)
      | CAccount uid \<Rightarrow>
          (\<forall>tok. \<not> presents hs tok) \<and>
            (\<exists>raw. cookie_value hs ''walgit_session'' = Some raw \<and> signed_for cr a clock ''session'' uid raw)
          \<or> (\<exists>raw. presents hs (''wgt_'' @ raw) \<and> signed_for cr a clock ''token'' uid raw)
      | CIdentity i \<Rightarrow>
          at_mode a = ModeOidc \<and> (\<exists>tok. bearer_token hs = Some tok \<and> id_token_for lib a i tok))"

lemma rsplit_once_Some: "rsplit_once c s = Some (x, y) \<Longrightarrow> s = x @ c # y"
  by (auto simp: rsplit_once_def split_once_Some) (metis append.assoc append_Cons append_Nil rev_append rev_rev_ident rev.simps(2))

lemma splitn_4:
  assumes "splitn 4 c s = k # e # i # v # rest"
  shows "s = k @ c # e @ c # i @ c # v"
  using assms by (auto simp: numeral_eq_Suc split: option.splits simp: split_once_Some)

lemma verify_signed_Some:
  assumes "verify_signed cr a value = Some payload"
  obtains secret p t where "at_session_secret a = Some secret" "value = p @ CHR ''.'' # t"
    "b64_decode cr p = Some payload" "b64_decode cr t = Some (hmac cr secret payload)"
  using assms by (auto simp: verify_signed_def split: option.splits if_splits simp: split_once_Some)

lemma claims_of_signed:
  assumes "claims_of cr a clock raw kind = Some (exp, iat, uid)"
  shows "signed_for cr a clock kind uid raw"
proof -
  obtain payload rest e i now where v: "verify_signed cr a raw = Some payload"
    and sp: "splitn 4 (CHR 0x0A) payload = kind # e # i # uid # rest"
    and e: "u64_from_str e = Some exp" "clock = Some now" "now < exp"
    using assms
    by (auto simp: claims_of_def from_utf8_def bind_eq_Some_conv
        split: option.splits list.splits if_splits)
  from v obtain secret p t where "at_session_secret a = Some secret" "raw = p @ CHR ''.'' # t"
    "b64_decode cr p = Some payload" "b64_decode cr t = Some (hmac cr secret payload)"
    by (rule verify_signed_Some)
  then show ?thesis using splitn_4 [OF sp] e unfolding signed_for_def by blast
qed

lemma verify_id_token_Inr:
  assumes "verify_id_token lib a tok [] = Inr i"
  shows "id_token_for lib a i tok"
proof -
  obtain h key claims flags where c: "decode_header lib tok = Some h" "jh_alg h \<in> {RS256, ES256}"
    "find_key lib (jh_kid h) = Inr (key, jh_alg h)" "at_audiences a \<noteq> []"
    "jwt_decode lib tok key (jh_alg h) 30 (issuer_forms (at_issuer a)) (at_audiences a) = Some claims"
    "cl_email_verified claims" "email_flags_of a (cl_email claims) = Inr flags" "cl_sub claims \<noteq> []"
    "i = \<lparr>id_issuer = at_issuer a, id_subject = cl_sub claims, id_email = cl_email claims,
          id_name = cl_name claims, id_picture = cl_picture claims\<rparr>"
    using assms
    by (auto simp: verify_id_token_def Let_def ID_TOKEN_LEEWAY_SECS_def
        split: option.splits if_splits sum.splits prod.splits)
  obtain x y where "cl_email claims = x @ CHR ''@'' # y"
    "to_ascii_lowercase y \<in> set (at_allowed_domains a) \<or> to_ascii_lowercase (cl_email claims) \<in> set (at_allowed_emails a)"
    using c(7) by (auto simp: email_flags_of_def Let_def split: option.splits if_splits dest!: rsplit_once_Some)
  moreover have "set (issuer_forms (at_issuer a)) \<subseteq> {iss. iss = at_issuer a \<or> ''https://'' @ iss = at_issuer a}"
    by (auto simp: issuer_forms_def strip_prefix_def prefix_def split: option.splits if_splits)
  ultimately show ?thesis using c(1-6,8,9) unfolding id_token_for_def by blast
qed

lemma opaque_token_proved:
  assumes "opaque_token cr a clock tok = Some (Inr c)" "presents hs tok"
  shows "proved cr lib a clock hs c"
proof (cases "find (\<lambda>t. st_token t = tok) (at_tokens a)")
  case None
  then obtain exp uid where c: "c = CAccount uid" "access_token_claims cr a clock tok = Some (exp, uid)"
    using assms(1) by (auto simp: opaque_token_def split: if_splits option.splits)
  then obtain raw iat where "tok = ''wgt_'' @ raw" "claims_of cr a clock raw ''token'' = Some (exp, iat, uid)"
    by (auto simp: access_token_claims_def ACCESS_TOKEN_PREFIX_def strip_prefix_def prefix_def
        split: option.splits if_splits)
  then show ?thesis using assms(2) c(1) claims_of_signed by (fastforce simp: proved_def)
next
  case (Some t)
  then have "t \<in> set (at_tokens a)" "st_token t = tok" by (auto simp: find_Some_iff)
  then show ?thesis using assms Some by (auto simp: opaque_token_def proved_def)
qed

lemma session_credential_proved:
  assumes "bearer_token hs = None" "basic_credentials hs = None" "at_mode a \<noteq> ModeNone"
  shows "proved cr lib a clock hs (session_credential cr a clock hs)"
  using assms
  by (auto simp: session_credential_def session_claims_def SESSION_COOKIE_def proved_def presents_def
      split: option.splits dest: claims_of_signed)

lemma authenticate_inner_proved:
  assumes "authenticate_inner cr lib a clock hs = Inr c"
  shows "proved cr lib a clock hs c"
proof (cases "at_mode a")
  case ModeNone
  then show ?thesis using assms by (auto simp: authenticate_inner_def proved_def)
next
  case ModeToken
  then show ?thesis using assms
    by (auto simp: authenticate_inner_def opaque_or_invalid_def presents_def
        intro: opaque_token_proved session_credential_proved split: option.splits)
next
  case ModeOidc
  then show ?thesis using assms
    by (auto simp: authenticate_inner_def opaque_or_invalid_def presents_def proved_def [of _ _ _ _ _ "CIdentity _"]
        dest: verify_id_token_Inr
        intro: opaque_token_proved session_credential_proved split: option.splits sum.splits)
qed

text \<open>
  C17. No request is taken for somebody without a proof. Whatever the headers hold: a static token's
  credential needs that token presented as the bearer or the Basic password; an account needs a
  session cookie with no token presented, or a presented access token, whose payload of that kind,
  not yet expired, carries its HMAC under the configured secret; or a presented static token that may
  write and belongs to a trusted forwarder, which names it; an identity needs a bearer ID token with
  a signature of the issuer's key, issuer, audience, verified and allowed email, and a subject. The
  two credentials that name nobody rest on the mode: the local one exists only in the mode without
  credentials, the anonymous one only in the others, with no token presented. No configured token and no
  configured secret is empty.
\<close>

theorem credential_needs_proof:
  assumes "a = authenticator_build env cfg" "credential cr lib a clock hs = Inr c"
  shows "(proved cr lib a clock hs c
      \<or> (\<exists>uid. \<exists>t \<in> set (at_tokens a). c = CAccount uid \<and> forwarded_principal hs = Some uid
           \<and> presents hs (st_token t) \<and> st_write t
           \<and> list_ex (\<lambda>f. eq_ignore_ascii_case f (st_user t)) (at_trusted_forwarders a)))
    \<and> (\<forall>t \<in> set (at_tokens a). st_token t \<noteq> []) \<and> at_session_secret a \<noteq> Some []"
proof
  obtain caller where caller: "authenticate_inner cr lib a clock hs = Inr caller"
    using assms(2) by (auto simp: credential_def split: sum.splits)
  then have p: "proved cr lib a clock hs caller" by (rule authenticate_inner_proved)
  show "proved cr lib a clock hs c
      \<or> (\<exists>uid. \<exists>t \<in> set (at_tokens a). c = CAccount uid \<and> forwarded_principal hs = Some uid
           \<and> presents hs (st_token t) \<and> st_write t
           \<and> list_ex (\<lambda>f. eq_ignore_ascii_case f (st_user t)) (at_trusted_forwarders a))"
  proof (cases "c = caller")
    case False
    then obtain user admin uid where forward: "caller = CToken user True admin"
      "forwarded_principal hs = Some uid" "c = CAccount uid"
      "list_ex (\<lambda>f. eq_ignore_ascii_case f user) (at_trusted_forwarders a)"
      using assms(2) caller
      by (auto simp: credential_def split: option.splits auth_credential.splits if_splits)
    then show ?thesis using p by (auto simp: proved_def)
  qed (use p in simp)
  show "(\<forall>t \<in> set (at_tokens a). st_token t \<noteq> []) \<and> at_session_secret a \<noteq> Some []"
    by (auto simp: assms(1) authenticator_build_def resolve_tokens_def nonempty_def Let_def
        split: option.splits list.splits)
qed

definition edge_headers :: headers where
  "edge_headers = [(''authorization'', ''Bearer s3cret''), (''x-walgit-principal'', ''u1'')]"

definition no_id_tokens :: "unit id_token_lib" where
  "no_id_tokens = \<lparr>decode_header = (\<lambda>_. None), find_key = (\<lambda>_. Inl AuthUnavailable),
                   jwt_decode = (\<lambda>_ _ _ _ _ _. None)\<rparr>"

theorem credential_needs_proof_witness:
  "credential sample_crypto no_id_tokens sample_auth (Some 7) edge_headers = Inr (CAccount ''u1'')
   \<and> \<not> proved sample_crypto no_id_tokens sample_auth (Some 7) edge_headers (CAccount ''u1'')
   \<and> (\<exists>t \<in> set (at_tokens sample_auth). presents edge_headers (st_token t) \<and> st_write t)"
proof -
  have c: "credential sample_crypto no_id_tokens sample_auth (Some 7) edge_headers = Inr (CAccount ''u1'')"
    by code_simp
  have b: "bearer_token edge_headers = Some ''s3cret''" by code_simp
  then have "presents edge_headers tok \<longleftrightarrow> tok = ''s3cret''" for tok by (auto simp: presents_def)
  then have n: "\<not> proved sample_crypto no_id_tokens sample_auth (Some 7) edge_headers (CAccount ''u1'')"
    by (auto simp: proved_def)
  show ?thesis using c n credential_needs_proof [OF sample_auth_def c] by auto
qed

end
