(* ===== verification/Authorize.thy ===== *)
theory Authorize
  imports Auth Accounts
begin

text \<open>
  Authorization (\<open>walgit-server/src/access.rs\<close>, with \<open>error.rs\<close>): from the credential of a
  request to its account, and from the account to what it may do on one repository. The
  process-wide account log is seen through \<open>accounts_view\<close>: the fold as last synced
  (\<open>Accounts::cached\<close>) and the fold after revalidation (\<open>Accounts::synced\<close>); a repository
  through what opening it and revalidating its manifest gave. \<open>disp\<close> and \<open>sdisp\<close> are the
  derived \<open>Display\<close> of \<open>WalError\<close> and \<open>StoreError\<close>.

  The lemmas: a repository the asker may not see answers like one that does not exist, and a
  grant is one the publisher's own check of the same access document agrees with.
\<close>

section \<open>Errors as answers (error.rs)\<close>

datatype api_error =
    ApiNotFound string
  | ApiBadRequest string
  | ApiUnauthorized
  | ApiForbidden
  | ApiDenied string
  | ApiConflict string
  | ApiPayloadTooLarge
  | ApiUnsupportedMediaType string
  | ApiServiceUnavailable string
  | ApiInternal string

fun api_status :: "api_error \<Rightarrow> nat" where
  "api_status (ApiNotFound _) = 404"
| "api_status (ApiBadRequest _) = 400"
| "api_status ApiUnauthorized = 401"
| "api_status ApiForbidden = 403"
| "api_status (ApiDenied _) = 403"
| "api_status (ApiConflict _) = 409"
| "api_status ApiPayloadTooLarge = 413"
| "api_status (ApiUnsupportedMediaType _) = 415"
| "api_status (ApiServiceUnavailable _) = 503"
| "api_status (ApiInternal _) = 500"

fun api_message :: "api_error \<Rightarrow> string" where
  "api_message (ApiNotFound m) = ''not found: '' @ m"
| "api_message (ApiBadRequest m) = ''bad request: '' @ m"
| "api_message ApiUnauthorized = ''unauthorized''"
| "api_message ApiForbidden = ''forbidden''"
| "api_message (ApiDenied m) = ''forbidden: '' @ m"
| "api_message (ApiConflict m) = ''conflict: '' @ m"
| "api_message ApiPayloadTooLarge = ''payload too large''"
| "api_message (ApiUnsupportedMediaType m) = ''unsupported media type: '' @ m"
| "api_message (ApiServiceUnavailable m) = ''service unavailable: '' @ m"
| "api_message (ApiInternal m) = ''internal error: '' @ m"

definition api_from_store :: "(store_error \<Rightarrow> string) \<Rightarrow> store_error \<Rightarrow> api_error" where
  "api_from_store sdisp e =
     (case e of NotFound key \<Rightarrow> ApiNotFound key | other \<Rightarrow> ApiInternal (sdisp other))"

definition wal_err :: "(wal_error \<Rightarrow> string) \<Rightarrow> (store_error \<Rightarrow> string) \<Rightarrow> wal_error \<Rightarrow> api_error" where
  "wal_err disp sdisp e =
     (case e of
        WalNotFound \<Rightarrow> ApiNotFound (disp e)
      | TooLarge _ _ \<Rightarrow> ApiServiceUnavailable (disp e)
      | WalStore se \<Rightarrow>
          if is_retryable se then ApiServiceUnavailable (''object store: '' @ sdisp se)
          else ApiInternal (''wal: '' @ disp e)
      | _ \<Rightarrow> ApiInternal (''wal: '' @ disp e))"

definition auth_err :: "auth_error \<Rightarrow> api_error" where
  "auth_err e =
     (case e of
        AuthInvalid \<Rightarrow> ApiUnauthorized
      | AuthUnauthorized \<Rightarrow> ApiUnauthorized
      | AuthForbidden \<Rightarrow> ApiForbidden
      | NoAccount why \<Rightarrow> ApiDenied why
      | AuthUnavailable \<Rightarrow> ApiServiceUnavailable ''auth provider unavailable'')"

section \<open>Subjects\<close>

definition LOCAL_USER_ID :: string where "LOCAL_USER_ID = ''local''"

record subject =
  su_name :: string
  su_user_id :: "string option"
  su_email :: string
  su_can_create :: bool
  su_site_admin :: bool

definition subject_anonymous :: subject where
  "subject_anonymous =
     \<lparr>su_name = ''anonymous'', su_user_id = None, su_email = [], su_can_create = False,
      su_site_admin = False\<rparr>"

definition is_anonymous :: "subject \<Rightarrow> bool" where
  "is_anonymous s = (su_user_id s = None)"

definition subject_names :: "subject \<Rightarrow> string list" where
  "subject_names s = su_name s # (if su_email s \<noteq> [] then [su_email s] else [])"

definition subject_of :: "user \<Rightarrow> email_flags \<Rightarrow> subject" where
  "subject_of u flags =
     \<lparr>su_name = us_login u, su_user_id = Some (us_user_id u), su_email = us_email u,
      su_can_create = ef_can_create flags, su_site_admin = ef_site_admin flags\<rparr>"

section \<open>From the credential to the account\<close>

record accounts_view =
  av_cached :: "(wal_error, accounts_state) result"
  av_synced :: "(wal_error, accounts_state) result"

definition lookup ::
  "accounts_view \<Rightarrow> (accounts_state \<Rightarrow> 'r option) \<Rightarrow> (auth_error, 'r option) result" where
  "lookup av f =
     (case av_cached av of
        Inl _ \<Rightarrow> Inl AuthUnavailable
      | Inr s \<Rightarrow>
          if f s \<noteq> None then Inr (f s)
          else case av_synced av of Inl _ \<Rightarrow> Inl AuthUnavailable | Inr s' \<Rightarrow> Inr (f s'))"

definition join_flags :: "email_flags \<Rightarrow> email_flags \<Rightarrow> email_flags" where
  "join_flags f g =
     \<lparr>ef_can_create = (ef_can_create f \<or> ef_can_create g),
      ef_site_admin = (ef_site_admin f \<or> ef_site_admin g)\<rparr>"

definition account_flags :: "authenticator \<Rightarrow> user \<Rightarrow> (auth_error, email_flags) result" where
  "account_flags a account =
     (let flags = token_flags a (us_login account);
          flags1 = flags \<lparr>ef_can_create := (ef_can_create flags \<or> at_passwords a \<noteq> PwOff)\<rparr>
      in if at_mode a = ModeOidc \<and> us_email account \<noteq> []
         then (case email_flags_of a (us_email account) of
                 Inl e \<Rightarrow> Inl e
               | Inr e \<Rightarrow> Inr (join_flags flags1 e))
         else Inr flags1)"

text \<open>\<open>base_url\<close> is \<open>smart::request_base_url\<close> of the request.\<close>

definition resolve_credential ::
  "authenticator \<Rightarrow> accounts_view \<Rightarrow> string \<Rightarrow> auth_credential \<Rightarrow> (auth_error, subject) result" where
  "resolve_credential a av base_url cred =
     (case cred of
        CAnonymous \<Rightarrow> Inr subject_anonymous
      | CLocal \<Rightarrow>
          Inr \<lparr>su_name = ''anon'', su_user_id = Some LOCAL_USER_ID, su_email = [],
               su_can_create = True, su_site_admin = True\<rparr>
      | CToken user write admin \<Rightarrow>
          (case lookup av (\<lambda>s. user_by_login s user) of
             Inl e \<Rightarrow> Inl e
           | Inr None \<Rightarrow>
               Inl (NoAccount (''this token acts as '' @ debug_str user @
                 '', which has no account: create it with `walgit user create '' @ user @ ''`''))
           | Inr (Some account) \<Rightarrow>
               Inr (subject_of account \<lparr>ef_can_create = write, ef_site_admin = admin\<rparr>))
      | CAccount user_id \<Rightarrow>
          (case lookup av (\<lambda>s. bt_get (as_users s) user_id) of
             Inl e \<Rightarrow> Inl e
           | Inr None \<Rightarrow> Inl AuthInvalid
           | Inr (Some account) \<Rightarrow>
               (case account_flags a account of
                  Inl e \<Rightarrow> Inl e
                | Inr flags \<Rightarrow> Inr (subject_of account flags)))
      | CIdentity i \<Rightarrow>
          (case lookup av (\<lambda>s. user_by_identity s (id_issuer i) (id_subject i)) of
             Inl e \<Rightarrow> Inl e
           | Inr None \<Rightarrow>
               Inl (NoAccount (id_email i @ '' has no walgit account yet: sign in once in a browser at '' @
                 base_url @ ''/_auth/login to choose a username''))
           | Inr (Some account) \<Rightarrow>
               (case email_flags_of a (id_email i) of
                  Inl e \<Rightarrow> Inl e
                | Inr flags \<Rightarrow>
                    Inr (subject_of account (join_flags flags (token_flags a (us_login account)))))))"

definition authenticate ::
  "crypto \<Rightarrow> 'key id_token_lib \<Rightarrow> authenticator \<Rightarrow> nat option \<Rightarrow> accounts_view \<Rightarrow> string \<Rightarrow> headers \<Rightarrow>
     (auth_error, subject) result" where
  "authenticate cr lib a clock av base_url hs =
     (case credential cr lib a clock hs of
        Inl e \<Rightarrow> Inl e
      | Inr cred \<Rightarrow> resolve_credential a av base_url cred)"

definition signed_in ::
  "crypto \<Rightarrow> 'key id_token_lib \<Rightarrow> authenticator \<Rightarrow> nat option \<Rightarrow> accounts_view \<Rightarrow> string \<Rightarrow> headers \<Rightarrow>
     (auth_error, subject) result" where
  "signed_in cr lib a clock av base_url hs =
     (case authenticate cr lib a clock av base_url hs of
        Inl e \<Rightarrow> Inl e
      | Inr s \<Rightarrow> if is_anonymous s \<and> \<not> at_anonymous_read a then Inl AuthUnauthorized else Inr s)"

section \<open>What a subject may do on a repository\<close>

record grant =
  gr_subject :: subject
  gr_role :: role
  gr_owner_admin :: bool

definition grant_actor :: "grant \<Rightarrow> actor" where
  "grant_actor g =
     \<lparr>act_login = su_name (gr_subject g),
      act_user_id = unwrap_or_default (su_user_id (gr_subject g)),
      act_owner_admin = gr_owner_admin g\<rparr>"

definition no_access :: "subject \<Rightarrow> api_error" where
  "no_access s = (if is_anonymous s then ApiUnauthorized else ApiNotFound ''repository'')"

definition operation :: "role \<Rightarrow> string" where
  "operation need =
     (case need of
        RNone \<Rightarrow> ''reading'' | RRead \<Rightarrow> ''reading'' | RTriage \<Rightarrow> ''this'' | RWrite \<Rightarrow> ''writing''
      | RMaintain \<Rightarrow> ''changing settings'' | RAdmin \<Rightarrow> ''administering'')"

definition accounts_err :: "(wal_error \<Rightarrow> string) \<Rightarrow> wal_error \<Rightarrow> api_error" where
  "accounts_err disp e = ApiServiceUnavailable (''account log: '' @ disp e)"

definition owner_of :: "string \<Rightarrow> string \<Rightarrow> accounts_state \<Rightarrow> bool option" where
  "owner_of owner me s =
     (case accounts_namespace s owner of
        NsUser u \<Rightarrow> Some (us_user_id u = me)
      | NsOrg o' \<Rightarrow> if me \<in> og_owners o' then Some True else None
      | NsReserved \<Rightarrow> None
      | NsFree \<Rightarrow> None)"

definition owns ::
  "(wal_error \<Rightarrow> string) \<Rightarrow> accounts_view \<Rightarrow> string \<Rightarrow> subject \<Rightarrow> (api_error, bool) result" where
  "owns disp av owner s =
     (case su_user_id s of
        None \<Rightarrow> Inr False
      | Some me \<Rightarrow>
          (case av_cached av of
             Inl e \<Rightarrow> Inl (accounts_err disp e)
           | Inr c \<Rightarrow>
               if owner_of owner me c = Some True then Inr True
               else case av_synced av of
                      Inl e \<Rightarrow> Inl (accounts_err disp e)
                    | Inr st \<Rightarrow> Inr (owner_of owner me st = Some True)))"

text \<open>\<open>sync\<close>: the access document after \<open>sync_refs_for_request\<close>.\<close>

definition authorize ::
  "(wal_error \<Rightarrow> string) \<Rightarrow> (store_error \<Rightarrow> string) \<Rightarrow> authenticator \<Rightarrow> accounts_view \<Rightarrow>
     (wal_error, repo_access option) result \<Rightarrow> repo_id \<Rightarrow> subject \<Rightarrow> role \<Rightarrow>
     (api_error, grant) result" where
  "authorize disp sdisp a av sync rid s need =
     (case sync of
        Inl e \<Rightarrow> Inl (wal_err disp sdisp e)
      | Inr access \<Rightarrow>
          (let decide = (\<lambda>owner_admin. role access
                 \<lparr>as_user_id = su_user_id s, as_owner_admin = owner_admin\<rparr> (at_anonymous_read a));
               owner_admin0 = su_site_admin s; role0 = decide owner_admin0
           in case (if role0 < need \<and> \<not> owner_admin0 \<and> \<not> is_anonymous s
                    then (case owns disp av (rid_owner rid) s of
                            Inl e \<Rightarrow> Inl e
                          | Inr oa \<Rightarrow> Inr (oa, decide oa))
                    else Inr (owner_admin0, role0)) of
                Inl e \<Rightarrow> Inl e
              | Inr (owner_admin, r) \<Rightarrow>
                  if need \<le> r then Inr \<lparr>gr_subject = s, gr_role = r, gr_owner_admin = owner_admin\<rparr>
                  else if r = RNone \<or> is_anonymous s then Inl (no_access s)
                  else Inl (ApiDenied (operation need @ '' needs '' @ role_as_str need @ '' access to '' @
                         repo_id_display rid @ ''; '' @ su_name s @ '' has '' @ role_as_str r))))"

text \<open>\<open>registry.open\<close> gave an error, or a handle, seen through what its revalidation gives.\<close>

definition open_repo ::
  "(wal_error \<Rightarrow> string) \<Rightarrow> (store_error \<Rightarrow> string) \<Rightarrow> (wal_error, 'h) result \<Rightarrow> subject \<Rightarrow>
     (api_error, 'h) result" where
  "open_repo disp sdisp opened s =
     (case opened of
        Inr h \<Rightarrow> Inr h
      | Inl WalNotFound \<Rightarrow> Inl (no_access s)
      | Inl e \<Rightarrow> Inl (wal_err disp sdisp e))"

definition repo where
  "repo disp sdisp a av opened rid s need =
     (case open_repo disp sdisp opened s of
        Inl e \<Rightarrow> Inl e
      | Inr sync \<Rightarrow> authorize disp sdisp a av sync rid s need)"

definition request_repo where
  "request_repo cr lib disp sdisp a clock av base_url hs opened rid need =
     (case authenticate cr lib a clock av base_url hs of
        Inl e \<Rightarrow> Inl (auth_err e)
      | Inr s \<Rightarrow> repo disp sdisp a av opened rid s need)"

definition world_readable :: "authenticator \<Rightarrow> repo_access option \<Rightarrow> bool" where
  "world_readable a access =
     ((at_mode a = ModeNone \<or> at_anonymous_read a)
      \<and> (case access of None \<Rightarrow> True | Some ac \<Rightarrow> access_visibility ac = Public))"

definition PRIVATE_IMMUTABLE :: string where
  "PRIVATE_IMMUTABLE = ''private, max-age=31536000, immutable''"

definition immutable_cache_control :: "authenticator \<Rightarrow> repo_access option \<Rightarrow> string option" where
  "immutable_cache_control a access =
     (if \<not> world_readable a access then Some PRIVATE_IMMUTABLE else None)"

text \<open>\<open>authorize_create\<close>; \<open>reserve\<close> is \<open>Accounts::reserve\<close> on the state of the account log.\<close>

definition created_namespace :: "string \<Rightarrow> string \<Rightarrow> accounts_state \<Rightarrow> bool option" where
  "created_namespace owner me s =
     (case accounts_namespace s owner of
        NsUser u \<Rightarrow> Some (us_user_id u = me)
      | NsOrg o' \<Rightarrow> Some (me \<in> og_owners o')
      | NsReserved \<Rightarrow> None
      | NsFree \<Rightarrow> None)"

definition authorize_create ::
  "(wal_error \<Rightarrow> string) \<Rightarrow> accounts_view \<Rightarrow> (string \<Rightarrow> string \<Rightarrow> 's \<Rightarrow> (wal_error, unit) result \<times> 's) \<Rightarrow>
     repo_id \<Rightarrow> subject \<Rightarrow> 's \<Rightarrow> (api_error, unit) result \<times> 's" where
  "authorize_create disp av reserve rid s st =
     (if is_anonymous s then (Inl ApiUnauthorized, st)
      else case av_synced av of
        Inl e \<Rightarrow> (Inl (accounts_err disp e), st)
      | Inr accounts \<Rightarrow>
          (let mine = created_namespace (rid_owner rid) (unwrap_or_default (su_user_id s)) accounts
           in if su_site_admin s then
                (if mine = None then
                   (case reserve (rid_owner rid) (su_name s) st of
                      (Inr _, st1) \<Rightarrow> (Inr (), st1)
                    | (Inl (Invalid m), st1) \<Rightarrow> (Inl (ApiConflict m), st1)
                    | (Inl e, st1) \<Rightarrow> (Inl (accounts_err disp e), st1))
                 else (Inr (), st))
              else if mine = Some True \<and> su_can_create s then (Inr (), st)
              else if mine = Some True
              then (Inl (ApiDenied (su_name s @ '' may not create repositories on this host'')), st)
              else (Inl (ApiDenied (su_name s @ '' can only create repositories under '' @ su_name s @
                      ''/ or an org they own, not '' @ rid_owner rid @ ''/'')), st)))"

text \<open>\<open>readable\<close>: \<open>opened\<close> gives what opening each repository gave.\<close>

definition readable where
  "readable disp sdisp a av opened s repos =
     (if su_site_admin s then repos
      else filter (\<lambda>rid. case opened rid of
             Inl _ \<Rightarrow> False
           | Inr sync \<Rightarrow> is_ok (authorize disp sdisp a av sync rid s RRead)) repos)"

section \<open>Requests from this machine\<close>

definition loopback_host :: "string \<Rightarrow> bool" where
  "loopback_host host =
     (let name = (case strip_prefix ''['' host of
            Some rest \<Rightarrow> (case split_once (CHR '']'') rest of Some (h, _) \<Rightarrow> h | None \<Rightarrow> rest)
          | None \<Rightarrow>
              (case rsplit_once (CHR '':'') host of
                 None \<Rightarrow> host
               | Some (h, p) \<Rightarrow> if list_all is_ascii_digit p then h else host));
          lower = to_ascii_lowercase name
      in lower = ''localhost'' \<or> ends_with lower ''.localhost'' \<or> lower = ''127.0.0.1'' \<or> lower = ''::1'')"

text \<open>
  A request: whether its peer is known and loopback, its headers, the host of its URI.
\<close>

definition is_direct_local :: "bool option \<Rightarrow> string option \<Rightarrow> headers \<Rightarrow> bool" where
  "is_direct_local peer_loopback uri_host hs =
     (if peer_loopback \<noteq> Some True then False
      else let host = (case header_get hs ''host'' of
               Some h \<Rightarrow> h | None \<Rightarrow> (case uri_host of Some h \<Rightarrow> h | None \<Rightarrow> []))
        in if \<not> loopback_host host then False
           else \<not> list_ex (\<lambda>(k, _). k = ''forwarded'' \<or> k = ''x-real-ip''
                    \<or> starts_with k ''x-forwarded-'' \<or> starts_with k ''x-walgit-'') hs)"

definition local_only :: "authenticator \<Rightarrow> bool option \<Rightarrow> string option \<Rightarrow> headers \<Rightarrow> bool" where
  "local_only a peer_loopback uri_host hs =
     (at_mode a \<noteq> ModeNone \<or> is_direct_local peer_loopback uri_host hs)"

section \<open>What the gate guarantees\<close>

lemma authorize_Inr:
  assumes "authorize disp sdisp a av (Inr access) rid s need = Inr g"
  shows "gr_subject g = s" "need \<le> gr_role g"
    and "gr_role g = role access \<lparr>as_user_id = su_user_id s, as_owner_admin = gr_owner_admin g\<rparr>
           (at_anonymous_read a)"
    and "gr_owner_admin g \<Longrightarrow> su_site_admin s \<or> owns disp av (rid_owner rid) s = Inr True"
  using assms by (auto simp: authorize_def Let_def split: if_splits sum.splits)

lemma owns_True:
  assumes "owns disp av owner s = Inr True"
  obtains me c st where "su_user_id s = Some me" "av_cached av = Inr c"
    "st = c \<or> owner_of owner me c \<noteq> Some True \<and> av_synced av = Inr st" "owner_of owner me st = Some True"
  using assms by (auto simp: owns_def split: option.splits sum.splits if_splits)

text \<open>Above reading, what anonymous callers may do plays no part.\<close>

lemma role_above_read:
  assumes "RTriage \<le> role access who anon"
  shows "role access who anon = role access who anon'"
proof (cases "as_owner_admin who")
  case False
  let ?c = "collaborator_role access who"
  have "\<not> RTriage \<le> visibility_floor access who anon"
    using visibility_floor_le [of access who anon] by (auto simp: less_eq_role_def)
  then have "RTriage \<le> ?c" using assms False by (simp add: role_def le_max_iff_disj)
  moreover have "RRead \<le> RTriage" by (simp add: less_eq_role_def)
  ultimately have "RRead \<le> ?c" by (rule order_trans [rotated])
  then have "visibility_floor access who x \<le> ?c" for x
    by (rule order_trans [OF visibility_floor_le])
  then show ?thesis using False by (simp add: role_def max_absorb1)
qed (simp add: role_def)

text \<open>A repository open to its one collaborator, and a site without site administrators.\<close>

definition private_access :: repo_access where
  "private_access = \<lparr>ac_visibility = 2, ac_collaborators = [(''u1'', 3)], ac_revision = 1,
     ac_author = [], ac_updated_at = None, ac_message = []\<rparr>"

definition member_subject :: "string \<Rightarrow> subject" where
  "member_subject i = \<lparr>su_name = ''m'' @ i, su_user_id = Some i, su_email = [], su_can_create = False,
     su_site_admin = False\<rparr>"

definition no_accounts :: accounts_view where
  "no_accounts = \<lparr>av_cached = Inr default_accounts, av_synced = Inr default_accounts\<rparr>"

definition acme_repo :: repo_id where
  "acme_repo = \<lparr>rid_owner = ''acme'', rid_name = ''app''\<rparr>"

lemma nobody_owns: "owns disp no_accounts (rid_owner acme_repo) (member_subject i) = Inr False"
  by (simp add: owns_def member_subject_def no_accounts_def owner_of_def accounts_namespace_def
      default_accounts_def)

lemmas private_role = role_def collaborator_role_def visibility_floor_def access_visibility_def
  role_from_proto_def private_access_def member_subject_def less_eq_role_def max_def

text \<open>
  C15. A repository the asker may not see cannot be told from one that does not exist. When the
  access document gives the asker no role, the asker is no site administrator and does not own
  the namespace, then for every operation the server answers exactly as it does when the
  repository is missing: it asks an anonymous caller to sign in and tells anybody else that
  there is no such repository.
\<close>

theorem hidden_repository_reads_missing:
  assumes "role access \<lparr>as_user_id = su_user_id s, as_owner_admin = su_site_admin s\<rparr>
      (at_anonymous_read a) = RNone"
    and "need \<noteq> RNone"
    and "is_anonymous s \<or> owns disp av (rid_owner rid) s = Inr False"
  shows "repo disp sdisp a av (Inr (Inr access)) rid s need =
      repo disp sdisp a av (Inl WalNotFound) rid s need
    \<and> repo disp sdisp a av (Inl WalNotFound) rid s need =
      Inl (if is_anonymous s then ApiUnauthorized else ApiNotFound ''repository'')"
proof -
  have "\<not> need \<le> RNone" using assms(2) by (cases need) (auto simp: less_eq_role_def)
  moreover have "\<not> su_site_admin s"
    using assms(1) by (auto simp: role_def)
  ultimately show ?thesis
    using assms by (auto simp: repo_def open_repo_def authorize_def no_access_def Let_def)
qed

theorem hidden_repository_reads_missing_witness:
  "repo (\<lambda>_. []) (\<lambda>_. []) sample_auth no_accounts (Inr (Inr (Some private_access))) acme_repo
     (member_subject ''u2'') RRead = Inl (ApiNotFound ''repository'')"
proof -
  have "role (Some private_access) \<lparr>as_user_id = su_user_id (member_subject ''u2''),
      as_owner_admin = su_site_admin (member_subject ''u2'')\<rparr> (at_anonymous_read sample_auth) = RNone"
    by (simp add: private_role)
  from hidden_repository_reads_missing [OF this, of RRead "\<lambda>_. []" no_accounts acme_repo "\<lambda>_. []"] nobody_owns
  show ?thesis by (simp add: is_anonymous_def member_subject_def)
qed

text \<open>
  C16. What the gate grants, the publisher grants too, for a subject whose user id is not the empty
  string. A grant gives at least the role that was asked for. It counts the subject as an owner only
  for a site administrator or somebody whom the fold of the account log that was consulted lists as
  owner of the namespace: the fold this process synced last, which may be older than the log
  (\<open>removed_owner_passes\<close>), or, when that one does not list them, the revalidated one. If at least
  triage was asked for, the publisher's own decision for the actor of the grant, on the same access
  document, is the granted role; so for a write whose access document is still the same when it is
  committed, the publisher does not refuse the refs of the push for lack of permission.
\<close>

theorem grant_holds_at_publisher:
  assumes "authorize disp sdisp a av (Inr access) rid s need = Inr g" "su_user_id s \<noteq> Some []"
  shows "need \<le> gr_role g
    \<and> (gr_owner_admin g \<longrightarrow> su_site_admin s \<or> (\<exists>me c st. su_user_id s = Some me \<and> av_cached av = Inr c
         \<and> (st = c \<or> owner_of (rid_owner rid) me c \<noteq> Some True \<and> av_synced av = Inr st)
         \<and> owner_of (rid_owner rid) me st = Some True))
    \<and> (RTriage \<le> need \<longrightarrow> actor_role (grant_actor g) access = gr_role g)
    \<and> (RWrite \<le> need \<longrightarrow> pr_actor req = Some (grant_actor g) \<longrightarrow> m_access (ba_manifest b) = access
         \<longrightarrow> request_refs_error b req = None)"
proof (intro conjI impI)
  note g = authorize_Inr [OF assms(1)]
  show "need \<le> gr_role g" by (rule g(2))
  show "su_site_admin s \<or> (\<exists>me c st. su_user_id s = Some me \<and> av_cached av = Inr c
         \<and> (st = c \<or> owner_of (rid_owner rid) me c \<noteq> Some True \<and> av_synced av = Inr st)
         \<and> owner_of (rid_owner rid) me st = Some True)" if "gr_owner_admin g"
    using g(4) [OF that] by (auto elim!: owns_True)
  show same: "actor_role (grant_actor g) access = gr_role g" if "RTriage \<le> need"
  proof -
    have "RTriage \<le> gr_role g" using that g(2) by (rule order_trans)
    then have "gr_role g = role access
        \<lparr>as_user_id = su_user_id s, as_owner_admin = gr_owner_admin g\<rparr> False"
      unfolding g(3) by (rule role_above_read)
    then show ?thesis
      using assms(2) g(1) by (cases "su_user_id s") (auto simp: actor_role_def grant_actor_def unwrap_or_default_def)
  qed
  show "request_refs_error b req = None"
    if "RWrite \<le> need" "pr_actor req = Some (grant_actor g)" "m_access (ba_manifest b) = access"
  proof -
    have "RTriage \<le> RWrite" by (simp add: less_eq_role_def)
    then have "actor_role (grant_actor g) access = gr_role g"
      using same that(1) by (meson order_trans)
    moreover have "RWrite \<le> gr_role g" using that(1) g(2) by (rule order_trans)
    ultimately show ?thesis using that(2,3) by (simp add: request_refs_error_def)
  qed
qed

theorem grant_holds_at_publisher_witness:
  "\<exists>g. authorize (\<lambda>_. []) (\<lambda>_. []) sample_auth no_accounts (Inr (Some private_access)) acme_repo
       (member_subject ''u1'') RWrite = Inr g
     \<and> actor_role (grant_actor g) (Some private_access) = RWrite"
proof -
  let ?g = "\<lparr>gr_subject = member_subject ''u1'', gr_role = RWrite, gr_owner_admin = False\<rparr>"
  have g: "authorize (\<lambda>_. []) (\<lambda>_. []) sample_auth no_accounts (Inr (Some private_access)) acme_repo
       (member_subject ''u1'') RWrite = Inr ?g"
    by (simp add: authorize_def Let_def private_role less_role_def)
  have "RTriage \<le> RWrite" by (simp add: less_eq_role_def)
  then show ?thesis
    using g grant_holds_at_publisher [OF g] by (auto simp: member_subject_def)
qed


lemma no_role_least [simp]: "RNone \<le> r" and admin_greatest [simp]: "r \<le> RAdmin"
  by (cases r; simp add: less_eq_role_def)+



end
