(* ===== verification/Receive.thy ===== *)
theory Receive
  imports Authorize
begin

text \<open>
  A push as the server handles it (\<open>walgit-server/src/smart.rs\<close>, \<open>receive_pack\<close>), from the
  request body to the report: the commands are parsed (\<open>Pkt\<close>), the policy of the repository is
  applied (\<open>Policy\<close>), the publisher is asked (\<open>Publish\<close>), and the client is told per ref what
  became of it. The local repository is seen through \<open>local_repo\<close>: what unpacking the pushed
  pack gave, and the questions asked of its objects and refs after that, which the code puts to
  the \<open>gix\<close> library and to \<open>git\<close> processes. \<open>send_publish\<close> is the publisher's queue.
  Progress messages, metrics and the forwarding of a push to another host are left out.

  The lemmas: what the report says of a ref is what the policy and the publisher decided.
\<close>

section \<open>Frames of the server (pktline.rs)\<close>

definition MAX_DATA_LEN :: nat where "MAX_DATA_LEN = 65516"

text \<open>\<open>None\<close> is the panic of the assertion.\<close>

definition encode_line :: "bytes \<Rightarrow> bytes option" where
  "encode_line d =
     (if length d \<le> MAX_DATA_LEN
      then let len = length d + 4 in
        Some ([digit_char (len div 4096 mod 16), digit_char (len div 256 mod 16),
               digit_char (len div 16 mod 16), digit_char (len mod 16)] @ d)
      else None)"

definition sideband_pkt :: "nat \<Rightarrow> string \<Rightarrow> bytes" where
  "sideband_pkt band msg =
     (let d = [char_of band] @ msg @ (if ends_with msg [CHR 0x0A] then [] else [CHR 0x0A])
      in concat (map (the \<circ> encode_line) (chunks MAX_DATA_LEN d)))"

section \<open>The commands\<close>

definition is_zero_oid :: "string \<Rightarrow> bool" where
  "is_zero_oid hex = (list_all (\<lambda>c. c = CHR ''0'') hex \<and> hex \<noteq> [])"

definition clear_zero :: "ref_update \<Rightarrow> ref_update" where
  "clear_zero u =
     u \<lparr>u_old_oid := (if is_zero_oid (u_old_oid u) then [] else u_old_oid u),
        u_new_oid := (if is_zero_oid (u_new_oid u) then [] else u_new_oid u)\<rparr>"

definition clear_zeros :: "ref_transaction \<Rightarrow> ref_transaction" where
  "clear_zeros txn = txn \<lparr>tx_updates := map clear_zero (tx_updates txn)\<rparr>"

definition symbolic_head :: "string \<Rightarrow> ref_update" where
  "symbolic_head branch =
     \<lparr>u_name = ''HEAD'', u_old_oid = [], u_new_oid = [], u_new_symbolic_target = branch,
      u_new_peeled = []\<rparr>"

definition pushed_branches :: "ref_transaction \<Rightarrow> string list" where
  "pushed_branches txn =
     map u_name (filter (\<lambda>u. starts_with (u_name u) ''refs/heads/'' \<and> u_new_symbolic_target u = []
         \<and> u_new_oid u \<noteq> [] \<and> \<not> list_all (\<lambda>c. c = CHR ''0'') (u_new_oid u)) (tx_updates txn))"

definition chosen_branch :: "string list \<Rightarrow> string option" where
  "chosen_branch pushed =
     (case find (\<lambda>n. n = ''refs/heads/main'') pushed of
        Some b \<Rightarrow> Some b
      | None \<Rightarrow> (case pushed of [] \<Rightarrow> None | b # _ \<Rightarrow> Some b))"

definition default_branch_from_first_push ::
  "ref_snapshot_data \<Rightarrow> ref_transaction \<Rightarrow> ref_transaction" where
  "default_branch_from_first_push snap txn =
     (if list_ex (\<lambda>r. r_name r = rsd_head_target snap) (rsd_refs snap)
         \<or> list_ex (\<lambda>u. u_name u = ''HEAD'') (tx_updates txn) then txn
      else let pushed = pushed_branches txn
        in if rsd_head_target snap \<in> set pushed then txn
           else case chosen_branch pushed of
                  None \<Rightarrow> txn
                | Some branch \<Rightarrow> txn \<lparr>tx_updates := tx_updates txn @ [symbolic_head branch]\<rparr>)"

section \<open>The local repository\<close>

text \<open>An object as \<open>peel_tag\<close> sees it: a tag with its target, if the tag parses, or another.\<close>

datatype git_object = TagObject "string option" | OtherObject

record local_repo =
  lr_ingest :: "bytes \<Rightarrow> (string, ingested_pack option) result"
  lr_from_hex :: "string \<Rightarrow> string option"
  lr_has_object :: "string \<Rightarrow> bool"
  lr_check_connectivity :: "string list \<Rightarrow> (string, unit) result"
  lr_is_ancestor :: "string \<Rightarrow> string \<Rightarrow> (git_error, bool) result"
  lr_find_object :: "string \<Rightarrow> git_object option"
  lr_refs :: "(git_error, ref_snapshot_data) result"

fun peel_loop :: "local_repo \<Rightarrow> nat \<Rightarrow> string \<Rightarrow> string option" where
  "peel_loop lr 0 cur = None"
| "peel_loop lr (Suc n) cur =
     (case lr_find_object lr cur of
        None \<Rightarrow> None
      | Some (TagObject None) \<Rightarrow> None
      | Some (TagObject (Some target)) \<Rightarrow> peel_loop lr n target
      | Some OtherObject \<Rightarrow> Some cur)"

definition peel_tag :: "local_repo \<Rightarrow> string \<Rightarrow> string option" where
  "peel_tag lr oid = peel_loop lr 16 oid"

definition fill_peeled_update :: "local_repo \<Rightarrow> ref_update \<Rightarrow> ref_update" where
  "fill_peeled_update lr u =
     (if \<not> starts_with (u_name u) ''refs/tags/'' \<or> u_new_oid u = [] \<or> u_new_peeled u \<noteq> [] then u
      else if list_all (\<lambda>c. c = CHR ''0'') (u_new_oid u) then u
      else case lr_from_hex lr (u_new_oid u) of
             None \<Rightarrow> u
           | Some oid \<Rightarrow>
               (case peel_tag lr oid of
                  None \<Rightarrow> u
                | Some p \<Rightarrow> if p \<noteq> oid then u \<lparr>u_new_peeled := p\<rparr> else u))"

definition fill_peeled :: "local_repo \<Rightarrow> ref_transaction \<Rightarrow> ref_transaction" where
  "fill_peeled lr txn = txn \<lparr>tx_updates := map (fill_peeled_update lr) (tx_updates txn)\<rparr>"

section \<open>Reports\<close>

fun ref_error_str :: "ref_error \<Rightarrow> string" where
  "ref_error_str NonFastForward = ''non-fast-forward''"
| "ref_error_str (Conflict expected actual) = ''conflict: expected '' @ expected @ '', got '' @ actual"
| "ref_error_str (Rejected m) = ''rejected: '' @ m"
| "ref_error_str MissingRef = ''ref missing''"

definition build_report ::
  "receive_caps \<Rightarrow> (string, unit) result \<Rightarrow> (string \<times> (string, unit) result) list \<Rightarrow> bytes" where
  "build_report caps unpack per_ref = report_status caps unpack per_ref"

definition refusal_report :: "receive_caps \<Rightarrow> ref_transaction \<Rightarrow> string \<Rightarrow> bytes" where
  "refusal_report caps txn msg =
     (if rc_side_band_64k caps then sideband_pkt 2 (msg @ [CHR 0x0A]) else []) @
     build_report caps (Inl msg) (map (\<lambda>u. (u_name u, Inl msg)) (tx_updates txn))"

fun join_newline :: "string list \<Rightarrow> string" where
  "join_newline [] = []"
| "join_newline [s] = s"
| "join_newline (s # t # ss) = s @ [CHR 0x0A] @ join_newline (t # ss)"

definition push_meta ::
  "receive_caps \<Rightarrow> subject \<Rightarrow> ref_transaction \<Rightarrow> string option \<Rightarrow> (string, string) btree" where
  "push_meta caps s txn request_id =
     (let m = bt_insert ''push_options'' (join_newline (tx_push_options txn))
                (bt_insert ''principal'' (su_name s)
                  (bt_insert ''agent'' (unwrap_or_default (rc_agent caps)) []))
      in case request_id of Some rid \<Rightarrow> bt_insert ''request_id'' rid m | None \<Rightarrow> m)"

text \<open>
  The publisher's answers replace the policy's, by name, in the first slot of that name; HEAD is
  passed over.
\<close>

fun set_first :: "string \<Rightarrow> 'r \<Rightarrow> (string \<times> 'r) list \<Rightarrow> (string \<times> 'r) list" where
  "set_first name r [] = [(name, r)]"
| "set_first name r ((n, x) # rest) = (if n = name then (n, r) # rest else (n, x) # set_first name r rest)"

definition merge_results ::
  "(string \<times> (string, unit) result) list \<Rightarrow> (string \<times> (string, unit) result) list \<Rightarrow>
     (string \<times> (string, unit) result) list" where
  "merge_results published policy =
     fold (\<lambda>(name, res) acc. if name = ''HEAD'' then acc else set_first name res acc) published policy"

section \<open>Publishing a push\<close>

type_synonym 's publisher = "publish_request \<Rightarrow> 's \<Rightarrow> (wal_error, publish_result) result \<times> 's"

definition publish_push_as ::
  "'s publisher \<Rightarrow> actor \<Rightarrow> ingested_pack option \<Rightarrow> ref_transaction \<Rightarrow> (string, string) btree \<Rightarrow> 's \<Rightarrow>
     (wal_error, publish_result) result \<times> 's" where
  "publish_push_as send_publish actor pack txn meta s =
     (if pack \<noteq> None \<and> tx_updates txn = []
      then (Inl (Invalid ''a push pack requires a nonempty ref transaction''), s)
      else send_publish
        \<lparr>pr_pack = pack, pr_txn = txn, pr_meta = meta, pr_synced = True, pr_created_at = None,
         pr_forge = [], pr_actor = Some actor\<rparr> s)"

definition tip_verdict :: "bool \<Rightarrow> local_repo \<Rightarrow> ref_transaction \<Rightarrow> (string, unit) result" where
  "tip_verdict check_connectivity lr txn =
     (let tips = List.map_filter (\<lambda>u. lr_from_hex lr (u_new_oid u))
            (filter (\<lambda>u. u_new_oid u \<noteq> [] \<and> \<not> is_zero_oid (u_new_oid u)) (tx_updates txn))
      in if tips = [] then Inr ()
         else if check_connectivity then
           (case lr_check_connectivity lr tips of Inl e \<Rightarrow> Inl (''connectivity: '' @ e) | Inr _ \<Rightarrow> Inr ())
         else (case find (\<lambda>t. \<not> lr_has_object lr t) tips of
                 None \<Rightarrow> Inr () | Some t \<Rightarrow> Inl (''missing object '' @ t)))"

definition forced_names :: "local_repo \<Rightarrow> repo_policy \<Rightarrow> ref_transaction \<Rightarrow> string list" where
  "forced_names lr policy txn =
     (if has_protect policy
      then map u_name (filter (\<lambda>u. classify (u_old_oid u) (u_new_oid u) = OpUpdate
              \<and> lr_is_ancestor lr (u_old_oid u) (u_new_oid u) \<noteq> Inr True) (tx_updates txn))
      else [])"

text \<open>\<open>receive_pack_process\<close>; \<open>sdisp\<close> and \<open>disp\<close> are the \<open>Display\<close> of store and WAL errors.\<close>

record receive_env =
  re_check_connectivity :: bool
  re_local :: local_repo
  re_from_slice :: policy_reader
  re_disp :: "wal_error \<Rightarrow> string"
  re_sdisp :: "store_error \<Rightarrow> string"

definition answer :: "(ref_error, unit) result \<Rightarrow> (string, unit) result" where
  "answer x = (case x of Inl e \<Rightarrow> Inl (ref_error_str e) | Inr _ \<Rightarrow> Inr ())"

definition publish_allowed ::
  "receive_env \<Rightarrow> 's publisher \<Rightarrow> receive_caps \<Rightarrow> grant \<Rightarrow> string option \<Rightarrow> ingested_pack option \<Rightarrow>
     policy_eval \<Rightarrow> 's \<Rightarrow> (api_error, (string \<times> (string, unit) result) list) result \<times> 's" where
  "publish_allowed env send_publish caps g request_id pack ev s =
     (let lr = re_local env;
          txn1 = (case lr_refs lr of
              Inr snap \<Rightarrow> default_branch_from_first_push snap (ev_publish ev)
            | Inl _ \<Rightarrow> ev_publish ev);
          txn2 = fill_peeled lr txn1
      in case publish_push_as send_publish (grant_actor g) pack txn2
                (push_meta caps (gr_subject g) txn2 request_id) s of
           (Inl e, s1) \<Rightarrow> (Inl (ApiInternal (''publish failed: '' @ re_disp env e)), s1)
         | (Inr r, s1) \<Rightarrow>
             (Inr (merge_results
                (map (map_prod (\<lambda>n. n) answer) (res_per_ref r))
                (ev_per_ref ev)), s1))"

definition receive_pack_process ::
  "receive_env \<Rightarrow> 's object_store \<Rightarrow> 's publisher \<Rightarrow> repo_id \<Rightarrow> ref_transaction \<Rightarrow> receive_caps \<Rightarrow> bytes \<Rightarrow>
     grant \<Rightarrow> string option \<Rightarrow> 's \<Rightarrow> (api_error, bytes) result \<times> 's" where
  "receive_pack_process env S send_publish rid txn caps pack_reader g request_id s =
     (let lr = re_local env
      in case lr_ingest lr pack_reader of
           Inl e \<Rightarrow> (Inr (refusal_report caps txn (''unpack failed: '' @ e)), s)
         | Inr pack \<Rightarrow>
             (case tip_verdict (re_check_connectivity env) lr txn of
                Inl msg \<Rightarrow> (Inr (refusal_report caps txn msg), s)
              | Inr _ \<Rightarrow>
                  (case policy_load S (re_from_slice env) rid s of
                     (Inl e, s1) \<Rightarrow> (Inl (ApiInternal (''load policy: '' @ re_sdisp env e)), s1)
                   | (Inr policy, s1) \<Rightarrow>
                       (let forces = forced_names lr policy txn;
                            ev = evaluate policy (subject_names (gr_subject g)) txn
                                   (\<lambda>u. u_name u \<in> set forces)
                        in if \<not> any_allowed ev
                           then (Inr (build_report caps (Inr ()) (ev_per_ref ev)), s1)
                           else (case publish_allowed env send_publish caps g request_id pack ev s1 of
                                   (Inl e, s2) \<Rightarrow> (Inl e, s2)
                                 | (Inr per_ref, s2) \<Rightarrow> (Inr (build_report caps (Inr ()) per_ref), s2))))))"

text \<open>
  The handler from the body on, for a caller the gate let in: \<open>fits\<close> is \<open>handle.serve_fits\<close>,
  \<open>sync\<close> the sync of the local copy. With the side band the answer is already under way when
  the work is done, so every failure becomes a report; without it, an error of the request.
\<close>

definition receive_pack_body ::
  "receive_env \<Rightarrow> (git_error \<Rightarrow> string) \<Rightarrow> 's object_store \<Rightarrow> 's publisher \<Rightarrow> repo_id \<Rightarrow> grant \<Rightarrow>
     string option \<Rightarrow> string \<Rightarrow> bool \<Rightarrow> (wal_error, unit) result \<Rightarrow> bytes \<Rightarrow> 's \<Rightarrow>
     (api_error, bytes) result \<times> 's" where
  "receive_pack_body env gdisp S send_publish rid g request_id base_url fits sync body s =
     (case receive_parse body of
        Inl e \<Rightarrow> (Inl (ApiInternal (''git: '' @ gdisp e)), s)
      | Inr (txn0, caps, pack_reader) \<Rightarrow>
          (let txn = clear_zeros txn0
           in if \<not> fits then
                (Inr (refusal_report caps txn (''walgit: this host cannot hold '' @ repo_id_display rid @
                   [CHR 0x27] @ ''s serving copy; push to '' @ base_url @ ''/'' @ repo_id_display rid @ ''.git'')), s)
              else if \<not> rc_side_band_64k caps then
                (case sync of
                   Inl e \<Rightarrow> (Inl (wal_err (re_disp env) (re_sdisp env) e), s)
                 | Inr _ \<Rightarrow> receive_pack_process env S send_publish rid txn caps pack_reader g request_id s)
              else
                (case sync of
                   Inl e \<Rightarrow> (Inr (refusal_report caps txn (''walgit: sync failed: '' @ re_disp env e)), s)
                 | Inr _ \<Rightarrow>
                     (case receive_pack_process env S send_publish rid txn caps pack_reader g request_id s of
                        (Inr r, s1) \<Rightarrow> (Inr r, s1)
                      | (Inl e, s1) \<Rightarrow> (Inr (refusal_report caps txn (''walgit: '' @ api_message e)), s1)))))"

section \<open>Merging the answers\<close>

lemma map_of_set_first: "map_of (set_first n r xs) = (map_of xs)(n \<mapsto> r)"
  by (induction n r xs rule: set_first.induct) (auto simp: fun_eq_iff)

lemma names_set_first: "n \<in> fst ` set xs \<Longrightarrow> map fst (set_first n r xs) = map fst xs"
  by (induction n r xs rule: set_first.induct) auto

lemma merge_results_Cons [simp]:
  "merge_results ((n, r) # pub) pol =
     merge_results pub (if n = ''HEAD'' then pol else set_first n r pol)"
  by (simp add: merge_results_def)

lemma merge_results_names:
  assumes "\<forall>n \<in> fst ` set pub. n = ''HEAD'' \<or> n \<in> set (map fst pol)"
  shows "map fst (merge_results pub pol) = map fst pol"
  using assms
proof (induction pub arbitrary: pol)
  case (Cons p pub)
  obtain n r where p: "p = (n, r)" by (cases p)
  let ?pol = "if n = ''HEAD'' then pol else set_first n r pol"
  have "map fst ?pol = map fst pol" using Cons.prems names_set_first [of n pol r] by (auto simp: p simp flip: set_map)
  moreover have "map fst (merge_results pub ?pol) = map fst ?pol"
    using Cons.prems calculation by (intro Cons.IH) (simp add: p del: set_map)
  ultimately show ?case by (simp add: p)
qed (simp add: merge_results_def)

lemma merge_results_get:
  assumes "distinct (map fst pub)" "n \<noteq> ''HEAD''"
  shows "map_of (merge_results pub pol) n =
    (case map_of pub n of Some r \<Rightarrow> Some r | None \<Rightarrow> map_of pol n)"
  using assms
proof (induction pub arbitrary: pol)
  case (Cons p pub)
  obtain m r where p: "p = (m, r)" by (cases p)
  have "map_of pub m = None" using Cons.prems by (simp add: p map_of_eq_None_iff)
  then show ?case using Cons by (auto simp: p map_of_set_first split: option.splits)
qed (simp add: merge_results_def)

lemma answer_ok [simp]: "answer x = Inr () \<longleftrightarrow> x = Inr ()"
  by (auto simp: answer_def split: sum.splits)

lemma map_of_answers:
  "map_of (map (map_prod (\<lambda>n. n) f) xs) n = map_option f (map_of xs n)"
  by (induction xs) auto

lemma map_of_updates:
  assumes "distinct (map u_name us)" "u \<in> set us"
  shows "map_of (map (\<lambda>u. (u_name u, f u)) us) (u_name u) = Some (f u)"
  using assms by (intro map_of_is_SomeI) (auto simp: o_def)

section \<open>The transaction that is sent\<close>

lemma default_branch_updates:
  "default_branch_from_first_push snap txn = txn
   \<or> (\<exists>b. default_branch_from_first_push snap txn =
          txn \<lparr>tx_updates := tx_updates txn @ [symbolic_head b]\<rparr>
        \<and> ''HEAD'' \<notin> set (map u_name (tx_updates txn)))"
  by (auto simp: default_branch_from_first_push_def Let_def list_ex_iff split: option.split)

lemma fill_peeled_name [simp]: "u_name (fill_peeled_update lr u) = u_name u"
  by (auto simp: fill_peeled_update_def split: option.splits)

lemma fill_peeled_names [simp]:
  "map u_name (tx_updates (fill_peeled lr txn)) = map u_name (tx_updates txn)"
  by (simp add: fill_peeled_def o_def)

text \<open>The transaction the publisher gets: the updates, with or without a new HEAD.\<close>

definition sent_txn :: "local_repo \<Rightarrow> ref_transaction \<Rightarrow> ref_transaction" where
  "sent_txn lr txn = fill_peeled lr (case lr_refs lr of
      Inr snap \<Rightarrow> default_branch_from_first_push snap txn | Inl _ \<Rightarrow> txn)"

lemma sent_txn_names:
  "map u_name (tx_updates (sent_txn lr txn)) = map u_name (tx_updates txn)
   \<or> map u_name (tx_updates (sent_txn lr txn)) = map u_name (tx_updates txn) @ [''HEAD'']
     \<and> ''HEAD'' \<notin> set (map u_name (tx_updates txn))"
  using default_branch_updates [of "projr (lr_refs lr)" txn]
  by (cases "lr_refs lr") (auto simp: sent_txn_def symbolic_head_def)

lemma sent_txn_updates:
  assumes "u \<in> set (tx_updates txn)"
  shows "fill_peeled_update lr u \<in> set (tx_updates (sent_txn lr txn))"
  using default_branch_updates [of "projr (lr_refs lr)" txn] assms
  by (cases "lr_refs lr") (auto simp: sent_txn_def fill_peeled_def)

text \<open>The updates the policy allows, as one transaction.\<close>

definition allowed_txn :: "(ref_update \<Rightarrow> bool) \<Rightarrow> ref_transaction \<Rightarrow> ref_transaction" where
  "allowed_txn forb txn = txn \<lparr>tx_updates := filter (\<lambda>u. \<not> forb u) (tx_updates txn)\<rparr>"

lemma evaluate_publish_txn:
  assumes "tx_atomic txn \<Longrightarrow> \<forall>u \<in> set (tx_updates txn). \<not> forbidden policy actor is_force u"
  shows "ev_publish (evaluate policy actor txn is_force) = allowed_txn (forbidden policy actor is_force) txn"
proof -
  let ?p = "ev_publish (evaluate policy actor txn is_force)"
  have "tx_updates ?p = tx_updates (allowed_txn (forbidden policy actor is_force) txn)"
    using assms by (auto simp: evaluate_publish allowed_txn_def)
  moreover have "tx_push_options ?p = tx_push_options txn" "tx_atomic ?p = tx_atomic txn"
    by (auto simp: evaluate_def Let_def split: prod.splits)
  ultimately show ?thesis by (simp add: allowed_txn_def)
qed

text \<open>What a push asks of the publisher.\<close>

definition request_for :: "actor \<Rightarrow> ingested_pack option \<Rightarrow> ref_transaction \<Rightarrow> publish_request \<Rightarrow> bool" where
  "request_for actor pack txn req \<longleftrightarrow>
     pr_txn req = txn \<and> pr_pack req = pack \<and> pr_actor req = Some actor \<and> pr_forge req = [] \<and>
     pr_created_at req = None \<and> pr_synced req"

section \<open>What the publisher promises\<close>

text \<open>The publisher answers every ref of a request, in order.\<close>

locale push_publisher =
  fixes send :: "'s publisher"
  assumes answers: "send req s = (Inr r, s') \<Longrightarrow>
    map fst (res_per_ref r) = map u_name (tx_updates (pr_txn req))"
begin

lemma publish_push_as_Inr:
  assumes "publish_push_as send actor pack txn meta s = (Inr r, s')"
  obtains req where "send req s = (Inr r, s')" "request_for actor pack txn req"
    "map fst (res_per_ref r) = map u_name (tx_updates txn)"
proof -
  let ?req = "\<lparr>pr_pack = pack, pr_txn = txn, pr_meta = meta, pr_synced = True, pr_created_at = None,
         pr_forge = [], pr_actor = Some actor\<rparr>"
  have "send ?req s = (Inr r, s')"
    using assms by (simp add: publish_push_as_def split: if_splits)
  then show ?thesis using that answers [of ?req] by (simp add: request_for_def)
qed

lemma publish_allowed_Inr:
  assumes "publish_allowed env send caps g request_id pack ev s = (Inr per_ref, s')"
  obtains req r where "send req s = (Inr r, s')"
    "request_for (grant_actor g) pack (sent_txn (re_local env) (ev_publish ev)) req"
    "map fst (res_per_ref r) = map u_name (tx_updates (sent_txn (re_local env) (ev_publish ev)))"
    "per_ref = merge_results (map (map_prod (\<lambda>n. n) answer) (res_per_ref r)) (ev_per_ref ev)"
proof -
  let ?txn = "sent_txn (re_local env) (ev_publish ev)"
  obtain r where pub: "publish_push_as send (grant_actor g) pack ?txn
      (push_meta caps (gr_subject g) ?txn request_id) s = (Inr r, s')"
    and per_ref: "per_ref = merge_results (map (map_prod (\<lambda>n. n) answer) (res_per_ref r)) (ev_per_ref ev)"
    using assms by (auto simp: publish_allowed_def sent_txn_def Let_def map_prod_def answer_def
        split: prod.splits sum.splits)
  from pub show ?thesis by (rule publish_push_as_Inr) (use that per_ref in blast)
qed

text \<open>
  A push that reaches the publisher: every ref is answered once, and without an error exactly
  when the policy allows its update and the publisher took it.
\<close>

lemma publish_allowed_truthful:
  assumes "publish_allowed env send caps g request_id pack
      (evaluate policy actor txn is_force) s = (Inr per_ref, s')"
    and "distinct (map u_name (tx_updates txn))" "''HEAD'' \<notin> set (map u_name (tx_updates txn))"
    and "tx_atomic txn \<Longrightarrow> \<forall>u \<in> set (tx_updates txn). \<not> forbidden policy actor is_force u"
  obtains req r where "send req s = (Inr r, s')"
    "map fst per_ref = map u_name (tx_updates txn)"
    "\<And>u. u \<in> set (tx_updates txn) \<Longrightarrow> (u_name u, Inr ()) \<in> set per_ref \<longleftrightarrow>
       \<not> forbidden policy actor is_force u \<and> (u_name u, Inr ()) \<in> set (res_per_ref r)"
    "request_for (grant_actor g) pack
       (sent_txn (re_local env) (allowed_txn (forbidden policy actor is_force) txn)) req"
proof -
  let ?ev = "evaluate policy actor txn is_force"
  let ?allowed = "filter (\<lambda>u. \<not> forbidden policy actor is_force u) (tx_updates txn)"
  obtain req r where send: "send req s = (Inr r, s')"
    and req: "request_for (grant_actor g) pack (sent_txn (re_local env) (ev_publish ?ev)) req"
    and names: "map fst (res_per_ref r) = map u_name (tx_updates (sent_txn (re_local env) (ev_publish ?ev)))"
    and per_ref: "per_ref = merge_results (map (map_prod (\<lambda>n. n) answer) (res_per_ref r)) (ev_per_ref ?ev)"
    using publish_allowed_Inr [OF assms(1)] .
  have allowed: "tx_updates (ev_publish ?ev) = ?allowed"
    using assms(4) by (auto simp: evaluate_publish)
  have pol: "map fst (ev_per_ref ?ev) = map u_name (tx_updates txn)"
    by (simp add: evaluate_per_ref)
  have shape: "map fst (res_per_ref r) = map u_name ?allowed
      \<or> map fst (res_per_ref r) = map u_name ?allowed @ [''HEAD'']"
    using sent_txn_names [of "re_local env" "ev_publish ?ev"] unfolding names allowed by blast
  have dist: "distinct (map fst (res_per_ref r))"
    using shape assms(2,3) by (auto simp: distinct_map_filter)
  have "set (map fst (res_per_ref r)) = set (map u_name ?allowed)
      \<or> set (map fst (res_per_ref r)) = set (map u_name ?allowed @ [''HEAD''])"
    using shape by metis
  then have sub: "fst ` set (res_per_ref r) \<subseteq> insert ''HEAD'' (u_name ` set ?allowed)"
    and sup: "u_name ` set ?allowed \<subseteq> fst ` set (res_per_ref r)" by auto
  have per_names: "map fst per_ref = map u_name (tx_updates txn)"
    unfolding per_ref pol [symmetric]
    by (rule merge_results_names, unfold pol) (use sub in auto)
  show ?thesis
  proof
    fix u assume u: "u \<in> set (tx_updates txn)"
    have head: "u_name u \<noteq> ''HEAD''" using assms(3) u by force
    have "(u_name u, Inr ()) \<in> set per_ref \<longleftrightarrow> map_of per_ref (u_name u) = Some (Inr ())"
      using assms(2) by (simp add: per_names)
    also have "\<dots> \<longleftrightarrow> (case map_of (res_per_ref r) (u_name u) of
        Some x \<Rightarrow> x = Inr () | None \<Rightarrow> \<not> forbidden policy actor is_force u)"
      unfolding per_ref using u dist head assms(2)
      by (subst merge_results_get) (auto simp: o_def map_of_answers evaluate_per_ref map_of_updates split: option.split)
    finally have told: "(u_name u, Inr ()) \<in> set per_ref \<longleftrightarrow> (case map_of (res_per_ref r) (u_name u) of
        Some x \<Rightarrow> x = Inr () | None \<Rightarrow> \<not> forbidden policy actor is_force u)" .
    show "(u_name u, Inr ()) \<in> set per_ref \<longleftrightarrow>
       \<not> forbidden policy actor is_force u \<and> (u_name u, Inr ()) \<in> set (res_per_ref r)"
    proof (cases "forbidden policy actor is_force u")
      case True
      have "u_name u \<notin> u_name ` set ?allowed"
        using True u assms(2) by (auto simp: distinct_map inj_on_def)
      then have "map_of (res_per_ref r) (u_name u) = None"
        using sub head by (auto simp: map_of_eq_None_iff)
      then show ?thesis using told True by simp
    next
      case False
      then have "u_name u \<in> fst ` set (res_per_ref r)" using sup u by auto
      then obtain x where x: "map_of (res_per_ref r) (u_name u) = Some x"
        by (metis map_of_eq_None_iff not_None_eq)
      then have "(u_name u, Inr ()) \<in> set (res_per_ref r) \<longleftrightarrow> x = Inr ()"
        using map_of_eq_Some_iff [OF dist, of "u_name u" "Inr ()"] by auto
      then show ?thesis using told x False by simp
    qed
  next
    show "request_for (grant_actor g) pack
       (sent_txn (re_local env) (allowed_txn (forbidden policy actor is_force) txn)) req"
      using req evaluate_publish_txn [OF assms(4)] by simp
  qed (fact send per_names)+
qed

end

section \<open>The publisher of this development\<close>

text \<open>
  \<open>send_publish\<close>: the queue takes the request together with those before and after it in the
  same batch and answers it with its part of the outcome. A batch that is never answered
  (\<open>Commit.publishing_terminates\<close> says when there is none) would leave the request without a
  response.
\<close>

definition batch_publisher ::
  "(wal_error \<Rightarrow> string) \<Rightarrow> codec \<Rightarrow> 's object_store \<Rightarrow> (system_time \<Rightarrow> string) \<Rightarrow> (nat \<Rightarrow> attempt_env) \<Rightarrow>
     (bool \<Rightarrow> 's \<Rightarrow> (wal_error, basis) result \<times> 's) \<Rightarrow> nat \<Rightarrow> publish_request list \<Rightarrow>
     publish_request list \<Rightarrow> 's publisher" where
  "batch_publisher disp cd S rfc penv resync n before after req s =
     (case process_batch disp cd S rfc penv resync n (before @ req # after) s of
        Some (Settled rs, s') \<Rightarrow> (Inr (rs ! length before), s')
      | Some (Committed rs _ _ _, s') \<Rightarrow> (Inr (rs ! length before), s')
      | Some (Failed _ told, s') \<Rightarrow> (Inl told, s')
      | _ \<Rightarrow> (Inl (Corrupt ''publisher dropped response''), s))"

lemma reject_all_names [simp]: "map fst (reject_all msg per_ref) = map fst per_ref"
  by (simp add: reject_all_def o_def case_prod_unfold)

lemma verify_txn_names [simp]: "map fst (verify_txn txn refs) = map u_name (tx_updates txn)"
  by (simp add: verify_txn_def verify_update_def Let_def)

lemma request_per_ref_names [simp]:
  "map fst (request_per_ref rfc b req w fe) = map u_name (tx_updates (pr_txn req))"
  by (simp add: request_per_ref_def Let_def split: option.split)

lemma verify_request_names:
  "map fst (vf_per_ref (fst (verify_request rfc b req w))) = map u_name (tx_updates (pr_txn req))"
  by (simp add: verify_request_def Let_def o_def case_prod_unfold)

lemma verify_batch_names:
  assumes "verify_batch rfc b batch w = (vs, w')" "i < length batch"
  shows "map fst (vf_per_ref (vs ! i)) = map u_name (tx_updates (pr_txn (batch ! i)))"
  using assms
proof (induction batch arbitrary: w vs i)
  case (Cons req batch)
  then show ?case
    using verify_request_names [of rfc b req w]
    by (cases i) (auto simp: Let_def split: prod.splits)
qed simp

lemma batch_responses_per_ref: "map res_per_ref (batch_responses seq vs) = map vf_per_ref vs"
  by (induction vs arbitrary: seq) auto

lemma settled_responses_per_ref: "map res_per_ref (settled_responses vs) = map vf_per_ref vs"
  by (simp add: settled_responses_def)

definition answers_batch :: "publish_request list \<Rightarrow> publish_result list \<Rightarrow> bool" where
  "answers_batch batch rs \<longleftrightarrow>
     map (\<lambda>r. map fst (res_per_ref r)) rs = map (\<lambda>req. map u_name (tx_updates (pr_txn req))) batch"

lemma answers_batchI:
  assumes "verify_batch rfc b batch w = (vs, w')" "map res_per_ref rs = map vf_per_ref vs"
  shows "answers_batch batch rs"
proof -
  have len: "length rs = length vs" "length vs = length batch"
    using assms map_eq_imp_length_eq verify_batch_length by blast+
  show ?thesis
    unfolding answers_batch_def
  proof (rule nth_equalityI)
    fix i assume "i < length (map (\<lambda>r. map fst (res_per_ref r)) rs)"
    then have i: "i < length rs" by simp
    then have "res_per_ref (rs ! i) = vf_per_ref (vs ! i)"
      using assms(2) len by (metis nth_map)
    then show "map (\<lambda>r. map fst (res_per_ref r)) rs ! i =
        map (\<lambda>req. map u_name (tx_updates (pr_txn req))) batch ! i"
      using verify_batch_names [OF assms(1), of i] i len by simp
  qed (use len in simp)
qed

lemma process_attempt_answers:
  assumes "process_attempt disp cd S rfc env b batch s = Some (out, s')"
    and "out = Settled rs \<or> (\<exists>slot m v. out = Committed rs slot m v)"
  shows "answers_batch batch rs"
proof -
  obtain vs w where v: "verify_batch rfc b batch (initial_working b) = (vs, w)" by fastforce
  have "map res_per_ref rs = map vf_per_ref vs"
    using assms unfolding process_attempt_def v
    by (auto simp: Let_def batch_responses_per_ref settled_responses_per_ref
        split: if_splits prod.splits option.splits sum.splits claim_outcome.splits)
  with v show ?thesis by (rule answers_batchI)
qed

lemma process_batch_answers:
  assumes "process_batch_loop disp cd S rfc env resync n batch k s = Some (out, s')"
    and "out = Settled rs \<or> (\<exists>slot m v. out = Committed rs slot m v)"
  shows "answers_batch batch rs"
  using assms
proof (induction disp cd S rfc env resync n batch k s rule: process_batch_loop.induct)
  case (1 disp cd S rfc env resync n batch k s)
  note loop = process_batch_loop.simps [of disp cd S rfc env resync n batch k s]
  obtain rb s1 where r: "resync (k > 0 \<or> list_ex (\<lambda>r. \<not> pr_synced r) batch) s = (rb, s1)"
    by fastforce
  obtain b where b: "rb = Inr b"
    using "1.prems" r unfolding loop by (cases rb) auto
  obtain o2 s2 where at: "process_attempt disp cd S rfc (env k) b batch s1 = Some (o2, s2)"
    using "1.prems"(1) r b unfolding loop by (auto split: option.splits)
  show ?case
  proof (cases "o2 = Again")
    case True
    then have "\<not> k + 1 \<ge> n"
      "process_batch_loop disp cd S rfc env resync n batch (k + 1) s2 = Some (out, s')"
      using "1.prems" r b at unfolding loop by (auto split: if_splits)
    then show ?thesis using "1.IH" [OF r [symmetric] b at _ True] "1.prems"(2) by simp
  next
    case False
    then have "o2 = out" using "1.prems"(1) r b at unfolding loop
      by (auto split: attempt_outcome.splits)
    then show ?thesis using process_attempt_answers [OF at] "1.prems"(2) by simp
  qed
qed

lemma answers_batch_nth:
  assumes "answers_batch (before @ req # after) rs"
  shows "map fst (res_per_ref (rs ! length before)) = map u_name (tx_updates (pr_txn req))"
proof -
  have len: "length rs = length (before @ req # after)"
    using assms map_eq_imp_length_eq unfolding answers_batch_def by blast
  have "map (\<lambda>r. map fst (res_per_ref r)) rs ! length before =
      map (\<lambda>req. map u_name (tx_updates (pr_txn req))) (before @ req # after) ! length before"
    using assms unfolding answers_batch_def by simp
  then show ?thesis using len by (simp add: nth_append)
qed

interpretation batch: push_publisher "batch_publisher disp cd S rfc penv resync n before after"
  for disp cd S rfc penv resync n before after
proof
  fix req s r s'
  assume "batch_publisher disp cd S rfc penv resync n before after req s = (Inr r, s')"
  then obtain rs out where pb:
    "process_batch disp cd S rfc penv resync n (before @ req # after) s = Some (out, s')"
    and out: "out = Settled rs \<or> (\<exists>slot m v. out = Committed rs slot m v)"
    and r: "r = rs ! length before"
    by (auto simp: batch_publisher_def split: option.splits prod.splits attempt_outcome.splits)
  have "answers_batch (before @ req # after) rs"
    using pb out unfolding process_batch_def by (rule process_batch_answers)
  then show "map fst (res_per_ref r) = map u_name (tx_updates (pr_txn req))"
    unfolding r by (rule answers_batch_nth)
qed

section \<open>The report of a push\<close>

text \<open>What a push is measured against: the updates the policy forbids this caller.\<close>

definition push_forbids :: "receive_env \<Rightarrow> repo_policy \<Rightarrow> grant \<Rightarrow> ref_transaction \<Rightarrow> ref_update \<Rightarrow> bool" where
  "push_forbids env policy g txn =
     forbidden policy (subject_names (gr_subject g))
       (\<lambda>u. u_name u \<in> set (forced_names (re_local env) policy txn))"


lemma verdict_ok: "verdict policy actor is_force u = Inr () \<longleftrightarrow> \<not> forbidden policy actor is_force u"
  by (auto simp: verdict_def forbidden_deny split: option.splits)


text \<open>A local repository with nothing to object, and a push that changes nothing.\<close>

definition quiet_local :: local_repo where
  "quiet_local =
     \<lparr>lr_ingest = (\<lambda>_. Inr None), lr_from_hex = (\<lambda>_. None), lr_has_object = (\<lambda>_. True),
      lr_check_connectivity = (\<lambda>_. Inr ()), lr_is_ancestor = (\<lambda>_ _. Inr True),
      lr_find_object = (\<lambda>_. None), lr_refs = Inl (GitIo [])\<rparr>"

definition quiet_env :: receive_env where
  "quiet_env =
     \<lparr>re_check_connectivity = False, re_local = quiet_local, re_from_slice = (\<lambda>_. Inr lock_main),
      re_disp = (\<lambda>_. []), re_sdisp = (\<lambda>_. [])\<rparr>"

definition admin_grant :: "string \<Rightarrow> grant" where
  "admin_grant name =
     \<lparr>gr_subject = \<lparr>su_name = name, su_user_id = Some name, su_email = [], su_can_create = True,
                    su_site_admin = True\<rparr>,
      gr_role = RAdmin, gr_owner_admin = True\<rparr>"







text \<open>The repository whose policy locks main, and an atomic push of main and another branch.\<close>

definition lock_store :: memory_state where
  "lock_store = \<lparr>ms_objects = [(policy_store_key acme_repo, (''1'', ''p''))], ms_counter = 1\<rparr>"

definition drop_and_create :: ref_transaction where
  "drop_and_create = \<lparr>tx_updates = [drop_main, create_ab], tx_push_options = [], tx_atomic = True\<rparr>"

text \<open>
  C38. A refused atomic push is reported as if part of it had gone through. Whenever the pack is
  ingested, the tips are there, the policy document loads and the policy forbids some update of an
  atomic push, nothing is published (the publisher is not asked, whatever it would do, and the store
  is as it was after reading the policy), but the report has \<open>ok\<close> for every ref of the push whose
  update the policy does not forbid.
\<close>

theorem atomic_refusal_reported_ok:
  assumes "policy_load S (re_from_slice env) rid s = (Inr policy, s1)"
    and "lr_ingest (re_local env) pack = Inr p"
    and "tip_verdict (re_check_connectivity env) (re_local env) txn = Inr ()"
    and "tx_atomic txn" "u \<in> set (tx_updates txn)" "push_forbids env policy g txn u"
  shows "\<exists>per_ref. receive_pack_process env S send rid txn caps pack g request_id s =
      (Inr (build_report caps (Inr ()) per_ref), s1) \<and>
    list_all2 (\<lambda>u (name, r). name = u_name u \<and> (r = Inr () \<longleftrightarrow> \<not> push_forbids env policy g txn u))
      (tx_updates txn) per_ref"
proof -
  let ?ev = "evaluate policy (subject_names (gr_subject g)) txn
        (\<lambda>u. u_name u \<in> set (forced_names (re_local env) policy txn))"
  have "\<not> any_allowed ?ev"
    using assms(4-6) by (auto simp: any_allowed_def evaluate_publish push_forbids_def)
  then have "receive_pack_process env S send rid txn caps pack g request_id s =
      (Inr (build_report caps (Inr ()) (ev_per_ref ?ev)), s1)"
    using assms(1-3) by (simp add: receive_pack_process_def Let_def)
  moreover have "list_all2 (\<lambda>u (name, r). name = u_name u \<and> (r = Inr () \<longleftrightarrow> \<not> push_forbids env policy g txn u))
      (tx_updates txn) (ev_per_ref ?ev)"
    by (simp add: evaluate_per_ref list_all2_map2 verdict_ok push_forbids_def list.rel_refl)
  ultimately show ?thesis by blast
qed

text \<open>
  The policy keeps \<open>refs/heads/main\<close> from being deleted; an atomic push deletes it and creates
  another branch.
\<close>

theorem atomic_refusal_reported_ok_witness:
  "\<exists>report. receive_pack_process quiet_env memory_store (\<lambda>_ s. (Inl (Corrupt []), s)) acme_repo drop_and_create
       default_caps [] (admin_grant ''bob'') None lock_store =
     (Inr (build_report default_caps (Inr ()) [(''refs/heads/main'', Inl report), (''refs/heads/ab'', Inr ())]), lock_store)"
proof -
  let ?forb = "push_forbids quiet_env lock_main (admin_grant ''bob'') drop_and_create"
  have load: "policy_load memory_store (re_from_slice quiet_env) acme_repo lock_store = (Inr lock_main, lock_store)"
  proof -
    have "repo_policy_validate lock_main = Inr ()" by code_simp
    then show ?thesis
      by (simp add: mem.policy_load_view ms_view_def lock_store_def parse_bytes_def quiet_env_def)
  qed
  have "map (verdict lock_main [''bob''] (\<lambda>_. False)) [drop_main, create_ab] =
      [Inl (''rejected by rule '' @ [CHR 0x27] @ ''lock-main'' @ [CHR 0x27]), Inr ()]" by code_simp
  moreover have "subject_names (gr_subject (admin_grant ''bob'')) = [''bob'']"
    "forced_names (re_local quiet_env) lock_main drop_and_create = []" by code_simp+
  ultimately have forb: "?forb drop_main" "\<not> ?forb create_ab"
    using verdict_ok [of lock_main "[''bob'']" "\<lambda>_. False" drop_main]
      verdict_ok [of lock_main "[''bob'']" "\<lambda>_. False" create_ab]
    by (simp_all add: push_forbids_def)
  have upd: "tx_updates drop_and_create = [drop_main, create_ab]" "tx_atomic drop_and_create"
    by (simp_all add: drop_and_create_def)
  have names: "u_name drop_main = ''refs/heads/main''" "u_name create_ab = ''refs/heads/ab''" by code_simp+
  have "lr_ingest (re_local quiet_env) [] = Inr None"
    "tip_verdict (re_check_connectivity quiet_env) (re_local quiet_env) drop_and_create = Inr ()" by code_simp+
  from atomic_refusal_reported_ok [OF load this upd(2) _ forb(1), of "\<lambda>_ s. (Inl (Corrupt []), s)" default_caps None]
  obtain per_ref where "receive_pack_process quiet_env memory_store (\<lambda>_ s. (Inl (Corrupt []), s)) acme_repo drop_and_create
       default_caps [] (admin_grant ''bob'') None lock_store =
     (Inr (build_report default_caps (Inr ()) per_ref), lock_store)"
    "list_all2 (\<lambda>u (name, r). name = u_name u \<and> (r = Inr () \<longleftrightarrow> \<not> ?forb u)) [drop_main, create_ab] per_ref"
    unfolding upd(1) by auto
  moreover obtain r1 r2 where pr: "per_ref = [(''refs/heads/main'', r1), (''refs/heads/ab'', r2)]" "r1 \<noteq> Inr ()" "r2 = Inr ()"
    using calculation(2) forb names by (auto simp: list_all2_Cons1)
  moreover obtain msg where "r1 = Inl msg" using pr(2) by (cases r1) auto
  ultimately show ?thesis by auto
qed

text \<open>
  The answer of the publisher for HEAD is dropped, also when the client pushed HEAD itself: a
  push of HEAD that the publisher refuses is reported as \<open>ok\<close>.
\<close>

lemma refused_head_reported_ok:
  "merge_results [(''HEAD'', Inl msg)] [(''HEAD'', Inr ())] = [(''HEAD'', Inr ())]"
  by (simp add: merge_results_def)

end
