(* ===== verification/Pack_Groups.thy ===== *)
theory Pack_Groups
  imports Refs
begin

text \<open>
  Which refs are advertised and how the objects behind them are packed
  (\<open>walgit-config/src/refs.rs\<close>), and when packs are folded and frozen
  (\<open>walgit-config/src/packs.rs\<close>). An \<open>anyhow\<close> error is its message; SHA-256 in hexadecimal is
  a parameter; a \<open>Duration\<close> is its nanoseconds. The two decisions of \<open>packs.rs\<close> that compare
  floating-point ratios, and the validation of those ratios, are left out.

  The lemmas: the depth-first search through the dependencies of pack groups finds exactly the
  cyclic ones; the bytes hashed into the policy identity determine the policy; a thread budget
  never exceeds its memory.
\<close>

section \<open>The ref policy (refs.rs)\<close>

datatype pack_group_kind = GroupCode | GroupMeta

record pack_group_config =
  gc_kind :: pack_group_kind
  gc_include :: "string list"
  gc_subtract :: "string list"

record refs_config =
  rc_advertise :: "string list"
  rc_packfiles :: "(string, pack_group_config) btree"

definition default_refs_config :: refs_config where
  "default_refs_config =
     \<lparr>rc_advertise = [''refs/heads/*'', ''refs/tags/*''],
      rc_packfiles =
        [(''code'', \<lparr>gc_kind = GroupCode, gc_include = [''refs/*''], gc_subtract = []\<rparr>),
         (''meta'', \<lparr>gc_kind = GroupMeta, gc_include = [''refs/meta'', ''refs/meta/*''], gc_subtract = []\<rparr>)]\<rparr>"

definition is_metadata_ref :: "string \<Rightarrow> bool" where
  "is_metadata_ref name \<longleftrightarrow> name = ''refs/meta'' \<or> starts_with name ''refs/meta/''"

definition config_valid_ref :: "string \<Rightarrow> bool" where
  "config_valid_ref name \<longleftrightarrow>
     starts_with name ''refs/'' \<and>
     \<not> ends_with name ''/'' \<and>
     \<not> ends_with name ''.'' \<and>
     \<not> str_contains name ''..'' \<and>
     \<not> str_contains name [CHR ''@'', CHR 0x7B] \<and>
     \<not> list_ex (\<lambda>b. b \<le> CHR '' '' \<or> b = CHR 0x7F \<or> b \<in> set ''~^:?*['' \<or> b = CHR 0x5C) name \<and>
     list_all (\<lambda>p. p \<noteq> [] \<and> \<not> starts_with p ''.'' \<and> \<not> ends_with p ''.lock'')
       (split_on (CHR ''/'') name)"

definition selector_valid :: "string \<Rightarrow> bool" where
  "selector_valid selector =
     (let pattern = (case strip_prefix ''!'' selector of Some p \<Rightarrow> p | None \<Rightarrow> selector)
      in if pattern = ''HEAD'' then True
         else (case strip_suffix ''*'' pattern of
                 Some pre \<Rightarrow> config_valid_ref (pre @ ''x'')
               | None \<Rightarrow> config_valid_ref pattern))"

fun check_selectors :: "string list \<Rightarrow> (string, unit) result" where
  "check_selectors [] = Inr ()"
| "check_selectors (selector # rest) =
     (if \<not> selector_valid selector then Inl (''invalid ref selector '' @ debug_str selector)
      else check_selectors rest)"

definition validate_selectors :: "string list \<Rightarrow> (string, unit) result" where
  "validate_selectors selectors =
     (if length selectors > 256 then Inl ''at most 256 ref selectors per list''
      else check_selectors selectors)"

definition selector_matches :: "string \<Rightarrow> string \<Rightarrow> string \<Rightarrow> bool" where
  "selector_matches pattern name head =
     (if pattern = ''HEAD'' then head \<noteq> [] \<and> name = head
      else (case strip_suffix ''*'' pattern of
              None \<Rightarrow> name = pattern
            | Some p \<Rightarrow> starts_with name p))"

definition selector_step :: "string \<Rightarrow> string \<Rightarrow> string \<Rightarrow> bool \<Rightarrow> bool" where
  "selector_step name head selector included =
     (case strip_prefix ''!'' selector of
        None \<Rightarrow> if selector_matches selector name head then True else included
      | Some pattern \<Rightarrow> if selector_matches pattern name head then False else included)"

definition selectors_match :: "string list \<Rightarrow> string \<Rightarrow> string \<Rightarrow> bool" where
  "selectors_match selectors name head = fold (selector_step name head) selectors False"

definition matches_ref :: "pack_group_config \<Rightarrow> string \<Rightarrow> string \<Rightarrow> bool" where
  "matches_ref g name head \<longleftrightarrow>
     (is_metadata_ref name = (gc_kind g = GroupMeta)) \<and> selectors_match (gc_include g) name head"

section \<open>Dependencies between groups\<close>

type_synonym pack_groups = "(string, pack_group_config) btree"

definition unvisited :: "pack_groups \<Rightarrow> string set \<Rightarrow> nat" where
  "unvisited groups visiting = card (fst ` set groups - visiting)"

lemma unvisited_enter:
  assumes "bt_get groups name = Some g" "name \<notin> visiting"
  shows "unvisited groups (insert name visiting) < unvisited groups visiting"
proof -
  have "name \<in> fst ` set groups" using assms(1) by (metis domI dom_map_of_conv_image_fst)
  then show ?thesis
    unfolding unvisited_def by (intro psubset_card_mono) (use assms(2) in auto)
qed

text \<open>\<open>visit\<close> with the two sets it updates; \<open>visit_deps\<close> is its loop over the dependencies.\<close>

function (sequential) visit ::
    "string \<Rightarrow> pack_groups \<Rightarrow> string set \<Rightarrow> string set \<Rightarrow> (string, string set \<times> string set) result"
  and visit_deps ::
    "string list \<Rightarrow> pack_groups \<Rightarrow> string set \<Rightarrow> string set \<Rightarrow> (string, string set \<times> string set) result" where
  "visit name groups visiting finished =
     (if name \<in> finished then Inr (visiting, finished)
      else if name \<in> visiting then Inl (''pack group dependency cycle at '' @ name)
      else (case bt_get groups name of
              None \<Rightarrow> Inr (insert name visiting - {name}, insert name finished)
            | Some grp \<Rightarrow>
                (case visit_deps (gc_subtract grp) groups (insert name visiting) finished of
                   Inl e \<Rightarrow> Inl e
                 | Inr (visiting', finished') \<Rightarrow> Inr (visiting' - {name}, insert name finished'))))"
| "visit_deps [] groups visiting finished = Inr (visiting, finished)"
| "visit_deps (dep # deps) groups visiting finished =
     (case visit dep groups visiting finished of
        Inl e \<Rightarrow> Inl e
      | Inr (visiting', finished') \<Rightarrow> visit_deps deps groups visiting' finished')"
  by pat_completeness auto

termination
proof (relation "inv_image (less_than <*lex*> less_than)
        (\<lambda>x. case x of
            Inl (name, groups, visiting, finished) \<Rightarrow> (unvisited groups visiting, 0)
          | Inr (deps, groups, visiting, finished) \<Rightarrow> (unvisited groups visiting, Suc (length deps)))", goal_cases)
  case (4 dep deps groups visiting finished r visiting' finished')
  have "visit_visit_deps_dom (Inl (name, groups, visiting, finished)) \<Longrightarrow>
          visit name groups visiting finished = Inr (v, d) \<Longrightarrow> v = visiting"
    and "visit_visit_deps_dom (Inr (deps, groups, visiting, finished)) \<Longrightarrow>
          visit_deps deps groups visiting finished = Inr (v, d) \<Longrightarrow> v = visiting"
    for name deps groups visiting finished v d
  proof (induction name groups visiting finished and deps groups visiting finished arbitrary: v d and v d
      rule: visit_visit_deps.pinduct)
    case (1 name groups visiting finished)
    then show ?case
      by (force simp: visit.psimps split: if_splits option.splits sum.splits)
  next
    case (2 groups visiting finished)
    then show ?case by (simp add: visit_deps.psimps)
  next
    case (3 dep deps groups visiting finished)
    from 3(4) obtain v' d' where r: "visit dep groups visiting finished = Inr (v', d')"
      "visit_deps deps groups v' d' = Inr (v, d)"
      unfolding visit_deps.psimps(2) [OF 3(1)] by (auto split: sum.splits)
    from 3(2) [OF r(1)] 3(3) [OF r(1) refl r(2)] show ?case by simp
  qed
  from this(1) [of dep groups visiting finished] 4 show ?case by auto
qed (auto dest: unvisited_enter)

declare visit.simps [simp del]

section \<open>Validation\<close>

definition group_name_ok :: "string \<Rightarrow> bool" where
  "group_name_ok name \<longleftrightarrow>
     name \<noteq> [] \<and> \<not> starts_with name ''_'' \<and>
     list_all (\<lambda>b. is_ascii_alphanumeric b \<or> b = CHR ''-'' \<or> b = CHR ''_'') name"

fun check_dependencies ::
  "pack_groups \<Rightarrow> string \<Rightarrow> pack_group_config \<Rightarrow> string list \<Rightarrow> (string, unit) result" where
  "check_dependencies groups name grp [] = Inr ()"
| "check_dependencies groups name grp (dep # deps) =
     (case bt_get groups dep of
        None \<Rightarrow> Inl (''unknown dependency '' @ dep @ '' for group '' @ name)
      | Some target \<Rightarrow>
          if \<not> (gc_kind grp = GroupCode \<and> gc_kind target = GroupCode)
          then Inl ''subtraction is permitted only between code groups''
          else check_dependencies groups name grp deps)"

definition text_len :: "string list \<Rightarrow> nat" where
  "text_len ss = sum_list (map length ss)"

fun check_groups :: "pack_groups \<Rightarrow> pack_groups \<Rightarrow> nat \<Rightarrow> (string, nat) result" where
  "check_groups groups [] nbytes = Inr nbytes"
| "check_groups groups ((name, grp) # rest) nbytes =
     (if \<not> group_name_ok name then Inl (''invalid pack group name '' @ debug_str name)
      else case validate_selectors (gc_include grp) of
        Inl e \<Rightarrow> Inl e
      | Inr _ \<Rightarrow>
          if length (gc_subtract grp) > 32 then Inl (''too many dependencies for group '' @ name)
          else if \<not> distinct (gc_subtract grp) then Inl (''duplicate dependencies for group '' @ name)
          else (case check_dependencies groups name grp (gc_subtract grp) of
                  Inl e \<Rightarrow> Inl e
                | Inr _ \<Rightarrow>
                    check_groups groups rest
                      (nbytes + length name + text_len (gc_include grp) + text_len (gc_subtract grp))))"

fun visit_all :: "string list \<Rightarrow> pack_groups \<Rightarrow> string set \<Rightarrow> (string, unit) result" where
  "visit_all [] groups finished = Inr ()"
| "visit_all (name # names) groups finished =
     (case visit name groups {} finished of
        Inl e \<Rightarrow> Inl e
      | Inr (_, finished') \<Rightarrow> visit_all names groups finished')"

definition refs_config_validate :: "refs_config \<Rightarrow> (string, unit) result" where
  "refs_config_validate c =
     (if length (rc_packfiles c) > 32 then Inl ''at most 32 pack groups''
      else case validate_selectors (rc_advertise c) of
        Inl e \<Rightarrow> Inl e
      | Inr _ \<Rightarrow>
          (case check_groups (rc_packfiles c) (rc_packfiles c) (text_len (rc_advertise c)) of
             Inl e \<Rightarrow> Inl e
           | Inr nbytes \<Rightarrow>
               if nbytes > 16 * 1024 then Inl ''ref policy exceeds 16 KiB''
               else visit_all (map fst (rc_packfiles c)) (rc_packfiles c) {}))"

section \<open>The identity of a policy\<close>

text \<open>\<open>u64::to_be_bytes\<close>, and a length-framed field.\<close>

definition be64 :: "nat \<Rightarrow> bytes" where
  "be64 n = map (\<lambda>i. char_of (n div 256 ^ (7 - i) mod 256)) [0..<8]"

definition hash_field :: "bytes \<Rightarrow> bytes" where
  "hash_field v = be64 (length v) @ v"

definition kind_bytes :: "pack_group_kind \<Rightarrow> bytes" where
  "kind_bytes k = (case k of GroupCode \<Rightarrow> ''code'' | GroupMeta \<Rightarrow> ''meta'')"

definition group_bytes :: "string \<times> pack_group_config \<Rightarrow> bytes" where
  "group_bytes = (\<lambda>(name, grp).
     let deps = sorted_list_of_set (set (gc_subtract grp))
     in hash_field name @ hash_field (kind_bytes (gc_kind grp)) @
        be64 (length (gc_include grp)) @ concat (map hash_field (gc_include grp)) @
        be64 (length deps) @ concat (map hash_field deps))"

definition policy_bytes :: "refs_config \<Rightarrow> bytes" where
  "policy_bytes c =
     ''walgit-pack-policy-v1'' @ [CHR 0x00] @ be64 (length (rc_packfiles c)) @
     concat (map group_bytes (rc_packfiles c))"

definition policy_identity :: "(bytes \<Rightarrow> string) \<Rightarrow> refs_config \<Rightarrow> string" where
  "policy_identity sha256_hex c = sha256_hex (policy_bytes c)"

section \<open>When packs are folded and frozen (packs.rs)\<close>

record packs_config =
  pc_enabled :: bool
  pc_geometric_factor :: nat
  pc_fold_when_fresh_packs_reach :: nat
  pc_fold_when_max_age :: nat
  pc_fold_needs_at_least_packs :: nat
  pc_segment_max_bytes :: nat
  pc_segment_target_bytes :: nat
  pc_segment_delta_window_memory :: nat
  pc_segment_threads :: nat
  pc_freeze_when_settled :: nat
  pc_lease_ttl :: nat

record fold_inventory =
  fi_live_bytes :: nat
  fi_fresh_bytes :: nat
  fi_fresh_packs :: nat
  fi_oldest_fresh_age :: nat

datatype fold_trigger = FoldCount | FoldBytes | FoldAge
datatype freeze_trigger = FreezeSize | FreezeSettled

record thread_budget =
  db_threads :: nat
  db_window_memory_per_thread :: nat

definition target_bytes :: "packs_config \<Rightarrow> nat" where
  "target_bytes c =
     (let target = pc_segment_target_bytes c in if target = 0 then pc_segment_max_bytes c else target)"

definition fold_byte_threshold :: "packs_config \<Rightarrow> nat \<Rightarrow> nat \<Rightarrow> nat" where
  "fold_byte_threshold c live_bytes uri_min_bytes =
     (let factor = max (pc_geometric_factor c) 2
      in max (live_bytes div (factor * factor)) uri_min_bytes)"

definition fold_reason :: "packs_config \<Rightarrow> fold_inventory \<Rightarrow> nat \<Rightarrow> fold_trigger option" where
  "fold_reason c i uri_min_bytes =
     (if \<not> pc_enabled c \<or> fi_fresh_packs i < max (pc_fold_needs_at_least_packs c) 2 then None
      else if fi_fresh_packs i \<ge> pc_fold_when_fresh_packs_reach c then Some FoldCount
      else if fi_fresh_bytes i \<ge> max (fold_byte_threshold c (fi_live_bytes i) uri_min_bytes) 1
      then Some FoldBytes
      else if pc_fold_when_max_age c \<noteq> 0 \<and> fi_oldest_fresh_age i \<ge> pc_fold_when_max_age c
      then Some FoldAge
      else None)"

definition freeze_reason :: "packs_config \<Rightarrow> nat \<Rightarrow> nat \<Rightarrow> nat \<Rightarrow> freeze_trigger option" where
  "freeze_reason c fold_bytes settled_for uri_min_bytes =
     (if \<not> pc_enabled c \<or> fold_bytes = 0 then None
      else if pc_segment_max_bytes c > 0 \<and> fold_bytes \<ge> pc_segment_max_bytes c then Some FreezeSize
      else if fold_bytes \<ge> max uri_min_bytes 1 \<and> pc_freeze_when_settled c \<noteq> 0 \<and>
              settled_for \<ge> pc_freeze_when_settled c
      then Some FreezeSettled
      else None)"

definition delta_budget :: "packs_config \<Rightarrow> nat \<Rightarrow> nat \<Rightarrow> (string, thread_budget) result" where
  "delta_budget c available_threads host_memory_limit =
     (if \<not> (available_threads > 0 \<and> host_memory_limit > 0)
      then Inl ''pack delta search needs CPU and memory headroom''
      else
        let memory = min (pc_segment_delta_window_memory c) host_memory_limit
        in if \<not> memory > 0 then Inl ''pack delta-search memory budget must be positive''
           else
             let threads = (if pc_segment_threads c = 0 then available_threads
                            else min (pc_segment_threads c) available_threads);
                 threads = min threads memory
             in Inr \<lparr>db_threads = threads, db_window_memory_per_thread = memory div threads\<rparr>)"

section \<open>The search finds exactly the cycles\<close>

definition depends :: "pack_groups \<Rightarrow> (string \<times> string) set" where
  "depends groups = {(a, b). \<exists>g. bt_get groups a = Some g \<and> b \<in> set (gc_subtract g)}"

text \<open>What is finished is closed under dependencies and has no cycle.\<close>

definition settled :: "pack_groups \<Rightarrow> string set \<Rightarrow> bool" where
  "settled groups finished \<longleftrightarrow>
     depends groups `` finished \<subseteq> finished \<and> acyclic (depends groups \<inter> finished \<times> UNIV)"

lemma visit_visiting:
  "visit name groups visiting finished = Inr (v, d) \<Longrightarrow> v = visiting"
  "visit_deps deps groups visiting finished = Inr (v, d) \<Longrightarrow> v = visiting"
proof (induction name groups visiting finished and deps groups visiting finished arbitrary: v d and v d
    rule: visit_visit_deps.induct)
  case (1 name groups visiting finished)
  then show ?case
    by (force simp: visit.simps [of name] split: if_splits option.splits sum.splits)
next
  case (3 dep deps groups visiting finished)
  from 3(3) obtain v' d' where r: "visit dep groups visiting finished = Inr (v', d')"
    "visit_deps deps groups v' d' = Inr (v, d)"
    by (auto split: sum.splits)
  from 3(1) [OF r(1)] 3(2) [OF r(1) refl r(2)] show ?case by simp
qed simp

lemma settled_insert:
  assumes "settled groups D" "name \<notin> D" "depends groups `` {name} \<subseteq> D"
  shows "settled groups (insert name D)"
proof -
  let ?E = "depends groups \<inter> D \<times> UNIV"
  have in_D: "b \<in> D" if "(a, b) \<in> ?E\<^sup>+" for a b
    using that assms(1) by (induction rule: trancl_induct) (auto simp: settled_def)
  have "acyclic (?E \<union> {name} \<times> (depends groups `` {name}))"
  proof (rule acyclicI, intro allI notI)
    fix x
    let ?F = "?E \<union> {name} \<times> (depends groups `` {name})"
    assume cyc: "(x, x) \<in> ?F\<^sup>+"
    have step: "y \<in> D" if "(x, y) \<in> ?F\<^sup>+" for x y
      using that assms by (induction rule: trancl_induct) (auto simp: settled_def)
    then have "x \<in> D" using cyc by blast
    moreover have "(x, y) \<in> ?E\<^sup>+" if "(x, y) \<in> ?F\<^sup>+" "x \<in> D" for y
      using that
    proof (induction rule: trancl_induct)
      case (base y)
      then show ?case using assms(2) by auto
    next
      case (step y z)
      then have "y \<in> D" using in_D by blast
      with step assms(2) have "(y, z) \<in> ?E" by auto
      with step show ?case by (meson trancl_into_trancl)
    qed
    ultimately have "(x, x) \<in> ?E\<^sup>+" using cyc by blast
    then show False using assms(1) unfolding settled_def acyclic_def by blast
  qed
  moreover have "depends groups \<inter> insert name D \<times> UNIV = ?E \<union> {name} \<times> (depends groups `` {name})"
    by auto
  ultimately show ?thesis using assms unfolding settled_def by auto
qed

lemma visit_settles:
  "visit name groups visiting finished = Inr (v, d) \<Longrightarrow> settled groups finished \<Longrightarrow>
     settled groups d \<and> finished \<subseteq> d \<and> name \<in> d \<and> d \<inter> visiting = finished \<inter> visiting"
  "visit_deps deps groups visiting finished = Inr (v, d) \<Longrightarrow> settled groups finished \<Longrightarrow>
     settled groups d \<and> finished \<subseteq> d \<and> set deps \<subseteq> d \<and> d \<inter> visiting = finished \<inter> visiting"
proof (induction name groups visiting finished and deps groups visiting finished arbitrary: v d and v d
    rule: visit_visit_deps.induct)
  case (1 name groups visiting finished)
  show ?case
  proof (cases "name \<in> finished")
    case True
    then show ?thesis using 1 by (auto simp: visit.simps [of name])
  next
    case False
    then have fresh: "name \<notin> visiting" using 1 by (auto simp: visit.simps [of name])
    show ?thesis
    proof (cases "bt_get groups name")
      case None
      then have "depends groups `` {name} = {}" by (auto simp: depends_def)
      then show ?thesis
        using 1 False fresh None settled_insert [of groups finished name]
        by (auto simp: visit.simps [of name])
    next
      case (Some g)
      then obtain v' d' where r: "visit_deps (gc_subtract g) groups (insert name visiting) finished = Inr (v', d')"
        and d: "d = insert name d'"
        using 1 False fresh by (auto simp: visit.simps [of name] split: sum.splits)
      have ih: "settled groups d'" "finished \<subseteq> d'" "set (gc_subtract g) \<subseteq> d'"
        "d' \<inter> insert name visiting = finished \<inter> insert name visiting"
        using 1(1) [OF False fresh Some r] 1(3) by auto
      then have "name \<notin> d'" using False by auto
      moreover have "depends groups `` {name} \<subseteq> d'" using ih(3) Some by (auto simp: depends_def)
      ultimately have "settled groups (insert name d')" using ih(1) by (intro settled_insert)
      then show ?thesis using ih d fresh by auto
    qed
  qed
next
  case (3 dep deps groups visiting finished)
  from 3(3) obtain v' d' where r: "visit dep groups visiting finished = Inr (v', d')"
    "visit_deps deps groups v' d' = Inr (v, d)"
    by (auto split: sum.splits)
  have v': "v' = visiting" by (rule visit_visiting(1) [OF r(1)])
  from 3(1) [OF r(1) 3(4)] have a: "settled groups d'" "finished \<subseteq> d'" "dep \<in> d'"
    "d' \<inter> visiting = finished \<inter> visiting" by auto
  from 3(2) [OF r(1) refl r(2) a(1)] a v' show ?case by auto
qed simp

lemma visit_finds_cycle:
  "visit name groups visiting finished = Inl e \<Longrightarrow>
     \<forall>v \<in> visiting. (v, name) \<in> (depends groups)\<^sup>+ \<Longrightarrow> \<not> acyclic (depends groups)"
  "visit_deps deps groups visiting finished = Inl e \<Longrightarrow>
     \<forall>v \<in> visiting. \<forall>b \<in> set deps. (v, b) \<in> (depends groups)\<^sup>+ \<Longrightarrow> \<not> acyclic (depends groups)"
proof (induction name groups visiting finished and deps groups visiting finished
    rule: visit_visit_deps.induct)
  case (1 name groups visiting finished)
  show ?case
  proof (cases "name \<in> visiting")
    case True
    then show ?thesis using 1 by (auto simp: acyclic_def)
  next
    case False
    then obtain g where g: "name \<notin> finished" "bt_get groups name = Some g"
      "visit_deps (gc_subtract g) groups (insert name visiting) finished = Inl e"
      using 1(2) by (auto simp: visit.simps [of name] split: if_splits option.splits sum.splits)
    have "(name, b) \<in> depends groups" if "b \<in> set (gc_subtract g)" for b
      using that g(2) by (auto simp: depends_def)
    then have "\<forall>v \<in> insert name visiting. \<forall>b \<in> set (gc_subtract g). (v, b) \<in> (depends groups)\<^sup>+"
      using 1(3) by (auto intro: trancl_into_trancl)
    then show ?thesis using 1(1) [OF g(1) False g(2) g(3)] by blast
  qed
next
  case (3 dep deps groups visiting finished)
  show ?case
  proof (cases "visit dep groups visiting finished")
    case (Inl e')
    then show ?thesis using 3(1,3,4) by simp
  next
    case (Inr vd)
    obtain v' d' where vd: "vd = (v', d')" by (cases vd)
    with Inr have "v' = visiting" using visit_visiting(1) by blast
    then show ?thesis using 3(2) [OF Inr vd [symmetric]] 3(3,4) Inr vd by simp
  qed
qed simp

lemma visit_all_acyclic:
  assumes "visit_all names groups finished = Inr ()" "settled groups finished"
  shows "\<exists>d. settled groups d \<and> finished \<subseteq> d \<and> set names \<subseteq> d"
  using assms
proof (induction names arbitrary: finished)
  case (Cons name names)
  then obtain v d where r: "visit name groups {} finished = Inr (v, d)" "visit_all names groups d = Inr ()"
    by (auto split: sum.splits)
  from visit_settles(1) [OF r(1) Cons.prems(2)] Cons.IH [OF r(2)] show ?case by auto
qed auto

lemma visit_all_exact:
  "visit_all (map fst groups) groups {} = Inr () \<longleftrightarrow> acyclic (depends groups)"
proof
  assume "visit_all (map fst groups) groups {} = Inr ()"
  moreover have "settled groups {}" by (simp add: settled_def acyclic_def)
  ultimately obtain d where d: "settled groups d" "set (map fst groups) \<subseteq> d"
    using visit_all_acyclic by blast
  have "fst ` depends groups \<subseteq> dom (bt_get groups)" by (auto simp: depends_def)
  then have "depends groups \<subseteq> d \<times> UNIV" using d(2) by (force simp: dom_map_of_conv_image_fst)
  then have "depends groups \<inter> d \<times> UNIV = depends groups" by blast
  then show "acyclic (depends groups)" using d(1) by (simp add: settled_def)
next
  assume ac: "acyclic (depends groups)"
  have "visit_all names groups finished = Inr ()" for names finished
  proof (induction names arbitrary: finished)
    case (Cons name names)
    then show ?case
      using visit_finds_cycle(1) [of name groups "{}" finished] ac by (auto split: sum.splits)
  qed simp
  then show "visit_all (map fst groups) groups {} = Inr ()" .
qed

section \<open>What validation accepts\<close>

text \<open>A policy within its limits: the conditions of \<open>validate\<close> but the search for cycles.\<close>

definition selectors_ok :: "string list \<Rightarrow> bool" where
  "selectors_ok ss \<longleftrightarrow> length ss \<le> 256 \<and> (\<forall>s \<in> set ss. selector_valid s)"

definition group_ok :: "pack_groups \<Rightarrow> string \<times> pack_group_config \<Rightarrow> bool" where
  "group_ok groups = (\<lambda>(name, g).
     group_name_ok name \<and> selectors_ok (gc_include g) \<and>
     length (gc_subtract g) \<le> 32 \<and> distinct (gc_subtract g) \<and>
     (\<forall>dep \<in> set (gc_subtract g). \<exists>target. bt_get groups dep = Some target \<and>
        gc_kind g = GroupCode \<and> gc_kind target = GroupCode))"

definition policy_len :: "refs_config \<Rightarrow> nat" where
  "policy_len c = text_len (rc_advertise c) +
     sum_list (map (\<lambda>(name, g). length name + text_len (gc_include g) + text_len (gc_subtract g)) (rc_packfiles c))"

lemma validate_selectors_ok: "validate_selectors ss = Inr () \<longleftrightarrow> selectors_ok ss"
proof -
  have "check_selectors ss = Inr () \<longleftrightarrow> (\<forall>s \<in> set ss. selector_valid s)" by (induction ss) auto
  then show ?thesis by (auto simp: validate_selectors_def selectors_ok_def)
qed

lemma unit_bind:
  "(case r of Inl e \<Rightarrow> Inl e | Inr (_ :: unit) \<Rightarrow> k) = Inr y \<longleftrightarrow> r = Inr () \<and> k = Inr y"
  by (cases r) auto

lemma check_dependencies_ok:
  "check_dependencies groups name g deps = Inr () \<longleftrightarrow>
     (\<forall>dep \<in> set deps. \<exists>target. bt_get groups dep = Some target \<and>
        gc_kind g = GroupCode \<and> gc_kind target = GroupCode)"
  by (induction deps) (auto split: option.splits)

lemma check_groups_ok:
  "check_groups groups gs n = Inr r \<longleftrightarrow>
     (\<forall>g \<in> set gs. group_ok groups g) \<and>
     r = n + sum_list (map (\<lambda>(name, g). length name + text_len (gc_include g) + text_len (gc_subtract g)) gs)"
proof (induction gs arbitrary: n)
  case (Cons x gs)
  obtain name g where x: "x = (name, g)" by (cases x)
  show ?case
    by (auto simp: x unit_bind validate_selectors_ok check_dependencies_ok Cons.IH group_ok_def)
qed auto

lemma validate_exact:
  "refs_config_validate c = Inr () \<longleftrightarrow>
     length (rc_packfiles c) \<le> 32 \<and> selectors_ok (rc_advertise c) \<and>
     (\<forall>g \<in> set (rc_packfiles c). group_ok (rc_packfiles c) g) \<and> policy_len c \<le> 16 * 1024 \<and>
     acyclic (depends (rc_packfiles c))"
proof -
  let ?r = "check_groups (rc_packfiles c) (rc_packfiles c) (text_len (rc_advertise c))"
  have g: "?r = Inr n \<longleftrightarrow> (\<forall>g \<in> set (rc_packfiles c). group_ok (rc_packfiles c) g) \<and> n = policy_len c" for n
    by (auto simp: check_groups_ok policy_len_def)
  show ?thesis
  proof (cases ?r)
    case (Inl e)
    then show ?thesis using g [of "policy_len c"] by (auto simp: refs_config_validate_def unit_bind)
  next
    case (Inr n)
    then show ?thesis using g [of n]
      by (auto simp: refs_config_validate_def unit_bind validate_selectors_ok visit_all_exact)
  qed
qed

section \<open>The hashed bytes determine the policy\<close>

lemma digits_determine:
  "(\<And>i. i < k \<Longrightarrow> a div b ^ i mod b = c div b ^ i mod b) \<Longrightarrow> a mod b ^ k = c mod (b ^ k :: nat)"
proof (induction k)
  case (Suc k)
  then have "a mod b ^ k = c mod b ^ k" "a div b ^ k mod b = c div b ^ k mod b" by simp_all
  then show ?case by (simp add: mod_mult2_eq [of _ "b ^ k" b] mult.commute [of b])
qed simp

lemma be64_inject:
  assumes "be64 m @ x = be64 n @ y" "m < 2 ^ 64" "n < 2 ^ 64"
  shows "m = n \<and> x = y"
proof -
  have len: "length (be64 k) = 8" for k by (simp add: be64_def)
  then have eq: "be64 m = be64 n" "x = y" using assms(1) by (simp_all add: append_eq_append_conv)
  have "m div 256 ^ i mod 256 = n div 256 ^ i mod 256" if "i < 8" for i :: nat
  proof -
    have "[0..<8] ! (7 - i) = 7 - i" using nth_upt [of 0 "7 - i" 8] by simp
    moreover have "be64 m ! (7 - i) = be64 n ! (7 - i)" using eq(1) by simp
    ultimately have "char_of (m div 256 ^ i mod 256) = (char_of (n div 256 ^ i mod 256) :: char)"
      using that by (simp add: be64_def)
    then have "of_char (char_of (m div 256 ^ i mod 256) :: char) = (of_char (char_of (n div 256 ^ i mod 256) :: char) :: nat)"
      by simp
    then show ?thesis by simp
  qed
  then have "m mod 256 ^ 8 = n mod 256 ^ 8" by (rule digits_determine)
  then show ?thesis using assms(2,3) eq(2) by simp
qed

lemma hash_field_inject:
  assumes "hash_field a @ x = hash_field b @ y" "length a < 2 ^ 64" "length b < 2 ^ 64"
  shows "a = b \<and> x = y"
proof -
  have "be64 (length a) @ (a @ x) = be64 (length b) @ (b @ y)" using assms(1) by (simp add: hash_field_def)
  from be64_inject [OF this assms(2,3)] have "length a = length b" "a @ x = b @ y" by blast+
  then show ?thesis by (metis append_eq_append_conv)
qed

lemma hash_fields_inject:
  assumes "length as = length bs" "concat (map hash_field as) @ x = concat (map hash_field bs) @ y"
    "\<forall>a \<in> set as \<union> set bs. length a < 2 ^ 64"
  shows "as = bs \<and> x = y"
  using assms
proof (induction as bs rule: list_induct2)
  case (Cons a as b bs)
  then have "hash_field a @ (concat (map hash_field as) @ x) = hash_field b @ (concat (map hash_field bs) @ y)"
    by simp
  from hash_field_inject [OF this] Cons show ?case by simp
qed simp

text \<open>What the identity is meant to track: names, kinds and selectors in order, dependencies as sets.\<close>

definition packing :: "refs_config \<Rightarrow> (string \<times> pack_group_kind \<times> string list \<times> string set) list" where
  "packing c = map (\<lambda>(name, g). (name, gc_kind g, gc_include g, set (gc_subtract g))) (rc_packfiles c)"

definition group_small :: "string \<times> pack_group_config \<Rightarrow> bool" where
  "group_small = (\<lambda>(name, g). length name < 2 ^ 64 \<and>
     length (gc_include g) < 2 ^ 64 \<and> (\<forall>s \<in> set (gc_include g). length s < 2 ^ 64) \<and>
     length (gc_subtract g) < 2 ^ 64 \<and> (\<forall>s \<in> set (gc_subtract g). length s < 2 ^ 64))"

lemma group_bytes_inject:
  assumes "group_bytes (n, g) @ x = group_bytes (n', g') @ y" "group_small (n, g)" "group_small (n', g')"
  shows "n = n' \<and> gc_kind g = gc_kind g' \<and> gc_include g = gc_include g' \<and>
    set (gc_subtract g) = set (gc_subtract g') \<and> x = y"
proof -
  let ?d = "sorted_list_of_set (set (gc_subtract g))" and ?d' = "sorted_list_of_set (set (gc_subtract g'))"
  let ?i = "gc_include g" and ?i' = "gc_include g'"
  have small: "length ?d < 2 ^ 64" "length ?d' < 2 ^ 64"
    using assms(2,3) card_length [of "gc_subtract g"] card_length [of "gc_subtract g'"]
    by (simp_all add: group_small_def length_sorted_list_of_set)
  have 1: "n = n' \<and> hash_field (kind_bytes (gc_kind g)) @ be64 (length ?i) @ concat (map hash_field ?i) @
        be64 (length ?d) @ concat (map hash_field ?d) @ x =
      hash_field (kind_bytes (gc_kind g')) @ be64 (length ?i') @ concat (map hash_field ?i') @
        be64 (length ?d') @ concat (map hash_field ?d') @ y"
    using assms by (intro hash_field_inject) (simp_all add: group_bytes_def group_small_def Let_def)
  then have 2: "kind_bytes (gc_kind g) = kind_bytes (gc_kind g') \<and>
      be64 (length ?i) @ concat (map hash_field ?i) @ be64 (length ?d) @ concat (map hash_field ?d) @ x =
      be64 (length ?i') @ concat (map hash_field ?i') @ be64 (length ?d') @ concat (map hash_field ?d') @ y"
    by (intro hash_field_inject) (simp_all add: kind_bytes_def split: pack_group_kind.splits)
  then have 3: "length ?i = length ?i' \<and>
      concat (map hash_field ?i) @ be64 (length ?d) @ concat (map hash_field ?d) @ x =
      concat (map hash_field ?i') @ be64 (length ?d') @ concat (map hash_field ?d') @ y"
    using assms(2,3) by (intro be64_inject) (simp_all add: group_small_def)
  then have 4: "?i = ?i' \<and> be64 (length ?d) @ concat (map hash_field ?d) @ x =
      be64 (length ?d') @ concat (map hash_field ?d') @ y"
    using assms(2,3) by (intro hash_fields_inject) (auto simp: group_small_def)
  then have 5: "length ?d = length ?d' \<and> concat (map hash_field ?d) @ x = concat (map hash_field ?d') @ y"
    using small by (intro be64_inject) simp_all
  then have "?d = ?d' \<and> x = y"
    using assms(2,3) by (intro hash_fields_inject) (auto simp: group_small_def)
  moreover have "gc_kind g = gc_kind g'"
    using 2 by (auto simp: kind_bytes_def split: pack_group_kind.splits)
  ultimately show ?thesis using 1 4 by (metis finite_set sorted_list_of_set.set_sorted_key_list_of_set)
qed

lemma groups_bytes_inject:
  assumes "length gs = length hs" "concat (map group_bytes gs) = concat (map group_bytes hs)"
    "\<forall>g \<in> set gs \<union> set hs. group_small g"
  shows "map (\<lambda>(n, g). (n, gc_kind g, gc_include g, set (gc_subtract g))) gs =
    map (\<lambda>(n, g). (n, gc_kind g, gc_include g, set (gc_subtract g))) hs"
  using assms
proof (induction gs hs rule: list_induct2)
  case (Cons g gs h hs)
  obtain n k n' k' where "g = (n, k)" "h = (n', k')" by (cases g; cases h)
  then show ?case using Cons group_bytes_inject [of n k _ n' k'] by simp
qed simp

lemma text_len_member: "s \<in> set ss \<Longrightarrow> length s \<le> text_len ss"
  unfolding text_len_def by (simp add: member_le_sum_list)

lemma validated_small:
  assumes "refs_config_validate c = Inr ()" "x \<in> set (rc_packfiles c)"
  shows "group_small x"
proof -
  obtain name g where x: "x = (name, g)" by (cases x)
  have "length name + text_len (gc_include g) + text_len (gc_subtract g) \<le> policy_len c"
    using member_le_sum_list [of "length name + text_len (gc_include g) + text_len (gc_subtract g)"] assms(2)
    by (force simp: policy_len_def x image_iff intro: le_add2 [THEN order_trans [rotated]])
  moreover have "policy_len c \<le> 16384" "group_ok (rc_packfiles c) x"
    using assms by (simp_all add: validate_exact)
  ultimately show ?thesis
    using text_len_member [of _ "gc_include g"] text_len_member [of _ "gc_subtract g"]
    by (fastforce simp: group_small_def group_ok_def selectors_ok_def x)
qed

lemma policy_bytes_exact:
  assumes "refs_config_validate c = Inr ()" "refs_config_validate d = Inr ()"
  shows "policy_bytes c = policy_bytes d \<longleftrightarrow> packing c = packing d"
proof
  assume "policy_bytes c = policy_bytes d"
  then have "be64 (length (rc_packfiles c)) @ concat (map group_bytes (rc_packfiles c)) =
      be64 (length (rc_packfiles d)) @ concat (map group_bytes (rc_packfiles d))"
    by (simp add: policy_bytes_def)
  moreover have "length (rc_packfiles c) \<le> 32" "length (rc_packfiles d) \<le> 32"
    using assms by (simp_all add: validate_exact)
  ultimately have "length (rc_packfiles c) = length (rc_packfiles d) \<and>
      concat (map group_bytes (rc_packfiles c)) = concat (map group_bytes (rc_packfiles d))"
    by (intro be64_inject) simp_all
  then show "packing c = packing d"
    unfolding packing_def using validated_small [OF assms(1)] validated_small [OF assms(2)]
    by (intro groups_bytes_inject) auto
next
  assume p: "packing c = packing d"
  define f where "f = (\<lambda>(name, k, is, ds). let deps = sorted_list_of_set ds
    in hash_field name @ hash_field (kind_bytes k) @ be64 (length is) @ concat (map hash_field is) @
       be64 (length deps) @ concat (map hash_field deps))"
  have bytes: "map group_bytes (rc_packfiles c) = map f (packing c)" for c
    unfolding packing_def f_def group_bytes_def by (simp add: case_prod_beta)
  have "length (rc_packfiles c) = length (rc_packfiles d)"
    using arg_cong [OF p, of length] by (simp add: packing_def)
  then show "policy_bytes c = policy_bytes d" unfolding policy_bytes_def bytes p by simp
qed

section \<open>Properties\<close>

text \<open>
  C23. Validation of a ref policy accepts exactly the policies within the limits whose groups have
  valid names and selectors, subtract only known code groups from code groups, each once, and whose
  dependencies have no cycle.
\<close>

theorem refs_config_validate_exact:
  "refs_config_validate c = Inr () \<longleftrightarrow>
     length (rc_packfiles c) \<le> 32 \<and> selectors_ok (rc_advertise c) \<and>
     list_all (group_ok (rc_packfiles c)) (rc_packfiles c) \<and> policy_len c \<le> 16 * 1024 \<and>
     acyclic (depends (rc_packfiles c))"
  by (simp add: validate_exact list_all_iff)

text \<open>
  C24. Two validated ref policies have the same identity exactly when they pack the same way (the
  same groups with the same kinds and selectors, and the same dependencies in any order), or two
  different byte strings have the same SHA-256. What is advertised plays no part.
\<close>

theorem policy_identity_tracks_packing:
  assumes "refs_config_validate c = Inr ()" "refs_config_validate d = Inr ()"
  shows "policy_identity sha c = policy_identity sha d \<longleftrightarrow>
    packing c = packing d \<or> policy_bytes c \<noteq> policy_bytes d \<and> sha (policy_bytes c) = sha (policy_bytes d)"
  using policy_bytes_exact [OF assms] by (auto simp: policy_identity_def)

text \<open>A thread budget uses at least one thread and never more memory than the host allows.\<close>

lemma delta_budget_bounded:
  assumes "delta_budget c cpus host = Inr b"
  shows "0 < db_threads b \<and> db_threads b \<le> cpus \<and> 0 < db_window_memory_per_thread b \<and>
    db_threads b * db_window_memory_per_thread b \<le> min (pc_segment_delta_window_memory c) host"
proof -
  define m where "m = min (pc_segment_delta_window_memory c) host"
  define t where "t = min (if pc_segment_threads c = 0 then cpus else min (pc_segment_threads c) cpus) m"
  have b: "b = \<lparr>db_threads = t, db_window_memory_per_thread = m div t\<rparr>" "0 < cpus" "0 < m"
    using assms by (auto simp: delta_budget_def Let_def t_def m_def split: if_splits)
  then have "0 < t" "t \<le> cpus" "t \<le> m" by (auto simp: t_def)
  then show ?thesis
    unfolding m_def [symmetric] b(1) by (simp add: div_greater_zero_iff)
qed

text \<open>Two sample policies with three code groups; the second advertises less and lists dependencies in another order.\<close>

definition sample_group :: "string list \<Rightarrow> string list \<Rightarrow> pack_group_config" where
  "sample_group is ds = \<lparr>gc_kind = GroupCode, gc_include = is, gc_subtract = ds\<rparr>"

definition sample_policy :: "string list \<Rightarrow> string list \<Rightarrow> refs_config" where
  "sample_policy adv ds =
     \<lparr>rc_advertise = adv,
      rc_packfiles = [(''a'', sample_group [''HEAD''] []), (''b'', sample_group [''refs/heads/*''] [''a'']),
        (''c'', sample_group [''refs/*''] ds)]\<rparr>"

lemma sample_policy_ok:
  "refs_config_validate (sample_policy [''HEAD''] [''a'', ''b'']) = Inr ()"
  "refs_config_validate (sample_policy [] [''b'', ''a'']) = Inr ()"
  by code_simp+

lemma sample_policy_cycle:
  "refs_config_validate (default_refs_config \<lparr>rc_packfiles :=
       [(''a'', sample_group [] [''b'']), (''b'', sample_group [] [''a''])]\<rparr>) =
     Inl ''pack group dependency cycle at a''"
  by code_simp

theorem policy_identity_tracks_packing_witness:
  "refs_config_validate (sample_policy [''HEAD''] [''a'', ''b'']) = Inr () \<and>
   refs_config_validate (sample_policy [] [''b'', ''a'']) = Inr () \<and>
   policy_identity (\<lambda>b. b) (sample_policy [''HEAD''] [''a'', ''b'']) =
     policy_identity (\<lambda>b. b) (sample_policy [] [''b'', ''a''])"
  using policy_identity_tracks_packing [OF sample_policy_ok, of "\<lambda>b. b"] sample_policy_ok
  by (auto simp: packing_def sample_policy_def sample_group_def)

end
