(* ===== verification/Inventory.thy ===== *)
theory Inventory
  imports Wal_Store "HOL-Library.Product_Lexorder"
begin

text \<open>
  The check that replacing packs loses no object (\<open>walgit-wal/src/closure.rs\<close>). A pack index is the
  list of its object ids in index order (\<open>num_objects\<close>, \<open>oid_at_index\<close> and \<open>lookup\<close> of the
  \<open>gix\<close> library read such a list); the heap of cursors is a sorted list, whose head is what
  \<open>pop\<close> gives. Loading the indexes of the live packs is the parameter \<open>loaded\<close>, parsing an
  object id the parameter \<open>from_hex\<close>. Progress bars are left out.

  The lemmas: the merge of sorted indexes lists the objects of all of them once, in order; the
  check succeeds exactly when no object and no current tip is lost.
\<close>

type_synonym oid = string
type_synonym pack_index = "oid list"
type_synonym cursor = "oid \<times> nat \<times> nat"

definition new_cursors :: "pack_index list \<Rightarrow> cursor list" where
  "new_cursors indexes =
     sort (map (\<lambda>(i, index). (index ! 0, i, 0)) (filter (\<lambda>(_, index). length index > 0) (enumerate 0 indexes)))"

definition advance_cursor :: "pack_index list \<Rightarrow> nat \<Rightarrow> nat \<Rightarrow> cursor list \<Rightarrow> cursor list" where
  "advance_cursor indexes pack position rest =
     (let index = indexes ! pack
      in if position + 1 < length index then insort (index ! (position + 1), pack, position + 1) rest else rest)"

definition cursor_work :: "pack_index list \<Rightarrow> cursor list \<Rightarrow> nat" where
  "cursor_work indexes cs = sum_list (map (\<lambda>(_, pack, position). Suc (length (indexes ! pack) - position)) cs)"

lemma cursor_work_insort:
  "cursor_work indexes (insort (c :: cursor) cs) = cursor_work indexes (c # cs)"
  by (induction cs) (auto simp: cursor_work_def)

lemma advance_less:
  "cursor_work indexes (advance_cursor indexes pack position rest) < cursor_work indexes ((q, pack, position) # rest)"
  by (auto simp: advance_cursor_def Let_def cursor_work_insort) (auto simp: cursor_work_def)

text \<open>The iterator run to its end: what \<open>next\<close> yields, in order.\<close>

function union_from :: "pack_index list \<Rightarrow> cursor list \<Rightarrow> oid option \<Rightarrow> oid list" where
  "union_from indexes [] previous = []"
| "union_from indexes ((q, pack, position) # rest) previous =
     (let cursors = advance_cursor indexes pack position rest
      in if previous \<noteq> Some q then q # union_from indexes cursors (Some q)
         else union_from indexes cursors previous)"
  by pat_completeness auto

termination
  by (relation "measure (\<lambda>(indexes, cs, _). cursor_work indexes cs)") (simp_all add: advance_less)

definition index_union :: "pack_index list \<Rightarrow> oid list" where
  "index_union indexes = union_from indexes (new_cursors indexes) None"

text \<open>The loop over the input objects, with the output objects still to come.\<close>

fun conserve :: "oid list \<Rightarrow> oid list \<Rightarrow> (wal_error, unit) result" where
  "conserve [] outputs = Inr ()"
| "conserve (q # inputs) outputs =
     (let rest = dropWhile (\<lambda>n. n < q) outputs
      in if rest = [] \<or> hd rest \<noteq> q then Inl (Invalid (''replacement loses indexed object '' @ q))
         else conserve inputs rest)"

fun cover_tips ::
  "(string \<Rightarrow> (string, oid) result) \<Rightarrow> (pack_ref \<times> pack_index) list \<Rightarrow> string list \<Rightarrow> git_ref list \<Rightarrow>
     (wal_error, unit) result" where
  "cover_tips from_hex indexes retained [] = Inr ()"
| "cover_tips from_hex indexes retained (r # refs) =
     (case from_hex (r_oid r) of
        Inl e \<Rightarrow> Inl (Corrupt e)
      | Inr q \<Rightarrow>
          if \<not> list_ex (\<lambda>(p, i). pk_checksum p \<in> set retained \<and> q \<in> set i) indexes
          then Inl (Invalid (''replacement does not cover current tip '' @ r_name r @ '' ('' @ q @ '')''))
          else cover_tips from_hex indexes retained refs)"

definition verify_replacement_inventory ::
  "(string \<Rightarrow> (string, oid) result) \<Rightarrow> (wal_error, (pack_ref \<times> pack_index) list) result \<Rightarrow>
     manifest \<Rightarrow> ref_snapshot \<Rightarrow> string list \<Rightarrow> pack_ref list \<Rightarrow> (wal_error, unit) result" where
  "verify_replacement_inventory from_hex loaded updated refs inputs outputs =
     (case loaded of
        Inl e \<Rightarrow> Inl e
      | Inr indexes \<Rightarrow>
          let input_indexes = map snd (filter (\<lambda>(p, _). pk_checksum p \<in> set inputs) indexes);
              output_indexes = map snd (filter (\<lambda>(p, _). pk_checksum p \<in> set (map pk_checksum outputs)) indexes);
              retained = map pk_checksum (m_packs updated)
          in (case conserve (index_union input_indexes) (index_union output_indexes) of
                Inl e \<Rightarrow> Inl e
              | Inr _ \<Rightarrow> cover_tips from_hex indexes retained (sn_refs refs)))"

section \<open>The merge\<close>

definition cursor_ok :: "pack_index list \<Rightarrow> cursor \<Rightarrow> bool" where
  "cursor_ok indexes = (\<lambda>(q, pack, position).
     pack < length indexes \<and> sorted (indexes ! pack) \<and>
     position < length (indexes ! pack) \<and> q = indexes ! pack ! position)"

definition pending :: "pack_index list \<Rightarrow> cursor list \<Rightarrow> oid set" where
  "pending indexes cs = (\<Union>(_, pack, position) \<in> set cs. set (drop position (indexes ! pack)))"

lemma advance_sorted: "sorted rest \<Longrightarrow> sorted (advance_cursor indexes pack position rest)"
  by (simp add: advance_cursor_def Let_def sorted_insort)

lemma advance_ok:
  assumes "cursor_ok indexes (q, pack, position)" "\<forall>c \<in> set rest. cursor_ok indexes c"
  shows "\<forall>c \<in> set (advance_cursor indexes pack position rest). cursor_ok indexes c"
  using assms by (auto simp: advance_cursor_def Let_def set_insort_key cursor_ok_def)

lemma pending_Cons:
  assumes "cursor_ok indexes (q, pack, position)"
  shows "pending indexes ((q, pack, position) # rest) = insert q (pending indexes (advance_cursor indexes pack position rest))"
proof -
  have "drop position (indexes ! pack) = q # drop (position + 1) (indexes ! pack)"
    using assms by (simp add: cursor_ok_def Cons_nth_drop_Suc)
  moreover have "drop (position + 1) (indexes ! pack) = []" if "\<not> position + 1 < length (indexes ! pack)"
    using that by simp
  ultimately show ?thesis
    by (auto simp: pending_def advance_cursor_def Let_def set_insort_key)
qed

lemma pending_least:
  assumes "sorted ((q, pack, position) # rest)" "\<forall>c \<in> set ((q, pack, position) # rest). cursor_ok indexes c"
    "x \<in> pending indexes ((q, pack, position) # rest)"
  shows "q \<le> x"
proof -
  obtain q' pack' position' where c: "(q', pack', position') \<in> set ((q, pack, position) # rest)"
    "x \<in> set (drop position' (indexes ! pack'))"
    using assms(3) by (auto simp: pending_def)
  have "(q, pack, position) \<le> (q', pack', position')" using assms(1) c(1) by auto
  then have "q \<le> q'" by (auto simp: less_eq_prod_def)
  moreover have ok: "cursor_ok indexes (q', pack', position')" using assms(2) c(1) by blast
  obtain j where j: "j < length (indexes ! pack') - position'" "x = indexes ! pack' ! (position' + j)"
    using c(2) by (auto simp: in_set_conv_nth)
  then have "q' \<le> x" using ok by (auto simp: cursor_ok_def intro: sorted_nth_mono)
  ultimately show ?thesis by simp
qed

lemma union_from_spec:
  assumes "sorted cs" "\<forall>c \<in> set cs. cursor_ok indexes c"
    "\<And>p x. previous = Some p \<Longrightarrow> x \<in> pending indexes cs \<Longrightarrow> p \<le> x"
  shows "sorted_wrt (<) (union_from indexes cs previous) \<and>
    set (union_from indexes cs previous) = pending indexes cs - set_option previous"
  using assms
proof (induction indexes cs previous rule: union_from.induct)
  case (1 indexes previous)
  then show ?case by (simp add: pending_def)
next
  case (2 indexes q pack position rest previous)
  let ?cs = "advance_cursor indexes pack position rest"
  have ok: "cursor_ok indexes (q, pack, position)" using 2(4) by simp
  note pend = pending_Cons [OF ok, of rest]
  have cs: "sorted ?cs" "\<forall>c \<in> set ?cs. cursor_ok indexes c"
    using 2(3) advance_ok [OF ok, of rest] 2(4) by (simp_all add: advance_sorted)
  have least: "q \<le> x" if "x \<in> pending indexes ?cs" for x
    using pending_least [OF 2(3,4), of x] that pend by blast
  show ?case
  proof (cases "previous = Some q")
    case True
    then show ?thesis using 2(2) [OF refl _ cs] least pend by (auto simp: Let_def)
  next
    case False
    have "sorted_wrt (<) (union_from indexes ?cs (Some q))"
      "set (union_from indexes ?cs (Some q)) = pending indexes ?cs - {q}"
      using 2(1) [OF refl False cs] least by auto
    moreover have "p < q" if "previous = Some p" for p
      using 2(5) [OF that, of q] pend False that by auto
    moreover have "q \<notin> set_option previous" using False by (cases previous) auto
    moreover have "x \<notin> set_option previous" if "x \<in> pending indexes ?cs" for x
      using least [OF that] \<open>\<And>p. previous = Some p \<Longrightarrow> p < q\<close> by (cases previous) auto
    moreover have "q < x" if "x \<in> pending indexes ?cs - {q}" for x
      using least [of x] that by (auto simp: order.strict_iff_order)
    ultimately show ?thesis using pend False by (auto simp: Let_def)
  qed
qed

lemma index_union_spec:
  assumes "\<forall>i \<in> set indexes. sorted i"
  shows "sorted_wrt (<) (index_union indexes)" "set (index_union indexes) = \<Union> (set ` set indexes)"
proof -
  have ok: "\<forall>c \<in> set (new_cursors indexes). cursor_ok indexes c"
    using assms by (auto simp: new_cursors_def cursor_ok_def in_set_enumerate_eq)
  have "pending indexes (new_cursors indexes) = \<Union> (set ` set indexes)"
  proof (intro equalityI subsetI)
    fix x assume "x \<in> pending indexes (new_cursors indexes)"
    then obtain i where "i < length indexes" "x \<in> set (indexes ! i)"
      by (auto simp: pending_def new_cursors_def in_set_enumerate_eq)
    then show "x \<in> \<Union> (set ` set indexes)" by auto
  next
    fix x assume "x \<in> \<Union> (set ` set indexes)"
    then obtain i where i: "i < length indexes" "x \<in> set (indexes ! i)" by (metis UN_E in_set_conv_nth)
    then have "(indexes ! i ! 0, i, 0) \<in> set (new_cursors indexes)"
      by (force simp: new_cursors_def in_set_enumerate_eq)
    then show "x \<in> pending indexes (new_cursors indexes)" using i(2) by (force simp: pending_def)
  qed
  then show "sorted_wrt (<) (index_union indexes)" "set (index_union indexes) = \<Union> (set ` set indexes)"
    using union_from_spec [OF _ ok, of None] by (simp_all add: index_union_def new_cursors_def)
qed

section \<open>What the check establishes\<close>

lemma conserve_exact:
  assumes "sorted_wrt (<) inputs" "sorted_wrt (<) outputs"
  shows "conserve inputs outputs = Inr () \<longleftrightarrow> set inputs \<subseteq> set outputs"
  using assms
proof (induction inputs arbitrary: outputs)
  case (Cons q inputs)
  let ?rest = "dropWhile (\<lambda>n. n < q) outputs"
  have sub: "set ?rest \<subseteq> set outputs" by (auto dest: set_dropWhileD)
  have sorted: "sorted_wrt (<) ?rest" using Cons.prems(2) by (simp add: sorted_wrt_dropWhile)
  have mem: "x \<in> set ?rest" if "x \<in> set outputs" "q \<le> x" for x
    using that by (induction outputs) auto
  have hd: "q \<in> set outputs \<longleftrightarrow> ?rest \<noteq> [] \<and> hd ?rest = q"
  proof
    assume "q \<in> set outputs"
    then have q: "q \<in> set ?rest" using mem by blast
    then have "?rest \<noteq> []" by (metis empty_iff empty_set)
    moreover from this have "\<not> hd ?rest < q" by (rule hd_dropWhile)
    moreover have "hd ?rest \<le> q" using q sorted by (cases ?rest) auto
    ultimately show "?rest \<noteq> [] \<and> hd ?rest = q" by auto
  next
    assume "?rest \<noteq> [] \<and> hd ?rest = q"
    then show "q \<in> set outputs" using sub by (metis hd_in_set subsetD)
  qed
  have "set inputs \<subseteq> set ?rest \<longleftrightarrow> set inputs \<subseteq> set outputs"
    using sub mem Cons.prems(1) by (auto dest: less_imp_le)
  then show ?case using Cons.IH [OF _ sorted] Cons.prems(1) hd by (auto simp: Let_def)
qed simp

lemma cover_tips_exact:
  "cover_tips from_hex indexes retained refs = Inr () \<longleftrightarrow>
     (\<forall>r \<in> set refs. \<exists>q. from_hex (r_oid r) = Inr q \<and>
        (\<exists>(p, i) \<in> set indexes. pk_checksum p \<in> set retained \<and> q \<in> set i))"
  by (induction refs) (auto simp: list_ex_iff split: sum.splits)

definition objects_in :: "(pack_ref \<times> pack_index) list \<Rightarrow> string set \<Rightarrow> oid set" where
  "objects_in indexes checksums =
     (\<Union>(p, i) \<in> set indexes. if pk_checksum p \<in> checksums then set i else {})"

lemma in_objects:
  "q \<in> objects_in indexes cs \<longleftrightarrow> (\<exists>(p, i) \<in> set indexes. pk_checksum p \<in> cs \<and> q \<in> set i)"
  by (force simp: objects_in_def split: if_splits)

definition tips_covered ::
  "(string \<Rightarrow> (string, oid) result) \<Rightarrow> (pack_ref \<times> pack_index) list \<Rightarrow> string set \<Rightarrow> ref_snapshot \<Rightarrow> bool" where
  "tips_covered from_hex indexes checksums refs \<longleftrightarrow>
     (\<forall>r \<in> set (sn_refs refs). \<exists>q. from_hex (r_oid r) = Inr q \<and> q \<in> objects_in indexes checksums)"

text \<open>
  C22. With sorted pack indexes, the check of a replacement succeeds exactly when every object of
  the replaced packs is in an output pack and every current ref points to an object of a pack
  that stays: the merge of the indexes with one cursor per pack misses nothing.
\<close>

theorem verify_replacement_exact:
  assumes "\<forall>(p, i) \<in> set indexes. sorted i"
  shows "verify_replacement_inventory from_hex (Inr indexes) updated refs inputs outputs = Inr () \<longleftrightarrow>
    objects_in indexes (set inputs) \<subseteq> objects_in indexes (pk_checksum ` set outputs) \<and>
    tips_covered from_hex indexes (pk_checksum ` set (m_packs updated)) refs"
proof -
  let ?idx = "\<lambda>cs. map snd (filter (\<lambda>(p, _). pk_checksum p \<in> cs) indexes)"
  have sorted: "\<forall>i \<in> set (?idx cs). sorted i" for cs using assms by auto
  have objs: "set (index_union (?idx cs)) = objects_in indexes cs" for cs
    unfolding index_union_spec(2) [OF sorted] set_eq_iff in_objects by force
  have "conserve (index_union (?idx (set inputs))) (index_union (?idx (pk_checksum ` set outputs))) = Inr () \<longleftrightarrow>
      objects_in indexes (set inputs) \<subseteq> objects_in indexes (pk_checksum ` set outputs)"
    using conserve_exact [OF index_union_spec(1) index_union_spec(1), OF sorted sorted] objs by simp
  moreover have "cover_tips from_hex indexes (map pk_checksum (m_packs updated)) (sn_refs refs) = Inr () \<longleftrightarrow>
      tips_covered from_hex indexes (pk_checksum ` set (m_packs updated)) refs"
    unfolding cover_tips_exact tips_covered_def in_objects by simp
  ultimately show ?thesis
    by (auto simp: verify_replacement_inventory_def Let_def split: sum.splits)
qed

definition sample_index :: "string \<Rightarrow> pack_index \<Rightarrow> pack_ref \<times> pack_index" where
  "sample_index c i = (default_pack_ref \<lparr>pk_checksum := c\<rparr>, i)"

definition sample_indexes :: "(pack_ref \<times> pack_index) list" where
  "sample_indexes = [sample_index ''a'' [''1'', ''4''], sample_index ''b'' [''2'', ''4''],
     sample_index ''c'' [''1'', ''2'', ''3'', ''4'']]"

definition sample_tips :: ref_snapshot where
  "sample_tips = \<lparr>sn_seq = 1, sn_object_format = ''sha1'',
     sn_refs = [\<lparr>r_name = ''refs/heads/main'', r_oid = ''3'', r_peeled = []\<rparr>], sn_head_target = [],
     sn_created_at = None\<rparr>"

theorem verify_replacement_exact_witness:
  "verify_replacement_inventory Inr (Inr sample_indexes) (default_manifest \<lparr>m_packs := [fst (sample_index ''c'' [])]\<rparr>)
     sample_tips [''a'', ''b''] [fst (sample_index ''c'' [])] = Inr ()"
proof -
  have s: "\<forall>(p, i) \<in> set sample_indexes. sorted i"
    by (simp add: sample_indexes_def sample_index_def)
  show ?thesis
    unfolding verify_replacement_exact [OF s]
    by (auto simp: objects_in_def tips_covered_def sample_indexes_def sample_index_def sample_tips_def)
qed

text \<open>An object missing from the output is reported by its id.\<close>

lemma replacement_loss_reported:
  "verify_replacement_inventory Inr (Inr sample_indexes) (default_manifest \<lparr>m_packs := [fst (sample_index ''b'' [])]\<rparr>)
     sample_tips [''a''] [fst (sample_index ''b'' [])] =
   Inl (Invalid ''replacement loses indexed object 1'')"
  by code_simp

end
