(* ===== verification/Classification.thy ===== *)
theory Classification
  imports Pack_Groups Inventory
begin

text \<open>
  Classification of committed packs and the coverage certificates they carry
  (\<open>walgit-wal/src/classification.rs\<close>). A certificate says that its member packs together hold
  everything a pack group needs at one captured generation of the refs. The effective
  configuration of a repository enters as its \<open>refs_config\<close>; a \<open>BTreeMap\<close> collected from the packs is
  the reversed association list (the last of two equal keys wins), the set of validated
  certificates is a set.

  The lemmas: pruning ends and leaves no certificate that is incomplete in the manifest it
  produces; certificates that pass validation are complete.
\<close>

record pack_classification =
  pcl_checksum :: string
  pcl_kind :: int
  pcl_audience :: int
  pcl_ref_policy :: string
  pcl_pack_groups :: "string list"
  pcl_covers_seq :: nat
  pcl_coverage_refs_key :: string
  pcl_group_coverages :: "pack_group_coverage list"

definition classification_from_pack :: "pack_ref \<Rightarrow> pack_classification" where
  "classification_from_pack p =
     \<lparr>pcl_checksum = pk_checksum p, pcl_kind = pk_kind p, pcl_audience = pk_audience p,
      pcl_ref_policy = pk_ref_policy p, pcl_pack_groups = pk_pack_groups p,
      pcl_covers_seq = pk_covers_seq p, pcl_coverage_refs_key = pk_coverage_refs_key p,
      pcl_group_coverages = pk_group_coverages p\<rparr>"

definition classification_apply :: "pack_classification \<Rightarrow> pack_ref \<Rightarrow> pack_ref" where
  "classification_apply c p =
     p \<lparr>pk_kind := pcl_kind c, pk_audience := pcl_audience c, pk_ref_policy := pcl_ref_policy c,
        pk_pack_groups := pcl_pack_groups c, pk_covers_seq := pcl_covers_seq c,
        pk_coverage_refs_key := pcl_coverage_refs_key c, pk_group_coverages := pcl_group_coverages c\<rparr>"

definition PACK_AUDIENCE_CODE :: int where "PACK_AUDIENCE_CODE = 1"
definition PACK_AUDIENCE_META :: int where "PACK_AUDIENCE_META = 2"
definition PACK_AUDIENCE_RETAINED :: int where "PACK_AUDIENCE_RETAINED = 3"

definition audience_matches :: "pack_ref \<Rightarrow> pack_group_kind \<Rightarrow> refs_config \<Rightarrow> bool" where
  "audience_matches pack kind rc =
     (let code = list_ex (\<lambda>name. case bt_get (rc_packfiles rc) name of
                   Some g \<Rightarrow> gc_kind g = GroupCode | None \<Rightarrow> False) (pk_pack_groups pack)
      in case kind of
           GroupCode \<Rightarrow> pk_audience pack = PACK_AUDIENCE_CODE
         | GroupMeta \<Rightarrow> pk_audience pack = (if code then PACK_AUDIENCE_CODE else PACK_AUDIENCE_META))"

section \<open>Pruning certificates\<close>

definition all_coverages :: "manifest \<Rightarrow> pack_group_coverage list" where
  "all_coverages m = concat (map pk_group_coverages (m_packs m))"

definition in_scope :: "string \<Rightarrow> pack_group_coverage \<Rightarrow> pack_ref \<Rightarrow> bool" where
  "in_scope policy crt p \<longleftrightarrow>
     cov_group crt \<in> set (pk_pack_groups p) \<and> pk_ref_policy p = policy \<and>
     pk_covers_seq p = cov_covers_seq crt \<and> pk_coverage_refs_key p = cov_refs_key crt"

definition same_generation :: "string \<Rightarrow> pack_group_coverage \<Rightarrow> string \<Rightarrow> pack_group_coverage \<Rightarrow> bool" where
  "same_generation policy crt dependency c \<longleftrightarrow>
     cov_group c = dependency \<and> cov_ref_policy c = policy \<and>
     cov_covers_seq c = cov_covers_seq crt \<and> cov_refs_key c = cov_refs_key crt"

definition coverage_valid :: "string \<Rightarrow> refs_config \<Rightarrow> manifest \<Rightarrow> pack_group_coverage \<Rightarrow> bool" where
  "coverage_valid policy rc before crt \<longleftrightarrow>
     cov_ref_policy crt = policy \<and>
     (case bt_get (rc_packfiles rc) (cov_group crt) of
        None \<Rightarrow> False
      | Some g \<Rightarrow>
          cov_packs crt \<noteq> [] \<and>
          list_all (\<lambda>m. list_ex (\<lambda>p. pk_checksum p = m \<and> in_scope policy crt p) (m_packs before)) (cov_packs crt) \<and>
          list_all (\<lambda>dependency. list_ex (same_generation policy crt dependency) (all_coverages before))
            (gc_subtract g))"

definition prune_round :: "string \<Rightarrow> refs_config \<Rightarrow> string list \<Rightarrow> manifest \<Rightarrow> manifest" where
  "prune_round policy rc changed m =
     m \<lparr>m_packs := map (\<lambda>carrier.
          if pk_checksum carrier \<in> set changed then carrier
          else carrier \<lparr>pk_group_coverages := filter (coverage_valid policy rc m) (pk_group_coverages carrier)\<rparr>)
        (m_packs m)\<rparr>"

definition prune_removes :: "string \<Rightarrow> refs_config \<Rightarrow> string list \<Rightarrow> manifest \<Rightarrow> bool" where
  "prune_removes policy rc changed m \<longleftrightarrow>
     list_ex (\<lambda>carrier. pk_checksum carrier \<notin> set changed \<and>
       list_ex (\<lambda>crt. \<not> coverage_valid policy rc m crt) (pk_group_coverages carrier)) (m_packs m)"

lemma filter_drops: "list_ex (\<lambda>x. \<not> P x) xs \<Longrightarrow> length (filter P xs) < length xs"
  by (auto simp: list_ex_iff intro: length_filter_less)

lemma prune_round_less:
  assumes "prune_removes policy rc changed m"
  shows "length (all_coverages (prune_round policy rc changed m)) < length (all_coverages m)"
proof -
  let ?P = "coverage_valid policy rc m"
  have "length (concat (map (\<lambda>p. pk_group_coverages (if pk_checksum p \<in> set changed then p
            else p \<lparr>pk_group_coverages := filter ?P (pk_group_coverages p)\<rparr>)) ps))
      < length (concat (map pk_group_coverages ps))"
    if "list_ex (\<lambda>carrier. pk_checksum carrier \<notin> set changed \<and>
       list_ex (\<lambda>crt. \<not> ?P crt) (pk_group_coverages carrier)) ps" for ps
    using that
  proof (induction ps)
    case (Cons p ps)
    let ?f = "\<lambda>p. pk_group_coverages (if pk_checksum p \<in> set changed then p
            else p \<lparr>pk_group_coverages := filter ?P (pk_group_coverages p)\<rparr>)"
    have le: "length (?f p) \<le> length (pk_group_coverages p)" for p by simp
    have "length (concat (map ?f qs)) \<le> length (concat (map pk_group_coverages qs))" for qs
    proof (induction qs)
      case (Cons q qs)
      then show ?case using le [of q] by simp
    qed simp
    from this [of ps] le [of p] show ?case
      using Cons filter_drops [of ?P "pk_group_coverages p"]
      by (cases "pk_checksum p \<notin> set changed \<and> list_ex (\<lambda>crt. \<not> ?P crt) (pk_group_coverages p)") auto
  qed simp
  from this [of "m_packs m"] assms show ?thesis
    by (simp add: prune_removes_def prune_round_def all_coverages_def comp_def)
qed

function prune_loop :: "string \<Rightarrow> refs_config \<Rightarrow> string list \<Rightarrow> manifest \<Rightarrow> manifest" where
  "prune_loop policy rc changed m =
     (let m' = prune_round policy rc changed m
      in if prune_removes policy rc changed m then prune_loop policy rc changed m' else m')"
  by pat_completeness auto

termination
  by (relation "measure (\<lambda>(_, _, _, m). length (all_coverages m))") (simp_all add: prune_round_less)

declare prune_loop.simps [simp del]

definition prune_invalid_coverages ::
  "(bytes \<Rightarrow> string) \<Rightarrow> refs_config \<Rightarrow> string list \<Rightarrow> manifest \<Rightarrow> manifest" where
  "prune_invalid_coverages sha256_hex rc changed m = prune_loop (policy_identity sha256_hex rc) rc changed m"

section \<open>Validating certificates\<close>

text \<open>A candidate snapshot: uploaded, and of no authority before a manifest names it (\<open>snapshots.rs\<close>).\<close>

record coverage_snapshot =
  cs_key :: string
  cs_snapshot :: ref_snapshot
  cs_repo :: string

type_synonym live_packs = "(string \<times> pack_ref) list"

definition live_packs :: "manifest \<Rightarrow> live_packs" where
  "live_packs m = rev (map (\<lambda>p. (pk_checksum p, p)) (m_packs m))"

definition proof_key :: "pack_group_coverage \<Rightarrow> string \<times> nat \<times> string \<times> string list" where
  "proof_key c = (cov_group c, cov_covers_seq c, cov_refs_key c, cov_packs c)"

fun check_members ::
  "string \<Rightarrow> refs_config \<Rightarrow> live_packs \<Rightarrow> pack_group_kind \<Rightarrow> pack_group_coverage \<Rightarrow> string list \<Rightarrow>
     (wal_error, unit) result" where
  "check_members policy rc live kind crt [] = Inr ()"
| "check_members policy rc live kind crt (member # members) =
     (case map_of live member of
        None \<Rightarrow> Inl (Invalid (''coverage member '' @ member @ '' is not live''))
      | Some p \<Rightarrow>
          if \<not> in_scope policy crt p then Inl (Invalid ''coverage member scope changed'')
          else if \<not> audience_matches p kind rc then Inl (Invalid ''coverage member audience changed'')
          else check_members policy rc live kind crt members)"

definition proof_snapshot ::
  "codec \<Rightarrow> 's object_store \<Rightarrow> manifest \<Rightarrow> coverage_snapshot list \<Rightarrow> (string, ref_snapshot) btree \<Rightarrow>
     pack_group_coverage \<Rightarrow> 's \<Rightarrow> (wal_error, ref_snapshot) result \<times> 's" where
  "proof_snapshot cd S before candidates snapshots crt s =
     (case bt_get snapshots (cov_refs_key crt) of
        Some cached \<Rightarrow> (Inr cached, s)
      | None \<Rightarrow>
          (case find (\<lambda>c. cs_key c = cov_refs_key crt) candidates of
             Some candidate \<Rightarrow>
               if cs_repo candidate \<noteq> m_repo before
               then (Inl (Invalid ''coverage candidate belongs to another repository''), s)
               else (Inr (cs_snapshot candidate), s)
           | None \<Rightarrow>
               if \<not> (list_ex (\<lambda>p. cov_refs_key p = cov_refs_key crt \<and> cov_covers_seq p = cov_covers_seq crt)
                        (all_coverages before) \<or>
                      (case m_checkpoint before of
                         Some cp \<Rightarrow> cp_refs_key cp = cov_refs_key crt \<and> cp_seq cp = cov_covers_seq crt
                       | None \<Rightarrow> False))
               then (Inl (Invalid ''coverage snapshot is not committed or supplied by its producer''), s)
               else read_snapshot cd S (cov_refs_key crt) (cov_covers_seq crt) (m_object_format before) s))"

fun dependency_proofs ::
  "string \<Rightarrow> pack_group_coverage list \<Rightarrow> pack_group_coverage \<Rightarrow> string list \<Rightarrow>
     (wal_error, pack_group_coverage list) result" where
  "dependency_proofs policy proofs crt [] = Inr []"
| "dependency_proofs policy proofs crt (dependency # deps) =
     (case find (same_generation policy crt dependency) proofs of
        None \<Rightarrow> Inl (Invalid (''missing same-generation coverage for dependency '' @ dependency))
      | Some dp \<Rightarrow>
          if list_ex (\<lambda>p. same_generation policy crt dependency p \<and> cov_packs p \<noteq> cov_packs dp) proofs
          then Inl (Invalid ''conflicting dependency coverage'')
          else (case dependency_proofs policy proofs crt deps of
                  Inl e \<Rightarrow> Inl e
                | Inr dps \<Rightarrow> Inr (dp # dps)))"

text \<open>One certificate: the snapshots known after it, and the dependencies to validate next.\<close>

definition check_proof ::
  "codec \<Rightarrow> 's object_store \<Rightarrow> string \<Rightarrow> refs_config \<Rightarrow> manifest \<Rightarrow> live_packs \<Rightarrow> pack_group_coverage list \<Rightarrow>
     coverage_snapshot list \<Rightarrow> (string, ref_snapshot) btree \<Rightarrow> pack_group_coverage \<Rightarrow> 's \<Rightarrow>
     (wal_error, (string, ref_snapshot) btree \<times> pack_group_coverage list) result \<times> 's" where
  "check_proof cd S policy rc before live proofs candidates snapshots crt s =
     (if cov_ref_policy crt \<noteq> policy \<or> cov_covers_seq crt > m_head_seq before \<or> cov_refs_key crt = []
      then (Inl (Invalid ''coverage policy or captured generation is invalid''), s)
      else case bt_get (rc_packfiles rc) (cov_group crt) of
        None \<Rightarrow> (Inl (Invalid ''coverage names an unknown group''), s)
      | Some g \<Rightarrow>
          if cov_packs crt = [] \<or> \<not> distinct (cov_packs crt)
          then (Inl (Invalid ''coverage members are empty or duplicated''), s)
          else (case check_members policy rc live (gc_kind g) crt (cov_packs crt) of
                  Inl e \<Rightarrow> (Inl e, s)
                | Inr _ \<Rightarrow>
                    (case proof_snapshot cd S before candidates snapshots crt s of
                       (Inl e, s1) \<Rightarrow> (Inl e, s1)
                     | (Inr sn, s1) \<Rightarrow>
                         if sn_seq sn \<noteq> cov_covers_seq crt \<or> sn_object_format sn \<noteq> m_object_format before
                         then (Inl (Invalid ''coverage snapshot generation mismatch''), s1)
                         else (case dependency_proofs policy proofs crt (gc_subtract g) of
                                 Inl e \<Rightarrow> (Inl e, s1)
                               | Inr dps \<Rightarrow> (Inr (bt_insert (cov_refs_key crt) sn snapshots, dps), s1)))))"

lemma dependency_proofs_sub: "dependency_proofs policy proofs crt deps = Inr dps \<Longrightarrow> set dps \<subseteq> set proofs"
proof (induction deps arbitrary: dps)
  case (Cons d deps)
  then show ?case by (auto split: option.splits if_splits sum.splits simp: find_Some_iff)
qed simp

lemma check_proof_sub:
  "check_proof cd S policy rc before live proofs candidates snapshots crt s = (Inr (sn, dps), s1) \<Longrightarrow>
     set dps \<subseteq> set proofs"
  by (auto simp: check_proof_def split: if_splits option.splits sum.splits prod.splits dest: dependency_proofs_sub)

text \<open>The loop over \<open>pending\<close>, a stack whose top is the head of the list.\<close>

function validate_pending ::
  "codec \<Rightarrow> 's object_store \<Rightarrow> string \<Rightarrow> refs_config \<Rightarrow> manifest \<Rightarrow> live_packs \<Rightarrow> pack_group_coverage list \<Rightarrow>
     coverage_snapshot list \<Rightarrow> pack_group_coverage list \<Rightarrow> (string \<times> nat \<times> string \<times> string list) set \<Rightarrow>
     (string, ref_snapshot) btree \<Rightarrow> 's \<Rightarrow>
     (wal_error, (string \<times> nat \<times> string \<times> string list) set \<times> (string, ref_snapshot) btree) result \<times> 's" where
  "validate_pending cd S policy rc before live proofs candidates [] validated snapshots s =
     (Inr (validated, snapshots), s)"
| "validate_pending cd S policy rc before live proofs candidates (crt # todo) validated snapshots s =
     (if proof_key crt \<in> validated
      then validate_pending cd S policy rc before live proofs candidates todo validated snapshots s
      else (case check_proof cd S policy rc before live proofs candidates snapshots crt s of
              (Inl e, s1) \<Rightarrow> (Inl e, s1)
            | (Inr (snapshots', dps), s1) \<Rightarrow>
                validate_pending cd S policy rc before live proofs candidates (rev dps @ todo)
                  (insert (proof_key crt) validated) snapshots' s1))"
  by pat_completeness auto

termination
proof (relation "inv_image (less_than <*lex*> less_than)
    (\<lambda>(_, _, _, _, _, _, proofs, _, todo, validated, _, _).
       (card (proof_key ` (set proofs \<union> set todo) - validated), length todo))", goal_cases)
  case (2 cd S policy rc m live proofs cands crt todo validated snapshots s)
  have "card (proof_key ` (set proofs \<union> set todo) - validated) \<le>
      card (proof_key ` (set proofs \<union> set (crt # todo)) - validated)"
    by (rule card_mono) auto
  then show ?case by auto
next
  case (3 cd S policy rc m live proofs cands crt todo validated snapshots s r s1 q snapshots' dps)
  then have "set dps \<subseteq> set proofs" by (metis check_proof_sub)
  then have "proof_key ` (set proofs \<union> set (rev dps @ todo)) - insert (proof_key crt) validated \<subset>
      proof_key ` (set proofs \<union> set (crt # todo)) - validated"
    using 3(1) by auto
  then have "card (proof_key ` (set proofs \<union> set (rev dps @ todo)) - insert (proof_key crt) validated) <
      card (proof_key ` (set proofs \<union> set (crt # todo)) - validated)"
    by (intro psubset_card_mono) auto
  then show ?case by simp
qed auto

fun check_pack_groups ::
  "string \<Rightarrow> refs_config \<Rightarrow> pack_ref \<Rightarrow> string list \<Rightarrow> (wal_error, unit) result" where
  "check_pack_groups policy rc pack [] = Inr ()"
| "check_pack_groups policy rc pack (g # groups) =
     (if g = ''_retained'' then
        (if pk_audience pack \<noteq> PACK_AUDIENCE_RETAINED \<or> pk_group_coverages pack \<noteq> []
         then Inl (Invalid ''retained packs cannot carry group coverage'')
         else check_pack_groups policy rc pack groups)
      else case bt_get (rc_packfiles rc) g of
        None \<Rightarrow> Inl (Invalid (''unknown pack group '' @ g))
      | Some d \<Rightarrow>
          if pk_ref_policy pack \<noteq> policy \<or> \<not> audience_matches pack (gc_kind d) rc
          then Inl (Invalid ''pack classification has stale policy or wrong audience'')
          else check_pack_groups policy rc pack groups)"

fun check_coverages ::
  "codec \<Rightarrow> 's object_store \<Rightarrow> string \<Rightarrow> refs_config \<Rightarrow> manifest \<Rightarrow> live_packs \<Rightarrow> pack_group_coverage list \<Rightarrow>
     coverage_snapshot list \<Rightarrow> pack_ref \<Rightarrow> pack_group_coverage list \<Rightarrow>
     (string \<times> nat \<times> string \<times> string list) set \<Rightarrow> (string, ref_snapshot) btree \<Rightarrow> 's \<Rightarrow>
     (wal_error, (string \<times> nat \<times> string \<times> string list) set \<times> (string, ref_snapshot) btree) result \<times> 's" where
  "check_coverages cd S policy rc before live proofs candidates pack [] validated snapshots s =
     (Inr (validated, snapshots), s)"
| "check_coverages cd S policy rc before live proofs candidates pack (coverage # coverages) validated snapshots s =
     (if cov_group coverage \<notin> set (pk_pack_groups pack) \<or>
         pk_coverage_refs_key pack \<noteq> cov_refs_key coverage \<or>
         pk_checksum pack \<notin> set (cov_packs coverage)
      then (Inl (Invalid ''coverage carrier is outside its certificate''), s)
      else (case validate_pending cd S policy rc before live proofs candidates [coverage] validated snapshots s of
              (Inl e, s1) \<Rightarrow> (Inl e, s1)
            | (Inr (validated', snapshots'), s1) \<Rightarrow>
                check_coverages cd S policy rc before live proofs candidates pack coverages validated' snapshots' s1))"

fun check_changed ::
  "codec \<Rightarrow> 's object_store \<Rightarrow> string \<Rightarrow> refs_config \<Rightarrow> manifest \<Rightarrow> live_packs \<Rightarrow> pack_group_coverage list \<Rightarrow>
     coverage_snapshot list \<Rightarrow> string list \<Rightarrow> (string \<times> nat \<times> string \<times> string list) set \<Rightarrow>
     (string, ref_snapshot) btree \<Rightarrow> 's \<Rightarrow> (wal_error, unit) result \<times> 's" where
  "check_changed cd S policy rc before live proofs candidates [] validated snapshots s = (Inr (), s)"
| "check_changed cd S policy rc before live proofs candidates (checksum # changed) validated snapshots s =
     (case map_of live checksum of
        None \<Rightarrow> (Inl (Invalid ''classified pack is no longer live''), s)
      | Some pack \<Rightarrow>
          if pk_kind pack \<notin> {0, 1, 2} \<or> pk_audience pack \<notin> {0, 1, 2, 3}
          then (Inl (Invalid ''unknown pack classification''), s)
          else if \<not> distinct (pk_pack_groups pack) then (Inl (Invalid ''duplicate pack group''), s)
          else (case check_pack_groups policy rc pack (pk_pack_groups pack) of
                  Inl e \<Rightarrow> (Inl e, s)
                | Inr _ \<Rightarrow>
                    (case check_coverages cd S policy rc before live proofs candidates pack
                            (pk_group_coverages pack) validated snapshots s of
                       (Inl e, s1) \<Rightarrow> (Inl e, s1)
                     | (Inr (validated', snapshots'), s1) \<Rightarrow>
                         check_changed cd S policy rc before live proofs candidates changed
                           validated' snapshots' s1)))"

text \<open>
  \<open>validate_certificates\<close>; \<open>config_for\<close> is \<open>validated_config_for_manifest\<close>, the host's
  configuration with the settings of the manifest applied.
\<close>

definition validate_certificates ::
  "codec \<Rightarrow> 's object_store \<Rightarrow> (manifest \<Rightarrow> (wal_error, refs_config) result) \<Rightarrow> manifest \<Rightarrow> manifest \<Rightarrow>
     string list \<Rightarrow> coverage_snapshot list \<Rightarrow> 's \<Rightarrow> (wal_error, unit) result \<times> 's" where
  "validate_certificates cd S config_for before after changed candidates s =
     (case config_for before of
        Inl e \<Rightarrow> (Inl e, s)
      | Inr rc \<Rightarrow>
          check_changed cd S (policy_identity (cd_sha256 cd) rc) rc before (live_packs after)
            (all_coverages after) candidates changed {} [] s)"

section \<open>Complete certificates\<close>

text \<open>
  A certificate is complete in a manifest if its group is configured, its members are live packs
  of the group at the certificate's generation, and every group it subtracts is certified at that
  generation too.
\<close>

definition complete_coverage :: "string \<Rightarrow> refs_config \<Rightarrow> manifest \<Rightarrow> pack_group_coverage \<Rightarrow> bool" where
  "complete_coverage policy rc m crt \<longleftrightarrow>
     (\<exists>g. bt_get (rc_packfiles rc) (cov_group crt) = Some g \<and> cov_packs crt \<noteq> [] \<and>
        (\<forall>c \<in> set (cov_packs crt). \<exists>p \<in> set (m_packs m). pk_checksum p = c \<and> in_scope policy crt p) \<and>
        (\<forall>d \<in> set (gc_subtract g). \<exists>c \<in> set (all_coverages m). same_generation policy crt d c))"

lemma coverage_valid_complete:
  "coverage_valid policy rc m crt \<longleftrightarrow> cov_ref_policy crt = policy \<and> complete_coverage policy rc m crt"
  by (auto simp: coverage_valid_def complete_coverage_def list_all_iff list_ex_iff split: option.splits)

lemma complete_coverage_key:
  "proof_key c = proof_key d \<Longrightarrow> complete_coverage policy rc m c = complete_coverage policy rc m d"
  by (simp add: complete_coverage_def proof_key_def in_scope_def same_generation_def)

lemma live_packs_get: "map_of (live_packs m) c = Some p \<Longrightarrow> p \<in> set (m_packs m) \<and> pk_checksum p = c"
  by (auto simp: live_packs_def dest!: map_of_SomeD)

lemma check_members_ok:
  "check_members policy rc (live_packs m) kind crt ms = Inr () \<Longrightarrow>
     \<forall>c \<in> set ms. \<exists>p \<in> set (m_packs m). pk_checksum p = c \<and> in_scope policy crt p"
  by (induction ms) (auto split: option.splits if_splits dest!: live_packs_get)

lemma dependency_proofs_ok:
  "dependency_proofs policy proofs crt deps = Inr dps \<Longrightarrow>
     \<forall>d \<in> set deps. \<exists>c \<in> set proofs. same_generation policy crt d c"
proof (induction deps arbitrary: dps)
  case (Cons d deps)
  then obtain dp dps' where "find (same_generation policy crt d) proofs = Some dp"
    "dependency_proofs policy proofs crt deps = Inr dps'"
    by (auto split: option.splits if_splits sum.splits)
  moreover from this(1) have "dp \<in> set proofs" "same_generation policy crt d dp"
    by (auto simp: find_Some_iff)
  ultimately show ?case using Cons.IH by auto
qed simp

lemma check_proof_complete:
  assumes "check_proof cd S policy rc before (live_packs m) (all_coverages m) candidates snapshots crt s = (Inr r, s1)"
  shows "complete_coverage policy rc m crt"
proof -
  obtain g where g: "bt_get (rc_packfiles rc) (cov_group crt) = Some g" "cov_packs crt \<noteq> []"
    "check_members policy rc (live_packs m) (gc_kind g) crt (cov_packs crt) = Inr ()"
    using assms by (auto simp: check_proof_def split: if_splits option.splits sum.splits)
  moreover obtain dps where "dependency_proofs policy (all_coverages m) crt (gc_subtract g) = Inr dps"
    using assms g by (auto simp: check_proof_def split: if_splits option.splits sum.splits prod.splits)
  ultimately show ?thesis
    using check_members_ok [OF g(3)] dependency_proofs_ok unfolding complete_coverage_def by blast
qed

definition keys_complete ::
  "string \<Rightarrow> refs_config \<Rightarrow> manifest \<Rightarrow> (string \<times> nat \<times> string \<times> string list) set \<Rightarrow> bool" where
  "keys_complete policy rc m K \<longleftrightarrow> (\<forall>c. proof_key c \<in> K \<longrightarrow> complete_coverage policy rc m c)"

lemma validate_pending_complete:
  "validate_pending cd S policy rc before live proofs candidates todo validated snapshots s =
     (Inr (validated', snapshots'), s1) \<Longrightarrow> live = live_packs m \<Longrightarrow> proofs = all_coverages m \<Longrightarrow>
   keys_complete policy rc m validated \<Longrightarrow>
   keys_complete policy rc m validated' \<and> validated \<union> proof_key ` set todo \<subseteq> validated'"
proof (induction cd S policy rc before live proofs candidates todo validated snapshots s
    rule: validate_pending.induct)
  case (1 cd S policy rc before live proofs candidates validated snapshots s)
  then show ?case by simp
next
  case (2 cd S policy rc before live proofs candidates crt todo validated snapshots s)
  show ?case
  proof (cases "proof_key crt \<in> validated")
    case True
    then show ?thesis using 2(1) [OF True] 2(3-) by auto
  next
    case False
    obtain sn dps s2 where c: "check_proof cd S policy rc before live proofs candidates snapshots crt s = (Inr (sn, dps), s2)"
      and v: "validate_pending cd S policy rc before live proofs candidates (rev dps @ todo)
        (insert (proof_key crt) validated) sn s2 = (Inr (validated', snapshots'), s1)"
      using 2(3) False by (auto split: prod.splits sum.splits)
    have "complete_coverage policy rc m crt"
      by (rule check_proof_complete [OF c [unfolded 2(4,5)]])
    then have "keys_complete policy rc m (insert (proof_key crt) validated)"
      using 2(6) complete_coverage_key unfolding keys_complete_def by blast
    then show ?thesis using 2(2) [OF False c [symmetric] refl refl v 2(4,5)] by auto
  qed
qed

lemma check_coverages_complete:
  "check_coverages cd S policy rc before (live_packs m) (all_coverages m) candidates pack coverages validated snapshots s =
     (Inr (validated', snapshots'), s1) \<Longrightarrow> keys_complete policy rc m validated \<Longrightarrow>
   keys_complete policy rc m validated' \<and> validated \<union> proof_key ` set coverages \<subseteq> validated'"
proof (induction coverages arbitrary: validated snapshots s)
  case (Cons c coverages)
  obtain v sn s2 where v: "validate_pending cd S policy rc before (live_packs m) (all_coverages m) candidates [c]
      validated snapshots s = (Inr (v, sn), s2)"
    and r: "check_coverages cd S policy rc before (live_packs m) (all_coverages m) candidates pack coverages v sn s2 =
      (Inr (validated', snapshots'), s1)"
    using Cons.prems(1) by (auto split: if_splits prod.splits sum.splits)
  from validate_pending_complete [OF v refl refl Cons.prems(2)] Cons.IH [OF r] show ?case by auto
qed simp

lemma check_changed_complete:
  "check_changed cd S policy rc before (live_packs m) (all_coverages m) candidates changed validated snapshots s = (Inr (), s1) \<Longrightarrow>
   keys_complete policy rc m validated \<Longrightarrow>
   \<forall>c \<in> set changed. \<exists>p. map_of (live_packs m) c = Some p \<and>
     (\<forall>crt \<in> set (pk_group_coverages p). complete_coverage policy rc m crt)"
proof (induction changed arbitrary: validated snapshots s)
  case (Cons c changed)
  obtain p v sn s2 where p: "map_of (live_packs m) c = Some p"
    and v: "check_coverages cd S policy rc before (live_packs m) (all_coverages m) candidates p
      (pk_group_coverages p) validated snapshots s = (Inr (v, sn), s2)"
    and r: "check_changed cd S policy rc before (live_packs m) (all_coverages m) candidates changed v sn s2 = (Inr (), s1)"
    using Cons.prems(1) by (auto split: if_splits prod.splits sum.splits option.splits)
  from check_coverages_complete [OF v Cons.prems(2)] Cons.IH [OF r] p show ?case
    unfolding keys_complete_def by auto
qed simp

text \<open>What pruning leaves: the packs with possibly fewer certificates, the remaining ones valid.\<close>

lemma prune_loop_valid:
  assumes "p \<in> set (m_packs (prune_loop policy rc changed m))" "pk_checksum p \<notin> set changed"
    "crt \<in> set (pk_group_coverages p)"
  shows "coverage_valid policy rc (prune_loop policy rc changed m) crt"
  using assms
proof (induction policy rc changed m rule: prune_loop.induct)
  case (1 policy rc changed m)
  show ?case
  proof (cases "prune_removes policy rc changed m")
    case True
    then show ?thesis using 1 by (simp add: prune_loop.simps [of _ _ _ m])
  next
    case False
    have "prune_round policy rc changed m = m"
    proof -
      have "map (\<lambda>carrier. if pk_checksum carrier \<in> set changed then carrier
          else carrier \<lparr>pk_group_coverages := filter (coverage_valid policy rc m) (pk_group_coverages carrier)\<rparr>)
        (m_packs m) = m_packs m"
        by (rule map_idI) (use False in \<open>auto simp: prune_removes_def list_ex_iff intro!: filter_True\<close>)
      then show ?thesis by (simp add: prune_round_def)
    qed
    then have "prune_loop policy rc changed m = m" using False by (simp add: prune_loop.simps [of _ _ _ m])
    then show ?thesis using 1(2-) False by (auto simp: prune_removes_def list_ex_iff)
  qed
qed

lemma prune_loop_packs:
  "map pk_checksum (m_packs (prune_loop policy rc changed m)) = map pk_checksum (m_packs m)"
proof (induction policy rc changed m rule: prune_loop.induct)
  case (1 policy rc changed m)
  have "map pk_checksum (m_packs (prune_round policy rc changed m)) = map pk_checksum (m_packs m)"
    by (simp add: prune_round_def)
  then show ?case using 1 by (cases "prune_removes policy rc changed m") (simp_all add: prune_loop.simps [of _ _ _ m])
qed

text \<open>Together: every certificate of a manifest that was pruned and validated is complete.\<close>

definition certified :: "string \<Rightarrow> refs_config \<Rightarrow> manifest \<Rightarrow> bool" where
  "certified policy rc m \<longleftrightarrow> (\<forall>crt \<in> set (all_coverages m). complete_coverage policy rc m crt)"

lemma pruned_validated_certified:
  assumes config: "config_for before = Inr rc"
    and m: "m = prune_invalid_coverages (cd_sha256 cd) rc changed m0"
    and valid: "validate_certificates cd S config_for before m changed candidates s = (Inr (), s1)"
    and distinct: "distinct (map pk_checksum (m_packs m0))"
  shows "certified (policy_identity (cd_sha256 cd) rc) rc m"
  unfolding certified_def
proof
  let ?policy = "policy_identity (cd_sha256 cd) rc"
  fix crt assume "crt \<in> set (all_coverages m)"
  then obtain p where p: "p \<in> set (m_packs m)" "crt \<in> set (pk_group_coverages p)"
    by (auto simp: all_coverages_def)
  have "distinct (map pk_checksum (m_packs m))"
    using distinct by (simp add: m prune_invalid_coverages_def prune_loop_packs)
  then have live: "map_of (live_packs m) (pk_checksum p) = Some p"
    using p(1) unfolding live_packs_def
    by (intro map_of_is_SomeI) (auto simp: rev_map [symmetric] comp_def)
  show "complete_coverage ?policy rc m crt"
  proof (cases "pk_checksum p \<in> set changed")
    case True
    have "check_changed cd S ?policy rc before (live_packs m) (all_coverages m) candidates changed {} [] s = (Inr (), s1)"
      using valid config by (simp add: validate_certificates_def)
    from check_changed_complete [OF this] True live p(2) show ?thesis by (auto simp: keys_complete_def)
  next
    case False
    then have "coverage_valid ?policy rc m crt"
      using prune_loop_valid [of p _ rc changed m0] p m by (simp add: prune_invalid_coverages_def)
    then show ?thesis by (simp add: coverage_valid_complete)
  qed
qed

section \<open>A certificate that is not checked\<close>

text \<open>
  Validated certificates are remembered without their policy: of two certificates of a pack that
  differ only in it, the second is not looked at, and one from an older policy passes.
\<close>

definition sample_coverage :: "string \<Rightarrow> pack_group_coverage" where
  "sample_coverage policy = \<lparr>cov_group = ''code'', cov_ref_policy = policy, cov_covers_seq = 0, cov_packs = [''a''], cov_refs_key = ''k''\<rparr>"

definition sample_carrier :: pack_ref where
  "sample_carrier = default_pack_ref \<lparr>pk_checksum := ''a'', pk_audience := PACK_AUDIENCE_CODE, pk_ref_policy := ''new'',
     pk_pack_groups := [''code''], pk_coverage_refs_key := ''k'',
     pk_group_coverages := [sample_coverage ''new'', sample_coverage ''old'']\<rparr>"

lemma stale_policy_passes:
  "check_changed cd S ''new'' default_refs_config (default_manifest \<lparr>m_object_format := ''sha1''\<rparr>)
     (live_packs (default_manifest \<lparr>m_packs := [sample_carrier]\<rparr>)) (all_coverages (default_manifest \<lparr>m_packs := [sample_carrier]\<rparr>))
     [\<lparr>cs_key = ''k'', cs_snapshot = \<lparr>sn_seq = 0, sn_object_format = ''sha1'', sn_refs = [], sn_head_target = [], sn_created_at = None\<rparr>,
       cs_repo = []\<rparr>] [''a''] {} [] s = (Inr (), s)"
  by (simp add: sample_carrier_def sample_coverage_def live_packs_def all_coverages_def check_proof_def proof_key_def
      in_scope_def audience_matches_def proof_snapshot_def default_refs_config_def PACK_AUDIENCE_CODE_def PACK_AUDIENCE_RETAINED_def
      default_pack_ref_def default_manifest_def)

end
