(* ===== verification/Compaction.thy ===== *)
theory Compaction
  imports Classification Commit
begin

text \<open>
  The writes that change which packs a repository is served from: reclassification and the seal of
  a replacement (\<open>walgit-wal/src/classification.rs\<close>), compaction and the annotation of a pack
  (\<open>walgit-wal/src/publish.rs\<close>). What the handle supplies per attempt (the manifest it synced to
  and its version, or a whole publication view) comes from the argument \<open>resync\<close> or
  \<open>pview\<close>; \<open>beat\<close> is the heartbeat of the replacement's lease (\<open>Coord\<close>); the adoption
  of the committed manifest by the local copy is left out.

  The lemmas: every manifest these operations write has only complete coverage certificates, a
  sealed replacement loses no object, and what is retired stays served.
\<close>

section \<open>Reclassification\<close>

fun update_pack :: "string \<Rightarrow> (pack_ref \<Rightarrow> pack_ref) \<Rightarrow> pack_ref list \<Rightarrow> pack_ref list option" where
  "update_pack c f [] = None"
| "update_pack c f (p # ps) =
     (if pk_checksum p = c then Some (f p # ps) else map_option (\<lambda>qs. p # qs) (update_pack c f ps))"

fun apply_changes :: "pack_classification list \<Rightarrow> pack_ref list \<Rightarrow> (wal_error, pack_ref list) result" where
  "apply_changes [] packs = Inr packs"
| "apply_changes (change # changes) packs =
     (case update_pack (pcl_checksum change) (classification_apply change) packs of
        None \<Rightarrow> Inl (Invalid ''classification input was retired'')
      | Some packs' \<Rightarrow> apply_changes changes packs')"

definition stamp_manifest :: "timestamp \<Rightarrow> string \<Rightarrow> manifest \<Rightarrow> manifest" where
  "stamp_manifest now writer m =
     m \<lparr>m_revision := m_revision m + 1, m_updated_at := Some now, m_writer := writer\<rparr>"

type_synonym 's manifest_source = "'s \<Rightarrow> (wal_error, manifest \<times> version option) result \<times> 's"

function reclassify_loop ::
  "codec \<Rightarrow> 's object_store \<Rightarrow> (manifest \<Rightarrow> (wal_error, refs_config) result) \<Rightarrow> (nat \<Rightarrow> attempt_env) \<Rightarrow>
     's manifest_source \<Rightarrow> pack_classification list \<Rightarrow> coverage_snapshot list \<Rightarrow> nat \<Rightarrow> nat \<Rightarrow> 's \<Rightarrow>
     (wal_error, unit) result \<times> 's" where
  "reclassify_loop cd S config_for env resync changes candidates max_retries attempt s =
     (if attempt \<ge> max_retries then (Inl (Retry max_retries), s)
      else case resync s of
        (Inl e, s1) \<Rightarrow> (Inl e, s1)
      | (Inr (current, version), s1) \<Rightarrow>
          (case apply_changes changes (m_packs current) of
             Inl e \<Rightarrow> (Inl e, s1)
           | Inr packs \<Rightarrow>
               (case config_for current of
                  Inl e \<Rightarrow> (Inl e, s1)
                | Inr rc \<Rightarrow>
                    let ids = map pcl_checksum changes;
                        updated = prune_invalid_coverages (cd_sha256 cd) rc ids (current \<lparr>m_packs := packs\<rparr>)
                    in (case validate_certificates cd S config_for current updated ids candidates s1 of
                          (Inl e, s2) \<Rightarrow> (Inl e, s2)
                        | (Inr _, s2) \<Rightarrow>
                            (case put_bytes S MANIFEST
                                    (cd_enc_manifest cd (stamp_manifest (ae_now (env attempt)) (ae_writer (env attempt)) updated))
                                    (cas_mode version) s2 of
                               (Inr _, s3) \<Rightarrow> (Inr (), s3)
                             | (Inl (PreconditionFailed _ _), s3) \<Rightarrow>
                                 reclassify_loop cd S config_for env resync changes candidates max_retries (attempt + 1) s3
                             | (Inl e, s3) \<Rightarrow> (Inl (WalStore e), s3))))))"
  by pat_completeness auto

termination
  by (relation "measure (\<lambda>(_, _, _, _, _, _, _, max_retries, attempt, _). max_retries - attempt)") auto

declare reclassify_loop.simps [simp del]

definition reclassify_packs where
  "reclassify_packs cd S config_for env resync changes candidates max_retries s =
     (if changes = [] then (Inr (), s)
      else if length changes > 128 \<or> length candidates > 128
      then (Inl (Invalid ''classification batch exceeds 128''), s)
      else if \<not> distinct (map pcl_checksum changes)
      then (Inl (Invalid ''duplicate classification checksum''), s)
      else reclassify_loop cd S config_for env resync changes candidates max_retries 0 s)"

section \<open>Sealing a replacement\<close>

definition same_pack_bytes :: "pack_ref \<Rightarrow> pack_ref \<Rightarrow> bool" where
  "same_pack_bytes l r \<longleftrightarrow>
     pk_checksum l = pk_checksum r \<and> pk_pack_size l = pk_pack_size r \<and> pk_idx_size l = pk_idx_size r \<and>
     pk_object_count l = pk_object_count r \<and> pk_has_rev l = pk_has_rev r \<and>
     pk_has_bitmap l = pk_has_bitmap r \<and> pk_has_commit_graph l = pk_has_commit_graph r"

record publication_view =
  pv_manifest :: manifest
  pv_version :: "version option"
  pv_refs :: ref_snapshot
  pv_config :: refs_config

definition sealed_already :: "manifest \<Rightarrow> string list \<Rightarrow> pack_ref list \<Rightarrow> bool" where
  "sealed_already current retire outputs \<longleftrightarrow>
     retire \<noteq> [] \<and>
     list_all (\<lambda>c. list_ex (\<lambda>p. rp_checksum p = c) (m_retired_packs current) \<and>
       \<not> list_ex (\<lambda>p. pk_checksum p = c) (m_packs current)) retire \<and>
     list_all (\<lambda>out. list_ex (\<lambda>p. classification_from_pack p = classification_from_pack out \<and>
       pk_tier p = pk_tier out \<and> pk_derived_from p = pk_derived_from out \<and> same_pack_bytes p out)
       (m_packs current)) outputs"

fun check_inputs :: "manifest \<Rightarrow> manifest \<Rightarrow> string list \<Rightarrow> (wal_error, unit) result" where
  "check_inputs captured current [] = Inr ()"
| "check_inputs captured current (c # inputs) =
     (case find (\<lambda>p. pk_checksum p = c) (m_packs captured) of
        None \<Rightarrow> Inl (Invalid ''replacement input was never captured'')
      | Some original \<Rightarrow>
          (case find (\<lambda>p. pk_checksum p = c) (m_packs current) of
             None \<Rightarrow> Inl (Invalid ''replacement input retired during work'')
           | Some live \<Rightarrow>
               if classification_from_pack original \<noteq> classification_from_pack live \<or>
                  pk_derived_from original \<noteq> pk_derived_from live \<or> pk_tier original \<noteq> pk_tier live \<or>
                  \<not> same_pack_bytes original live
               then Inl (Invalid ''replacement input scope changed during work'')
               else check_inputs captured current inputs))"

definition output_pack :: "timestamp \<Rightarrow> pack_ref \<Rightarrow> pack_ref \<Rightarrow> pack_ref" where
  "output_pack now out p =
     (classification_apply (classification_from_pack out) p)
       \<lparr>pk_tier := pk_tier out, pk_derived_from := pk_derived_from out,
        pk_published_at := (case pk_published_at p of None \<Rightarrow> Some now | Some t \<Rightarrow> Some t)\<rparr>"

fun apply_outputs :: "(nat \<Rightarrow> timestamp) \<Rightarrow> nat \<Rightarrow> pack_ref list \<Rightarrow> pack_ref list \<Rightarrow> (wal_error, pack_ref list) result" where
  "apply_outputs clock i [] packs = Inr packs"
| "apply_outputs clock i (out # outputs) packs =
     (case find (\<lambda>p. pk_checksum p = pk_checksum out) packs of
        None \<Rightarrow> Inl (Invalid ''replacement output is not committed'')
      | Some p \<Rightarrow>
          if \<not> same_pack_bytes p out then Inl (Invalid ''replacement output descriptor changed'')
          else (case update_pack (pk_checksum out) (output_pack (clock i) out) packs of
                  None \<Rightarrow> Inr packs
                | Some packs' \<Rightarrow> apply_outputs clock (i + 1) outputs packs'))"

definition retire_outputs ::
  "(bytes \<Rightarrow> string) \<Rightarrow> refs_config \<Rightarrow> timestamp \<Rightarrow> string list \<Rightarrow> string list \<Rightarrow> manifest \<Rightarrow> manifest" where
  "retire_outputs sha256_hex rc now retire output_ids m =
     (let m1 = retire_packs_at retire (min (m_head_seq m + 1) (2 ^ 64 - 1)) now m
      in prune_invalid_coverages sha256_hex rc output_ids
           (m1 \<lparr>m_packs := filter (\<lambda>p. pk_checksum p \<notin> set retire) (m_packs m1)\<rparr>))"

definition seal_manifest ::
  "manifest \<Rightarrow> string list \<Rightarrow> log_slot \<Rightarrow> timestamp \<Rightarrow> string \<Rightarrow> manifest \<Rightarrow> manifest" where
  "seal_manifest current retire slot at writer m =
     (stamp_manifest at writer m)
       \<lparr>m_retired_packs := map (\<lambda>r.
          if rp_checksum r \<in> set retire \<and> \<not> list_ex (\<lambda>p. rp_checksum p = rp_checksum r) (m_retired_packs current)
          then r \<lparr>rp_retired_seq := sl_first_seq slot\<rparr> else r) (m_retired_packs m),
        m_head_seq := sl_first_seq slot,
        m_log_segments := m_log_segments m @
          [\<lparr>sg_key = sl_key slot, sg_first_seq = sl_first_seq slot, sg_last_seq = sl_first_seq slot,
            sg_size = length (sl_bytes slot), sg_sealed = True\<rparr>]\<rparr>"

record 's seal_env =
  se_codec :: codec
  se_store :: "'s object_store"
  se_config_for :: "manifest \<Rightarrow> (wal_error, refs_config) result"
  se_attempt :: "nat \<Rightarrow> attempt_env"
  se_beat :: "nat \<Rightarrow> 's \<Rightarrow> (string, unit) result \<times> 's"
  se_pview :: "'s \<Rightarrow> (wal_error, publication_view) result \<times> 's"
  se_from_hex :: "string \<Rightarrow> (string, oid) result"
  se_load :: "manifest \<Rightarrow> (wal_error, (pack_ref \<times> pack_index) list) result"
  se_max_retries :: nat

text \<open>The checks of one attempt before it claims a slot: the manifest to commit, still unstamped.\<close>

definition seal_checks ::
  "'s seal_env \<Rightarrow> publication_view \<Rightarrow> string list \<Rightarrow> pack_ref list \<Rightarrow> coverage_snapshot list \<Rightarrow> attempt_env \<Rightarrow>
     publication_view \<Rightarrow> 's \<Rightarrow> (wal_error, manifest) result \<times> 's" where
  "seal_checks E captured inputs outputs snapshots env v s =
     (let current = pv_manifest v;
          sha = cd_sha256 (se_codec E);
          output_ids = map pk_checksum outputs;
          retire = filter (\<lambda>c. c \<notin> set output_ids) inputs
      in case se_config_for E current of
           Inl e \<Rightarrow> (Inl e, s)
         | Inr rc \<Rightarrow>
             (case check_inputs (pv_manifest captured) current inputs of
                Inl e \<Rightarrow> (Inl e, s)
              | Inr _ \<Rightarrow>
                  (case apply_outputs (ae_clock env) 0 outputs (m_packs current) of
                     Inl e \<Rightarrow> (Inl e, s)
                   | Inr packs \<Rightarrow>
                       let updated = retire_outputs sha rc (ae_published_at env) retire output_ids
                             (current \<lparr>m_packs := packs\<rparr>)
                       in (case validate_certificates (se_codec E) (se_store E) (se_config_for E) current updated
                                  output_ids snapshots s of
                             (Inl e, s1) \<Rightarrow> (Inl e, s1)
                           | (Inr _, s1) \<Rightarrow>
                               (case verify_replacement_inventory (se_from_hex E) (se_load E current) updated
                                       (pv_refs v) inputs outputs of
                                  Inl e \<Rightarrow> (Inl e, s1)
                                | Inr _ \<Rightarrow> (Inr updated, s1))))))"

definition retire_entry :: "string list \<Rightarrow> timestamp \<Rightarrow> string \<Rightarrow> nat \<Rightarrow> log_entry" where
  "retire_entry retire at writer seq =
     default_log_entry \<lparr>le_seq := seq, le_kind := EK_Compact, le_supersedes := retire,
       le_created_at := Some at, le_writer := writer\<rparr>"

function seal_loop ::
  "'s seal_env \<Rightarrow> publication_view \<Rightarrow> string list \<Rightarrow> pack_ref list \<Rightarrow> coverage_snapshot list \<Rightarrow> nat \<Rightarrow> 's \<Rightarrow>
     ((wal_error, nat) result \<times> 's) option" where
  "seal_loop E captured inputs outputs snapshots attempt s =
     (let cd = se_codec E; S = se_store E; env = se_attempt E attempt;
          sha = cd_sha256 cd;
          retire = filter (\<lambda>c. c \<notin> set (map pk_checksum outputs)) inputs
      in if attempt \<ge> se_max_retries E then Some (Inl (Retry (se_max_retries E)), s)
         else case se_beat E attempt s of
           (Inl e, s0) \<Rightarrow> Some (Inl (Invalid (''replacement lease: '' @ e)), s0)
         | (Inr _, s0) \<Rightarrow>
             (case se_pview E s0 of
                (Inl e, s1) \<Rightarrow> Some (Inl e, s1)
              | (Inr v, s1) \<Rightarrow>
                  (case se_config_for E (pv_manifest v) of
                     Inl e \<Rightarrow> Some (Inl e, s1)
                   | Inr rc \<Rightarrow>
                       if policy_identity sha rc \<noteq> policy_identity sha (pv_config captured)
                       then Some (Inl (Invalid ''packing policy changed during replacement''), s1)
                       else if sealed_already (pv_manifest v) retire outputs
                       then Some (Inr (m_head_seq (pv_manifest v)), s1)
                       else (case seal_checks E captured inputs outputs snapshots env v s1 of
                               (Inl e, s2) \<Rightarrow> Some (Inl e, s2)
                             | (Inr updated, s2) \<Rightarrow>
                                 (case claim_log_slot cd S (m_head_seq (pv_manifest v))
                                         (\<lambda>q. frame_encode cd [retire_entry retire (ae_now env) (ae_writer env) q])
                                         (ae_nonce env) s2 of
                                    None \<Rightarrow> None
                                  | Some (Inl e, s3) \<Rightarrow> Some (Inl e, s3)
                                  | Some (Inr Contended, s3) \<Rightarrow>
                                      seal_loop E captured inputs outputs snapshots (attempt + 1) s3
                                  | Some (Inr (Claimed slot), s3) \<Rightarrow>
                                      let m = seal_manifest (pv_manifest v) retire slot (ae_now env) (ae_writer env) updated
                                      in (case put_bytes S MANIFEST (cd_enc_manifest cd m) (cas_mode (pv_version v)) s3 of
                                            (Inr _, s4) \<Rightarrow> Some (Inr (sl_first_seq slot), sweep_burned S slot s4)
                                          | (Inl (PreconditionFailed _ _), s4) \<Rightarrow>
                                              seal_loop E captured inputs outputs snapshots (attempt + 1)
                                                (drop_own_slot S slot s4)
                                          | (Inl e, s4) \<Rightarrow>
                                              (case cas_landed cd S slot s4 of
                                                 (Inl e2, s5) \<Rightarrow> Some (Inl e2, s5)
                                               | (Inr None, s5) \<Rightarrow> Some (Inl (WalStore e), s5)
                                               | (Inr (Some _), s5) \<Rightarrow>
                                                   Some (Inr (sl_first_seq slot), sweep_burned S slot s5))))))))"
  by pat_completeness auto

termination
  by (relation "measure (\<lambda>(E, _, _, _, _, attempt, _). se_max_retries E - attempt)") auto

declare seal_loop.simps [simp del]

definition seal_pack_replacement ::
  "'s seal_env \<Rightarrow> string \<Rightarrow> publication_view \<Rightarrow> string list \<Rightarrow> pack_ref list \<Rightarrow> coverage_snapshot list \<Rightarrow> 's \<Rightarrow>
     ((wal_error, nat) result \<times> 's) option" where
  "seal_pack_replacement E repo captured inputs outputs snapshots s =
     (if inputs = [] \<or> outputs = [] \<or> length inputs > 4096 \<or> length outputs > 4096
      then Some (Inl (Invalid ''replacement needs bounded, nonempty input/output sets''), s)
      else if m_repo (pv_manifest captured) \<noteq> repo
      then Some (Inl (Invalid ''replacement input belongs to another repository''), s)
      else if \<not> distinct inputs \<or> \<not> distinct (map pk_checksum outputs)
      then Some (Inl (Invalid ''duplicate replacement input/output''), s)
      else seal_loop E captured inputs outputs snapshots 0 s)"

section \<open>Compaction\<close>

record local_pack =
  lp_pack :: "(store_error, bytes) result"
  lp_idx :: "(store_error, bytes) result"
  lp_rev :: "(store_error, bytes) result option"
  lp_bitmap :: "(store_error, bytes) result option"
  lp_commit_graph :: "(store_error, bytes) result option"

text \<open>Uploads that run together: all of them happen, the first error is the result.\<close>

fun upload_files ::
  "'s object_store \<Rightarrow> (string \<times> (store_error, bytes) result) list \<Rightarrow> 's \<Rightarrow> (wal_error, unit) result \<times> 's" where
  "upload_files S [] s = (Inr (), s)"
| "upload_files S ((key, file) # files) s =
     (case put_immutable_create S key file s of
        (r, s1) \<Rightarrow>
          (case upload_files S files s1 of
             (rs, s2) \<Rightarrow> (case r of Inl e \<Rightarrow> (Inl e, s2) | Inr _ \<Rightarrow> (rs, s2))))"

definition optional_file ::
  "bool \<Rightarrow> string \<Rightarrow> (store_error, bytes) result option \<Rightarrow> (string \<times> (store_error, bytes) result) list" where
  "optional_file flag key file = (if flag then (case file of None \<Rightarrow> [] | Some f \<Rightarrow> [(key, f)]) else [])"

definition compact_files :: "pack_info \<Rightarrow> local_pack \<Rightarrow> (string \<times> (store_error, bytes) result) list" where
  "compact_files i l =
     [(pack_key (pi_checksum i), lp_pack l), (idx_key (pi_checksum i), lp_idx l)] @
     optional_file (pi_has_rev i) (rev_key (pi_checksum i)) (lp_rev l) @
     optional_file (pi_has_bitmap i) (bitmap_key (pi_checksum i)) (lp_bitmap l) @
     optional_file (pi_has_commit_graph i) (commit_graph_key (pi_checksum i)) (lp_commit_graph l)"

definition classified_output ::
  "pack_classification option \<Rightarrow> manifest \<Rightarrow> pack_ref \<Rightarrow> (wal_error, pack_ref) result" where
  "classified_output classification m p =
     (case classification of
        Some c \<Rightarrow>
          if pcl_checksum c \<noteq> pk_checksum p then Inl (Invalid ''classification names another output'')
          else Inr (classification_apply c p)
      | None \<Rightarrow>
          (case find (\<lambda>q. pk_checksum q = pk_checksum p) (m_packs m) of
             Some previous \<Rightarrow> Inr (classification_apply (classification_from_pack previous) p)
           | None \<Rightarrow> Inr p))"

definition compact_entry :: "pack_ref \<Rightarrow> string list \<Rightarrow> timestamp \<Rightarrow> string \<Rightarrow> nat \<Rightarrow> log_entry" where
  "compact_entry p supersedes at writer seq =
     default_log_entry \<lparr>le_seq := seq, le_kind := EK_Compact, le_pack := Some (p \<lparr>pk_seq := seq\<rparr>),
       le_supersedes := supersedes, le_created_at := Some at, le_writer := writer\<rparr>"

definition compact_manifest :: "pack_ref \<Rightarrow> string list \<Rightarrow> nat \<Rightarrow> timestamp \<Rightarrow> manifest \<Rightarrow> manifest" where
  "compact_manifest p supersedes seq now m =
     (let m1 = retire_packs_at (filter (\<lambda>c. c \<noteq> pk_checksum p) supersedes) seq now (m \<lparr>m_head_seq := seq\<rparr>)
      in m1 \<lparr>m_packs := sort_key pk_seq
               (filter (\<lambda>q. pk_checksum q \<notin> set supersedes \<and> pk_checksum q \<noteq> pk_checksum p) (m_packs m1) @
                [p \<lparr>pk_seq := seq\<rparr>])\<rparr>)"

record 's compact_env =
  ce_codec :: codec
  ce_store :: "'s object_store"
  ce_config_for :: "manifest \<Rightarrow> (wal_error, refs_config) result"
  ce_attempt :: "nat \<Rightarrow> attempt_env"
  ce_resync :: "bool \<Rightarrow> 's manifest_source"
  ce_max_retries :: nat

function compact_loop ::
  "'s compact_env \<Rightarrow> pack_ref \<Rightarrow> string list \<Rightarrow> pack_classification option \<Rightarrow> coverage_snapshot list \<Rightarrow> nat \<Rightarrow> 's \<Rightarrow>
     ((wal_error, nat) result \<times> 's) option" where
  "compact_loop E p0 supersedes classification candidates attempts s =
     (let cd = ce_codec E; S = ce_store E; env = ce_attempt E attempts in
      case ce_resync E (attempts > 0) s of
        (Inl e, s1) \<Rightarrow> Some (Inl e, s1)
      | (Inr (m, known), s1) \<Rightarrow>
          (case classified_output classification m p0 of
             Inl e \<Rightarrow> Some (Inl e, s1)
           | Inr p \<Rightarrow>
               (case claim_log_slot cd S (m_head_seq m)
                       (\<lambda>q. frame_encode cd [compact_entry p supersedes (ae_published_at env) (ae_writer env) q])
                       (ae_nonce env) s1 of
                  None \<Rightarrow> None
                | Some (Inl e, s2) \<Rightarrow> Some (Inl e, s2)
                | Some (Inr Contended, s2) \<Rightarrow>
                    if attempts + 1 \<ge> ce_max_retries E then Some (Inl (Retry (attempts + 1)), s2)
                    else compact_loop E p0 supersedes classification candidates (attempts + 1) s2
                | Some (Inr (Claimed slot), s2) \<Rightarrow>
                    let seq = sl_first_seq slot; changed = [pk_checksum p] in
                    (case ce_config_for E m of
                       Inl e \<Rightarrow> Some (Inl e, s2)
                     | Inr rc \<Rightarrow>
                         let updated = prune_invalid_coverages (cd_sha256 cd) rc changed
                               (compact_manifest p supersedes seq (ae_clock env 0) m)
                         in (case validate_certificates cd S (ce_config_for E) m updated changed candidates s2 of
                               (Inl e, s3) \<Rightarrow> Some (Inl e, drop_own_slot S slot s3)
                             | (Inr _, s3) \<Rightarrow>
                                 (case put_bytes S MANIFEST
                                         (cd_enc_manifest cd (seal_segment slot seq (ae_now env) (ae_writer env) updated))
                                         (cas_mode known) s3 of
                                    (Inr _, s4) \<Rightarrow> Some (Inr seq, sweep_burned S slot s4)
                                  | (Inl (PreconditionFailed _ _), s4) \<Rightarrow>
                                      if attempts + 1 \<ge> ce_max_retries E
                                      then Some (Inl (Retry (attempts + 1)), drop_own_slot S slot s4)
                                      else compact_loop E p0 supersedes classification candidates (attempts + 1)
                                             (drop_own_slot S slot s4)
                                  | (Inl e, s4) \<Rightarrow>
                                      (case cas_landed cd S slot s4 of
                                         (Inr (Some _), s5) \<Rightarrow> Some (Inr seq, sweep_burned S slot s5)
                                       | (_, s5) \<Rightarrow> Some (Inl (WalStore e), s5))))))))"
  by pat_completeness auto

termination
  by (relation "measure (\<lambda>(E, _, _, _, _, attempts, _). ce_max_retries E - attempts)") auto

declare compact_loop.simps [simp del]

definition publish_compact_classified ::
  "'s compact_env \<Rightarrow> pack_info \<Rightarrow> local_pack \<Rightarrow> timestamp \<Rightarrow> string list \<Rightarrow> nat \<Rightarrow> pack_classification option \<Rightarrow>
     coverage_snapshot list \<Rightarrow> 's \<Rightarrow> ((wal_error, nat) result \<times> 's) option" where
  "publish_compact_classified E new_pack files now supersedes tier classification candidates s =
     (case upload_files (ce_store E) (compact_files new_pack files) s of
        (Inl e, s1) \<Rightarrow> Some (Inl e, s1)
      | (Inr _, s1) \<Rightarrow>
          compact_loop E (pack_ref_from_info new_pack 0 tier now) supersedes classification candidates 0 s1)"

definition publish_compact_impl where
  "publish_compact_impl E new_pack files now supersedes tier s =
     publish_compact_classified E new_pack files now supersedes tier None [] s"

section \<open>Annotating a pack\<close>

record side_files =
  sf_rev :: "(store_error, bytes) result option"
  sf_bitmap :: "(store_error, bytes) result option"
  sf_commit_graph :: "(store_error, bytes) result option"

definition annotate :: "side_files \<Rightarrow> pack_ref \<Rightarrow> pack_ref" where
  "annotate f p =
     p \<lparr>pk_has_rev := pk_has_rev p \<or> sf_rev f \<noteq> None,
        pk_has_bitmap := pk_has_bitmap p \<or> sf_bitmap f \<noteq> None,
        pk_has_commit_graph := pk_has_commit_graph p \<or> sf_commit_graph f \<noteq> None\<rparr>"

function annotate_loop ::
  "codec \<Rightarrow> 's object_store \<Rightarrow> (nat \<Rightarrow> attempt_env) \<Rightarrow> 's manifest_source \<Rightarrow> string \<Rightarrow> side_files \<Rightarrow> nat \<Rightarrow> nat \<Rightarrow>
     manifest \<times> version option \<Rightarrow> 's \<Rightarrow> (wal_error, pack_ref) result \<times> 's" where
  "annotate_loop cd S env resync checksum files max_retries attempts pair s =
     (case pair of (current, known) \<Rightarrow>
        (case (find (\<lambda>p. pk_checksum p = checksum) (m_packs current),
               update_pack checksum (annotate files) (m_packs current)) of
           (Some p, Some packs) \<Rightarrow>
             (case put_bytes S MANIFEST
                     (cd_enc_manifest cd (stamp_manifest (ae_now (env attempts)) (ae_writer (env attempts))
                       (current \<lparr>m_packs := packs\<rparr>)))
                     (cas_mode known) s of
                (Inr _, s1) \<Rightarrow> (Inr (annotate files p), s1)
              | (Inl (PreconditionFailed _ _), s1) \<Rightarrow>
                  if attempts + 1 \<ge> max_retries then (Inl (Retry (attempts + 1)), s1)
                  else (case resync s1 of
                          (Inl e, s2) \<Rightarrow> (Inl e, s2)
                        | (Inr pair', s2) \<Rightarrow>
                            annotate_loop cd S env resync checksum files max_retries (attempts + 1) pair' s2)
              | (Inl e, s1) \<Rightarrow> (Inl (WalStore e), s1))
         | _ \<Rightarrow> (Inl (Corrupt (''pack '' @ checksum @ '' left the live set'')), s)))"
  by pat_completeness auto

termination
  by (relation "measure (\<lambda>(_, _, _, _, _, _, max_retries, attempts, _, _). max_retries - attempts)") auto

declare annotate_loop.simps [simp del]

definition annotate_pack_impl where
  "annotate_pack_impl cd S env resync checksum files max_retries s =
     (case resync s of
        (Inl e, s1) \<Rightarrow> (Inl e, s1)
      | (Inr (current, known), s1) \<Rightarrow>
          if \<not> list_ex (\<lambda>p. pk_checksum p = checksum) (m_packs current)
          then (Inl (Corrupt (''pack '' @ checksum @ '' is not in the live set'')), s1)
          else (case upload_files S
                       (optional_file True (rev_key checksum) (sf_rev files) @
                        optional_file True (bitmap_key checksum) (sf_bitmap files) @
                        optional_file True (commit_graph_key checksum) (sf_commit_graph files)) s1 of
                  (Inl e, s2) \<Rightarrow> (Inl e, s2)
                | (Inr _, s2) \<Rightarrow> annotate_loop cd S env resync checksum files max_retries 0 (current, known) s2))"

section \<open>What the checks establish\<close>

lemma certified_packs:
  "m_packs a = m_packs b \<Longrightarrow> certified policy rc a = certified policy rc b"
  by (simp add: certified_def complete_coverage_def all_coverages_def)

lemma checksum_apply [simp]:
  "pk_checksum (classification_apply c p) = pk_checksum p" "pk_checksum (output_pack now out p) = pk_checksum p"
  by (simp_all add: classification_apply_def output_pack_def)

lemma update_pack_checksums:
  "update_pack c f ps = Some qs \<Longrightarrow> (\<And>p. pk_checksum (f p) = pk_checksum p) \<Longrightarrow>
     map pk_checksum qs = map pk_checksum ps"
  by (induction ps arbitrary: qs) (auto split: if_splits)

lemma apply_changes_checksums:
  "apply_changes changes ps = Inr qs \<Longrightarrow> map pk_checksum qs = map pk_checksum ps"
proof (induction changes arbitrary: ps)
  case (Cons c changes)
  then obtain rs where "update_pack (pcl_checksum c) (classification_apply c) ps = Some rs"
    "apply_changes changes rs = Inr qs"
    by (auto split: option.splits)
  then show ?case using Cons.IH update_pack_checksums by fastforce
qed simp

lemma update_pack_found: "find (\<lambda>p. pk_checksum p = c) ps = Some p \<Longrightarrow> \<exists>qs. update_pack c f ps = Some qs"
  by (induction ps) (auto split: if_splits)

lemma found_in_set: "find P xs = Some x \<Longrightarrow> x \<in> set xs \<and> P x"
  by (auto simp: find_Some_iff)

lemma apply_outputs_checksums:
  "apply_outputs clock i outputs ps = Inr qs \<Longrightarrow>
     map pk_checksum qs = map pk_checksum ps \<and> pk_checksum ` set outputs \<subseteq> pk_checksum ` set ps"
proof (induction outputs arbitrary: i ps)
  case (Cons out outputs)
  then obtain p where p: "find (\<lambda>p. pk_checksum p = pk_checksum out) ps = Some p"
    by (auto split: option.splits)
  then obtain rs where rs: "update_pack (pk_checksum out) (output_pack (clock i) out) ps = Some rs"
    using update_pack_found by blast
  then have "map pk_checksum rs = map pk_checksum ps" by (rule update_pack_checksums) simp
  moreover from this have "pk_checksum ` set rs = pk_checksum ` set ps" by (metis list.set_map)
  moreover have "pk_checksum out \<in> pk_checksum ` set ps" using found_in_set [OF p] by (metis image_eqI)
  moreover have "apply_outputs clock (i + 1) outputs rs = Inr qs"
    using Cons.prems p rs by (auto split: if_splits)
  ultimately show ?case using Cons.IH [of "i + 1" rs] by simp
qed simp

lemma prune_keeps:
  "map pk_checksum (m_packs (prune_invalid_coverages sha rc changed m)) = map pk_checksum (m_packs m)"
  "m_retired_packs (prune_invalid_coverages sha rc changed m) = m_retired_packs m"
proof -
  show "map pk_checksum (m_packs (prune_invalid_coverages sha rc changed m)) = map pk_checksum (m_packs m)"
    by (simp add: prune_invalid_coverages_def prune_loop_packs)
  have "m_retired_packs (prune_loop policy rc changed m) = m_retired_packs m" for policy
  proof (induction policy rc changed m rule: prune_loop.induct)
    case (1 policy rc changed m)
    then show ?case by (simp add: prune_loop.simps [of _ _ _ m] prune_round_def Let_def)
  qed
  then show "m_retired_packs (prune_invalid_coverages sha rc changed m) = m_retired_packs m"
    by (simp add: prune_invalid_coverages_def)
qed

text \<open>Retiring live packs and dropping them from the live set keeps them served.\<close>

lemma retire_served:
  assumes "pk_checksum ` set packs = pk_checksum ` set (m_packs m) - set retire"
    "m_retired_packs r = m_retired_packs (retire_packs_at retire seq now m)" "m_packs r = packs"
  shows "serves_pack r c = serves_pack m c"
  using assms by (auto simp: serves_pack_iff retire_packs_at_def retire_loop_checksums)

lemma retire_outputs_packs:
  "map pk_checksum (m_packs (retire_outputs sha rc now retire ids m)) =
     filter (\<lambda>c. c \<notin> set retire) (map pk_checksum (m_packs m))"
  by (simp add: retire_outputs_def Let_def prune_keeps retire_packs_at_def filter_map comp_def)

lemma retire_outputs_served: "serves_pack (retire_outputs sha rc now retire ids m) c = serves_pack m c"
proof (rule retire_served)
  show "pk_checksum ` set (m_packs (retire_outputs sha rc now retire ids m)) = pk_checksum ` set (m_packs m) - set retire"
    using arg_cong [OF retire_outputs_packs [of sha rc now retire ids m], of set] by auto
  show "m_retired_packs (retire_outputs sha rc now retire ids m) =
      m_retired_packs (retire_packs_at retire (min (m_head_seq m + 1) (2 ^ 64 - 1)) now m)"
    by (simp add: retire_outputs_def Let_def prune_keeps)
qed simp

lemma served_cong:
  "pk_checksum ` set (m_packs a) = pk_checksum ` set (m_packs b) \<Longrightarrow>
   rp_checksum ` set (m_retired_packs a) = rp_checksum ` set (m_retired_packs b) \<Longrightarrow>
   serves_pack a c = serves_pack b c"
  by (simp add: serves_pack_iff)

lemma seal_manifest_keeps [simp]:
  "m_packs (seal_manifest current retire slot at writer m) = m_packs m"
  "rp_checksum ` set (m_retired_packs (seal_manifest current retire slot at writer m)) = rp_checksum ` set (m_retired_packs m)"
proof -
  have "map rp_checksum (m_retired_packs (seal_manifest current retire slot at writer m)) = map rp_checksum (m_retired_packs m)"
    by (simp add: seal_manifest_def)
  then show "rp_checksum ` set (m_retired_packs (seal_manifest current retire slot at writer m)) = rp_checksum ` set (m_retired_packs m)"
    by (metis list.set_map)
qed (simp add: seal_manifest_def stamp_manifest_def)

text \<open>The objects of the packs a manifest lists, by checksum.\<close>

definition live_objects :: "(string \<Rightarrow> oid set) \<Rightarrow> manifest \<Rightarrow> oid set" where
  "live_objects objs m = \<Union> (objs ` pk_checksum ` set (m_packs m))"

text \<open>What loading the indexes of a manifest's live packs gives: each pack once or more, with its sorted objects.\<close>

definition loads_indexes ::
  "(string \<Rightarrow> oid set) \<Rightarrow> (manifest \<Rightarrow> (wal_error, (pack_ref \<times> pack_index) list) result) \<Rightarrow> bool" where
  "loads_indexes objs load \<longleftrightarrow>
     (\<forall>m indexes. load m = Inr indexes \<longrightarrow>
        fst ` set indexes = set (m_packs m) \<and>
        (\<forall>(p, i) \<in> set indexes. sorted i \<and> set i = objs (pk_checksum p)))"

lemma objects_in_loaded:
  assumes "loads_indexes objs load" "load m = Inr indexes"
  shows "objects_in indexes cs = \<Union> (objs ` (cs \<inter> pk_checksum ` set (m_packs m)))"
proof -
  have loaded: "fst ` set indexes = set (m_packs m) \<and> (\<forall>(p, i) \<in> set indexes. sorted i \<and> set i = objs (pk_checksum p))"
    using assms unfolding loads_indexes_def by blast
  then have fst: "fst ` set indexes = set (m_packs m)"
    and snd: "\<And>p i. (p, i) \<in> set indexes \<Longrightarrow> set i = objs (pk_checksum p)" by auto
  have "q \<in> objects_in indexes cs \<longleftrightarrow> (\<exists>p \<in> fst ` set indexes. pk_checksum p \<in> cs \<and> q \<in> objs (pk_checksum p))" for q
  proof
    assume "q \<in> objects_in indexes cs"
    then obtain p i where "(p, i) \<in> set indexes" "pk_checksum p \<in> cs" "q \<in> set i" unfolding in_objects by blast
    then show "\<exists>p \<in> fst ` set indexes. pk_checksum p \<in> cs \<and> q \<in> objs (pk_checksum p)"
      using snd by (metis fst_conv image_eqI)
  next
    assume "\<exists>p \<in> fst ` set indexes. pk_checksum p \<in> cs \<and> q \<in> objs (pk_checksum p)"
    then obtain p i where "(p, i) \<in> set indexes" "pk_checksum p \<in> cs" "q \<in> objs (pk_checksum p)" by auto
    then show "q \<in> objects_in indexes cs" unfolding in_objects using snd by blast
  qed
  then show ?thesis unfolding fst set_eq_iff by blast
qed

definition replacement_ok ::
  "(string \<Rightarrow> oid set) \<Rightarrow> (string \<Rightarrow> (string, oid) result) \<Rightarrow> publication_view \<Rightarrow> manifest \<Rightarrow> bool" where
  "replacement_ok objs from_hex v m \<longleftrightarrow>
     live_objects objs m = live_objects objs (pv_manifest v) \<and>
     (\<forall>r \<in> set (sn_refs (pv_refs v)). \<exists>q. from_hex (r_oid r) = Inr q \<and> q \<in> live_objects objs m) \<and>
     (\<forall>c. serves_pack m c = serves_pack (pv_manifest v) c)"

lemma replacement_ok_cong:
  assumes "m_packs a = m_packs b" "rp_checksum ` set (m_retired_packs a) = rp_checksum ` set (m_retired_packs b)"
  shows "replacement_ok objs from_hex v a = replacement_ok objs from_hex v b"
proof -
  have "live_objects objs a = live_objects objs b" using assms(1) by (simp add: live_objects_def)
  moreover have "serves_pack a c = serves_pack b c" for c using assms by (intro served_cong) simp_all
  ultimately show ?thesis by (simp add: replacement_ok_def)
qed

lemma seal_checks_ok:
  assumes run: "seal_checks E captured inputs outputs snapshots env v s = (Inr updated, s1)"
    and load: "loads_indexes objs (se_load E)"
  shows "replacement_ok objs (se_from_hex E) v updated"
proof -
  let ?cur = "pv_manifest v" and ?ids = "map pk_checksum outputs"
  let ?retire = "filter (\<lambda>c. c \<notin> set ?ids) inputs"
  obtain rc packs where rc: "se_config_for E ?cur = Inr rc"
    and packs: "apply_outputs (ae_clock env) 0 outputs (m_packs ?cur) = Inr packs"
    and u: "updated = retire_outputs (cd_sha256 (se_codec E)) rc (ae_published_at env) ?retire ?ids (?cur \<lparr>m_packs := packs\<rparr>)"
    and inv: "verify_replacement_inventory (se_from_hex E) (se_load E ?cur) updated (pv_refs v) inputs outputs = Inr ()"
    using run by (auto simp: seal_checks_def Let_def split: sum.splits prod.splits)
  then obtain indexes where l: "se_load E ?cur = Inr indexes"
    by (auto simp: verify_replacement_inventory_def split: sum.splits)
  have sorted: "\<forall>(p, i) \<in> set indexes. sorted i" using load l unfolding loads_indexes_def by fastforce
  note objs = objects_in_loaded [OF load l]
  have ck: "pk_checksum ` set packs = pk_checksum ` set (m_packs ?cur)" "set ?ids \<subseteq> pk_checksum ` set (m_packs ?cur)"
    using apply_outputs_checksums [OF packs] by (metis list.set_map, auto)
  have uck: "pk_checksum ` set (m_packs updated) = pk_checksum ` set (m_packs ?cur) - set ?retire"
    using arg_cong [OF retire_outputs_packs [of "cd_sha256 (se_codec E)" rc "ae_published_at env" ?retire ?ids "?cur \<lparr>m_packs := packs\<rparr>"], of set]
      ck(1) u by auto
  from inv l verify_replacement_exact [OF sorted, of "se_from_hex E" updated "pv_refs v" inputs outputs]
  have sub: "objects_in indexes (set inputs) \<subseteq> objects_in indexes (set ?ids)"
    and tips: "tips_covered (se_from_hex E) indexes (pk_checksum ` set (m_packs updated)) (pv_refs v)"
    by simp_all
  have "live_objects objs updated = live_objects objs ?cur"
  proof
    show "live_objects objs updated \<subseteq> live_objects objs ?cur" using uck by (auto simp: live_objects_def)
    show "live_objects objs ?cur \<subseteq> live_objects objs updated"
    proof
      fix q assume "q \<in> live_objects objs ?cur"
      then obtain c where c: "c \<in> pk_checksum ` set (m_packs ?cur)" "q \<in> objs c" by (auto simp: live_objects_def)
      show "q \<in> live_objects objs updated"
      proof (cases "c \<in> set ?retire")
        case False
        then show ?thesis using c uck by (auto simp: live_objects_def)
      next
        case True
        then have "q \<in> objects_in indexes (set inputs)" using c by (auto simp: objs)
        then have "q \<in> objects_in indexes (set ?ids)" using sub by blast
        then obtain d where "d \<in> set ?ids" "q \<in> objs d" unfolding objs by blast
        then have "d \<in> pk_checksum ` set (m_packs updated)" using ck(2) uck by auto
        then show ?thesis using \<open>q \<in> objs d\<close> by (auto simp: live_objects_def)
      qed
    qed
  qed
  moreover have "\<forall>r \<in> set (sn_refs (pv_refs v)). \<exists>q. se_from_hex E (r_oid r) = Inr q \<and> q \<in> live_objects objs updated"
  proof -
    have "objects_in indexes (pk_checksum ` set (m_packs updated)) \<subseteq> live_objects objs updated"
      unfolding objs live_objects_def by (intro UN_mono) auto
    then show ?thesis using tips unfolding tips_covered_def by (meson subsetD)
  qed
  moreover have "serves_pack updated c = serves_pack ?cur c" for c
    unfolding u retire_outputs_served by (rule served_cong) (simp_all add: ck(1))
  ultimately show ?thesis by (simp add: replacement_ok_def)
qed

lemma seal_checks_certified:
  assumes run: "seal_checks E captured inputs outputs snapshots env v s = (Inr updated, s1)"
    and rc: "se_config_for E (pv_manifest v) = Inr rc"
    and distinct: "distinct (map pk_checksum (m_packs (pv_manifest v)))"
  shows "certified (policy_identity (cd_sha256 (se_codec E)) rc) rc updated"
proof -
  let ?cur = "pv_manifest v" and ?ids = "map pk_checksum outputs" and ?sha = "cd_sha256 (se_codec E)"
  let ?retire = "filter (\<lambda>c. c \<notin> set ?ids) inputs"
  obtain packs s2 where packs: "apply_outputs (ae_clock env) 0 outputs (m_packs ?cur) = Inr packs"
    and u: "updated = retire_outputs ?sha rc (ae_published_at env) ?retire ?ids (?cur \<lparr>m_packs := packs\<rparr>)"
    and v: "validate_certificates (se_codec E) (se_store E) (se_config_for E) ?cur updated ?ids snapshots s = (Inr (), s2)"
    using run rc by (auto simp: seal_checks_def Let_def split: sum.splits prod.splits)
  have "distinct (map pk_checksum packs)" using apply_outputs_checksums [OF packs] distinct by simp
  then have d: "distinct (map pk_checksum (filter (\<lambda>p. pk_checksum p \<notin> set ?retire) packs))"
    by (simp add: distinct_map_filter)
  show ?thesis
    by (rule pruned_validated_certified [OF rc u [unfolded retire_outputs_def Let_def] v])
      (use d in \<open>simp add: retire_packs_at_def\<close>)
qed

section \<open>What is written\<close>

lemma side_keys_not_manifest [simp]:
  "rev_key c \<noteq> MANIFEST" "bitmap_key c \<noteq> MANIFEST" "commit_graph_key c \<noteq> MANIFEST"
  by (simp_all add: rev_key_def bitmap_key_def commit_graph_key_def MANIFEST_def WAL_DIR_def)

lemma wal_files_not_manifest: "MANIFEST \<notin> fst ` set (compact_files i l)"
proof -
  have "fst ` set (optional_file flag key f) \<subseteq> {key}" for flag key f
    unfolding optional_file_def by (cases flag; cases f; simp)
  then have "fst ` set (compact_files i l) \<subseteq> {pack_key (pi_checksum i), idx_key (pi_checksum i)} \<union>
      ({rev_key (pi_checksum i)} \<union> ({bitmap_key (pi_checksum i)} \<union> {commit_graph_key (pi_checksum i)}))"
    unfolding compact_files_def set_append image_Un by (intro Un_mono) auto
  moreover have "MANIFEST \<notin> \<dots>"
    by (simp add: wal_keys_not_manifest [symmetric] side_keys_not_manifest [symmetric]
      del: wal_keys_not_manifest side_keys_not_manifest)
  ultimately show ?thesis by blast
qed

context versioned_store begin

lemma read_snapshot_keeps: "snd (read_snapshot cd S key seq format s) = s"
  by (auto simp: read_snapshot_def get_bytes_view Let_def split: option.splits sum.splits)

lemma proof_snapshot_keeps: "snd (proof_snapshot cd S before candidates snapshots crt s) = s"
  by (auto simp: proof_snapshot_def read_snapshot_keeps split: option.splits)

lemma check_proof_keeps: "snd (check_proof cd S policy rc before live proofs candidates snapshots crt s) = s"
  using proof_snapshot_keeps [of cd before candidates snapshots crt s]
  by (auto simp: check_proof_def split: option.splits sum.splits prod.splits)

lemma validate_pending_keeps:
  "T = S \<Longrightarrow> snd (validate_pending cd T policy rc before live proofs candidates todo validated snapshots s) = s"
proof (induction cd T policy rc before live proofs candidates todo validated snapshots s
    rule: validate_pending.induct)
  case (2 cd T policy rc before live proofs candidates crt todo validated snapshots s)
  show ?case
  proof (cases "proof_key crt \<in> validated")
    case True
    then show ?thesis using 2(1) [OF True 2(3)] by simp
  next
    case False
    obtain r s1 where r: "check_proof cd T policy rc before live proofs candidates snapshots crt s = (r, s1)" by fastforce
    then have "s1 = s"
      using check_proof_keeps [of cd policy rc before live proofs candidates snapshots crt s] 2(3) by simp
    then show ?thesis
      using 2(2) [OF False r [symmetric] _ _ 2(3)] r False by (cases r) auto
  qed
qed simp

lemma check_coverages_keeps:
  "snd (check_coverages cd S policy rc before live proofs candidates pack coverages validated snapshots s) = s"
proof (induction coverages arbitrary: validated snapshots)
  case (Cons c coverages)
  show ?case
    using validate_pending_keeps [OF refl, of cd policy rc before live proofs candidates "[c]" validated snapshots s] Cons
    by (auto split: prod.splits sum.splits simp del: validate_pending.simps)
qed simp

lemma check_changed_keeps:
  "snd (check_changed cd S policy rc before live proofs candidates changed validated snapshots s) = s"
proof (induction changed arbitrary: validated snapshots)
  case (Cons c changed)
  show ?case
  proof (cases "map_of live c")
    case (Some p)
    show ?thesis
      using check_coverages_keeps [of cd policy rc before live proofs candidates p "pk_group_coverages p" validated snapshots s] Cons Some
      by (auto split: prod.splits sum.splits simp del: check_coverages.simps)
  qed simp
qed simp

lemma validate_certificates_keeps:
  "validate_certificates cd S config_for before after changed candidates s = (r, s1) \<Longrightarrow> s1 = s"
  using check_changed_keeps by (auto simp: validate_certificates_def split: sum.splits) (metis snd_conv)

lemma seal_checks_keeps:
  assumes "se_store E = S" "seal_checks E captured inputs outputs snapshots env v s = (r, s1)"
  shows "s1 = s"
  using assms validate_certificates_keeps
  by (auto simp: seal_checks_def Let_def split: sum.splits prod.splits)

lemma claim_manifest:
  assumes "claim_log_slot cd S h encode nonce s = Some (c, s')"
  shows "view s' MANIFEST = view s MANIFEST"
    and "c = Inr (Claimed slot) \<Longrightarrow>
      sl_key slot \<in> range log_segment_key \<and> fst ` set (sl_burned slot) \<subseteq> range log_segment_key"
proof -
  have fp: "claim_footprint cd encode nonce s (h + 1) [] (c, s')"
    using claim_loop_footprint [OF assms [unfolded claim_log_slot_def]] .
  then show "view s' MANIFEST = view s MANIFEST"
    using manifest_not_segment unfolding claim_footprint_def by (metis snd_conv)
  show "sl_key slot \<in> range log_segment_key \<and> fst ` set (sl_burned slot) \<subseteq> range log_segment_key"
    if "c = Inr (Claimed slot)"
    using fp that by (auto simp: claim_footprint_def)
qed

lemma drop_manifest:
  assumes "sl_key slot \<in> range log_segment_key"
  shows "view (drop_own_slot S slot s) MANIFEST = view s MANIFEST"
  using delete_other [of "sl_key slot" "Some (sl_version slot)" s _ _ MANIFEST] assms
  unfolding drop_own_slot_def by (metis prod.collapse log_segment_key_not_manifest(2) imageE)

lemma put_manifest_cases:
  assumes "put_bytes S MANIFEST d mode s = (r, s')"
  obtains meta where "r = Inr meta" "view s' MANIFEST = Some (om_version meta, d)"
  | k w where "r = Inl (PreconditionFailed k w)" "s' = s"
proof (cases r)
  case (Inl e)
  then show ?thesis using that(2) assms put_bytes_Inl by metis
next
  case (Inr meta)
  then show ?thesis using that(1) assms put_bytes_Inr(3) by (metis fun_upd_same)
qed

lemma upload_files_manifest:
  "upload_files S files s = (r, s') \<Longrightarrow> MANIFEST \<notin> fst ` set files \<Longrightarrow> view s' MANIFEST = view s MANIFEST"
proof (induction files arbitrary: s r)
  case (Cons f files)
  obtain key content where f: "f = (key, content)" by (cases f)
  obtain a s1 where a: "put_immutable_create S key content s = (a, s1)" by fastforce
  obtain b s2 where b: "upload_files S files s1 = (b, s2)" by fastforce
  have "view s1 MANIFEST = view s MANIFEST"
    using put_immutable_other [OF a, of MANIFEST] Cons.prems(2) f by auto
  moreover have "s' = s2" using Cons.prems(1) a b f by (auto split: sum.splits)
  ultimately show ?case using Cons.IH [of s1 b] b Cons.prems(2) by simp
qed simp

text \<open>What a seal comes to: an error leaves the manifest alone, a success wrote a conserving one or found the work done.\<close>

definition seal_outcome ::
  "'s seal_env \<Rightarrow> (string \<Rightarrow> oid set) \<Rightarrow> string list \<Rightarrow> pack_ref list \<Rightarrow> 's \<Rightarrow> (wal_error, nat) result \<times> 's \<Rightarrow> bool" where
  "seal_outcome E objs inputs outputs s y \<longleftrightarrow>
     (case fst y of
        Inl _ \<Rightarrow> view (snd y) MANIFEST = view s MANIFEST
      | Inr seq \<Rightarrow>
          (\<exists>t v t1 rc. se_pview E t = (Inr v, t1) \<and> se_config_for E (pv_manifest v) = Inr rc \<and>
             (view (snd y) MANIFEST = view s MANIFEST \<and> seq = m_head_seq (pv_manifest v) \<and>
              sealed_already (pv_manifest v) (filter (\<lambda>c. c \<notin> set (map pk_checksum outputs)) inputs) outputs \<or>
              (\<exists>ver m. view (snd y) MANIFEST = Some (ver, cd_enc_manifest (se_codec E) m) \<and> m_head_seq m = seq \<and>
                 replacement_ok objs (se_from_hex E) v m \<and>
                 certified (policy_identity (cd_sha256 (se_codec E)) rc) rc m))))"

lemma seal_outcome_later:
  "view s' MANIFEST = view s MANIFEST \<Longrightarrow> seal_outcome E objs inputs outputs s' y \<Longrightarrow>
     seal_outcome E objs inputs outputs s y"
  unfolding seal_outcome_def by (auto split: sum.splits)

lemma seal_loop_outcome:
  assumes store: "se_store E = S"
    and load: "loads_indexes objs (se_load E)"
    and distinct: "\<And>t v t1. se_pview E t = (Inr v, t1) \<Longrightarrow> distinct (map pk_checksum (m_packs (pv_manifest v)))"
    and keeps: "\<And>n t. view (snd (se_beat E n t)) MANIFEST = view t MANIFEST"
      "\<And>t. view (snd (se_pview E t)) MANIFEST = view t MANIFEST"
    and run: "seal_loop E captured inputs outputs snapshots attempt s = Some y"
  shows "seal_outcome E objs inputs outputs s y"
  using run
proof (induction "se_max_retries E - attempt" arbitrary: attempt s rule: less_induct)
  case less
  let ?retire = "filter (\<lambda>c. c \<notin> set (map pk_checksum outputs)) inputs"
  note unfold = seal_loop.simps [of E captured inputs outputs snapshots attempt s] Let_def store
  show ?case
  proof (cases "attempt \<ge> se_max_retries E")
    case True
    then show ?thesis using less.prems by (auto simp: unfold seal_outcome_def)
  next
    case retry: False
    obtain b s0 where b: "se_beat E attempt s = (b, s0)" by fastforce
    obtain pv s1 where pv: "se_pview E s0 = (pv, s1)" by fastforce
    have m: "view s0 MANIFEST = view s MANIFEST" "view s1 MANIFEST = view s MANIFEST"
      using keeps(1) [of attempt s] keeps(2) [of s0] b pv by simp_all
    have error: "seal_outcome E objs inputs outputs s (Inl e, t)" if "view t MANIFEST = view s MANIFEST" for e t
      using that by (simp add: seal_outcome_def)
    have again: "seal_outcome E objs inputs outputs s y"
      if "seal_loop E captured inputs outputs snapshots (attempt + 1) t = Some y" "view t MANIFEST = view s MANIFEST" for t
      using less.hyps [OF _ that(1)] seal_outcome_later [OF that(2)] retry by simp
    show ?thesis
    proof (cases "\<exists>u v rc. b = Inr u \<and> pv = Inr v \<and> se_config_for E (pv_manifest v) = Inr rc")
      case False
      then show ?thesis using less.prems retry b pv m error
        by (auto simp: unfold split: sum.splits)
    next
      case True
      then obtain v rc where v: "b = Inr ()" "pv = Inr v" "se_config_for E (pv_manifest v) = Inr rc" by auto
      let ?env = "se_attempt E attempt" and ?cd = "se_codec E"
      obtain u s2 where u: "seal_checks E captured inputs outputs snapshots ?env v s1 = (u, s2)" by fastforce
      have s2: "s2 = s1" by (rule seal_checks_keeps [OF store u])
      show ?thesis
      proof (cases "\<exists>m. u = Inr m \<and> policy_identity (cd_sha256 ?cd) rc = policy_identity (cd_sha256 ?cd) (pv_config captured) \<and>
          \<not> sealed_already (pv_manifest v) ?retire outputs")
        case False
        have "seal_outcome E objs inputs outputs s (Inr (m_head_seq (pv_manifest v)), s1)"
          if "sealed_already (pv_manifest v) ?retire outputs"
          unfolding seal_outcome_def using m(2) pv v(2,3) that by auto
        then show ?thesis using False less.prems retry b pv m error v u s2
          by (auto simp: unfold split: sum.splits if_splits)
      next
        case True
        then obtain updated where up: "u = Inr updated" by blast
        obtain c s3 where c: "claim_log_slot ?cd S (m_head_seq (pv_manifest v))
            (\<lambda>q. frame_encode ?cd [retire_entry ?retire (ae_now ?env) (ae_writer ?env) q]) (ae_nonce ?env) s2 = Some (c, s3)"
          using True less.prems retry b pv v u up by (auto simp: unfold split: option.splits)
        have m3: "view s3 MANIFEST = view s MANIFEST" using claim_manifest(1) [OF c] s2 m by simp
        show ?thesis
        proof (cases "\<exists>slot. c = Inr (Claimed slot)")
          case False
          then consider e where "c = Inl e" | "c = Inr Contended" by (metis claim_outcome.exhaust sum.exhaust)
          then show ?thesis
          proof cases
            case 1
            then show ?thesis using True less.prems retry b pv v u up c m3 error by (auto simp: unfold)
          next
            case 2
            then show ?thesis using True less.prems retry b pv v u up c again [OF _ m3] by (auto simp: unfold)
          qed
        next
          case claimed: True
          then obtain slot where slot: "c = Inr (Claimed slot)" by blast
          note keys = claim_manifest(2) [OF c slot]
          let ?m = "seal_manifest (pv_manifest v) ?retire slot (ae_now ?env) (ae_writer ?env) updated"
          obtain w s4 where w: "put_bytes S MANIFEST (cd_enc_manifest ?cd ?m) (cas_mode (pv_version v)) s3 = (w, s4)" by fastforce
          have run: "y = (case w of Inr _ \<Rightarrow> (Inr (sl_first_seq slot), sweep_burned S slot s4) | Inl _ \<Rightarrow> y)"
            using True less.prems retry b pv v u up c slot w by (auto simp: unfold split: sum.splits)
          show ?thesis
          proof (rule put_manifest_cases [OF w])
            fix meta assume ok: "w = Inr meta" "view s4 MANIFEST = Some (om_version meta, cd_enc_manifest ?cd ?m)"
            have "replacement_ok objs (se_from_hex E) v updated" using seal_checks_ok [OF _ load] u up by simp
            then have "replacement_ok objs (se_from_hex E) v ?m"
              using replacement_ok_cong [of ?m updated] by simp
            moreover have "certified (policy_identity (cd_sha256 ?cd) rc) rc ?m"
              using seal_checks_certified [OF _ v(3) distinct] u up pv v(2)
                certified_packs [of ?m updated] by simp
            moreover have "view (sweep_burned S slot s4) MANIFEST = Some (om_version meta, cd_enc_manifest ?cd ?m)"
              using sweep_manifest [of slot s4] keys ok(2) by simp
            moreover have "m_head_seq ?m = sl_first_seq slot" by (simp add: seal_manifest_def)
            ultimately show ?thesis using run ok(1) pv v(2,3) unfolding seal_outcome_def by auto
          next
            fix k ver assume "w = Inl (PreconditionFailed k ver)" "s4 = s3"
            then show ?thesis
              using True less.prems retry b pv v u up c slot w again [of "drop_own_slot S slot s3"] drop_manifest [of slot s3] keys m3
              by (auto simp: unfold)
          qed
        qed
      qed
    qed
  qed
qed

end

section \<open>What compaction writes\<close>

lemma classified_checksum: "classified_output cl m p = Inr q \<Longrightarrow> pk_checksum q = pk_checksum p"
  by (auto simp: classified_output_def split: option.splits if_splits)

lemma compact_manifest_checksums:
  "pk_checksum ` set (m_packs (compact_manifest p supersedes seq now m)) =
     insert (pk_checksum p) (pk_checksum ` set (m_packs m) - set supersedes)"
  by (auto simp: compact_manifest_def Let_def retire_packs_at_def)

lemma compact_manifest_distinct:
  assumes "distinct (map pk_checksum (m_packs m))"
  shows "distinct (map pk_checksum (m_packs (compact_manifest p supersedes seq now m)))"
proof -
  let ?ps = "filter (\<lambda>q. pk_checksum q \<notin> set supersedes \<and> pk_checksum q \<noteq> pk_checksum p) (m_packs m) @ [p \<lparr>pk_seq := seq\<rparr>]"
  have "distinct (map pk_checksum ?ps)" using assms by (auto simp: distinct_map_filter)
  then have "distinct (map pk_checksum (sort_key pk_seq ?ps))" by (simp add: distinct_map)
  then show ?thesis by (simp add: compact_manifest_def Let_def retire_packs_at_def)
qed

lemma compact_manifest_served:
  "serves_pack (compact_manifest p supersedes seq now m) c \<longleftrightarrow> serves_pack m c \<or> c = pk_checksum p"
proof -
  have "rp_checksum ` set (m_retired_packs (compact_manifest p supersedes seq now m)) =
      rp_checksum ` set (m_retired_packs m) \<union>
      {c. c \<in> pk_checksum ` set (m_packs m) \<and> c \<in> set supersedes \<and> c \<noteq> pk_checksum p \<and>
          c \<notin> rp_checksum ` set (m_retired_packs m)}"
    by (simp add: compact_manifest_def Let_def retire_packs_at_def retire_loop_checksums)
  then show ?thesis unfolding serves_pack_iff compact_manifest_checksums by blast
qed

definition compacted :: "manifest \<Rightarrow> string \<Rightarrow> string list \<Rightarrow> manifest \<Rightarrow> bool" where
  "compacted m checksum supersedes m' \<longleftrightarrow>
     pk_checksum ` set (m_packs m') = insert checksum (pk_checksum ` set (m_packs m) - set supersedes) \<and>
     (\<forall>c. serves_pack m' c \<longleftrightarrow> serves_pack m c \<or> c = checksum)"

lemma seal_segment_packs [simp]:
  "m_packs (seal_segment slot q now w m) = m_packs m" "m_retired_packs (seal_segment slot q now w m) = m_retired_packs m"
  "m_head_seq (seal_segment slot q now w m) = q"
  by (simp_all add: seal_segment_def)

lemma pruned_compacted:
  "compacted m (pk_checksum p) supersedes
     (seal_segment slot q at w (prune_invalid_coverages sha rc changed (compact_manifest p supersedes seq now m)))"
proof -
  let ?c = "compact_manifest p supersedes seq now m" and ?p = "prune_invalid_coverages sha rc changed"
  have ck: "pk_checksum ` set (m_packs (?p ?c)) = pk_checksum ` set (m_packs ?c)"
    using prune_keeps(1) [of sha rc changed ?c] by (metis list.set_map)
  then have "serves_pack (seal_segment slot q at w (?p ?c)) c = serves_pack ?c c" for c
    by (intro served_cong) (simp_all add: prune_keeps)
  then show ?thesis
    using ck by (simp add: compacted_def compact_manifest_checksums compact_manifest_served)
qed

context versioned_store begin

definition compact_outcome ::
  "'s compact_env \<Rightarrow> string \<Rightarrow> string list \<Rightarrow> 's \<Rightarrow> (wal_error, nat) result \<times> 's \<Rightarrow> bool" where
  "compact_outcome E checksum supersedes s y \<longleftrightarrow>
     (case fst y of
        Inl _ \<Rightarrow> view (snd y) MANIFEST = view s MANIFEST
      | Inr seq \<Rightarrow>
          (\<exists>b t m known t1 rc ver m'. ce_resync E b t = (Inr (m, known), t1) \<and> ce_config_for E m = Inr rc \<and>
             view (snd y) MANIFEST = Some (ver, cd_enc_manifest (ce_codec E) m') \<and> m_head_seq m' = seq \<and>
             compacted m checksum supersedes m' \<and>
             certified (policy_identity (cd_sha256 (ce_codec E)) rc) rc m'))"

lemma compact_outcome_later:
  "view s' MANIFEST = view s MANIFEST \<Longrightarrow> compact_outcome E c supersedes s' y \<Longrightarrow> compact_outcome E c supersedes s y"
  unfolding compact_outcome_def by (auto split: sum.splits)

lemma compact_loop_outcome:
  assumes store: "ce_store E = S"
    and distinct: "\<And>b t m known t1. ce_resync E b t = (Inr (m, known), t1) \<Longrightarrow> distinct (map pk_checksum (m_packs m))"
    and keeps: "\<And>b t. view (snd (ce_resync E b t)) MANIFEST = view t MANIFEST"
    and run: "compact_loop E p0 supersedes cl candidates attempts s = Some y"
  shows "compact_outcome E (pk_checksum p0) supersedes s y"
  using run
proof (induction "ce_max_retries E - attempts" arbitrary: attempts s rule: less_induct)
  case less
  note unfold = compact_loop.simps [of E p0 supersedes cl candidates attempts s] Let_def store
  let ?env = "ce_attempt E attempts" and ?cd = "ce_codec E"
  obtain r s1 where r: "ce_resync E (attempts > 0) s = (r, s1)" by fastforce
  then have m1: "view s1 MANIFEST = view s MANIFEST" using keeps [of "attempts > 0" s] by simp
  have error: "compact_outcome E (pk_checksum p0) supersedes s (Inl e, t)" if "view t MANIFEST = view s MANIFEST" for e t
    using that by (simp add: compact_outcome_def)
  have again: "compact_outcome E (pk_checksum p0) supersedes s y"
    if "compact_loop E p0 supersedes cl candidates (attempts + 1) t = Some y" "view t MANIFEST = view s MANIFEST"
      "\<not> attempts + 1 \<ge> ce_max_retries E" for t
    using less.hyps [OF _ that(1)] compact_outcome_later [OF that(2)] that(3) by simp
  show ?case
  proof (cases "\<exists>m known p. r = Inr (m, known) \<and> classified_output cl m p0 = Inr p")
    case False
    then show ?thesis using less.prems r m1 error by (auto simp: unfold split: sum.splits)
  next
    case True
    then obtain m known p where m: "r = Inr (m, known)" "classified_output cl m p0 = Inr p" by blast
    have p: "pk_checksum p = pk_checksum p0" by (rule classified_checksum [OF m(2)])
    obtain c s2 where c: "claim_log_slot ?cd S (m_head_seq m)
        (\<lambda>q. frame_encode ?cd [compact_entry p supersedes (ae_published_at ?env) (ae_writer ?env) q]) (ae_nonce ?env) s1 = Some (c, s2)"
      using less.prems r m by (auto simp: unfold split: option.splits)
    have m2: "view s2 MANIFEST = view s MANIFEST" using claim_manifest(1) [OF c] m1 by simp
    show ?thesis
    proof (cases "\<exists>slot rc. c = Inr (Claimed slot) \<and> ce_config_for E m = Inr rc")
      case False
      then consider e where "c = Inl e" | "c = Inr Contended" | slot e where "c = Inr (Claimed slot)" "ce_config_for E m = Inl e"
        by (metis claim_outcome.exhaust sum.exhaust)
      then show ?thesis
        by cases (use less.prems r m c m2 error again [OF _ m2] in \<open>auto simp: unfold split: if_splits\<close>)
    next
      case True
      then obtain slot rc where slot: "c = Inr (Claimed slot)" "ce_config_for E m = Inr rc" by blast
      note keys = claim_manifest(2) [OF c slot(1)]
      let ?u = "prune_invalid_coverages (cd_sha256 ?cd) rc [pk_checksum p]
        (compact_manifest p supersedes (sl_first_seq slot) (ae_clock ?env 0) m)"
      let ?m = "seal_segment slot (sl_first_seq slot) (ae_now ?env) (ae_writer ?env) ?u"
      obtain v s3 where v: "validate_certificates ?cd S (ce_config_for E) m ?u [pk_checksum p] candidates s2 = (v, s3)" by fastforce
      have s3: "s3 = s2" by (rule validate_certificates_keeps [OF v])
      have drop: "view (drop_own_slot S slot s2) MANIFEST = view s MANIFEST" using drop_manifest keys m2 by simp
      show ?thesis
      proof (cases v)
        case (Inl e)
        then show ?thesis using less.prems r m c slot v s3 error [OF drop] by (auto simp: unfold)
      next
        case (Inr x)
        obtain w s4 where w: "put_bytes S MANIFEST (cd_enc_manifest ?cd ?m) (cas_mode known) s2 = (w, s4)" by fastforce
        show ?thesis
        proof (rule put_manifest_cases [OF w])
          fix meta assume ok: "w = Inr meta" "view s4 MANIFEST = Some (om_version meta, cd_enc_manifest ?cd ?m)"
          then have y: "y = (Inr (sl_first_seq slot), sweep_burned S slot s4)"
            using less.prems r m c slot v s3 Inr w by (simp add: unfold)
          have "certified (policy_identity (cd_sha256 ?cd) rc) rc ?u"
          proof (rule pruned_validated_certified [where config_for = "ce_config_for E"])
            show "ce_config_for E m = Inr rc" by (rule slot(2))
            show "validate_certificates ?cd S (ce_config_for E) m ?u [pk_checksum p] candidates s2 = (Inr (), s3)"
              using v Inr by simp
          qed (use compact_manifest_distinct [OF distinct] r m in auto)
          then have "certified (policy_identity (cd_sha256 ?cd) rc) rc ?m"
            using certified_packs [of ?m ?u] by simp
          moreover have "view (sweep_burned S slot s4) MANIFEST = Some (om_version meta, cd_enc_manifest ?cd ?m)"
            using sweep_manifest [of slot s4] keys ok(2) by simp
          moreover have "compacted m (pk_checksum p0) supersedes ?m"
            using pruned_compacted [of m p] p by simp
          moreover have "m_head_seq ?m = sl_first_seq slot" by simp
          moreover have "ce_resync E (attempts > 0) s = (Inr (m, known), s1)" using r m(1) by simp
          ultimately show ?thesis using slot(2) unfolding compact_outcome_def y fst_conv snd_conv sum.case by blast
        next
          fix k ver assume "w = Inl (PreconditionFailed k ver)" "s4 = s2"
          then show ?thesis
            using less.prems r m c slot v s3 Inr w drop error again [OF _ drop] by (auto simp: unfold split: if_splits)
        qed
      qed
    qed
  qed
qed

lemma publish_compact_outcome:
  assumes "ce_store E = S"
    and "\<And>b t m known t1. ce_resync E b t = (Inr (m, known), t1) \<Longrightarrow> distinct (map pk_checksum (m_packs m))"
    and "\<And>b t. view (snd (ce_resync E b t)) MANIFEST = view t MANIFEST"
    and "publish_compact_classified E new_pack files now supersedes tier cl candidates s = Some y"
  shows "compact_outcome E (pi_checksum new_pack) supersedes s y"
proof -
  obtain r s1 where r: "upload_files S (compact_files new_pack files) s = (r, s1)" by fastforce
  have m1: "view s1 MANIFEST = view s MANIFEST"
    using upload_files_manifest [OF r wal_files_not_manifest] .
  show ?thesis
  proof (cases r)
    case (Inl e)
    then show ?thesis using assms(1,4) r m1 by (auto simp: publish_compact_classified_def compact_outcome_def)
  next
    case (Inr u)
    then have "compact_loop E (pack_ref_from_info new_pack 0 tier now) supersedes cl candidates 0 s1 = Some y"
      using assms(1,4) r by (simp add: publish_compact_classified_def)
    from compact_loop_outcome [OF assms(1-3) this] compact_outcome_later [OF m1]
    show ?thesis by (simp add: pack_ref_from_info_def)
  qed
qed

lemma seal_replacement_outcome:
  assumes "se_store E = S" "loads_indexes objs (se_load E)"
    and "\<And>t v t1. se_pview E t = (Inr v, t1) \<Longrightarrow> distinct (map pk_checksum (m_packs (pv_manifest v)))"
    and "\<And>n t. view (snd (se_beat E n t)) MANIFEST = view t MANIFEST"
      "\<And>t. view (snd (se_pview E t)) MANIFEST = view t MANIFEST"
    and "seal_pack_replacement E repo captured inputs outputs snapshots s = Some y"
  shows "seal_outcome E objs inputs outputs s y"
proof (cases "inputs = [] \<or> outputs = [] \<or> length inputs > 4096 \<or> length outputs > 4096 \<or>
    m_repo (pv_manifest captured) \<noteq> repo \<or> \<not> distinct inputs \<or> \<not> distinct (map pk_checksum outputs)")
  case True
  then show ?thesis using assms(6) by (auto simp: seal_pack_replacement_def seal_outcome_def split: if_splits)
next
  case False
  then show ?thesis using seal_loop_outcome [OF assms(1-5)] assms(6)
    by (auto simp: seal_pack_replacement_def split: if_splits)
qed

end

section \<open>Compaction under settings that do not validate\<close>

context versioned_store begin

lemma claim_loop_blocked:
  assumes "\<forall>q j. \<exists>b. candidate cd (encode q) (nonce j) = Inr b"
    "head_at cd (view s MANIFEST) = Some h" "h < seq" "length burned + n = MAX_BURN" "n > 0"
    "\<forall>q \<in> {seq..<seq + n}. view s (log_segment_key q) \<noteq> None"
  shows "\<exists>e. claim_loop cd S head_seq encode nonce i seq burned s = Some (Inl (Corrupt e), s)"
  using assms
proof (induction n arbitrary: i seq burned)
  case (Suc n)
  obtain b where b: "candidate cd (encode seq) (nonce i) = Inr b" using Suc.prems by blast
  obtain v d where v: "view s (log_segment_key seq) = Some (v, d)" using Suc.prems(6) by force
  show ?case
  proof (cases "n = 0")
    case True
    have a: "\<not> put_allowed Create (map_option fst (view s (log_segment_key seq)))"
      using v by (simp add: put_allowed_def)
    obtain k' where "put_bytes S (log_segment_key seq) b Create s =
        (Inl (PreconditionFailed k' (map_option fst (view s (log_segment_key seq)))), s)"
      using put_bytes_refused [OF a] by metis
    then show ?thesis
      by (subst claim_loop.simps)
        (use b v True Suc.prems in \<open>simp add: probe_quiet [OF Suc.prems(2)] is_precondition_failed_def\<close>)
  next
    case False
    then have "claim_loop cd S head_seq encode nonce i seq burned s =
        claim_loop cd S head_seq encode nonce (i + 1) (seq + 1) (burned @ [(log_segment_key seq, v)]) s"
      using claim_loop_orphan [of cd encode seq nonce i b s v d h burned head_seq] b v Suc.prems(2-4) by simp
    moreover have "\<exists>e. claim_loop cd S head_seq encode nonce (i + 1) (seq + 1) (burned @ [(log_segment_key seq, v)]) s =
        Some (Inl (Corrupt e), s)"
      by (rule Suc.IH) (use Suc.prems False in auto)
    ultimately show ?thesis by simp
  qed
qed simp

text \<open>One failed compaction leaves the segment it claimed behind.\<close>

lemma compact_leaves_orphan:
  assumes store: "ce_store E = S" and sync: "\<And>t. ce_resync E False t = (Inr (m, known), t)"
    and config: "ce_config_for E m = Inl e" and out: "classified_output cl m p0 = Inr p"
    and cand: "\<forall>q j. \<exists>b. candidate (ce_codec E) (frame_encode (ce_codec E)
        [compact_entry p supersedes (ae_published_at (ce_attempt E 0)) (ae_writer (ce_attempt E 0)) q]) (ae_nonce (ce_attempt E 0) j) = Inr b"
    and head: "head_at (ce_codec E) (view s MANIFEST) = Some (m_head_seq m)" and n: "n < MAX_BURN"
    and orphans: "\<forall>q \<in> {m_head_seq m + 1..<m_head_seq m + 1 + n}. view s (log_segment_key q) \<noteq> None"
      "view s (log_segment_key (m_head_seq m + 1 + n)) = None"
  shows "\<exists>s' v b. compact_loop E p0 supersedes cl candidates 0 s = Some (Inl e, s') \<and>
    view s' = (view s)(log_segment_key (m_head_seq m + 1 + n) \<mapsto> (v, b))"
proof -
  obtain v b s' where c: "claim_log_slot (ce_codec E) S (m_head_seq m) (\<lambda>q. frame_encode (ce_codec E)
        [compact_entry p supersedes (ae_published_at (ce_attempt E 0)) (ae_writer (ce_attempt E 0)) q])
        (ae_nonce (ce_attempt E 0)) s =
      Some (Inr (Claimed \<lparr>sl_key = log_segment_key (m_head_seq m + 1 + n), sl_version = v, sl_first_seq = m_head_seq m + 1 + n,
        sl_bytes = b, sl_burned = [] @ map (\<lambda>q. (log_segment_key q, fst (the (view s (log_segment_key q)))))
          [m_head_seq m + 1..<m_head_seq m + 1 + n]\<rparr>), s')"
      "view s' = (view s)(log_segment_key (m_head_seq m + 1 + n) \<mapsto> (v, b))"
    unfolding claim_log_slot_def
    using claim_loop_quiet [OF cand head, of "m_head_seq m + 1" "[]" n "m_head_seq m" 0] n orphans
    by (auto simp del: upt_Suc)
  have "compact_loop E p0 supersedes cl candidates 0 s = Some (Inl e, s')"
    by (subst compact_loop.simps) (use c(1) in \<open>simp add: Let_def sync out store config\<close>)
  then show ?thesis using c(2) by blast
qed

end

text \<open>Repeating a compaction, whatever it returned.\<close>

fun compact_times ::
  "nat \<Rightarrow> 's compact_env \<Rightarrow> pack_ref \<Rightarrow> string list \<Rightarrow> pack_classification option \<Rightarrow> coverage_snapshot list \<Rightarrow> 's \<Rightarrow> 's option" where
  "compact_times 0 E p supersedes cl candidates s = Some s"
| "compact_times (Suc n) E p supersedes cl candidates s =
     (case compact_loop E p supersedes cl candidates 0 s of
        None \<Rightarrow> None
      | Some (_, s') \<Rightarrow> compact_times n E p supersedes cl candidates s')"

context versioned_store begin

lemma compact_times_orphans:
  assumes store: "ce_store E = S" and sync: "\<And>t. ce_resync E False t = (Inr (m, known), t)"
    and config: "ce_config_for E m = Inl e" and out: "classified_output cl m p0 = Inr p"
    and cand: "\<forall>q j. \<exists>b. candidate (ce_codec E) (frame_encode (ce_codec E)
        [compact_entry p supersedes (ae_published_at (ce_attempt E 0)) (ae_writer (ce_attempt E 0)) q]) (ae_nonce (ce_attempt E 0) j) = Inr b"
    and head: "head_at (ce_codec E) (view s MANIFEST) = Some (m_head_seq m)" and n: "n + k \<le> MAX_BURN"
    and orphans: "\<forall>q \<in> {m_head_seq m + 1..<m_head_seq m + 1 + n}. view s (log_segment_key q) \<noteq> None"
      "\<forall>q \<ge> m_head_seq m + 1 + n. view s (log_segment_key q) = None"
  shows "\<exists>s'. compact_times k E p0 supersedes cl candidates s = Some s' \<and> view s' MANIFEST = view s MANIFEST \<and>
    (\<forall>q \<in> {m_head_seq m + 1..<m_head_seq m + 1 + n + k}. view s' (log_segment_key q) \<noteq> None)"
  using head n orphans
proof (induction k arbitrary: n s)
  case (Suc k)
  let ?h = "m_head_seq m"
  obtain s1 v b where s1: "compact_loop E p0 supersedes cl candidates 0 s = Some (Inl e, s1)"
    "view s1 = (view s)(log_segment_key (?h + 1 + n) \<mapsto> (v, b))"
    using compact_leaves_orphan [OF store sync config out cand Suc.prems(1), of n candidates] Suc.prems by auto
  have man: "view s1 MANIFEST = view s MANIFEST" using s1(2) by simp
  have "\<exists>s'. compact_times k E p0 supersedes cl candidates s1 = Some s' \<and> view s' MANIFEST = view s1 MANIFEST \<and>
      (\<forall>q \<in> {?h + 1..<?h + 1 + Suc n + k}. view s' (log_segment_key q) \<noteq> None)"
  proof (rule Suc.IH)
    show "\<forall>q \<in> {?h + 1..<?h + 1 + Suc n}. view s1 (log_segment_key q) \<noteq> None"
      using Suc.prems(3) s1(2) by (auto simp: less_Suc_eq)
    show "\<forall>q \<ge> ?h + 1 + Suc n. view s1 (log_segment_key q) = None"
      using Suc.prems(4) s1(2) by auto
  qed (use Suc.prems man in auto)
  then show ?case using s1(1) man by auto
qed auto

end

section \<open>Both return\<close>

context versioned_store begin

lemma claim_returns: "\<exists>c t. claim_log_slot cd S h encode nonce s = Some (c, t)"
  using claim_loop_returns unfolding claim_log_slot_def by (metis surj_pair)

lemma seal_loop_returns:
  assumes "se_store E = S"
  shows "\<exists>y. seal_loop E captured inputs outputs snapshots attempt s = Some y"
proof (induction "se_max_retries E - attempt" arbitrary: attempt s rule: less_induct)
  case less
  let ?retire = "filter (\<lambda>c. c \<notin> set (map pk_checksum outputs)) inputs"
  let ?env = "se_attempt E attempt"
  show ?case
  proof (cases "attempt \<ge> se_max_retries E")
    case True
    then show ?thesis by (simp add: seal_loop.simps [of _ _ _ _ _ attempt])
  next
    case False
    then have again: "\<exists>y. seal_loop E captured inputs outputs snapshots (attempt + 1) t = Some y" for t
      by (intro less) simp
    obtain b s0 where b: "se_beat E attempt s = (b, s0)" by fastforce
    obtain pv s1 where pv: "se_pview E s0 = (pv, s1)" by fastforce
    show ?thesis
    proof (cases pv)
      case (Inl e)
      then show ?thesis using False by (subst seal_loop.simps) (auto simp: Let_def b pv split: sum.splits)
    next
      case (Inr v)
      obtain u s2 where u: "seal_checks E captured inputs outputs snapshots ?env v s1 = (u, s2)" by fastforce
      obtain c s3 where c: "claim_log_slot (se_codec E) S (m_head_seq (pv_manifest v))
          (\<lambda>q. frame_encode (se_codec E) [retire_entry ?retire (ae_now ?env) (ae_writer ?env) q]) (ae_nonce ?env) s2 = Some (c, s3)"
        using claim_returns by blast
      show ?thesis
        by (subst seal_loop.simps)
          (use False again c in \<open>auto simp: Let_def assms b pv Inr u split: sum.splits prod.splits
            claim_outcome.splits store_error.splits option.splits\<close>)
    qed
  qed
qed

lemma seal_replacement_returns:
  "se_store E = S \<Longrightarrow> \<exists>y. seal_pack_replacement E repo captured inputs outputs snapshots s = Some y"
  using seal_loop_returns by (simp add: seal_pack_replacement_def)

lemma compact_loop_returns:
  assumes "ce_store E = S"
  shows "\<exists>y. compact_loop E p0 supersedes cl candidates attempts s = Some y"
proof (induction "ce_max_retries E - attempts" arbitrary: attempts s rule: less_induct)
  case less
  let ?env = "ce_attempt E attempts"
  have again: "\<exists>y. compact_loop E p0 supersedes cl candidates (attempts + 1) t = Some y"
    if "\<not> attempts + 1 \<ge> ce_max_retries E" for t
    using that by (intro less) simp
  obtain r s1 where r: "ce_resync E (attempts > 0) s = (r, s1)" by fastforce
  show ?case
  proof (cases "\<exists>m known p. r = Inr (m, known) \<and> classified_output cl m p0 = Inr p")
    case False
    then show ?thesis by (subst compact_loop.simps) (auto simp: Let_def r split: sum.splits)
  next
    case True
    then obtain m known p where m: "r = Inr (m, known)" "classified_output cl m p0 = Inr p" by blast
    obtain c s2 where c: "claim_log_slot (ce_codec E) S (m_head_seq m)
        (\<lambda>q. frame_encode (ce_codec E) [compact_entry p supersedes (ae_published_at ?env) (ae_writer ?env) q]) (ae_nonce ?env) s1 = Some (c, s2)"
      using claim_returns by blast
    show ?thesis
      by (subst compact_loop.simps)
        (use again c in \<open>auto simp: Let_def assms r m split: sum.splits prod.splits claim_outcome.splits
          store_error.splits option.splits\<close>)
  qed
qed

lemma publish_compact_returns:
  "ce_store E = S \<Longrightarrow> \<exists>y. publish_compact_classified E new_pack files now supersedes tier cl candidates s = Some y"
  using compact_loop_returns by (auto simp: publish_compact_classified_def split: prod.splits sum.splits)

end

section \<open>Properties\<close>

text \<open>
  C4. Sealing a pack replacement returns, and loses nothing: if it fails, the manifest is
  unchanged; if it reports success, either an earlier attempt had already sealed it, or the
  manifest it wrote lists packs with exactly the objects of the packs listed before, contains the
  object of every current ref, still serves every pack served before, and has only complete
  coverage certificates. Assumed of the caller's environment: loading the indexes of a manifest's
  packs gives their sorted object lists, a synced manifest lists no pack twice, and syncing and
  the lease heartbeat do not write the manifest.
\<close>

theorem replacement_loses_nothing:
  assumes "se_store E = prefixed p memory_store" "loads_indexes objs (se_load E)"
    and "\<And>t v t1. se_pview E t = (Inr v, t1) \<Longrightarrow> distinct (map pk_checksum (m_packs (pv_manifest v)))"
    and "\<And>n t. ms_view (snd (se_beat E n t)) (p @ MANIFEST) = ms_view t (p @ MANIFEST)"
    and "\<And>t. ms_view (snd (se_pview E t)) (p @ MANIFEST) = ms_view t (p @ MANIFEST)"
  shows "\<exists>r s'. seal_pack_replacement E repo captured inputs outputs snapshots s = Some (r, s') \<and>
    (case r of
       Inl _ \<Rightarrow> ms_view s' (p @ MANIFEST) = ms_view s (p @ MANIFEST)
     | Inr seq \<Rightarrow>
         (\<exists>t v t1 rc. se_pview E t = (Inr v, t1) \<and> se_config_for E (pv_manifest v) = Inr rc \<and>
            (ms_view s' (p @ MANIFEST) = ms_view s (p @ MANIFEST) \<and> seq = m_head_seq (pv_manifest v) \<and>
             sealed_already (pv_manifest v) (filter (\<lambda>c. c \<notin> set (map pk_checksum outputs)) inputs) outputs \<or>
             (\<exists>ver m. ms_view s' (p @ MANIFEST) = Some (ver, cd_enc_manifest (se_codec E) m) \<and> m_head_seq m = seq \<and>
                replacement_ok objs (se_from_hex E) v m \<and>
                certified (policy_identity (cd_sha256 (se_codec E)) rc) rc m))))"
proof -
  obtain r s' where y: "seal_pack_replacement E repo captured inputs outputs snapshots s = Some (r, s')"
    using pre.seal_replacement_returns [OF assms(1)] by (metis surj_pair)
  note outcome = pre.seal_replacement_outcome [OF assms y, unfolded pre.seal_outcome_def fst_conv snd_conv]
  show ?thesis by (intro exI conjI) (rule y, rule outcome)
qed

text \<open>
  C5. A compaction returns. If it fails, the manifest is unchanged; if it reports success, the
  manifest it wrote lists the packs of the manifest it started from less the superseded ones plus
  the new pack, serves exactly the packs served before and the new one, and has only complete
  coverage certificates. Assumed: a synced manifest lists no pack twice, and syncing does not
  write the manifest.
\<close>

theorem compaction_keeps_serving:
  assumes "ce_store E = prefixed p memory_store"
    and "\<And>b t m known t1. ce_resync E b t = (Inr (m, known), t1) \<Longrightarrow> distinct (map pk_checksum (m_packs m))"
    and "\<And>b t. ms_view (snd (ce_resync E b t)) (p @ MANIFEST) = ms_view t (p @ MANIFEST)"
  shows "\<exists>r s'. publish_compact_classified E new_pack files now supersedes tier cl candidates s = Some (r, s') \<and>
    (case r of
       Inl _ \<Rightarrow> ms_view s' (p @ MANIFEST) = ms_view s (p @ MANIFEST)
     | Inr seq \<Rightarrow>
         (\<exists>b t m known t1 rc ver m'. ce_resync E b t = (Inr (m, known), t1) \<and> ce_config_for E m = Inr rc \<and>
            ms_view s' (p @ MANIFEST) = Some (ver, cd_enc_manifest (ce_codec E) m') \<and> m_head_seq m' = seq \<and>
            compacted m (pi_checksum new_pack) supersedes m' \<and>
            certified (policy_identity (cd_sha256 (ce_codec E)) rc) rc m'))"
proof -
  obtain r s' where y: "publish_compact_classified E new_pack files now supersedes tier cl candidates s = Some (r, s')"
    using pre.publish_compact_returns [OF assms(1)] by (metis surj_pair)
  note outcome = pre.publish_compact_outcome [OF assms y, unfolded pre.compact_outcome_def fst_conv snd_conv]
  show ?thesis by (intro exI conjI) (rule y, rule outcome)
qed

text \<open>
  C39. When the settings of a repository do not validate, a compaction returns their error after it
  has written its log segment and does not remove it. Eight such compactions of an idle
  repository leave eight orphaned segments after the head, and from then on every attempt to claim
  a log slot, a push included, fails.
\<close>

theorem failed_compactions_block:
  assumes "ce_store E = prefixed p memory_store" "\<And>t. ce_resync E False t = (Inr (m, known), t)"
    and "ce_config_for E m = Inl e" "classified_output cl m p0 = Inr q"
    and "\<forall>n j. \<exists>b. candidate (ce_codec E) (frame_encode (ce_codec E)
        [compact_entry q supersedes (ae_published_at (ce_attempt E 0)) (ae_writer (ce_attempt E 0)) n]) (ae_nonce (ce_attempt E 0) j) = Inr b"
    and "head_at (ce_codec E) (ms_view s (p @ MANIFEST)) = Some (m_head_seq m)"
    and "\<forall>n \<ge> m_head_seq m + 1. ms_view s (p @ log_segment_key n) = None"
    and "\<forall>n j. \<exists>b. candidate (ce_codec E) (encode n) (nonce j) = Inr b"
  shows "\<exists>s'. compact_times MAX_BURN E p0 supersedes cl candidates s = Some s' \<and>
    (\<exists>msg. claim_log_slot (ce_codec E) (prefixed p memory_store) (m_head_seq m) encode nonce s' = Some (Inl (Corrupt msg), s'))"
proof -
  obtain s' where s': "compact_times MAX_BURN E p0 supersedes cl candidates s = Some s'"
    "ms_view s' (p @ MANIFEST) = ms_view s (p @ MANIFEST)"
    "\<forall>n \<in> {m_head_seq m + 1..<m_head_seq m + 1 + MAX_BURN}. ms_view s' (p @ log_segment_key n) \<noteq> None"
    using pre.compact_times_orphans [OF assms(1-6), of 0 MAX_BURN candidates] assms(7) by auto
  have "\<exists>msg. claim_loop (ce_codec E) (prefixed p memory_store) (m_head_seq m) encode nonce 0 (m_head_seq m + 1) [] s' =
      Some (Inl (Corrupt msg), s')"
    using assms(6) s'(2,3) by (intro pre.claim_loop_blocked [OF assms(8), of s' p "m_head_seq m" _ _ MAX_BURN])
      (simp_all add: MAX_BURN_def)
  then show ?thesis using s'(1) by (auto simp: claim_log_slot_def)
qed

section \<open>Concrete runs\<close>

definition sample_attempt :: attempt_env where
  "sample_attempt = \<lparr>ae_writer = ''w'', ae_published_at = epoch, ae_clock = (\<lambda>_. epoch), ae_now = epoch,
     ae_nonce = (\<lambda>_. ''n'')\<rparr>"

definition sample_pack :: "string \<Rightarrow> pack_ref" where
  "sample_pack c = default_pack_ref \<lparr>pk_checksum := c\<rparr>"

definition two_packs :: manifest where
  "two_packs = default_manifest \<lparr>m_repo := ''o/r'', m_packs := [sample_pack ''a'', sample_pack ''b'']\<rparr>"

definition sample_view :: publication_view where
  "sample_view = \<lparr>pv_manifest = two_packs, pv_version = None,
     pv_refs = \<lparr>sn_seq = 0, sn_object_format = ''sha1'', sn_refs = [\<lparr>r_name = ''refs/heads/main'', r_oid = ''2'', r_peeled = []\<rparr>],
       sn_head_target = [], sn_created_at = None\<rparr>, pv_config = default_refs_config\<rparr>"

definition sample_objects :: "string \<Rightarrow> oid list" where
  "sample_objects c = (if c = ''a'' then [''1''] else [''1'', ''2''])"

definition sample_seal_env :: "memory_state seal_env" where
  "sample_seal_env = \<lparr>se_codec = sample_codec, se_store = prefixed ''r/'' memory_store,
     se_config_for = (\<lambda>_. Inr default_refs_config), se_attempt = (\<lambda>_. sample_attempt),
     se_beat = (\<lambda>_ s. (Inr (), s)), se_pview = (\<lambda>s. (Inr sample_view, s)), se_from_hex = Inr,
     se_load = (\<lambda>m. Inr (map (\<lambda>p. (p, sample_objects (pk_checksum p))) (m_packs m))), se_max_retries = 3\<rparr>"

lemma sample_loads: "loads_indexes (\<lambda>c. set (sample_objects c)) (se_load sample_seal_env)"
  by (auto simp: loads_indexes_def sample_seal_env_def image_image sample_objects_def)

lemma prune_uncertified:
  assumes "\<forall>p \<in> set (m_packs m). pk_group_coverages p = []"
  shows "prune_invalid_coverages sha rc changed m = m"
proof -
  have "prune_round policy rc changed m = m" for policy
  proof -
    have "map (\<lambda>carrier. if pk_checksum carrier \<in> set changed then carrier
        else carrier \<lparr>pk_group_coverages := filter (coverage_valid policy rc m) (pk_group_coverages carrier)\<rparr>) (m_packs m) = m_packs m"
      by (rule map_idI) (use assms in auto)
    then show ?thesis by (simp add: prune_round_def)
  qed
  then show ?thesis using assms
    by (simp add: prune_invalid_coverages_def prune_loop.simps prune_removes_def list_ex_iff)
qed

lemma sample_seal_checks:
  "\<exists>m. seal_checks sample_seal_env sample_view [''a''] [sample_pack ''b''] [] sample_attempt sample_view s = (Inr m, s)"
  by (simp add: seal_checks_def sample_seal_env_def sample_view_def two_packs_def sample_pack_def sample_attempt_def
      classification_from_pack_def same_pack_bytes_def retire_outputs_def retire_packs_at_def prune_uncertified
      output_pack_def classification_apply_def validate_certificates_def live_packs_def default_pack_ref_def default_manifest_def
      verify_replacement_inventory_def index_union_def new_cursors_def advance_cursor_def sample_objects_def Let_def)

lemma sample_candidate:
  "\<exists>b. candidate sample_codec (frame_encode sample_codec [e]) n = Inr b"
  by (simp add: candidate_def del: encode_entries_simps)

lemma sample_seal_commits:
  "\<exists>s'. seal_pack_replacement sample_seal_env ''o/r'' sample_view [''a''] [sample_pack ''b''] [] memory_new = Some (Inr 1, s')"
proof -
  obtain m where m: "seal_checks sample_seal_env sample_view [''a''] [sample_pack ''b''] [] sample_attempt sample_view memory_new = (Inr m, memory_new)"
    using sample_seal_checks by blast
  let ?S = "prefixed ''r/'' memory_store"
  let ?enc = "\<lambda>q. frame_encode sample_codec [retire_entry [''a''] epoch ''w'' q]"
  have empty: "ms_view memory_new k = None" for k by (simp add: ms_view_def memory_new_def)
  obtain b where "candidate sample_codec (?enc (0 + 1)) ''n'' = Inr b" using sample_candidate by blast
  then obtain v s1 where c: "claim_log_slot sample_codec ?S 0 ?enc (\<lambda>_. ''n'') memory_new =
      Some (Inr (Claimed \<lparr>sl_key = log_segment_key 1, sl_version = v, sl_first_seq = 1, sl_bytes = b, sl_burned = []\<rparr>), s1)"
      and v1: "(\<lambda>k. ms_view s1 (''r/'' @ k)) = (\<lambda>k. ms_view memory_new (''r/'' @ k))(log_segment_key 1 \<mapsto> (v, b))"
    using pre.claim_loop_free [of sample_codec ?enc 1 "\<lambda>_. ''n''" 0 b memory_new "''r/''" 0 "[]"] empty
    unfolding claim_log_slot_def by (auto simp del: encode_entries_simps)
  have a: "put_allowed Create (map_option fst (ms_view s1 (''r/'' @ MANIFEST)))"
    using fun_cong [OF v1, of MANIFEST] empty by (simp add: put_allowed_def)
  obtain v2 s2 where "put_bytes ?S MANIFEST (cd_enc_manifest sample_codec
      (seal_manifest two_packs [''a''] \<lparr>sl_key = log_segment_key 1, sl_version = v, sl_first_seq = 1, sl_bytes = b, sl_burned = []\<rparr> epoch ''w'' m)) Create s1 =
      (Inr v2, s2)"
    using pre.put_bytes_accepted [OF a] by metis
  with m c have "seal_loop sample_seal_env sample_view [''a''] [sample_pack ''b''] [] 0 memory_new = Some (Inr 1, sweep_burned ?S
      \<lparr>sl_key = log_segment_key 1, sl_version = v, sl_first_seq = 1, sl_bytes = b, sl_burned = []\<rparr> s2)"
    by (subst seal_loop.simps)
      (simp add: Let_def sample_seal_env_def sample_view_def sample_attempt_def two_packs_def sample_pack_def default_manifest_def
        default_pack_ref_def sealed_already_def cas_mode_def)
  then show ?thesis
    by (simp add: seal_pack_replacement_def sample_view_def two_packs_def sample_pack_def)
qed

theorem replacement_loses_nothing_witness:
  "\<exists>s' ver m. seal_pack_replacement sample_seal_env ''o/r'' sample_view [''a''] [sample_pack ''b''] [] memory_new = Some (Inr 1, s') \<and>
     ms_view s' (''r/'' @ MANIFEST) = Some (ver, cd_enc_manifest sample_codec m) \<and>
     live_objects (\<lambda>c. set (sample_objects c)) m = {''1'', ''2''}"
proof -
  let ?E = sample_seal_env
  have E: "se_store ?E = prefixed ''r/'' memory_store" "\<And>t. se_pview ?E t = (Inr sample_view, t)" "\<And>n t. se_beat ?E n t = (Inr (), t)"
    "se_codec ?E = sample_codec"
    by (simp_all add: sample_seal_env_def)
  have d: "distinct (map pk_checksum (m_packs (pv_manifest sample_view)))"
    by (simp add: sample_view_def two_packs_def sample_pack_def)
  obtain s' where run: "seal_pack_replacement ?E ''o/r'' sample_view [''a''] [sample_pack ''b''] [] memory_new = Some (Inr 1, s')"
    using sample_seal_commits by blast
  have "m_head_seq two_packs \<noteq> 1" "live_objects (\<lambda>c. set (sample_objects c)) two_packs = {''1'', ''2''}"
    by (auto simp: two_packs_def default_manifest_def live_objects_def sample_pack_def sample_objects_def)
  then show ?thesis
    using replacement_loses_nothing [OF E(1) sample_loads, of "''o/r''" sample_view "[''a'']" "[sample_pack ''b'']" "[]" memory_new] E d run
    by (auto simp: replacement_ok_def sample_view_def)
qed

definition sample_compact_env :: "(wal_error, refs_config) result \<Rightarrow> memory_state compact_env" where
  "sample_compact_env cfg = \<lparr>ce_codec = sample_codec, ce_store = prefixed ''r/'' memory_store,
     ce_config_for = (\<lambda>_. cfg), ce_attempt = (\<lambda>_. sample_attempt),
     ce_resync = (\<lambda>_ s. (Inr (two_packs, None), s)), ce_max_retries = 3\<rparr>"

definition sample_info :: pack_info where
  "sample_info = \<lparr>pi_checksum = ''c'', pi_pack_size = 1, pi_idx_size = 1, pi_object_count = 2, pi_has_rev = False,
     pi_has_bitmap = False, pi_has_commit_graph = False, pi_history_of = None\<rparr>"

definition sample_files :: local_pack where
  "sample_files = \<lparr>lp_pack = Inr ''p'', lp_idx = Inr ''i'', lp_rev = None, lp_bitmap = None, lp_commit_graph = None\<rparr>"

theorem compaction_keeps_serving_witness:
  "\<exists>r s'. publish_compact_classified (sample_compact_env (Inr default_refs_config)) sample_info sample_files epoch
       [''a'', ''b''] 2 None [] memory_new = Some (r, s') \<and>
     (ms_view s' (''r/'' @ MANIFEST) = None \<or>
      (\<exists>ver m'. ms_view s' (''r/'' @ MANIFEST) = Some (ver, cd_enc_manifest sample_codec m') \<and>
         compacted two_packs ''c'' [''a'', ''b''] m'))"
proof -
  let ?E = "sample_compact_env (Inr default_refs_config)"
  have E: "ce_store ?E = prefixed ''r/'' memory_store" "\<And>b t. ce_resync ?E b t = (Inr (two_packs, None), t)" "ce_codec ?E = sample_codec"
    by (simp_all add: sample_compact_env_def)
  have d: "distinct (map pk_checksum (m_packs two_packs))" by (simp add: two_packs_def sample_pack_def)
  obtain r s' where y: "publish_compact_classified ?E sample_info sample_files epoch [''a'', ''b''] 2 None [] memory_new = Some (r, s')"
    and c: "case r of
       Inl _ \<Rightarrow> ms_view s' (''r/'' @ MANIFEST) = ms_view memory_new (''r/'' @ MANIFEST)
     | Inr seq \<Rightarrow>
         (\<exists>b t m known t1 rc ver m'. ce_resync ?E b t = (Inr (m, known), t1) \<and> ce_config_for ?E m = Inr rc \<and>
            ms_view s' (''r/'' @ MANIFEST) = Some (ver, cd_enc_manifest (ce_codec ?E) m') \<and> m_head_seq m' = seq \<and>
            compacted m (pi_checksum sample_info) [''a'', ''b''] m' \<and>
            certified (policy_identity (cd_sha256 (ce_codec ?E)) rc) rc m')"
    using compaction_keeps_serving [OF E(1), of sample_info sample_files epoch "[''a'', ''b'']" 2 None "[]" memory_new] E d by auto
  have "ms_view memory_new k = None" for k by (simp add: ms_view_def memory_new_def)
  with y c show ?thesis by (cases r) (auto simp: E sample_info_def)
qed

theorem failed_compactions_block_witness:
  "\<exists>s'. compact_times MAX_BURN (sample_compact_env (Inl (Invalid ''settings''))) (sample_pack ''c'') [] None [] memory_new = Some s' \<and>
     (\<exists>msg. claim_log_slot sample_codec (prefixed ''r/'' memory_store) 0
        (\<lambda>q. frame_encode sample_codec [default_log_entry \<lparr>le_seq := q\<rparr>]) (\<lambda>_. ''n'') s' = Some (Inl (Corrupt msg), s'))"
proof -
  let ?E = "sample_compact_env (Inl (Invalid ''settings''))"
  have E: "ce_store ?E = prefixed ''r/'' memory_store" "\<And>t. ce_resync ?E False t = (Inr (two_packs, None), t)"
    "ce_config_for ?E two_packs = Inl (Invalid ''settings'')" "ce_codec ?E = sample_codec"
    by (simp_all add: sample_compact_env_def)
  have "classified_output None two_packs (sample_pack ''c'') = Inr (sample_pack ''c'')"
    by (simp add: classified_output_def two_packs_def sample_pack_def)
  moreover have "ms_view memory_new k = None" for k by (simp add: ms_view_def memory_new_def)
  moreover have "m_head_seq two_packs = 0" by (simp add: two_packs_def default_manifest_def)
  ultimately show ?thesis
    using failed_compactions_block [OF E(1-3), of None "sample_pack ''c''" "sample_pack ''c''" "[]" memory_new
        "\<lambda>q. frame_encode sample_codec [default_log_entry \<lparr>le_seq := q\<rparr>]" "\<lambda>_. ''n''" "[]"]
    by (simp add: E(4) sample_candidate head_at_def del: encode_entries_simps)
qed

end
