(* ===== verification/Events.thy ===== *)
theory Events
  imports Checkpoint
begin

text \<open>
  Events about refs (\<open>walgit-server/src/events.rs\<close>) and the bridge that produces them from the log
  (\<open>bridge.rs\<close>). A sink is an argument: a function of the batch and of the outside world, which
  answers with an error or not. The JSON form of the cursor is an argument too. The gauges and
  counters of the bridge are left out, with the subtraction \<open>head - from\<close> one of them is set to.

  The lemmas: a consumer that applies the events of a verified log holds the refs that replaying
  the log gives; whatever fails or crashes, an event at or below the cursor was delivered to every
  sink or is of an entry that was folded away before the bridge read it, provided that no
  checkpoint is committed between the two manifests one run looks at; and that such a checkpoint
  loses events without a report.
\<close>

section \<open>Events of log entries (events.rs)\<close>

datatype event_action = ActCreate | ActUpdate | ActDelete

fun action_as_str :: "event_action \<Rightarrow> string" where
  "action_as_str ActCreate = ''create''"
| "action_as_str ActUpdate = ''update''"
| "action_as_str ActDelete = ''delete''"

definition absent :: "string \<Rightarrow> bool" where
  "absent oid \<longleftrightarrow> oid = [] \<or> list_all (\<lambda>b. b = CHR ''0'') oid"

definition event_classify :: "string \<Rightarrow> string \<Rightarrow> event_action option" where
  "event_classify old new =
     (case (absent old, absent new) of
        (True, True) \<Rightarrow> None
      | (True, False) \<Rightarrow> Some ActCreate
      | (False, True) \<Rightarrow> Some ActDelete
      | (False, False) \<Rightarrow> if old = new then None else Some ActUpdate)"

definition zero_like :: "string \<Rightarrow> string" where
  "zero_like other = replicate (length other) (CHR ''0'')"

definition ref_type :: "string \<Rightarrow> string" where
  "ref_type name =
     (if starts_with name ''refs/heads/'' then ''branch''
      else if starts_with name ''refs/tags/'' then ''tag'' else [])"

record walgit_ext =
  wx_schema_version :: nat
  wx_seq :: string
  wx_entry_kind :: string
  wx_request_id :: string

record ref_event =
  ev_action :: event_action
  ev_ref_type :: string
  ev_ref_name :: string
  ev_old :: string
  ev_new :: string
  ev_pusher :: string
  ev_correlation_id :: string
  ev_repo :: string
  ev_walgit :: walgit_ext

definition event_key :: "ref_event \<Rightarrow> string" where
  "event_key ev = ev_repo ev @ ''/'' @ ev_ref_name ev"

definition event_headers :: "ref_event \<Rightarrow> (string \<times> string) list" where
  "event_headers ev =
     [(''repo'', ev_repo ev), (''action'', action_as_str (ev_action ev)), (''ref_type'', ev_ref_type ev),
      (''ref_name'', ev_ref_name ev), (''pusher'', ev_pusher ev), (''seq'', wx_seq (ev_walgit ev)),
      (''correlation_id'', ev_correlation_id ev)]"

definition event_kind :: "entry_kind \<Rightarrow> string option" where
  "event_kind k = (case k of EK_Push \<Rightarrow> Some ''push'' | EK_RefUpdate \<Rightarrow> Some ''ref_update'' | _ \<Rightarrow> None)"

text \<open>The body of the inner loop: the event of one update, if it has one.\<close>

definition update_event :: "repo_id \<Rightarrow> log_entry \<Rightarrow> string \<Rightarrow> ref_update \<Rightarrow> ref_event option" where
  "update_event repo e kind u =
     (if u_new_symbolic_target u \<noteq> [] then None
      else case event_classify (u_old_oid u) (u_new_oid u) of
        None \<Rightarrow> None
      | Some action \<Rightarrow>
          (let (old, new) = (case action of
                 ActCreate \<Rightarrow> (zero_like (u_new_oid u), u_new_oid u)
               | ActDelete \<Rightarrow> (u_old_oid u, zero_like (u_old_oid u))
               | ActUpdate \<Rightarrow> (u_old_oid u, u_new_oid u));
               request_id = unwrap_or_default (bt_get (le_meta e) ''request_id'')
           in Some \<lparr>ev_action = action, ev_ref_type = ref_type (u_name u), ev_ref_name = u_name u,
                ev_old = old, ev_new = new,
                ev_pusher = unwrap_or_default (bt_get (le_meta e) ''principal''),
                ev_correlation_id = request_id, ev_repo = repo_id_display repo,
                ev_walgit = \<lparr>wx_schema_version = 1, wx_seq = show_nat (le_seq e), wx_entry_kind = kind,
                  wx_request_id = request_id\<rparr>\<rparr>))"

definition entry_events :: "repo_id \<Rightarrow> log_entry \<Rightarrow> ref_event list" where
  "entry_events repo e =
     (case (event_kind (le_kind e), le_txn e) of
        (Some kind, Some txn) \<Rightarrow> List.map_filter (update_event repo e kind) (tx_updates txn)
      | _ \<Rightarrow> [])"

definition refs_from_entries :: "repo_id \<Rightarrow> log_entry list \<Rightarrow> ref_event list" where
  "refs_from_entries repo entries = concat (map (entry_events repo) entries)"

section \<open>A consumer's copy of the refs\<close>

text \<open>What a consumer does with an event.\<close>

definition apply_event :: "ref_event \<Rightarrow> (string \<Rightarrow> string option) \<Rightarrow> (string \<Rightarrow> string option)" where
  "apply_event ev refs =
     (case ev_action ev of ActDelete \<Rightarrow> refs(ev_ref_name ev := None) | _ \<Rightarrow> refs(ev_ref_name ev \<mapsto> ev_new ev))"

text \<open>
  A log whose entries passed the publisher: every transaction was valid and verified against the
  refs before it, and entries that move refs are pushes or ref updates.
\<close>

fun entries_verified :: "log_entry list \<Rightarrow> ref_view \<Rightarrow> bool" where
  "entries_verified [] v = True"
| "entries_verified (e # es) v =
     ((\<forall>u \<in> set (entry_updates e). validate_ref_update u = Inr () \<and> snd (verify_update v u) = Inr ()) \<and>
      (event_kind (le_kind e) = None \<longrightarrow> entry_updates e = []) \<and>
      entries_verified es (apply_entry e v))"

lemma event_classify_simps [simp]:
  "event_classify old new = Some ActCreate \<longleftrightarrow> absent old \<and> \<not> absent new"
  "event_classify old new = Some ActDelete \<longleftrightarrow> \<not> absent old \<and> absent new"
  "event_classify old new = Some ActUpdate \<longleftrightarrow> \<not> absent old \<and> \<not> absent new \<and> old \<noteq> new"
  "event_classify old new = None \<longleftrightarrow> absent old \<and> absent new \<or> \<not> absent old \<and> old = new"
  by (auto simp: event_classify_def split: if_splits bool.splits)

lemma absent_null: "absent oid = is_null_oid oid"
  by (simp add: absent_def is_null_oid_def)

text \<open>What a verified update does to the refs, seen through its event.\<close>

lemma update_event_applies:
  assumes "update_event repo e kind u = ev" "n \<noteq> ''HEAD''" "refs n = ref_map v n"
    and "u_new_symbolic_target u \<noteq> [] \<longrightarrow> u_name u = ''HEAD''"
    and "u_name u = n \<longrightarrow> (if is_null_oid (u_old_oid u) then unwrap_or_default (ref_map v n) = []
      else ref_map v n = Some (u_old_oid u))"
    and "ref_map v n \<noteq> Some []"
  shows "(case ev of None \<Rightarrow> refs | Some x \<Rightarrow> apply_event x refs) n = ref_map (apply_update u v) n"
proof (cases "u_new_symbolic_target u = []")
  case False
  then show ?thesis using assms by (auto simp: update_event_def apply_update_def)
next
  case True
  note d = update_event_def apply_update_def apply_event_def absent_null [symmetric]
  show ?thesis
  proof (cases "event_classify (u_old_oid u) (u_new_oid u)")
    case None
    with True assms show ?thesis
      by (cases "ref_map v n") (auto simp: d unwrap_or_default_def)
  next
    case (Some a)
    with True assms show ?thesis by (cases a) (auto simp: d Let_def)
  qed
qed

text \<open>An update is consistent with a view about the ref \<open>n\<close>: what verification checks.\<close>

abbreviation old_matches :: "ref_view \<Rightarrow> string \<Rightarrow> ref_update \<Rightarrow> bool" where
  "old_matches v n u \<equiv> u_name u = n \<longrightarrow>
     (if is_null_oid (u_old_oid u) then unwrap_or_default (ref_map v n) = [] else ref_map v n = Some (u_old_oid u))"

lemma apply_update_other: "u_name u \<noteq> n \<Longrightarrow> ref_map (apply_update u v) n = ref_map v n"
  by (simp add: apply_update_def)

lemma apply_update_nonempty:
  "ref_map v n \<noteq> Some [] \<Longrightarrow> ref_map (apply_update u v) n \<noteq> Some []"
  by (auto simp: apply_update_def is_null_oid_def)

lemma updates_events:
  assumes "distinct (map u_name us)" "n \<noteq> ''HEAD''" "refs n = ref_map v n" "ref_map v n \<noteq> Some []"
    and "\<forall>u \<in> set us. (u_new_symbolic_target u \<noteq> [] \<longrightarrow> u_name u = ''HEAD'') \<and>
      (u_new_symbolic_target u = [] \<longrightarrow> old_matches v n u)"
  shows "fold apply_event (List.map_filter (update_event repo e kind) us) refs n = ref_map (fold apply_update us v) n
    \<and> ref_map (fold apply_update us v) n \<noteq> Some []"
  using assms
proof (induction us arbitrary: refs v)
  case (Cons u us)
  let ?ev = "update_event repo e kind u"
  let ?refs = "case ?ev of None \<Rightarrow> refs | Some x \<Rightarrow> apply_event x refs"
  have step: "?refs n = ref_map (apply_update u v) n"
    using Cons.prems by (intro update_event_applies [OF refl]) auto
  have rest: "\<forall>x \<in> set us. (u_new_symbolic_target x \<noteq> [] \<longrightarrow> u_name x = ''HEAD'') \<and>
      (u_new_symbolic_target x = [] \<longrightarrow> old_matches (apply_update u v) n x)"
  proof
    fix x assume x: "x \<in> set us"
    have "u_name u \<noteq> n" if "u_name x = n" using Cons.prems(1) x that by force
    then show "(u_new_symbolic_target x \<noteq> [] \<longrightarrow> u_name x = ''HEAD'') \<and>
      (u_new_symbolic_target x = [] \<longrightarrow> old_matches (apply_update u v) n x)"
      using Cons.prems(5) x by (simp add: apply_update_other)
  qed
  have d: "distinct (map u_name us)" "ref_map (apply_update u v) n \<noteq> Some []"
    using Cons.prems apply_update_nonempty by simp_all
  show ?case using Cons.IH [of ?refs "apply_update u v", OF d(1) Cons.prems(2) step d(2) rest]
    by (cases ?ev) (simp_all add: List.map_filter_def)
qed (simp_all add: List.map_filter_def)

lemma verified_matches:
  assumes "validate_ref_update u = Inr ()" "snd (verify_update v u) = Inr ()" "n \<noteq> ''HEAD''"
    and "names_sorted (rsd_refs (rv_base v))"
  shows "(u_new_symbolic_target u \<noteq> [] \<longrightarrow> u_name u = ''HEAD'') \<and> (u_new_symbolic_target u = [] \<longrightarrow> old_matches v n u)"
proof -
  have "old_matches v n u" if "u_new_symbolic_target u = []"
    using that assms(2-4) ref_get_plain [OF assms(4,3)]
    by (cases "ref_map v n") (auto simp: verify_update_def Let_def unwrap_or_default_def is_null_oid_def split: if_splits)
  then show ?thesis using validated_symbolic [OF assms(1)] by blast
qed

lemma entry_events_apply:
  assumes "\<forall>u \<in> set (entry_updates e). validate_ref_update u = Inr () \<and> snd (verify_update v u) = Inr ()"
    and "distinct (map u_name (entry_updates e))" "event_kind (le_kind e) = None \<longrightarrow> entry_updates e = []"
    and "names_sorted (rsd_refs (rv_base v))" "n \<noteq> ''HEAD''" "refs n = ref_map v n" "ref_map v n \<noteq> Some []"
  shows "fold apply_event (entry_events repo e) refs n = ref_map (apply_entry e v) n"
    and "ref_map (apply_entry e v) n \<noteq> Some []"
proof -
  have us: "\<forall>u \<in> set (entry_updates e). (u_new_symbolic_target u \<noteq> [] \<longrightarrow> u_name u = ''HEAD'') \<and>
      (u_new_symbolic_target u = [] \<longrightarrow> old_matches v n u)"
    using assms(1,4,5) verified_matches by blast
  note r = updates_events [of "entry_updates e" n refs v, OF assms(2,5-7) us]
  show "ref_map (apply_entry e v) n \<noteq> Some []" using r by (simp add: apply_entry_updates)
  show "fold apply_event (entry_events repo e) refs n = ref_map (apply_entry e v) n"
  proof (cases "event_kind (le_kind e)")
    case None
    then show ?thesis using assms(3,6) by (simp add: entry_events_def apply_entry_updates)
  next
    case (Some kind)
    have "entry_events repo e = List.map_filter (update_event repo e kind) (entry_updates e)"
      by (cases "le_txn e") (simp_all add: entry_events_def Some entry_updates_def List.map_filter_def)
    then show ?thesis using r [of repo e kind] by (simp add: apply_entry_updates)
  qed
qed

lemma entries_verified_valid:
  "entries_verified es v \<Longrightarrow> list_all (\<lambda>e. list_all (\<lambda>u. validate_ref_update u = Inr ()) (entry_updates e)) es"
  by (induction es arbitrary: v) (auto simp: list_all_iff)

lemma entries_events_apply:
  assumes "entries_verified es v" "names_sorted (rsd_refs (rv_base v))" "n \<noteq> ''HEAD''"
    and "refs n = ref_map v n" "ref_map v n \<noteq> Some []"
    and "list_all (\<lambda>e. distinct (map u_name (entry_updates e))) es"
  shows "fold apply_event (refs_from_entries repo es) refs n = ref_map (fold apply_entry es v) n"
  using assms
proof (induction es arbitrary: refs v)
  case (Cons e es)
  have e: "fold apply_event (entry_events repo e) refs n = ref_map (apply_entry e v) n"
    "ref_map (apply_entry e v) n \<noteq> Some []"
    using entry_events_apply [of e v n refs] Cons.prems by auto
  have "entries_verified es (apply_entry e v)" "names_sorted (rsd_refs (rv_base (apply_entry e v)))"
    using Cons.prems by (simp_all add: apply_entry_updates)
  moreover have "list_all (\<lambda>e. distinct (map u_name (entry_updates e))) es" using Cons.prems(6) by simp
  ultimately show ?case
    using Cons.IH [of "apply_entry e v" "fold apply_event (entry_events repo e) refs", OF _ _ Cons.prems(3) e]
    by (simp add: refs_from_entries_def)
qed (simp add: refs_from_entries_def)


section \<open>Reading the log from a fresh manifest (sync.rs, log_reader.rs)\<close>

datatype sync_outcome = Unchanged | Changed version manifest

definition freshness_check ::
  "codec \<Rightarrow> 's object_store \<Rightarrow> version option \<Rightarrow> 's \<Rightarrow> (wal_error, sync_outcome) result \<times> 's" where
  "freshness_check cd S known s =
     (let outcome = (case known of
        Some v \<Rightarrow>
          (case get_message_if_changed (cd_dec_manifest cd) S MANIFEST v s of
             (Inl e, s1) \<Rightarrow> (Inl (WalCoord e), s1)
           | (Inr None, s1) \<Rightarrow> (Inr Unchanged, s1)
           | (Inr (Some (meta, m)), s1) \<Rightarrow> (Inr (Changed (om_version meta) m), s1))
      | None \<Rightarrow>
          (case get_message (cd_dec_manifest cd) S MANIFEST s of
             (Inl e, s1) \<Rightarrow> (Inl (WalCoord e), s1)
           | (Inr None, s1) \<Rightarrow> (Inl WalNotFound, s1)
           | (Inr (Some (meta, m)), s1) \<Rightarrow> (Inr (Changed (om_version meta) m), s1)))
      in case outcome of
           (Inr (Changed v m), s1) \<Rightarrow>
             (case validate_manifest m of Inl e \<Rightarrow> (Inl e, s1) | Inr _ \<Rightarrow> (Inr (Changed v m), s1))
         | other \<Rightarrow> other)"

text \<open>\<open>held\<close> and \<open>known\<close> are the manifest and version of the handle (\<open>manifest_pair\<close>).\<close>

definition read_log_impl ::
  "codec \<Rightarrow> 's object_store \<Rightarrow> manifest \<times> version option \<Rightarrow> nat \<Rightarrow> nat option \<Rightarrow> 's \<Rightarrow>
     (wal_error, log_entry list) result \<times> 's" where
  "read_log_impl cd S held from_seq to_seq s =
     (case freshness_check cd S (snd held) s of
        (Inl e, s1) \<Rightarrow> (Inl e, s1)
      | (Inr Unchanged, s1) \<Rightarrow> read_log_manifest cd S (fst held) from_seq to_seq s1
      | (Inr (Changed _ m), s1) \<Rightarrow> read_log_manifest cd S m from_seq to_seq s1)"

section \<open>The bridge (bridge.rs)\<close>

definition CURSOR_KEY :: string where "CURSOR_KEY = ''events/cursor.json''"

record event_cursor =
  cu_published_seq :: nat
  cu_updated_at :: string

record catch_up_report =
  cr_repo :: string
  cr_from_seq :: nat
  cr_head_seq :: nat
  cr_emitted :: nat
  cr_gap :: "(nat \<times> nat) option"

datatype bridge_error =
    BridgeWal wal_error
  | BridgeStore store_error
  | BridgeCursor string
  | BridgeSink string string

record 'w sink =
  sk_name :: string
  sk_deliver :: "ref_event list \<Rightarrow> 'w \<Rightarrow> (string, unit) result \<times> 'w"

fun deliver_all :: "'w sink list \<Rightarrow> ref_event list \<Rightarrow> 'w \<Rightarrow> (bridge_error, unit) result \<times> 'w" where
  "deliver_all [] batch w = (Inr (), w)"
| "deliver_all (k # ks) batch w =
     (case sk_deliver k batch w of
        (Inl e, w1) \<Rightarrow> (Inl (BridgeSink (sk_name k) e), w1)
      | (Inr _, w1) \<Rightarrow> deliver_all ks batch w1)"

definition bridge_publish :: "'w sink list \<Rightarrow> ref_event list \<Rightarrow> 'w \<Rightarrow> (bridge_error, unit) result \<times> 'w" where
  "bridge_publish sinks batch w = (if batch = [] then (Inr (), w) else deliver_all sinks batch w)"

text \<open>
  What a run reads before it delivers: the cursor with its version. \<open>dec\<close> is serde's reading of
  the JSON document.
\<close>

definition read_cursor ::
  "event_cursor decoder \<Rightarrow> 's object_store \<Rightarrow> 's \<Rightarrow> (bridge_error, (nat \<times> version) option) result \<times> 's" where
  "read_cursor dec S s =
     (case get_bytes S CURSOR_KEY s of
        (Inl e, s1) \<Rightarrow> (Inl (BridgeStore e), s1)
      | (Inr None, s1) \<Rightarrow> (Inr None, s1)
      | (Inr (Some (meta, b)), s1) \<Rightarrow>
          (case dec b of
             Inl e \<Rightarrow> (Inl (BridgeCursor e), s1)
           | Inr c \<Rightarrow> (Inr (Some (cu_published_seq c, om_version meta)), s1)))"

definition write_cursor ::
  "event_cursor encoder \<Rightarrow> 's object_store \<Rightarrow> (nat \<times> version) option \<Rightarrow> string \<Rightarrow> nat \<Rightarrow> 's \<Rightarrow>
     (bridge_error, unit) result \<times> 's" where
  "write_cursor enc S cur now head s =
     (if map_option fst cur = Some head then (Inr (), s)
      else
        (case put_bytes S CURSOR_KEY (enc \<lparr>cu_published_seq = head, cu_updated_at = now\<rparr>)
                (case cur of Some (_, v) \<Rightarrow> Update v | None \<Rightarrow> Create) s of
           (Inr _, s1) \<Rightarrow> (Inr (), s1)
         | (Inl (PreconditionFailed _ _), s1) \<Rightarrow> (Inr (), s1)
         | (Inl e, s1) \<Rightarrow> (Inl (BridgeStore e), s1)))"

text \<open>Where a run starts, and the gap it reports.\<close>

definition start_of_run :: "manifest \<Rightarrow> nat option \<Rightarrow> nat \<times> (nat \<times> nat) option" where
  "start_of_run m cur =
     (let readable_from = m_min_seq m - 1;
          from = (case cur of Some c \<Rightarrow> c | None \<Rightarrow> readable_from)
      in if from < readable_from then (readable_from, Some (from + 1, readable_from)) else (from, None))"

text \<open>
  \<open>catch_up\<close>. \<open>synced\<close> opens and syncs the repository and gives the manifest its handle then holds;
  \<open>held\<close> is what the handle holds when the log is read.
\<close>

definition catch_up ::
  "codec \<Rightarrow> event_cursor decoder \<Rightarrow> event_cursor encoder \<Rightarrow> 's object_store \<Rightarrow>
     ('s \<Rightarrow> (wal_error, manifest) result \<times> 's) \<Rightarrow> ('s \<Rightarrow> manifest \<times> version option) \<Rightarrow>
     'w sink list \<Rightarrow> string \<Rightarrow> repo_id \<Rightarrow> 's \<Rightarrow> 'w \<Rightarrow> (bridge_error, catch_up_report) result \<times> 's \<times> 'w" where
  "catch_up cd dec enc S synced held sinks now repo s w =
     (case synced s of
        (Inl e, s1) \<Rightarrow> (Inl (BridgeWal e), s1, w)
      | (Inr m, s1) \<Rightarrow>
          (case read_cursor dec S s1 of
             (Inl e, s2) \<Rightarrow> (Inl e, s2, w)
           | (Inr cur, s2) \<Rightarrow>
               (let head = m_head_seq m;
                    (from, gap) = start_of_run m (map_option fst cur);
                    report = \<lparr>cr_repo = repo_id_display repo, cr_from_seq = from, cr_head_seq = head,
                      cr_emitted = 0, cr_gap = gap\<rparr>;
                    finish = (\<lambda>report s3 w1. case write_cursor enc S cur now head s3 of
                        (Inl e, s4) \<Rightarrow> (Inl e, s4, w1)
                      | (Inr _, s4) \<Rightarrow> (Inr report, s4, w1))
                in if head > from then
                     (case read_log_impl cd S (held s2) (from + 1) (Some head) s2 of
                        (Inl e, s3) \<Rightarrow> (Inl (BridgeWal e), s3, w)
                      | (Inr entries, s3) \<Rightarrow>
                          (let batch = refs_from_entries repo entries in
                           case bridge_publish sinks batch w of
                             (Inl e, w1) \<Rightarrow> (Inl e, s3, w1)
                           | (Inr _, w1) \<Rightarrow> finish (report \<lparr>cr_emitted := length batch\<rparr>) s3 w1))
                   else finish report s2 w)))"


section \<open>A run on a quiet repository\<close>

lemma start_of_run_readable: "start_of_run m cur = (from, gap) \<Longrightarrow> m_min_seq m \<le> from + 1"
  by (auto simp: start_of_run_def Let_def split: if_splits option.splits)

lemma start_of_run_above: "start_of_run m (Some c) = (from, gap) \<Longrightarrow>
    c \<le> from \<and> (c < from \<longrightarrow> gap = Some (c + 1, from))"
  by (auto simp: start_of_run_def Let_def split: if_splits)

definition cursor_at :: "event_cursor decoder \<Rightarrow> (version \<times> bytes) option \<Rightarrow> nat option" where
  "cursor_at dec x = (case x of None \<Rightarrow> None | Some (_, b) \<Rightarrow>
     (case dec b of Inl _ \<Rightarrow> None | Inr c \<Rightarrow> Some (cu_published_seq c)))"

context versioned_store begin

lemma read_log_fresh:
  assumes "view s MANIFEST = Some (v, cd_enc_manifest cd mc)" "cd_dec_manifest cd (cd_enc_manifest cd mc) = Inr mc"
    and "validate_manifest mc = Inr ()" "snd held = Some v \<longrightarrow> fst held = mc" "log_wf cd (view s) mc"
  shows "read_log_impl cd S held a (Some q) s =
    (Inr (filter (\<lambda>e. a \<le> le_seq e \<and> le_seq e \<le> min q (m_head_seq mc)) (log_entries cd (view s) (m_log_segments mc))), s)"
proof -
  have "freshness_check cd S (snd held) s = (Inr (if snd held = Some v then Unchanged else Changed v mc), s)"
  proof (cases "snd held")
    case None
    then show ?thesis using assms(1-3)
      by (simp add: freshness_check_def get_message_view object_meta_of_def)
  next
    case (Some w)
    then show ?thesis
      using assms(1-3) get_if_changed_same [of s MANIFEST v] get_if_changed_new [of s MANIFEST v _ w]
      by (cases "w = v") (auto simp: freshness_check_def get_message_if_changed_def object_meta_of_def)
  qed
  then show ?thesis using assms(4) read_log_quiet [OF assms(5)] by (auto simp: read_log_impl_def)
qed

lemma read_cursor_quiet:
  assumes "read_cursor dec S s = (r, s')"
  shows "s' = s" "r = Inr cur \<Longrightarrow> cursor_at dec (view s CURSOR_KEY) = map_option fst cur"
    "r = Inr cur \<Longrightarrow> map_option snd cur = map_option fst (view s CURSOR_KEY)"
  using assms by (auto simp: read_cursor_def get_bytes_view cursor_at_def object_meta_of_def
      split: option.splits sum.splits)

lemma write_cursor_quiet:
  assumes "write_cursor enc S cur now q s = (r, s')" "map_option snd cur = map_option fst (view s CURSOR_KEY)"
    and "dec (enc \<lparr>cu_published_seq = q, cu_updated_at = now\<rparr>) = Inr \<lparr>cu_published_seq = q, cu_updated_at = now\<rparr>"
    and "cursor_at dec (view s CURSOR_KEY) = map_option fst cur"
  shows "r = Inr ()" "cursor_at dec (view s' CURSOR_KEY) = Some q"
proof -
  let ?d = "enc \<lparr>cu_published_seq = q, cu_updated_at = now\<rparr>"
  let ?mode = "case cur of Some (_, v) \<Rightarrow> Update v | None \<Rightarrow> Create"
  have "r = Inr () \<and> cursor_at dec (view s' CURSOR_KEY) = Some q"
  proof (cases "map_option fst cur = Some q")
    case True
    then show ?thesis using assms(1,4) by (simp add: write_cursor_def)
  next
    case False
    have "put_allowed ?mode (map_option fst (view s CURSOR_KEY))"
      unfolding assms(2) [symmetric] by (cases cur) (auto simp: put_allowed_def)
    from put_bytes_accepted [OF this] obtain v t where
      "put_bytes S CURSOR_KEY ?d ?mode s = (Inr (object_meta_of CURSOR_KEY (v, ?d)), t)"
      "view t = (view s)(CURSOR_KEY \<mapsto> (v, ?d))" by metis
    then show ?thesis using False assms(1,3) by (auto simp: write_cursor_def cursor_at_def)
  qed
  then show "r = Inr ()" "cursor_at dec (view s' CURSOR_KEY) = Some q" by auto
qed

text \<open>
  A run with nobody writing meanwhile. A failed run leaves the store as it was; a successful one
  delivered the entries from where it starts to the head it saw and moved the cursor there.
\<close>

lemma catch_up_quiet:
  assumes "catch_up cd dec enc S (\<lambda>t. (Inr m, t)) held sinks now repo s w = (r, s', w')"
    and "view s MANIFEST = Some (v, cd_enc_manifest cd mc)" "cd_dec_manifest cd (cd_enc_manifest cd mc) = Inr mc"
    and "validate_manifest mc = Inr ()" "snd (held s) = Some v \<longrightarrow> fst (held s) = mc" "log_wf cd (view s) mc"
    and "\<And>c. dec (enc c) = Inr c"
    and "start_of_run m (cursor_at dec (view s CURSOR_KEY)) = (from, gap)"
  defines "batch \<equiv> refs_from_entries repo (filter (\<lambda>e. from < le_seq e \<and> le_seq e \<le> min (m_head_seq m) (m_head_seq mc))
      (log_entries cd (view s) (m_log_segments mc)))"
  shows "\<not> is_ok r \<and> s' = s \<and> (w' = w \<or> (\<exists>e. bridge_publish sinks batch w = (Inl e, w'))) \<or>
    (\<exists>report. r = Inr report \<and> cr_from_seq report = from \<and> cr_gap report = gap \<and>
       cursor_at dec (view s' CURSOR_KEY) = Some (m_head_seq m) \<and>
       (if m_head_seq m > from then bridge_publish sinks batch w = (Inr (), w') else w' = w))"
proof -
  obtain rc s1 where rc: "read_cursor dec S s = (rc, s1)" by force
  note c = read_cursor_quiet [OF rc]
  note log = read_log_fresh [OF assms(2-6), of "from + 1" "m_head_seq m"]
  show ?thesis
  proof (cases rc)
    case (Inl e)
    then show ?thesis using assms(1) rc c(1) by (auto simp: catch_up_def)
  next
    case (Inr cur)
    have start: "start_of_run m (map_option fst cur) = (from, gap)" using assms(8) c(2) [OF Inr] by simp
    note wr = write_cursor_quiet [where dec = dec and enc = enc and cur = cur and now = now and q = "m_head_seq m" and s = s, OF _ c(3) [OF Inr] assms(7) c(2) [OF Inr]]
    show ?thesis
    proof (cases "m_head_seq m > from")
      case True
      obtain rp w1 where rp: "bridge_publish sinks batch w = (rp, w1)" by force
      show ?thesis
      proof (cases rp)
        case (Inl e)
        then show ?thesis
          using assms(1) rc rp c(1) True start log \<open>rc = Inr cur\<close>
          by (auto simp: catch_up_def batch_def Let_def Suc_le_eq)
      next
        case ok: (Inr u)
        obtain rw s4 where rw: "write_cursor enc S cur now (m_head_seq m) s = (rw, s4)" by force
        then show ?thesis
          using assms(1) rc rp c(1) True start log \<open>rc = Inr cur\<close> ok wr [OF rw]
          by (auto simp: catch_up_def batch_def Let_def Suc_le_eq)
      qed
    next
      case False
      obtain rw s4 where rw: "write_cursor enc S cur now (m_head_seq m) s = (rw, s4)" by force
      then show ?thesis
        using assms(1) rc c(1) False start \<open>rc = Inr cur\<close> wr [OF rw]
        by (auto simp: catch_up_def Let_def)
    qed
  qed
qed

end

section \<open>Runs among commits, failures and crashes\<close>

text \<open>A sink that may refuse any batch; what it accepted is recorded with its name.\<close>

type_synonym acks = "(string \<times> ref_event list) list"

definition recording :: "(string \<Rightarrow> ref_event list \<Rightarrow> bool) \<Rightarrow> string \<Rightarrow> acks sink" where
  "recording accepts name = \<lparr>sk_name = name, sk_deliver = (\<lambda>batch acks.
     if accepts name batch then (Inr (), acks @ [(name, batch)]) else (Inl ''refused'', acks))\<rparr>"

text \<open>
  The manifest's log is the history from its first readable entry on. \<open>H\<close> is every entry that was
  ever committed.
\<close>

definition window_ok ::
  "codec \<Rightarrow> (string \<Rightarrow> (version \<times> bytes) option) \<Rightarrow> manifest \<Rightarrow> log_entry list \<Rightarrow> bool" where
  "window_ok cd V m H \<longleftrightarrow> log_wf cd V m \<and> (\<forall>e \<in> set H. m_min_seq m \<le> le_seq e \<longrightarrow> le_seq e \<le> m_head_seq m \<longrightarrow>
     e \<in> set (log_entries cd V (m_log_segments m)))"

text \<open>
  The states of a repository with one bridge, whose store operations do not fail: the store, the
  committed head, the history, what the sinks acknowledged, the reports of the runs that returned one,
  and for each of these the first readable sequence numbers of the two manifests it used, the one it
  synced to and the one it read the log with. Between two runs everything but the cursor may change;
  a run may work with an old manifest, and a checkpoint may fall between its two manifests. A run that
  crashes leaves some acknowledged deliveries and the cursor where it was.
\<close>

inductive bridge_reach ::
  "codec \<Rightarrow> event_cursor decoder \<Rightarrow> event_cursor encoder \<Rightarrow> string \<Rightarrow> repo_id \<Rightarrow> string list \<Rightarrow>
     memory_state \<Rightarrow> nat \<Rightarrow> log_entry list \<Rightarrow> acks \<Rightarrow> catch_up_report list \<Rightarrow> (nat \<times> nat) list \<Rightarrow> bool"
  for cd dec enc p repo names where
  start: "ms_view s (p @ CURSOR_KEY) = None \<Longrightarrow> bridge_reach cd dec enc p repo names s h H [] [] []"
| others: "bridge_reach cd dec enc p repo names s h H acks reports used \<Longrightarrow>
    ms_view s' (p @ CURSOR_KEY) = ms_view s (p @ CURSOR_KEY) \<Longrightarrow>
    h \<le> h' \<Longrightarrow> \<forall>e \<in> set H2. h < le_seq e \<Longrightarrow>
    bridge_reach cd dec enc p repo names s' h' (H @ H2) acks reports used"
| crash: "bridge_reach cd dec enc p repo names s h H acks reports used \<Longrightarrow>
    bridge_reach cd dec enc p repo names s h H (acks @ delivered) reports used"
| run: "bridge_reach cd dec enc p repo names s h H acks reports used \<Longrightarrow>
    ms_view s (p @ MANIFEST) = Some (v, cd_enc_manifest cd mc) \<Longrightarrow> validate_manifest mc = Inr () \<Longrightarrow>
    window_ok cd (\<lambda>k. ms_view s (p @ k)) mc H \<Longrightarrow> m_head_seq m \<le> m_head_seq mc \<Longrightarrow> m_head_seq mc \<le> h \<Longrightarrow>
    snd (held s) = Some v \<longrightarrow> fst (held s) = mc \<Longrightarrow>
    catch_up cd dec enc (prefixed p memory_store) (\<lambda>t. (Inr m, t)) held (map (recording accepts) names) now repo s acks
      = (r, s', acks') \<Longrightarrow>
    bridge_reach cd dec enc p repo names s' h H acks'
      (case r of Inl _ \<Rightarrow> reports | Inr report \<Rightarrow> reports @ [report])
      (case r of Inl _ \<Rightarrow> used | Inr _ \<Rightarrow> used @ [(m_min_seq m, m_min_seq mc)])"

text \<open>
  An entry in the log of the manifest a run synced to and folded into a checkpoint by the one it read
  the log with.
\<close>

definition folded_within_run :: "nat \<Rightarrow> (nat \<times> nat) list \<Rightarrow> bool" where
  "folded_within_run q used = (\<exists>(a, b) \<in> set used. a \<le> q \<and> q < b)"

definition in_gap :: "nat \<Rightarrow> catch_up_report \<Rightarrow> bool" where
  "in_gap q report = (case cr_gap report of None \<Rightarrow> False | Some (a, b) \<Rightarrow> a \<le> q \<and> q \<le> b)"

text \<open>All events of an entry have reached all sinks.\<close>

definition announced :: "repo_id \<Rightarrow> string list \<Rightarrow> acks \<Rightarrow> log_entry \<Rightarrow> bool" where
  "announced repo names acks e =
     (\<forall>name \<in> set names. \<forall>ev \<in> set (entry_events repo e). \<exists>batch. (name, batch) \<in> set acks \<and> ev \<in> set batch)"

definition accounted ::
  "repo_id \<Rightarrow> string list \<Rightarrow> acks \<Rightarrow> catch_up_report list \<Rightarrow> (nat \<times> nat) list \<Rightarrow> log_entry \<Rightarrow> bool" where
  "accounted repo names acks reports used e \<longleftrightarrow>
     announced repo names acks e \<or> (\<exists>report \<in> set reports. in_gap (le_seq e) report) \<or>
     folded_within_run (le_seq e) used \<or> reports \<noteq> [] \<and> le_seq e \<le> cr_from_seq (hd reports)"

lemma accounted_mono:
  assumes "accounted repo names acks reports used e" "set acks \<subseteq> set acks'"
  shows "accounted repo names acks' (reports @ rs) (used @ us) e"
proof -
  have "announced repo names acks e \<Longrightarrow> announced repo names acks' e"
    using assms(2) unfolding announced_def by blast
  then show ?thesis using assms(1) by (cases reports) (auto simp: accounted_def folded_within_run_def)
qed

lemma deliver_recording:
  assumes "deliver_all (map (recording accepts) names) batch acks = (r, acks')"
  shows "set acks \<subseteq> set acks' \<and> (r = Inr () \<longrightarrow> (\<forall>name \<in> set names. (name, batch) \<in> set acks'))"
  using assms
proof (induction names arbitrary: acks)
  case (Cons name names)
  show ?case
  proof (cases "accepts name batch")
    case True
    then show ?thesis using Cons.IH [of "acks @ [(name, batch)]"] Cons.prems by (auto simp: recording_def)
  next
    case False
    then show ?thesis using Cons.prems by (auto simp: recording_def)
  qed
qed simp

lemma publish_recording:
  assumes "bridge_publish (map (recording accepts) names) batch acks = (r, acks')"
  shows "set acks \<subseteq> set acks'"
    and "r = Inr () \<Longrightarrow> batch \<noteq> [] \<Longrightarrow> name \<in> set names \<Longrightarrow> (name, batch) \<in> set acks'"
  using assms deliver_recording [of accepts names batch acks r acks']
  by (auto simp: bridge_publish_def split: if_splits)

text \<open>
  The invariant: the cursor is never past the committed head, it is absent exactly until a run has
  returned, and every entry at or below it is accounted for.
\<close>

definition bridge_inv ::
  "event_cursor decoder \<Rightarrow> repo_id \<Rightarrow> string list \<Rightarrow> (version \<times> bytes) option \<Rightarrow> nat \<Rightarrow> log_entry list \<Rightarrow> acks \<Rightarrow>
     catch_up_report list \<Rightarrow> (nat \<times> nat) list \<Rightarrow> bool" where
  "bridge_inv dec repo names x h H acks reports used \<longleftrightarrow>
     (cursor_at dec x = None \<longleftrightarrow> reports = []) \<and>
     (\<forall>c. cursor_at dec x = Some c \<longrightarrow> c \<le> h \<and> (\<forall>e \<in> set H. le_seq e \<le> c \<longrightarrow> accounted repo names acks reports used e))"

lemma bridge_run_inv:
  assumes inv: "bridge_inv dec repo names (ms_view s (p @ CURSOR_KEY)) h H acks reports used"
    and m: "ms_view s (p @ MANIFEST) = Some (v, cd_enc_manifest cd mc)" "validate_manifest mc = Inr ()"
      "window_ok cd (\<lambda>k. ms_view s (p @ k)) mc H" "m_head_seq m \<le> m_head_seq mc" "m_head_seq mc \<le> h"
      "snd (held s) = Some v \<longrightarrow> fst (held s) = mc"
    and run: "catch_up cd dec enc (prefixed p memory_store) (\<lambda>t. (Inr m, t)) held (map (recording accepts) names) now repo s acks
      = (r, s', acks')"
    and codec: "\<And>x. cd_dec_manifest cd (cd_enc_manifest cd x) = Inr x" "\<And>c. dec (enc c) = Inr c"
  shows "bridge_inv dec repo names (ms_view s' (p @ CURSOR_KEY)) h H acks'
    (case r of Inl _ \<Rightarrow> reports | Inr report \<Rightarrow> reports @ [report])
    (case r of Inl _ \<Rightarrow> used | Inr _ \<Rightarrow> used @ [(m_min_seq m, m_min_seq mc)])"
proof -
  let ?V = "\<lambda>k. ms_view s (p @ k)"
  obtain lo gap where start: "start_of_run m (cursor_at dec (?V CURSOR_KEY)) = (lo, gap)" by force
  define es where "es = filter (\<lambda>e. lo < le_seq e \<and> le_seq e \<le> min (m_head_seq m) (m_head_seq mc))
      (log_entries cd ?V (m_log_segments mc))"
  have wf: "log_wf cd ?V mc" using m(3) by (simp add: window_ok_def)
  note q = pre.catch_up_quiet [OF run m(1) codec(1) m(2,6) wf codec(2) start, folded es_def]
  consider (bad) "\<not> is_ok r" "s' = s" "acks' = acks \<or> (\<exists>e. bridge_publish (map (recording accepts) names)
        (refs_from_entries repo es) acks = (Inl e, acks'))"
    | (ok) report where "r = Inr report" "cr_from_seq report = lo" "cr_gap report = gap"
      "cursor_at dec (ms_view s' (p @ CURSOR_KEY)) = Some (m_head_seq m)"
      "if m_head_seq m > lo then bridge_publish (map (recording accepts) names) (refs_from_entries repo es) acks =
         (Inr (), acks') else acks' = acks"
    using q by blast
  then show ?thesis
  proof cases
    case bad
    then have "set acks \<subseteq> set acks'" using publish_recording(1) by blast
    then show ?thesis using inv bad(1,2) accounted_mono [of repo names acks reports used _ acks' "[]" "[]"]
      by (cases r) (auto simp: bridge_inv_def)
  next
    case ok
    have sub: "set acks \<subseteq> set acks'" using ok(5) publish_recording(1) by (auto split: if_splits)
    have "accounted repo names acks' (reports @ [report]) (used @ [(m_min_seq m, m_min_seq mc)]) e" if e: "e \<in> set H" "le_seq e \<le> m_head_seq m" for e
    proof (cases "le_seq e \<le> lo")
      case True
      show ?thesis
      proof (cases "cursor_at dec (?V CURSOR_KEY)")
        case None
        then have "reports = []" using inv by (simp add: bridge_inv_def)
        then show ?thesis using True ok(2) by (simp add: accounted_def)
      next
        case (Some c)
        show ?thesis
        proof (cases "le_seq e \<le> c")
          case True
          then show ?thesis using inv Some e(1) accounted_mono [OF _ sub] by (simp add: bridge_inv_def)
        next
          case False
          then have "gap = Some (c + 1, lo)"
            using start_of_run_above [OF start [unfolded Some]] True by auto
          then show ?thesis using False True ok(3) by (simp add: accounted_def in_gap_def)
        qed
      qed
    next
      case False
      then have above: "m_head_seq m > lo" "m_min_seq m \<le> le_seq e"
        using e(2) start_of_run_readable [OF start] by simp_all
      show ?thesis
      proof (cases "m_min_seq mc \<le> le_seq e")
      case gone: False
      then show ?thesis using above(2) by (auto simp: accounted_def folded_within_run_def)
      next
      case new: True
      then have "e \<in> set es" using m(3,4) e False by (simp add: window_ok_def es_def)
      then have sub: "set (entry_events repo e) \<subseteq> set (refs_from_entries repo es)"
        by (auto simp: refs_from_entries_def)
      have sent: "bridge_publish (map (recording accepts) names) (refs_from_entries repo es) acks = (Inr (), acks')"
        using ok(5) above(1) by simp
      have "announced repo names acks' e"
        unfolding announced_def
      proof (intro ballI exI conjI)
        fix name ev assume "name \<in> set names" "ev \<in> set (entry_events repo e)"
        then show "ev \<in> set (refs_from_entries repo es)" "(name, refs_from_entries repo es) \<in> set acks'"
          using publish_recording(2) [OF sent refl _ \<open>name \<in> set names\<close>] sub by (auto, metis empty_iff list.set(1) subsetD)
      qed
      then show ?thesis by (simp add: accounted_def)
      qed
    qed
    then show ?thesis using ok(1,4) m(4,5) by (auto simp: bridge_inv_def)
  qed
qed

lemma bridge_reach_inv:
  assumes "bridge_reach cd dec enc p repo names s h H acks reports used"
    and codec: "\<And>x. cd_dec_manifest cd (cd_enc_manifest cd x) = Inr x" "\<And>c. dec (enc c) = Inr c"
  shows "bridge_inv dec repo names (ms_view s (p @ CURSOR_KEY)) h H acks reports used"
  using assms(1)
proof induction
  case (start s h H)
  then show ?case by (simp add: bridge_inv_def cursor_at_def)
next
  case (others s h H acks reports used s' h' H2)
  then show ?case by (fastforce simp: bridge_inv_def)
next
  case (crash s h H acks reports used delivered)
  then show ?case using accounted_mono [of repo names acks reports used _ "acks @ delivered" "[]" "[]"]
    by (auto simp: bridge_inv_def)
next
  case (run s h H acks reports used v mc m held accepts now r s' acks')
  show ?case by (rule bridge_run_inv [OF run.IH run.hyps(2-8) codec])
qed

section \<open>Properties\<close>

text \<open>
  C19. What can become of an event, for a repository with one bridge and a store whose operations do
  not fail: whatever commits, checkpoints, refusals of sinks, failed and crashed runs its history has,
  every event of an entry at or below the durable cursor was acknowledged by every sink, unless the
  entry lies in a gap that a run reported, is not above where the first run started, or was folded
  away by a checkpoint between the two manifests that one run used. The last case is not reported
  as a gap (\<open>checkpoint_race_drops_events\<close>).
\<close>

theorem bridge_loses_no_event:
  assumes "bridge_reach cd dec enc p repo names s h H acks reports used"
    and "\<And>x. cd_dec_manifest cd (cd_enc_manifest cd x) = Inr x" "\<And>c. dec (enc c) = Inr c"
    and "cursor_at dec (ms_view s (p @ CURSOR_KEY)) = Some c" "e \<in> set H" "le_seq e \<le> c"
  shows "announced repo names acks e \<or> (\<exists>report \<in> set reports. in_gap (le_seq e) report) \<or>
    folded_within_run (le_seq e) used \<or> reports \<noteq> [] \<and> le_seq e \<le> cr_from_seq (hd reports)"
  using bridge_reach_inv [OF assms(1-3)] assms(4-6) by (auto simp: bridge_inv_def accounted_def)

text \<open>
  C20. Events carry the refs, as long as no transaction names a ref twice: a consumer that starts
  from the refs of a snapshot and applies the events of the entries after it, in order, holds exactly
  the oids that replaying the log gives, for every ref but \<open>HEAD\<close> (whose symbolic updates have no
  events), provided every entry's updates were valid and held the values current when it was
  published. The publisher does not check that a transaction names a ref once; without that the
  statement fails (\<open>double_update_diverges\<close>).
\<close>

theorem events_rebuild_refs:
  assumes "names_sorted (sn_refs snap)" "\<forall>r \<in> set (sn_refs snap). r_oid r \<noteq> []"
    and "entries_verified es (ref_view_new (snapshot_data_from snap))" "list_all (\<lambda>e. \<not> past_cut c e) es"
    and "list_all (\<lambda>e. distinct (map u_name (entry_updates e))) es"
    and "n \<noteq> ''HEAD''"
  shows "fold apply_event (refs_from_entries repo es) (\<lambda>k. map_option r_oid (find (\<lambda>r. r_name r = k) (sn_refs snap))) n =
    map_option r_oid (find (\<lambda>r. r_name r = n) (sn_refs (fst (replay_from c fmt snap q es))))"
proof -
  let ?v = "ref_view_new (snapshot_data_from snap)"
  have data: "rsd_refs (rv_base ?v) = sn_refs snap" "rv_overlay ?v = Map.empty"
    by (simp_all add: ref_view_new_def snapshot_data_from_def map_idI)
  then have "ref_map ?v k = map_option r_oid (find (\<lambda>r. r_name r = k) (sn_refs snap))" for k
    by (simp add: ref_map_def base_oid_def)
  moreover have "map_option r_oid (find (\<lambda>r. r_name r = n) (sn_refs snap)) \<noteq> Some []"
    using assms(2) by (auto simp: find_Some_iff)
  moreover have "list_all (\<lambda>e. list_all (\<lambda>u. validate_ref_update u = Inr ()) (entry_updates e)) es"
    using entries_verified_valid [OF assms(3)] .
  ultimately show ?thesis
    using replay_ref_map(1) [OF assms(1,4) _ assms(6), of fmt q] assms(1)
      entries_events_apply [OF assms(3) _ assms(6) _ _ assms(5)] data(1) by simp
qed

text \<open>A repository whose only entry is a push that creates \<open>main\<close>, and a plain form of the cursor.\<close>

definition main_push :: log_entry where
  "main_push = push_main \<lparr>le_kind := EK_Push\<rparr>"

definition plain_cursor :: "event_cursor encoder" where
  "plain_cursor c = replicate (cu_published_seq c) (CHR ''1'') @ CHR '' '' # cu_updated_at c"

definition read_plain_cursor :: "event_cursor decoder" where
  "read_plain_cursor b = (case split_once (CHR '' '') b of
     None \<Rightarrow> Inl ''cursor'' | Some (a, t) \<Rightarrow> Inr \<lparr>cu_published_seq = length a, cu_updated_at = t\<rparr>)"

lemma read_plain_cursor_back: "read_plain_cursor (plain_cursor c) = Inr c"
  by (simp add: read_plain_cursor_def plain_cursor_def)

definition sample_repo :: repo_id where
  "sample_repo = \<lparr>rid_owner = ''o'', rid_name = ''r''\<rparr>"

lemma main_push_log:
  assumes "V (log_segment_key 1) = Some (v, frame_encode sample_codec [main_push])"
  shows "log_wf sample_codec V pushed_manifest"
    and "log_entries sample_codec V (m_log_segments pushed_manifest) = [main_push]"
  by (rule segment_log_view [of V], rule assms, simp add: main_push_def push_main_def)+

lemma pushed_manifest_facts:
  "m_head_seq pushed_manifest = 1" "m_min_seq pushed_manifest = 0" "validate_manifest pushed_manifest = Inr ()"
  by (simp_all add: pushed_manifest_def default_manifest_def validate_manifest_def)

lemma quiet_run:
  assumes "(\<lambda>k. ms_view s (''r/'' @ k)) = Map.empty(log_segment_key 1 \<mapsto> (v1, frame_encode sample_codec [main_push]),
      MANIFEST \<mapsto> (v2, cd_enc_manifest sample_codec mc))"
    and "validate_manifest mc = Inr ()" "log_wf sample_codec (\<lambda>k. ms_view s (''r/'' @ k)) mc"
    and "filter (\<lambda>e. 1 \<le> le_seq e \<and> le_seq e \<le> min 1 (m_head_seq mc))
      (log_entries sample_codec (\<lambda>k. ms_view s (''r/'' @ k)) (m_log_segments mc)) = es"
  shows "\<exists>report s'. catch_up sample_codec read_plain_cursor plain_cursor (prefixed ''r/'' memory_store)
      (\<lambda>t. (Inr pushed_manifest, t)) (\<lambda>_. (pushed_manifest, None)) (map (recording (\<lambda>_ _. True)) [''hook'']) now sample_repo s [] =
        (Inr report, s', if refs_from_entries sample_repo es = [] then [] else [(''hook'', refs_from_entries sample_repo es)]) \<and>
    cr_gap report = None \<and> cr_from_seq report = 0 \<and> cr_emitted report = length (refs_from_entries sample_repo es) \<and>
    cursor_at read_plain_cursor (ms_view s' (''r/'' @ CURSOR_KEY)) = Some 1"
proof -
  let ?S = "prefixed ''r/'' memory_store" and ?batch = "refs_from_entries sample_repo es"
  have v: "ms_view s (''r/'' @ MANIFEST) = Some (v2, cd_enc_manifest sample_codec mc)"
    "ms_view s (''r/'' @ CURSOR_KEY) = None"
    using fun_cong [OF assms(1), of MANIFEST] fun_cong [OF assms(1), of CURSOR_KEY]
    by (simp_all add: CURSOR_KEY_def MANIFEST_def log_segment_key_def LOG_DIR_def)
  have cur: "read_cursor read_plain_cursor ?S s = (Inr None, s)"
    using pre.get_bytes_view [of "''r/''" CURSOR_KEY s] v(2) by (simp add: read_cursor_def)
  have log: "read_log_impl sample_codec ?S (pushed_manifest, None) 1 (Some 1) s = (Inr es, s)"
    using pre.read_log_fresh [of s "''r/''" v2 sample_codec mc "(pushed_manifest, None)" 1 1] v(1) assms(2-4) by simp
  obtain rw s' where w: "write_cursor plain_cursor ?S None now 1 s = (rw, s')" by force
  note w' = pre.write_cursor_quiet [OF w, where dec = read_plain_cursor]
  have "rw = Inr ()" "cursor_at read_plain_cursor (ms_view s' (''r/'' @ CURSOR_KEY)) = Some 1"
    using w' v(2) read_plain_cursor_back by (simp_all add: cursor_at_def)
  moreover have "bridge_publish (map (recording (\<lambda>_ _. True)) [''hook'']) ?batch [] =
      (Inr (), if ?batch = [] then [] else [(''hook'', ?batch)])"
    by (simp add: bridge_publish_def recording_def)
  ultimately show ?thesis
    using w cur log by (simp add: catch_up_def start_of_run_def pushed_manifest_facts Let_def)
qed

lemma main_push_store:
  obtains s v1 v2 where "(\<lambda>k. ms_view s (''r/'' @ k)) = Map.empty(log_segment_key 1 \<mapsto> (v1, frame_encode sample_codec [main_push]),
      MANIFEST \<mapsto> (v2, cd_enc_manifest sample_codec mc))"
  using segment_store_view [of "cd_enc_manifest sample_codec mc" "frame_encode sample_codec [main_push]"] by blast

theorem bridge_loses_no_event_witness:
  "\<exists>s acks report. bridge_reach sample_codec read_plain_cursor plain_cursor ''r/'' sample_repo [''hook''] s 1 [main_push] acks [report] [(0, 0)] \<and>
    cursor_at read_plain_cursor (ms_view s (''r/'' @ CURSOR_KEY)) = Some 1 \<and> cr_gap report = None \<and>
    announced sample_repo [''hook''] acks main_push"
proof -
  obtain s v1 v2 where v: "(\<lambda>k. ms_view s (''r/'' @ k)) = Map.empty(log_segment_key 1 \<mapsto> (v1, frame_encode sample_codec [main_push]),
      MANIFEST \<mapsto> (v2, cd_enc_manifest sample_codec pushed_manifest))"
    by (rule main_push_store)
  have seg: "ms_view s (''r/'' @ log_segment_key 1) = Some (v1, frame_encode sample_codec [main_push])"
    "ms_view s (''r/'' @ MANIFEST) = Some (v2, cd_enc_manifest sample_codec pushed_manifest)"
    "ms_view s (''r/'' @ CURSOR_KEY) = None"
    using fun_cong [OF v, of "log_segment_key 1"] fun_cong [OF v, of MANIFEST] fun_cong [OF v, of CURSOR_KEY]
    by (simp_all add: CURSOR_KEY_def MANIFEST_def log_segment_key_def LOG_DIR_def)
  note log = main_push_log [of "\<lambda>k. ms_view s (''r/'' @ k)", OF seg(1)]
  have q: "le_seq main_push = 1" by (simp add: main_push_def push_main_def)
  obtain report s' acks where r: "catch_up sample_codec read_plain_cursor plain_cursor (prefixed ''r/'' memory_store)
      (\<lambda>t. (Inr pushed_manifest, t)) (\<lambda>_. (pushed_manifest, None)) (map (recording (\<lambda>_ _. True)) [''hook'']) ''now'' sample_repo s [] =
        (Inr report, s', acks)"
    "cr_gap report = None" "cr_from_seq report = 0" "cursor_at read_plain_cursor (ms_view s' (''r/'' @ CURSOR_KEY)) = Some 1"
    using quiet_run [OF v pushed_manifest_facts(3) log(1) refl, of "''now''"] by blast
  have reach: "bridge_reach sample_codec read_plain_cursor plain_cursor ''r/'' sample_repo [''hook''] s' 1 [main_push] acks [report] [(0, 0)]"
    using bridge_reach.run [OF bridge_reach.start seg(2) pushed_manifest_facts(3) _ _ _ _ r(1), where h = 1 and H = "[main_push]"] seg(3) log q
    by (simp add: window_ok_def pushed_manifest_facts)
  have "announced sample_repo [''hook''] acks main_push"
    using bridge_loses_no_event [OF reach _ _ r(4), of main_push] read_plain_cursor_back q r(2,3)
    by (simp add: in_gap_def folded_within_run_def)
  with reach r(2,4) show ?thesis by blast
qed

lemma new_ref_verified:
  assumes "u_old_oid u = []" "u_name u \<noteq> ''HEAD''" "u_new_symbolic_target u = []"
  shows "snd (verify_update (ref_view_new (snapshot_data_from empty_snapshot)) u) = Inr ()"
  using assms ref_get_plain [of "ref_view_new (snapshot_data_from empty_snapshot)" "u_name u"]
  by (simp add: verify_update_def Let_def is_null_oid_def ref_map_def base_oid_def ref_view_new_def snapshot_data_from_def
      empty_snapshot_def unwrap_or_default_def)

theorem events_rebuild_refs_witness:
  "entries_verified [main_push] (ref_view_new (snapshot_data_from empty_snapshot)) \<and>
   fold apply_event (refs_from_entries sample_repo [main_push])
      (\<lambda>k. map_option r_oid (find (\<lambda>r. r_name r = k) (sn_refs empty_snapshot))) ''refs/heads/main'' =
     Some (replicate 40 (CHR ''a''))"
proof -
  have "list_all (\<lambda>u. validate_ref_update u = Inr ()) (entry_updates main_push)" by code_simp
  then have v: "entries_verified [main_push] (ref_view_new (snapshot_data_from empty_snapshot))"
    by (simp add: new_ref_verified main_push_def push_main_def entry_updates_def event_kind_def)
  have "find (\<lambda>r. r_name r = ''refs/heads/main'')
      (sn_refs (fst (replay_from (CutSeq 5) ''sha1'' empty_snapshot 0 [main_push]))) =
    Some \<lparr>r_name = ''refs/heads/main'', r_oid = replicate 40 (CHR ''a''), r_peeled = []\<rparr>" by code_simp
  moreover have "list_all (\<lambda>e. distinct (map u_name (entry_updates e))) [main_push]" by code_simp
  ultimately show ?thesis
    using v events_rebuild_refs [of empty_snapshot "[main_push]" "CutSeq 5" "''refs/heads/main''" sample_repo "''sha1''" 0]
    by (simp add: empty_snapshot_def main_push_def push_main_def past_cut_def)
qed

section \<open>What the bridge does not keep\<close>

text \<open>
  A checkpoint between the two manifests of a run. The run has synced to a manifest whose log holds
  a push; by the time it reads the log, a checkpoint has folded the push away. The run then reads
  no entries, delivers nothing, moves the cursor past the push and reports no gap, and neither does
  the next run.
\<close>

definition folding_checkpoint :: checkpoint_ref where
  "folding_checkpoint = \<lparr>cp_seq = 1, cp_key = ''checkpoints/1'', cp_created_at = None, cp_first_state_at = None,
     cp_as_of = None, cp_refs_key = [], cp_forge_key = [], cp_accounts_key = []\<rparr>"

definition folded_manifest :: manifest where
  "folded_manifest = checkpoint_manifest folding_checkpoint 1 epoch ''w'' pushed_manifest"

lemma checkpoint_race_drops_events:
  "\<exists>s report s'. catch_up sample_codec read_plain_cursor plain_cursor (prefixed ''r/'' memory_store)
      (\<lambda>t. (Inr pushed_manifest, t)) (\<lambda>_. (pushed_manifest, None)) (map (recording (\<lambda>_ _. True)) [''hook'']) now sample_repo s [] =
        (Inr report, s', []) \<and> cr_gap report = None \<and> cr_emitted report = 0 \<and>
    cursor_at read_plain_cursor (ms_view s' (''r/'' @ CURSOR_KEY)) = Some 1 \<and>
    ms_view s (''r/'' @ log_segment_key 1) \<noteq> None \<and> entry_events sample_repo main_push \<noteq> [] \<and>
    start_of_run folded_manifest (Some 1) = (1, None)"
proof -
  obtain s v1 v2 where v: "(\<lambda>k. ms_view s (''r/'' @ k)) = Map.empty(log_segment_key 1 \<mapsto> (v1, frame_encode sample_codec [main_push]),
      MANIFEST \<mapsto> (v2, cd_enc_manifest sample_codec folded_manifest))"
    by (rule main_push_store)
  have m: "m_log_segments folded_manifest = []" "m_min_seq folded_manifest = 2" "validate_manifest folded_manifest = Inr ()"
    by (simp_all add: folded_manifest_def checkpoint_manifest_def pushed_manifest_def pushed_segment_def
        validate_manifest_def folding_checkpoint_def)
  have "log_wf sample_codec (\<lambda>k. ms_view s (''r/'' @ k)) folded_manifest" by (simp add: log_wf_def m(1))
  moreover have "refs_from_entries sample_repo [] = []" by (simp add: refs_from_entries_def)
  ultimately have "\<exists>report s'. catch_up sample_codec read_plain_cursor plain_cursor (prefixed ''r/'' memory_store)
      (\<lambda>t. (Inr pushed_manifest, t)) (\<lambda>_. (pushed_manifest, None)) (map (recording (\<lambda>_ _. True)) [''hook'']) now sample_repo s [] =
        (Inr report, s', []) \<and> cr_gap report = None \<and> cr_emitted report = 0 \<and>
    cursor_at read_plain_cursor (ms_view s' (''r/'' @ CURSOR_KEY)) = Some 1"
    using quiet_run [OF v m(3), of "[]" now] by (auto simp: m(1) log_entries_def)
  moreover have "entry_events sample_repo main_push \<noteq> []" by code_simp
  moreover have "ms_view s (''r/'' @ log_segment_key 1) \<noteq> None"
    using fun_cong [OF v, of "log_segment_key 1"] by simp
  moreover have "start_of_run folded_manifest (Some 1) = (1, None)" by (simp add: start_of_run_def m(2))
  ultimately show ?thesis by blast
qed

text \<open>
  The key consumers are told to drop duplicates by, the repository, the sequence number and the ref
  name, is not unique: a transaction may update one ref twice, both updates pass validation and
  verification, and their events differ.
\<close>

definition twice_push :: log_entry where
  "twice_push = main_push \<lparr>le_txn := Some \<lparr>tx_updates =
     [\<lparr>u_name = ''refs/heads/main'', u_old_oid = [], u_new_oid = replicate 40 (CHR ''a''), u_new_symbolic_target = [], u_new_peeled = []\<rparr>,
      \<lparr>u_name = ''refs/heads/main'', u_old_oid = [], u_new_oid = replicate 40 (CHR ''b''), u_new_symbolic_target = [], u_new_peeled = []\<rparr>],
     tx_push_options = [], tx_atomic = False\<rparr>\<rparr>"

lemma dedup_key_not_unique:
  "list_all (\<lambda>u. validate_ref_update u = Inr ()) (entry_updates twice_push)"
  "list_all (\<lambda>u. snd (verify_update (ref_view_new (snapshot_data_from empty_snapshot)) u) = Inr ()) (entry_updates twice_push)"
  "map (\<lambda>ev. (ev_repo ev, wx_seq (ev_walgit ev), ev_ref_name ev, ev_new ev)) (entry_events sample_repo twice_push) =
     [(''o/r'', ''1'', ''refs/heads/main'', replicate 40 (CHR ''a'')),
      (''o/r'', ''1'', ''refs/heads/main'', replicate 40 (CHR ''b''))]"
proof -
  show "list_all (\<lambda>u. snd (verify_update (ref_view_new (snapshot_data_from empty_snapshot)) u) = Inr ()) (entry_updates twice_push)"
    by (simp add: new_ref_verified twice_push_def entry_updates_def)
qed code_simp+

text \<open>
  A transaction that names a ref twice leaves consumers with another value than the log: \<open>main\<close> is
  moved and, in the same transaction, \<open>updated\<close> to the value it had. Both updates are valid and name
  the current value, so the publisher accepts the transaction; the second has no event, but replaying
  the log applies it.
\<close>

definition main_snapshot :: ref_snapshot where
  "main_snapshot = empty_snapshot \<lparr>sn_refs :=
     [\<lparr>r_name = ''refs/heads/main'', r_oid = replicate 40 (CHR ''a''), r_peeled = []\<rparr>]\<rparr>"

definition back_push :: log_entry where
  "back_push = main_push \<lparr>le_txn := Some \<lparr>tx_updates =
     [\<lparr>u_name = ''refs/heads/main'', u_old_oid = replicate 40 (CHR ''a''), u_new_oid = replicate 40 (CHR ''b''),
       u_new_symbolic_target = [], u_new_peeled = []\<rparr>,
      \<lparr>u_name = ''refs/heads/main'', u_old_oid = replicate 40 (CHR ''a''), u_new_oid = replicate 40 (CHR ''a''),
       u_new_symbolic_target = [], u_new_peeled = []\<rparr>],
     tx_push_options = [], tx_atomic = False\<rparr>\<rparr>"

lemma double_update_diverges:
  "entries_verified [back_push] (ref_view_new (snapshot_data_from main_snapshot))"
  "fold apply_event (refs_from_entries sample_repo [back_push])
     (\<lambda>k. map_option r_oid (find (\<lambda>r. r_name r = k) (sn_refs main_snapshot))) ''refs/heads/main'' =
   Some (replicate 40 (CHR ''b''))"
  "map_option r_oid (find (\<lambda>r. r_name r = ''refs/heads/main'')
     (sn_refs (fst (replay_from (CutSeq 5) ''sha1'' main_snapshot 0 [back_push])))) = Some (replicate 40 (CHR ''a''))"
proof -
  let ?v = "ref_view_new (snapshot_data_from main_snapshot)" and ?a = "replicate 40 (CHR ''a'')"
  have "ref_get ?v ''refs/heads/main'' = Some ?a"
    by (subst ref_get_plain)
      (simp_all add: ref_map_def base_oid_def ref_view_new_def snapshot_data_from_def main_snapshot_def empty_snapshot_def)
  moreover have "\<not> is_null_oid ?a" by code_simp
  ultimately have "snd (verify_update ?v u) = Inr ()"
    if "u_name u = ''refs/heads/main''" "u_old_oid u = ?a" for u
    using that by (simp add: verify_update_def unwrap_or_default_def Let_def)
  moreover have "list_all (\<lambda>u. validate_ref_update u = Inr ()) (entry_updates back_push)" by code_simp
  moreover have "map (\<lambda>u. (u_name u, u_old_oid u)) (entry_updates back_push) =
      [(''refs/heads/main'', ?a), (''refs/heads/main'', ?a)]" by code_simp
  then have "\<forall>u \<in> set (entry_updates back_push). u_name u = ''refs/heads/main'' \<and> u_old_oid u = ?a"
    by (auto simp: map_eq_Cons_conv)
  moreover have "event_kind (le_kind back_push) \<noteq> None" by code_simp
  ultimately show "entries_verified [back_push] ?v" by (auto simp: list_all_iff)
qed code_simp+

end
