(* ===== verification/Bridge.thy ===== *)
theory Bridge
  imports Events Authorize
begin

text \<open>
  The outer half of the events bridge (\<open>walgit-server/src/bridge.rs\<close>, \<open>events.rs\<close>): the webhook a
  batch is posted to, and the wake-ups, bucket notifications and the sweep over all repositories.
  Serde's JSON, SHA-1, HMAC and the HTTP client are parameters; a parsed JSON document is a
  \<open>json\<close>. Opening and syncing a repository is an argument of the bridge, as in \<open>Events\<close>.

  The lemmas: a batch counts as delivered only when its request was answered with success; an
  object key wakes exactly the repository whose manifest it is; keys escaped the way S3 does are
  read back; a notification is acknowledged only after every repository it names was caught up.
\<close>

section \<open>The webhook (events.rs)\<close>

record http_request =
  hr_url :: string
  hr_headers :: headers
  hr_body :: bytes

record webhook_sink =
  ws_url :: string
  ws_secret :: "bytes option"

text \<open>Serialisation, digests and the client: the status of an answer or the error of the transport.\<close>

record 'w webhook_env =
  we_json :: "ref_event list \<Rightarrow> (string, bytes) result"
  we_sha1 :: "bytes \<Rightarrow> bytes"
  we_hmac :: "bytes \<Rightarrow> bytes \<Rightarrow> bytes"
  we_send :: "http_request \<Rightarrow> 'w \<Rightarrow> (string, nat) result \<times> 'w"

definition webhook_signature :: "'w webhook_env \<Rightarrow> bytes \<Rightarrow> bytes \<Rightarrow> string" where
  "webhook_signature env secret body = ''sha256='' @ hex_encode (we_hmac env secret body)"

definition webhook_request :: "'w webhook_env \<Rightarrow> webhook_sink \<Rightarrow> bytes \<Rightarrow> http_request" where
  "webhook_request env k body =
     \<lparr>hr_url = ws_url k,
      hr_headers = [(''content-type'', ''application/json''), (''x-walgit-delivery'', hex_encode (we_sha1 env body))] @
        (case ws_secret k of None \<Rightarrow> [] | Some secret \<Rightarrow> [(''x-walgit-signature'', webhook_signature env secret body)]),
      hr_body = body\<rparr>"

definition webhook_deliver ::
  "'w webhook_env \<Rightarrow> webhook_sink \<Rightarrow> ref_event list \<Rightarrow> 'w \<Rightarrow> (string, unit) result \<times> 'w" where
  "webhook_deliver env k batch w =
     (case we_json env batch of
        Inl e \<Rightarrow> (Inl e, w)
      | Inr body \<Rightarrow>
          (case we_send env (webhook_request env k body) w of
             (Inl e, w1) \<Rightarrow> (Inl e, w1)
           | (Inr status, w1) \<Rightarrow>
               if 200 \<le> status \<and> status < 300 then (Inr (), w1)
               else (Inl (''webhook returned '' @ show_nat status), w1)))"

definition webhook :: "'w webhook_env \<Rightarrow> webhook_sink \<Rightarrow> 'w sink" where
  "webhook env k = \<lparr>sk_name = ''webhook'', sk_deliver = webhook_deliver env k\<rparr>"

section \<open>The bridge and its wake-ups (bridge.rs)\<close>

record 'w bridge =
  br_store_prefix :: string
  br_sinks :: "'w sink list"

text \<open>\<open>Bridge::new\<close>: whether the instance has the role, the two settings and the prefix of the bucket.\<close>

definition bridge_new ::
  "'w webhook_env \<Rightarrow> bool \<Rightarrow> string option \<Rightarrow> string option \<Rightarrow> string \<Rightarrow> 'w bridge option" where
  "bridge_new env has_role url secret bucket_prefix =
     (if \<not> has_role then None
      else (case url of
              None \<Rightarrow> None
            | Some u \<Rightarrow>
                Some \<lparr>br_store_prefix = bucket_prefix,
                  br_sinks = [webhook env \<lparr>ws_url = u, ws_secret = nonempty secret\<rparr>]\<rparr>))"

text \<open>What a run needs beside the bridge.\<close>

record 's bridge_env =
  be_codec :: codec
  be_dec_cursor :: "event_cursor decoder"
  be_enc_cursor :: "event_cursor encoder"
  be_store :: "'s object_store"
  be_synced :: "repo_id \<Rightarrow> 's \<Rightarrow> (wal_error, manifest) result \<times> 's"
  be_held :: "repo_id \<Rightarrow> 's \<Rightarrow> manifest \<times> version option"
  be_now :: string

definition bridge_catch_up ::
  "'s bridge_env \<Rightarrow> 'w bridge \<Rightarrow> repo_id \<Rightarrow> 's \<times> 'w \<Rightarrow> (bridge_error, catch_up_report) result \<times> 's \<times> 'w" where
  "bridge_catch_up env b r sw =
     catch_up (be_codec env) (be_dec_cursor env) (be_enc_cursor env) (prefixed (store_prefix r) (be_store env))
       (be_synced env r) (be_held env r) (br_sinks b) (be_now env) r (fst sw) (snd sw)"

text \<open>The sweep goes on after a failure, which is only logged.\<close>

fun sweep_repos :: "'s bridge_env \<Rightarrow> 'w bridge \<Rightarrow> repo_id list \<Rightarrow> 's \<times> 'w \<Rightarrow> 's \<times> 'w" where
  "sweep_repos env b [] sw = sw"
| "sweep_repos env b (r # rs) sw = sweep_repos env b rs (snd (bridge_catch_up env b r sw))"

definition sweep ::
  "'s bridge_env \<Rightarrow> 'w bridge \<Rightarrow> ('s \<Rightarrow> (wal_error, repo_id list) result \<times> 's) \<Rightarrow> 's \<times> 'w \<Rightarrow> 's \<times> 'w" where
  "sweep env b listing sw =
     (case listing (fst sw) of
        (Inl _, s1) \<Rightarrow> (s1, snd sw)
      | (Inr rs, s1) \<Rightarrow> sweep_repos env b rs (s1, snd sw))"

definition manifest_repo :: "string \<Rightarrow> string \<Rightarrow> repo_id option" where
  "manifest_repo store_pre object =
     (case Option.bind (Option.bind (strip_prefix store_pre object) (strip_prefix ''repos/'')) (strip_suffix ''/manifest.pb'') of
        None \<Rightarrow> None
      | Some rel \<Rightarrow>
          (case split_once (CHR ''/'') rel of
             None \<Rightarrow> None
           | Some (owner, name) \<Rightarrow>
               if CHR ''/'' \<in> set name then None
               else (case repo_id_new owner name of Inl _ \<Rightarrow> None | Inr r \<Rightarrow> Some r)))"

definition object_finalized ::
  "'s bridge_env \<Rightarrow> 'w bridge \<Rightarrow> string \<Rightarrow> 's \<times> 'w \<Rightarrow> (bridge_error, catch_up_report option) result \<times> 's \<times> 'w" where
  "object_finalized env b object sw =
     (case manifest_repo (br_store_prefix b) object of
        None \<Rightarrow> (Inr None, sw)
      | Some r \<Rightarrow>
          (case bridge_catch_up env b r sw of
             (Inl (BridgeWal WalNotFound), sw1) \<Rightarrow> (Inr None, sw1)
           | (Inl e, sw1) \<Rightarrow> (Inl e, sw1)
           | (Inr report, sw1) \<Rightarrow> (Inr (Some report), sw1)))"

subsection \<open>Notifications\<close>

datatype json =
    JNull | JBool bool | JNumber string | JString string | JArray "json list" | JObject "(string \<times> json) list"

text \<open>\<open>v["k"]\<close>, \<open>as_str\<close> and \<open>as_array\<close> of \<open>serde_json::Value\<close>.\<close>

definition json_get :: "json \<Rightarrow> string \<Rightarrow> json" where
  "json_get v k = (case v of JObject fs \<Rightarrow> (case map_of fs k of None \<Rightarrow> JNull | Some x \<Rightarrow> x) | _ \<Rightarrow> JNull)"

definition json_str :: "json \<Rightarrow> string option" where
  "json_str v = (case v of JString s \<Rightarrow> Some s | _ \<Rightarrow> None)"

definition json_array :: "json \<Rightarrow> json list option" where
  "json_array v = (case v of JArray xs \<Rightarrow> Some xs | _ \<Rightarrow> None)"

text \<open>The UTF-8 form of \<open>b as char\<close>.\<close>

definition byte_char :: "nat \<Rightarrow> string" where
  "byte_char b = (if b < 128 then [char_of b] else [char_of (192 + b div 64), char_of (128 + b mod 64)])"

definition unescape_part :: "string \<Rightarrow> string" where
  "unescape_part part =
     (case part of
        h # l # rest \<Rightarrow>
          (case (hex_value h, hex_value l) of
             (Some a, Some b) \<Rightarrow> byte_char (a * 16 + b) @ rest
           | _ \<Rightarrow> CHR ''%'' # part)
      | _ \<Rightarrow> CHR ''%'' # part)"

definition s3_unescape :: "string \<Rightarrow> string" where
  "s3_unescape k =
     (case split_on (CHR ''%'') (map (\<lambda>c. if c = CHR ''+'' then CHR '' '' else c) k) of
        [] \<Rightarrow> []
      | p # ps \<Rightarrow> p @ concat (map unescape_part ps))"

definition s3_record_key :: "json \<Rightarrow> string option" where
  "s3_record_key r =
     (case json_str (json_get r ''eventName'') of
        None \<Rightarrow> None
      | Some e \<Rightarrow>
          if starts_with e ''ObjectCreated''
          then map_option s3_unescape (json_str (json_get (json_get (json_get r ''s3'') ''object'') ''key''))
          else None)"

definition notified_keys :: "json \<Rightarrow> string list" where
  "notified_keys v =
     (let attrs = json_get (json_get v ''message'') ''attributes''
      in (if json_get attrs ''eventType'' = JString ''OBJECT_FINALIZE''
          then (case json_str (json_get attrs ''objectId'') of None \<Rightarrow> [] | Some k \<Rightarrow> [k]) else []) @
         (case json_array (json_get v ''Records'') of None \<Rightarrow> [] | Some rs \<Rightarrow> List.map_filter s3_record_key rs) @
         (case json_str (json_get v ''key'') of None \<Rightarrow> [] | Some k \<Rightarrow> [k]) @
         (case json_str (json_get v ''repo'') of None \<Rightarrow> [] | Some r \<Rightarrow> [''repos/'' @ r @ ''/manifest.pb'']))"

datatype notify_response = NotifyReports "catch_up_report list" | NotifyRedeliver string

fun notify_all ::
  "'s bridge_env \<Rightarrow> 'w bridge \<Rightarrow> (bridge_error \<Rightarrow> string) \<Rightarrow> string list \<Rightarrow> catch_up_report list \<Rightarrow> 's \<times> 'w \<Rightarrow>
     notify_response \<times> 's \<times> 'w" where
  "notify_all env b disp [] reports sw = (NotifyReports reports, sw)"
| "notify_all env b disp (k # ks) reports sw =
     (case object_finalized env b k sw of
        (Inl e, sw1) \<Rightarrow> (NotifyRedeliver (''events bridge: '' @ disp e), sw1)
      | (Inr None, sw1) \<Rightarrow> notify_all env b disp ks reports sw1
      | (Inr (Some report), sw1) \<Rightarrow> notify_all env b disp ks (reports @ [report]) sw1)"

text \<open>\<open>body\<close> is what collecting and parsing the request body gives.\<close>

definition http_notify ::
  "'s bridge_env \<Rightarrow> 'w bridge option \<Rightarrow> (bridge_error \<Rightarrow> string) \<Rightarrow> crypto \<Rightarrow> 'key id_token_lib \<Rightarrow> authenticator \<Rightarrow>
     nat option \<Rightarrow> headers \<Rightarrow> (api_error, json) result \<Rightarrow> 's \<times> 'w \<Rightarrow> (api_error, notify_response) result \<times> 's \<times> 'w" where
  "http_notify env bridge disp cr lib a clock hs body sw =
     (case credential cr lib a clock hs of
        Inl e \<Rightarrow> (Inl (auth_err e), sw)
      | Inr cred \<Rightarrow>
          if cred = CAnonymous \<and> \<not> at_anonymous_read a then (Inl ApiUnauthorized, sw)
          else (case bridge of
                  None \<Rightarrow> (Inl (ApiNotFound ''events bridge is not enabled here''), sw)
                | Some b \<Rightarrow>
                    (case body of
                       Inl e \<Rightarrow> (Inl e, sw)
                     | Inr v \<Rightarrow> map_prod Inr id (notify_all env b disp (notified_keys v) [] sw))))"

section \<open>Lemmas\<close>

text \<open>A batch is delivered only when the answer to its request is a success.\<close>

lemma webhook_delivered:
  assumes "webhook_deliver env k batch w = (Inr (), w')"
  shows "\<exists>body status. we_json env batch = Inr body \<and> we_send env (webhook_request env k body) w = (Inr status, w') \<and>
    200 \<le> status \<and> status < 300"
  using assms by (auto simp: webhook_deliver_def split: sum.splits prod.splits if_splits)

lemma strip_suffix_Some: "strip_suffix p s = Some r \<longleftrightarrow> s = r @ p"
  by (auto simp: strip_suffix_def suffix_def)

text \<open>An object key wakes exactly the repository whose manifest it is.\<close>

lemma manifest_repo_exact:
  "manifest_repo pre obj = Some r \<longleftrightarrow>
     repo_id_new (rid_owner r) (rid_name r) = Inr r \<and> obj = pre @ repo_prefix (rid_owner r) (rid_name r) @ MANIFEST"
proof
  assume "manifest_repo pre obj = Some r"
  then obtain owner name where *: "obj = pre @ ''repos/'' @ (owner @ CHR ''/'' # name) @ ''/manifest.pb''"
    "repo_id_new owner name = Inr r"
    by (auto simp: manifest_repo_def strip_prefix_Some strip_suffix_Some split_once_Some bind_eq_Some_conv
        split: option.splits if_splits sum.splits)
  then have "r = \<lparr>rid_owner = owner, rid_name = name\<rparr>" by (simp add: repo_id_new_ok)
  with * show "repo_id_new (rid_owner r) (rid_name r) = Inr r \<and> obj = pre @ repo_prefix (rid_owner r) (rid_name r) @ MANIFEST"
    by (simp add: repo_prefix_def MANIFEST_def)
next
  assume r: "repo_id_new (rid_owner r) (rid_name r) = Inr r \<and> obj = pre @ repo_prefix (rid_owner r) (rid_name r) @ MANIFEST"
  then have n: "CHR ''/'' \<notin> set (rid_owner r)" "CHR ''/'' \<notin> set (rid_name r)"
    using part_no_slash by (auto simp: repo_id_new_ok)
  let ?rel = "rid_owner r @ CHR ''/'' # rid_name r"
  have "strip_prefix pre obj = Some (''repos/'' @ ?rel @ ''/manifest.pb'')"
    using r by (simp add: strip_prefix_Some repo_prefix_def MANIFEST_def)
  moreover have "strip_prefix ''repos/'' (''repos/'' @ ?rel @ ''/manifest.pb'') = Some (?rel @ ''/manifest.pb'')"
    by (rule strip_prefix_append)
  moreover have "strip_suffix ''/manifest.pb'' (?rel @ ''/manifest.pb'') = Some ?rel" by (simp add: strip_suffix_Some)
  ultimately have "Option.bind (Option.bind (strip_prefix pre obj) (strip_prefix ''repos/'')) (strip_suffix ''/manifest.pb'') = Some ?rel"
    by (simp only: Option.bind_lunit)
  then show "manifest_repo pre obj = Some r" using r n by (simp add: manifest_repo_def)
qed

text \<open>
  The way S3 escapes a key: a space as a plus sign, the percent and plus signs and whatever else
  \<open>esc\<close> picks as two hexadecimal digits.
\<close>

definition s3_escape_char :: "(nat \<Rightarrow> char) \<Rightarrow> (char \<Rightarrow> bool) \<Rightarrow> char \<Rightarrow> string" where
  "s3_escape_char hexit esc c =
     (if c = CHR ''%'' \<or> c = CHR ''+'' \<or> esc c then [CHR ''%'', hexit (of_char c div 16), hexit (of_char c mod 16)]
      else if c = CHR '' '' then ''+'' else [c])"

lemma hex_value_plain: "hex_value h = Some d \<Longrightarrow> h \<noteq> CHR ''%'' \<and> h \<noteq> CHR ''+''"
  by (auto simp: hex_value_def)

lemma s3_unescape_escape:
  assumes "\<And>d. d < 16 \<Longrightarrow> hex_value (hexit d) = Some d" "\<forall>c \<in> set k. of_char c < (128 :: nat)"
  shows "s3_unescape (concat (map (s3_escape_char hexit esc) k)) = k"
  using assms(2)
proof (induction k)
  case (Cons c k)
  let ?f = "\<lambda>c. if c = CHR ''+'' then CHR '' '' else c"
  obtain p ps where X: "split_on (CHR ''%'') (map ?f (concat (map (s3_escape_char hexit esc) k))) = p # ps"
    by (cases "split_on (CHR ''%'') (map ?f (concat (map (s3_escape_char hexit esc) k)))") auto
  have ih: "p @ concat (map unescape_part ps) = k" using Cons X by (simp add: s3_unescape_def)
  show ?case
  proof (cases "c = CHR ''%'' \<or> c = CHR ''+'' \<or> esc c")
    case True
    let ?h = "hexit (of_char c div 16)" and ?l = "hexit (of_char c mod 16)"
    have h: "hex_value ?h = Some (of_char c div 16)" "hex_value ?l = Some (of_char c mod 16)"
      using assms(1) by (simp_all add: of_char_div)
    note n = hex_value_plain [OF h(1)] hex_value_plain [OF h(2)]
    have "unescape_part (?h # ?l # p) = c # p"
      using h Cons.prems by (simp add: unescape_part_def byte_char_def)
    moreover have "s3_escape_char hexit esc c = [CHR ''%'', ?h, ?l]" using True by (simp add: s3_escape_char_def)
    ultimately show ?thesis using n X ih by (simp add: s3_unescape_def)
  next
    case False
    then have "map ?f (s3_escape_char hexit esc c) = [c]" by (simp add: s3_escape_char_def)
    then show ?thesis using False X ih by (simp add: s3_unescape_def)
  qed
qed (simp add: s3_unescape_def)

text \<open>An acknowledged notification: every repository it names was caught up, or is gone.\<close>

lemma notify_all_caught_up:
  assumes "notify_all env b disp ks reports sw = (NotifyReports reports', sw')"
    and "k \<in> set ks" "manifest_repo (br_store_prefix b) k = Some r"
  shows "\<exists>sw1 sw2 res. bridge_catch_up env b r sw1 = (res, sw2) \<and> (is_ok res \<or> res = Inl (BridgeWal WalNotFound))"
  using assms(1,2)
proof (induction ks arbitrary: reports sw)
  case (Cons x ks)
  obtain o1 sw1 where o1: "object_finalized env b x sw = (o1, sw1)" by (metis surj_pair)
  with Cons.prems(1) obtain res where res: "o1 = Inr res" by (cases o1) auto
  show ?case
  proof (cases "k = x")
    case True
    then have "\<exists>res sw2. bridge_catch_up env b r sw = (res, sw2) \<and> (is_ok res \<or> res = Inl (BridgeWal WalNotFound))"
      using o1 res assms(3)
      by (auto simp: object_finalized_def is_ok_def split: sum.splits prod.splits bridge_error.splits wal_error.splits)
    then show ?thesis by blast
  next
    case False
    then show ?thesis using Cons o1 res by (cases res) auto
  qed
qed simp

text \<open>
  A notification that names a repository is acknowledged and ignored when the bucket has a prefix:
  the key made from the name does not carry it.
\<close>

lemma named_repository_ignored:
  "notified_keys (JObject [(''repo'', JString ''o/r'')]) = [''repos/o/r/manifest.pb'']"
  "notify_all env \<lparr>br_store_prefix = ''prefix/'', br_sinks = ks\<rparr> disp
     (notified_keys (JObject [(''repo'', JString ''o/r'')])) [] sw = (NotifyReports [], sw)"
proof -
  show k: "notified_keys (JObject [(''repo'', JString ''o/r'')]) = [''repos/o/r/manifest.pb'']" by code_simp
  have "manifest_repo ''prefix/'' ''repos/o/r/manifest.pb'' = None" by code_simp
  then show "notify_all env \<lparr>br_store_prefix = ''prefix/'', br_sinks = ks\<rparr> disp
     (notified_keys (JObject [(''repo'', JString ''o/r'')])) [] sw = (NotifyReports [], sw)"
    unfolding k by (simp add: object_finalized_def)
qed

end
