(* ===== verification/Group_Roots.thy ===== *)
theory Group_Roots
  imports Pack_Groups
begin

text \<open>
  Which objects a pack group starts from (\<open>walgit-git/src/pack_groups.rs\<close>): the roots a group
  includes, the roots of the groups it subtracts and all groups it depends on, resolved against one
  snapshot of the refs. Parsing an object id is a parameter (\<open>from_hex\<close>), which gives the message
  of its error or whether the id is null. A \<open>BTreeSet\<close> is its sorted list.

  The lemmas: the search through the dependencies ends and finds exactly the groups reachable by
  subtraction; after validation it never meets a missing group, and the result has one entry for
  every group.
\<close>

record group_roots =
  gr_kind :: pack_group_kind
  gr_include :: "string list"
  gr_exclude :: "string list"
  gr_dependencies :: "string list"

type_synonym oid_parser = "string \<Rightarrow> (string, bool) result"

fun check_snapshot_refs :: "oid_parser \<Rightarrow> git_ref list \<Rightarrow> string set \<Rightarrow> (git_error, unit) result" where
  "check_snapshot_refs from_hex [] names = Inr ()"
| "check_snapshot_refs from_hex (r # rs) names =
     (case validate_ref_name (r_name r) of
        Inl e \<Rightarrow> Inl e
      | Inr _ \<Rightarrow>
          if r_name r = ''HEAD'' \<or> r_name r \<in> names
          then Inl (GitInvalidInput ''duplicate or symbolic ref in snapshot'')
          else (case from_hex (r_oid r) of
                  Inl e \<Rightarrow> Inl (GitInvalidInput e)
                | Inr True \<Rightarrow> Inl (GitInvalidInput ''null ref target in snapshot'')
                | Inr False \<Rightarrow> check_snapshot_refs from_hex rs (insert (r_name r) names)))"

definition roots_of :: "ref_snapshot_data \<Rightarrow> pack_group_config \<Rightarrow> string set" where
  "roots_of snap g = set (map r_oid (filter (\<lambda>r. matches_ref g (r_name r) (rsd_head_target snap)) (rsd_refs snap)))"

text \<open>
  The worklist of dependencies: the last pending name is taken first, and the dependencies of a
  new one are appended.
\<close>

function close_dependencies ::
  "pack_groups \<Rightarrow> string list \<Rightarrow> string set \<Rightarrow> (git_error, string set) result" where
  "close_dependencies groups pending found =
     (if pending = [] then Inr found
      else let dep = last pending; rest = butlast pending in
        if dep \<in> found then close_dependencies groups rest found
        else (case bt_get groups dep of
                None \<Rightarrow> Inl (GitInvalidInput (''missing group '' @ dep))
              | Some g \<Rightarrow> close_dependencies groups (rest @ gc_subtract g) (insert dep found)))"
  by pat_completeness auto

termination
proof (relation "inv_image (less_than <*lex*> less_than) (\<lambda>(groups, pending, found). (unvisited groups found, length pending))",
    goal_cases)
  case (3 groups pending found dep rest g)
  then show ?case using unvisited_enter [of groups dep g found] by simp
qed auto

declare close_dependencies.simps [simp del]

definition direct_roots :: "ref_snapshot_data \<Rightarrow> pack_groups \<Rightarrow> pack_group_config \<Rightarrow> string set" where
  "direct_roots snap groups g =
     \<Union> (roots_of snap ` set (List.map_filter (bt_get groups) (gc_subtract g)))"

fun resolve_each ::
  "ref_snapshot_data \<Rightarrow> pack_groups \<Rightarrow> pack_groups \<Rightarrow> (git_error, (string, group_roots) btree) result" where
  "resolve_each snap groups [] = Inr []"
| "resolve_each snap groups ((name, g) # rest) =
     (case close_dependencies groups (gc_subtract g) {} of
        Inl e \<Rightarrow> Inl e
      | Inr deps \<Rightarrow>
          (case resolve_each snap groups rest of
             Inl e \<Rightarrow> Inl e
           | Inr result \<Rightarrow>
               Inr ((name, \<lparr>gr_kind = gc_kind g,
                  gr_include = sorted_list_of_set (roots_of snap g),
                  gr_exclude = sorted_list_of_set (direct_roots snap groups g),
                  gr_dependencies = sorted_list_of_set deps\<rparr>) # result)))"

definition resolve_groups ::
  "oid_parser \<Rightarrow> refs_config \<Rightarrow> ref_snapshot_data \<Rightarrow> (git_error, (string, group_roots) btree) result" where
  "resolve_groups from_hex config snap =
     (case refs_config_validate config of
        Inl e \<Rightarrow> Inl (GitInvalidInput e)
      | Inr _ \<Rightarrow>
          (case check_snapshot_refs from_hex (rsd_refs snap) {} of
             Inl e \<Rightarrow> Inl e
           | Inr _ \<Rightarrow> resolve_each snap (rc_packfiles config) (rc_packfiles config)))"

section \<open>The worklist finds the dependencies\<close>

text \<open>Every dependency of a group is a group.\<close>

definition deps_present :: "pack_groups \<Rightarrow> bool" where
  "deps_present groups \<longleftrightarrow> (\<forall>(name, g) \<in> set groups. \<forall>d \<in> set (gc_subtract g). bt_get groups d \<noteq> None)"

lemma close_dependencies_exact:
  assumes "bt_ok groups" "deps_present groups" "\<forall>d \<in> set pending. bt_get groups d \<noteq> None"
    and "\<forall>d \<in> found. (\<forall>d'. (d, d') \<in> depends groups \<longrightarrow> d' \<in> found \<union> set pending)"
  shows "\<exists>out. close_dependencies groups pending found = Inr out \<and> found \<union> set pending \<subseteq> out \<and>
    (\<forall>d \<in> out. d \<in> found \<or> (\<exists>x \<in> set pending. (x, d) \<in> (depends groups)\<^sup>*)) \<and>
    (\<forall>d \<in> out. \<forall>d'. (d, d') \<in> depends groups \<longrightarrow> d' \<in> out)"
  using assms
proof (induction groups pending found rule: close_dependencies.induct)
  case (1 groups pending found)
  show ?case
  proof (cases "pending = []")
    case True
    then show ?thesis using "1.prems" by (subst close_dependencies.simps) auto
  next
    case False
    let ?dep = "last pending" and ?rest = "butlast pending"
    have p: "set pending = insert ?dep (set ?rest)"
      using False by (metis append_butlast_last_id list.simps(15) rotate1.simps(2) set_rotate1)
    show ?thesis
    proof (cases "?dep \<in> found")
      case True
      have "\<forall>d \<in> set ?rest. bt_get groups d \<noteq> None" using "1.prems"(3) p by auto
      moreover have "\<forall>d \<in> found. \<forall>d'. (d, d') \<in> depends groups \<longrightarrow> d' \<in> found \<union> set ?rest"
        using "1.prems"(4) p True by auto
      ultimately obtain out where out: "close_dependencies groups ?rest found = Inr out" "found \<union> set ?rest \<subseteq> out"
        "\<forall>d \<in> out. d \<in> found \<or> (\<exists>x \<in> set ?rest. (x, d) \<in> (depends groups)\<^sup>*)"
        "\<forall>d \<in> out. \<forall>d'. (d, d') \<in> depends groups \<longrightarrow> d' \<in> out"
        using "1.IH"(1) [OF False refl refl True "1.prems"(1,2)] by blast
      have "close_dependencies groups pending found = Inr out"
        using out(1) True False by (subst close_dependencies.simps) (simp add: Let_def)
      then show ?thesis using out(2-4) p True by (intro exI [of _ out]) auto
    next
      case new: False
      obtain g where g: "bt_get groups ?dep = Some g" using "1.prems"(3) p by auto
      then have mem: "(?dep, g) \<in> set groups" using "1.prems"(1) by (simp add: bt_get_iff)
      have edge: "(?dep, d) \<in> depends groups \<longleftrightarrow> d \<in> set (gc_subtract g)" for d
        using g by (auto simp: depends_def)
      have "\<forall>d \<in> set (?rest @ gc_subtract g). bt_get groups d \<noteq> None"
        using "1.prems"(2,3) p mem by (auto simp: deps_present_def)
      moreover have "\<forall>d \<in> insert ?dep found. \<forall>d'. (d, d') \<in> depends groups \<longrightarrow>
          d' \<in> insert ?dep found \<union> set (?rest @ gc_subtract g)"
        using "1.prems"(4) p edge by auto
      ultimately obtain out where out: "close_dependencies groups (?rest @ gc_subtract g) (insert ?dep found) = Inr out"
        "insert ?dep found \<union> set (?rest @ gc_subtract g) \<subseteq> out"
        "\<forall>d \<in> out. d \<in> insert ?dep found \<or> (\<exists>x \<in> set (?rest @ gc_subtract g). (x, d) \<in> (depends groups)\<^sup>*)"
        "\<forall>d \<in> out. \<forall>d'. (d, d') \<in> depends groups \<longrightarrow> d' \<in> out"
        using "1.IH"(2) [OF False refl refl new g "1.prems"(1,2)] by blast
      have "\<exists>x \<in> set pending. (x, d) \<in> (depends groups)\<^sup>*" if "d \<in> out" "d \<notin> found" for d
      proof (cases "d = ?dep")
        case True
        then show ?thesis using p by auto
      next
        case False
        then obtain x where x: "x \<in> set ?rest \<or> x \<in> set (gc_subtract g)" "(x, d) \<in> (depends groups)\<^sup>*"
          using out(3) \<open>d \<in> out\<close> \<open>d \<notin> found\<close> by auto
        then show ?thesis using p edge by (metis converse_rtrancl_into_rtrancl insertCI)
      qed
      then show ?thesis using out False new g p by (subst close_dependencies.simps) (auto simp: Let_def)
    qed
  qed
qed

lemma close_dependencies_reachable:
  assumes "bt_ok groups" "deps_present groups" "(name, g) \<in> set groups"
  shows "close_dependencies groups (gc_subtract g) {} = Inr {d. (name, d) \<in> (depends groups)\<^sup>+}"
proof -
  have "\<forall>d \<in> set (gc_subtract g). bt_get groups d \<noteq> None" using assms(2,3) by (auto simp: deps_present_def)
  from close_dependencies_exact [OF assms(1,2) this, of "{}"] obtain out where
    out: "close_dependencies groups (gc_subtract g) {} = Inr out" "set (gc_subtract g) \<subseteq> out"
      "\<forall>d \<in> out. \<exists>x \<in> set (gc_subtract g). (x, d) \<in> (depends groups)\<^sup>*"
      "\<forall>d \<in> out. \<forall>d'. (d, d') \<in> depends groups \<longrightarrow> d' \<in> out" by auto
  have edge: "(name, d) \<in> depends groups \<longleftrightarrow> d \<in> set (gc_subtract g)" for d
    using assms(1,3) by (auto simp: depends_def bt_get_iff dest: map_of_SomeD) (metis bt_get_iff option.inject)
  have "d \<in> out" if "(name, d) \<in> (depends groups)\<^sup>+" for d
    using that by (induction rule: trancl_induct) (use out(2,4) edge in auto)
  moreover have "(name, d) \<in> (depends groups)\<^sup>+" if "d \<in> out" for d
    using out(3) that edge by (metis rtrancl_into_trancl2)
  ultimately have "out = {d. (name, d) \<in> (depends groups)\<^sup>+}" by auto
  then show ?thesis using out(1) by simp
qed

lemma finite_dependencies:
  assumes "bt_ok groups" "deps_present groups"
  shows "finite {d. (name, d) \<in> (depends groups)\<^sup>+}"
proof (rule finite_subset)
  show "{d. (name, d) \<in> (depends groups)\<^sup>+} \<subseteq> fst ` set groups"
  proof
    fix d assume "d \<in> {d. (name, d) \<in> (depends groups)\<^sup>+}"
    then obtain x where "(x, d) \<in> depends groups" by (auto elim: tranclE)
    then obtain g where "(x, g) \<in> set groups" "d \<in> set (gc_subtract g)"
      by (auto simp: depends_def dest: map_of_SomeD)
    then have "bt_get groups d \<noteq> None" using assms(2) by (auto simp: deps_present_def)
    then show "d \<in> fst ` set groups" by (metis domIff dom_map_of_conv_image_fst)
  qed
qed simp

text \<open>The entry of one group.\<close>

definition expected_roots :: "ref_snapshot_data \<Rightarrow> pack_groups \<Rightarrow> string \<Rightarrow> pack_group_config \<Rightarrow> group_roots" where
  "expected_roots snap groups name g =
     \<lparr>gr_kind = gc_kind g, gr_include = sorted_list_of_set (roots_of snap g),
      gr_exclude = sorted_list_of_set (direct_roots snap groups g),
      gr_dependencies = sorted_list_of_set {d. (name, d) \<in> (depends groups)\<^sup>+}\<rparr>"

lemma map_of_entries: "map_of (map (\<lambda>(n, g). (n, f n g)) gs) n = map_option (f n) (map_of gs n)"
  by (induction gs) auto

lemma resolve_each_all:
  assumes "bt_ok groups" "deps_present groups" "set gs \<subseteq> set groups"
  shows "resolve_each snap groups gs = Inr (map (\<lambda>(name, g). (name, expected_roots snap groups name g)) gs)"
  using assms(3)
proof (induction gs)
  case (Cons x gs)
  then show ?case
    using close_dependencies_reachable [OF assms(1,2), of "fst x" "snd x"]
    by (cases x) (simp add: expected_roots_def)
qed simp

section \<open>Properties\<close>

text \<open>
  Resolving never fails on a validated policy and a well-formed snapshot, and gives every group
  exactly the oids of the refs it matches, the oids that the groups it subtracts match, and the
  groups reachable through subtraction, itself not among them.
\<close>

lemma resolve_groups_exact:
  assumes "refs_config_validate config = Inr ()" "bt_ok (rc_packfiles config)"
    and "check_snapshot_refs from_hex (rsd_refs snap) {} = Inr ()"
  shows "\<exists>res. resolve_groups from_hex config snap = Inr res \<and> map fst res = map fst (rc_packfiles config) \<and>
    (\<forall>name g. bt_get (rc_packfiles config) name = Some g \<longrightarrow> (\<exists>r. bt_get res name = Some r \<and> gr_kind r = gc_kind g \<and>
       set (gr_include r) = {r_oid f | f. f \<in> set (rsd_refs snap) \<and> matches_ref g (r_name f) (rsd_head_target snap)} \<and>
       set (gr_exclude r) = (\<Union>d \<in> set (gc_subtract g). \<Union>r' \<in> set_option (bt_get res d). set (gr_include r')) \<and>
       set (gr_dependencies r) = {d. (name, d) \<in> (depends (rc_packfiles config))\<^sup>+} \<and>
       name \<notin> set (gr_dependencies r)))"
proof -
  let ?gs = "rc_packfiles config"
  let ?res = "map (\<lambda>(name, g). (name, expected_roots snap ?gs name g)) ?gs"
  have ok: "\<forall>g \<in> set ?gs. group_ok ?gs g" "acyclic (depends ?gs)" using assms(1) by (simp_all add: validate_exact)
  have dp: "deps_present ?gs" using ok(1) by (fastforce simp: deps_present_def group_ok_def)
  have run: "resolve_groups from_hex config snap = Inr ?res"
    using resolve_each_all [OF assms(2) dp, of ?gs snap] assms(1,3) by (simp add: resolve_groups_def)
  have get: "bt_get ?res n = map_option (expected_roots snap ?gs n) (bt_get ?gs n)" for n
    by (rule map_of_entries)
  show ?thesis
  proof (rule exI [of _ ?res], intro conjI allI impI)
    show "resolve_groups from_hex config snap = Inr ?res" by (rule run)
    show "map fst ?res = map fst ?gs" by (auto simp: case_prod_beta)
  next
    fix name g assume g: "bt_get ?gs name = Some g"
    let ?r = "expected_roots snap ?gs name g"
    have incl: "set (gr_include (expected_roots snap ?gs n h)) = roots_of snap h" for n h
      by (simp add: expected_roots_def roots_of_def)
    have "finite (direct_roots snap ?gs g)" by (simp add: direct_roots_def roots_of_def)
    then have "set (gr_exclude ?r) = direct_roots snap ?gs g" by (simp add: expected_roots_def)
    then have excl: "set (gr_exclude ?r) =
        (\<Union>d \<in> set (gc_subtract g). \<Union>r' \<in> set_option (bt_get ?res d). set (gr_include r'))"
      unfolding get by (force simp: direct_roots_def List.map_filter_def incl)
    have deps: "set (gr_dependencies ?r) = {d. (name, d) \<in> (depends ?gs)\<^sup>+}"
      using finite_dependencies [OF assms(2) dp] by (simp add: expected_roots_def)
    show "\<exists>r. bt_get ?res name = Some r \<and> gr_kind r = gc_kind g \<and>
       set (gr_include r) = {r_oid f | f. f \<in> set (rsd_refs snap) \<and> matches_ref g (r_name f) (rsd_head_target snap)} \<and>
       set (gr_exclude r) = (\<Union>d \<in> set (gc_subtract g). \<Union>r' \<in> set_option (bt_get ?res d). set (gr_include r')) \<and>
       set (gr_dependencies r) = {d. (name, d) \<in> (depends ?gs)\<^sup>+} \<and> name \<notin> set (gr_dependencies r)"
      using excl deps ok(2) incl [of name g] get [of name] g
      by (intro exI [of _ ?r]) (auto simp: expected_roots_def roots_of_def acyclic_def)
  qed
qed

end
