(* ===== verification/Static_Object.thy ===== *)
theory Static_Object
  imports Authorize
begin

text \<open>
  Serving immutable objects over HTTP (\<open>walgit-server/src/static_object.rs\<close>): ranges, entity tags,
  conditional requests and the hand-over to an edge proxy. Which strings are valid header values is
  a parameter (\<open>valid\<close>, of the \<open>http\<close> crate), and so is what a store offers an edge (\<open>accel\<close>). A
  response is its status, its header fields and its body stream.

  The lemmas: a range that is resolved lies within the object and is not empty; serving through the
  conditional, ranged and metadata-only reads of the store gives the response that one read of the
  whole object would give; the header fields of a request are read back, so that this response is
  the one stated for the request without any of the server's parsing.
\<close>

section \<open>Ranges\<close>

datatype range_spec = RangeFrom nat "nat option" | RangeSuffix nat

definition parse_range :: "string option \<Rightarrow> range_spec option" where
  "parse_range header =
     (case Option.bind (map_option trim header) (strip_prefix ''bytes='') of
        None \<Rightarrow> None
      | Some spec \<Rightarrow>
          if CHR '','' \<in> set spec then None
          else (case split_once (CHR ''-'') spec of
                  None \<Rightarrow> None
                | Some (a0, b0) \<Rightarrow>
                    (let a = trim a0; b = trim b0
                     in if a = [] then
                          (case u64_from_str b of
                             None \<Rightarrow> None | Some n \<Rightarrow> if n > 0 then Some (RangeSuffix n) else None)
                        else (case u64_from_str a of
                                None \<Rightarrow> None
                              | Some start \<Rightarrow>
                                  if b = [] then Some (RangeFrom start None)
                                  else (case u64_from_str b of
                                          None \<Rightarrow> None
                                        | Some e \<Rightarrow> if e < start then None else Some (RangeFrom start (Some e)))))))"

definition u64_max :: nat where "u64_max = 2 ^ 64 - 1"

fun resolve_range :: "range_spec \<Rightarrow> nat \<Rightarrow> (nat \<times> nat) option" where
  "resolve_range (RangeFrom start e) len =
     (if start \<ge> len then None
      else Some (start, case e of None \<Rightarrow> len | Some x \<Rightarrow> min (min (x + 1) u64_max) len))"
| "resolve_range (RangeSuffix n) len = (if len = 0 then None else Some (len - n, len))"

section \<open>Entity tags\<close>

definition QUOTE :: char where "QUOTE = CHR 0x22"

definition trim_quotes :: "string \<Rightarrow> string" where
  "trim_quotes s = rev (dropWhile (\<lambda>c. c = QUOTE) (rev (dropWhile (\<lambda>c. c = QUOTE) s)))"

definition etag_of :: "(string \<Rightarrow> bool) \<Rightarrow> version \<Rightarrow> bytes" where
  "etag_of valid v =
     (let tag = [QUOTE] @ trim_quotes v @ [QUOTE] in if valid tag then tag else [QUOTE, CHR ''-'', QUOTE])"

fun trim_weak :: "string \<Rightarrow> string" where
  "trim_weak (a # b # s) = (if a = CHR ''W'' \<and> b = CHR ''/'' then trim_weak s else a # b # s)"
| "trim_weak s = s"

definition etags :: "headers \<Rightarrow> string \<Rightarrow> string list" where
  "etags hs name =
     filter (\<lambda>t. t \<noteq> [])
       (map (\<lambda>t. trim_quotes (trim_weak (trim t))) (concat (map (split_on (CHR '','')) (header_get_all hs name))))"

definition if_none_match_hit :: "headers \<Rightarrow> version \<Rightarrow> bool" where
  "if_none_match_hit hs v = list_ex (\<lambda>t. t = ''*'' \<or> t = trim_quotes v) (etags hs ''if-none-match'')"

definition if_range_allows :: "(string \<Rightarrow> bool) \<Rightarrow> headers \<Rightarrow> version \<Rightarrow> bool" where
  "if_range_allows valid hs v =
     (case map_of hs ''if-range'' of
        None \<Rightarrow> True
      | Some b \<Rightarrow> (case to_str b of None \<Rightarrow> False | Some s \<Rightarrow> trim s = etag_of valid v))"

section \<open>Responses\<close>

record http_response =
  rs_status :: nat
  rs_headers :: headers
  rs_body :: byte_stream

record serve_options =
  so_content_type :: string
  so_cache_control :: "string option"
  so_filename :: "string option"
  so_accel :: bool
  so_peer_loopback :: "bool option"

definition IMMUTABLE :: string where "IMMUTABLE = ''public, max-age=31536000, immutable''"

text \<open>\<open>HeaderMap::insert\<close>.\<close>

definition set_header :: "string \<Rightarrow> bytes \<Rightarrow> http_response \<Rightarrow> http_response" where
  "set_header n v r = r \<lparr>rs_headers := filter (\<lambda>(k, _). k \<noteq> n) (rs_headers r) @ [(n, v)]\<rparr>"

definition empty_response :: "nat \<Rightarrow> http_response" where
  "empty_response status = \<lparr>rs_status = status, rs_headers = [], rs_body = []\<rparr>"

definition cache_control :: "(string \<Rightarrow> bool) \<Rightarrow> serve_options \<Rightarrow> bytes" where
  "cache_control valid opts =
     (case so_cache_control opts of None \<Rightarrow> IMMUTABLE | Some cc \<Rightarrow> if valid cc then cc else IMMUTABLE)"

definition base_headers :: "(string \<Rightarrow> bool) \<Rightarrow> object_meta \<Rightarrow> serve_options \<Rightarrow> http_response \<Rightarrow> http_response" where
  "base_headers valid meta opts r =
     (let r1 = set_header ''vary'' ''Accept-Encoding''
          (set_header ''accept-ranges'' ''bytes''
          (set_header ''cache-control'' (cache_control valid opts)
          (set_header ''etag'' (etag_of valid (om_version meta))
          (set_header ''content-type''
             (if valid (so_content_type opts) then so_content_type opts else ''application/octet-stream'') r))))
      in case so_filename opts of
           None \<Rightarrow> r1
         | Some name \<Rightarrow>
             (let v = ''attachment; filename='' @ [QUOTE] @ filter (\<lambda>c. c \<noteq> QUOTE) name @ [QUOTE]
              in if valid v then set_header ''content-disposition'' v r1 else r1))"

definition not_modified :: "(string \<Rightarrow> bool) \<Rightarrow> version \<Rightarrow> serve_options \<Rightarrow> http_response" where
  "not_modified valid v opts =
     set_header ''vary'' ''Accept-Encoding''
       (set_header ''cache-control'' (cache_control valid opts)
         (set_header ''etag'' (etag_of valid v) (empty_response 304)))"

definition range_not_satisfiable :: "(string \<Rightarrow> bool) \<Rightarrow> object_meta \<Rightarrow> serve_options \<Rightarrow> http_response" where
  "range_not_satisfiable valid meta opts =
     set_header ''content-length'' ''0''
       (set_header ''content-range'' (''bytes */'' @ show_nat (om_size meta))
         (base_headers valid meta opts (empty_response 416)))"

definition whole_response :: "(string \<Rightarrow> bool) \<Rightarrow> object_meta \<Rightarrow> byte_stream \<Rightarrow> serve_options \<Rightarrow> http_response" where
  "whole_response valid meta body opts =
     set_header ''content-length'' (show_nat (om_size meta))
       (base_headers valid meta opts ((empty_response 200) \<lparr>rs_body := body\<rparr>))"

definition partial_response ::
  "(string \<Rightarrow> bool) \<Rightarrow> object_meta \<Rightarrow> nat \<Rightarrow> nat \<times> nat \<Rightarrow> byte_stream \<Rightarrow> serve_options \<Rightarrow> http_response" where
  "partial_response valid meta len r body opts =
     set_header ''content-length'' (show_nat (snd r - fst r))
       (set_header ''content-range''
          (''bytes '' @ show_nat (fst r) @ ''-'' @ show_nat (snd r - 1) @ ''/'' @ show_nat len)
          (base_headers valid meta opts ((empty_response 206) \<lparr>rs_body := body\<rparr>)))"

section \<open>Edge hand-over\<close>

definition accel_requested :: "headers \<Rightarrow> bool" where
  "accel_requested hs =
     list_ex (\<lambda>t. eq_ignore_ascii_case (trim t) ''accel-redirect'')
       (concat (map (split_by (\<lambda>c. c = CHR '','' \<or> c = CHR '' '')) (header_get_all hs ''x-walgit-capabilities'')))"

record accel_target =
  ac_url :: string
  ac_authorization :: "string option"

definition upper_hex :: "nat \<Rightarrow> char" where
  "upper_hex d = (if d < 10 then char_of (48 + d) else char_of (55 + d))"

definition encode_path :: "string \<Rightarrow> string" where
  "encode_path key =
     concat (map (\<lambda>b. if is_ascii_alphanumeric b \<or> b \<in> set ''-_.~/'' then [b]
        else [CHR ''%'', upper_hex (of_char b div 16), upper_hex (of_char b mod 16)]) key)"

definition accel_fields :: "accel_target \<Rightarrow> string \<Rightarrow> string \<Rightarrow> (string \<times> bytes) list" where
  "accel_fields t key backend =
     [(''x-accel-redirect'', ''/_store/''), (''x-walgit-store-url'', ac_url t)] @
     (case ac_authorization t of None \<Rightarrow> [] | Some auth \<Rightarrow> [(''x-walgit-store-authorization'', auth)]) @
     [(''x-walgit-store-key'', encode_path key), (''x-walgit-accel'', backend)]"

text \<open>\<open>message\<close> is the text of the error of an invalid header value.\<close>

definition accel_response ::
  "(string \<Rightarrow> bool) \<Rightarrow> string \<Rightarrow> object_meta \<Rightarrow> accel_target \<Rightarrow> string \<Rightarrow> string \<Rightarrow> serve_options \<Rightarrow>
     (api_error, http_response) result" where
  "accel_response valid message meta t key backend opts =
     (if \<not> valid (ac_url t) \<or> \<not> (case ac_authorization t of None \<Rightarrow> True | Some auth \<Rightarrow> valid auth)
         \<or> \<not> valid (encode_path key)
      then Inl (ApiInternal (''accel header: '' @ message))
      else Inr (set_header ''x-walgit-etag'' (etag_of valid (om_version meta))
             (fold (\<lambda>(n, v). set_header n v) (accel_fields t key backend)
               (base_headers valid meta opts (empty_response 200)))))"

section \<open>Serving\<close>

record serve_env =
  sv_valid :: "string \<Rightarrow> bool"
  sv_message :: string
  sv_accel :: "string \<Rightarrow> accel_target option"
  sv_backend :: string
  sv_disp :: "store_error \<Rightarrow> string"

definition missing_object :: "string \<Rightarrow> api_error" where
  "missing_object key = ApiNotFound (key @ '' not found'')"

text \<open>The last part of \<open>serve\<close>: one conditional read of the whole object.\<close>

definition serve_whole ::
  "serve_env \<Rightarrow> 's object_store \<Rightarrow> string \<Rightarrow> headers \<Rightarrow> serve_options \<Rightarrow> 's \<Rightarrow> (api_error, http_response) result \<times> 's" where
  "serve_whole env S key hs opts s =
     (let cond = (case etags hs ''if-none-match'' of
            [t] \<Rightarrow> if t = ''*'' then None else Some t
          | _ \<Rightarrow> None)
      in case os_get S key (default_get \<lparr>go_if_none_match := cond\<rparr>) s of
           (Inr (NotModified v), s1) \<Rightarrow> (Inr (not_modified (sv_valid env) v opts), s1)
         | (Inr (GetObject meta body), s1) \<Rightarrow>
             if if_none_match_hit hs (om_version meta)
             then (Inr (not_modified (sv_valid env) (om_version meta) opts), s1)
             else (Inr (whole_response (sv_valid env) meta body opts), s1)
         | (Inl (NotFound _), s1) \<Rightarrow> (Inl (missing_object key), s1)
         | (Inl e, s1) \<Rightarrow> (Inl (api_from_store (sv_disp env) e), s1))"

text \<open>
  The read of a range. A store that answers it with \<open>NotModified\<close>, which was not asked for, would
  panic the task; the error \<open>unreachable\<close> stands for that.
\<close>

definition serve_range ::
  "serve_env \<Rightarrow> 's object_store \<Rightarrow> string \<Rightarrow> object_meta \<Rightarrow> nat \<times> nat \<Rightarrow> serve_options \<Rightarrow> 's \<Rightarrow>
     (api_error, http_response) result \<times> 's" where
  "serve_range env S key meta r opts s =
     (case os_get S key (default_get \<lparr>go_if_match := Some (om_version meta), go_range := Some r\<rparr>) s of
        (Inr (GetObject m body), s1) \<Rightarrow>
          (Inr (partial_response (sv_valid env) meta (max (om_size m) (om_size meta)) r body opts), s1)
      | (Inr (NotModified _), s1) \<Rightarrow> (Inl (ApiInternal ''unreachable''), s1)
      | (Inl (PreconditionFailed _ _), s1) \<Rightarrow> (Inl (ApiConflict ''object changed during read''), s1)
      | (Inl e, s1) \<Rightarrow> (Inl (api_from_store (sv_disp env) e), s1))"

definition static_serve ::
  "serve_env \<Rightarrow> 's object_store \<Rightarrow> string \<Rightarrow> bool \<Rightarrow> headers \<Rightarrow> serve_options \<Rightarrow> 's \<Rightarrow>
     (api_error, http_response) result \<times> 's" where
  "static_serve env S key is_head hs opts s =
     (let range = parse_range (header_get hs ''range'');
          accel = (if so_accel opts \<and> \<not> is_head \<and> accel_requested hs \<and> so_peer_loopback opts = Some True
                   then sv_accel env key else None)
      in if accel \<noteq> None \<or> is_head \<or> range \<noteq> None then
           (case os_head S key s of
              (Inl e, s1) \<Rightarrow> (Inl (api_from_store (sv_disp env) e), s1)
            | (Inr None, s1) \<Rightarrow> (Inl (missing_object key), s1)
            | (Inr (Some meta), s1) \<Rightarrow>
                if if_none_match_hit hs (om_version meta)
                then (Inr (not_modified (sv_valid env) (om_version meta) opts), s1)
                else (case accel of
                        Some t \<Rightarrow> (accel_response (sv_valid env) (sv_message env) meta t key (sv_backend env) opts, s1)
                      | None \<Rightarrow>
                          if is_head then (Inr (whole_response (sv_valid env) meta [] opts), s1)
                          else if if_range_allows (sv_valid env) hs (om_version meta) then
                            (case resolve_range (the range) (om_size meta) of
                               None \<Rightarrow> (Inr (range_not_satisfiable (sv_valid env) meta opts), s1)
                             | Some r \<Rightarrow> serve_range env S key meta r opts s1)
                          else serve_whole env S key hs opts s1))
         else serve_whole env S key hs opts s)"

section \<open>The response an object determines\<close>

definition response_for ::
  "serve_env \<Rightarrow> string \<Rightarrow> version \<times> bytes \<Rightarrow> bool \<Rightarrow> headers \<Rightarrow> serve_options \<Rightarrow> http_response" where
  "response_for env key vd is_head hs opts =
     (case vd of (v, d) \<Rightarrow>
        let meta = object_meta_of key (v, d);
            whole = whole_response (sv_valid env) meta [Inr d] opts
        in if if_none_match_hit hs v then not_modified (sv_valid env) v opts
           else if is_head then whole_response (sv_valid env) meta [] opts
           else (case parse_range (header_get hs ''range'') of
                   None \<Rightarrow> whole
                 | Some spec \<Rightarrow>
                     if \<not> if_range_allows (sv_valid env) hs v then whole
                     else (case resolve_range spec (length d) of
                             None \<Rightarrow> range_not_satisfiable (sv_valid env) meta opts
                           | Some (a, b) \<Rightarrow>
                               partial_response (sv_valid env) meta (length d) (a, b) [Inr (take (b - a) (drop a d))] opts)))"

lemma u64_from_str_le: "u64_from_str s = Some n \<Longrightarrow> n \<le> u64_max"
  by (auto simp: u64_from_str_def parse_u64_def u64_max_def Let_def split: if_splits option.splits)

lemma parse_range_shape:
  assumes "parse_range h = Some spec"
  shows "case spec of RangeFrom a (Some e) \<Rightarrow> a \<le> e | RangeFrom a None \<Rightarrow> True | RangeSuffix n \<Rightarrow> 0 < n"
  using assms unfolding parse_range_def Let_def
  by (auto split: option.split_asm prod.split_asm if_split_asm)

lemma resolve_range_bounds:
  assumes "parse_range h = Some spec" "resolve_range spec len = Some (a, b)" "len \<le> u64_max"
  shows "a < b" "b \<le> len"
  using parse_range_shape [OF assms(1)] assms(2,3)
  by (cases spec; auto simp: min_def split: if_splits option.splits)+

lemma trim_quotes_idem [simp]: "trim_quotes (trim_quotes s) = trim_quotes s"
proof (cases "trim_quotes s = []")
  case True
  show ?thesis unfolding True by (simp add: trim_quotes_def)
next
  case False
  let ?P = "\<lambda>c. c = QUOTE"
  let ?m = "dropWhile ?P s"
  have ne: "dropWhile ?P (rev ?m) \<noteq> []" using False by (simp add: trim_quotes_def)
  then have "?m \<noteq> []" by (metis dropWhile.simps(1) rev.simps(1))
  then have hd: "hd ?m \<noteq> QUOTE" by (metis (full_types) hd_dropWhile)
  have t: "trim_quotes s = rev (dropWhile ?P (rev ?m))" by (simp add: trim_quotes_def)
  have "hd (trim_quotes s) = hd ?m"
  proof -
    obtain pre where pre: "rev ?m = pre @ dropWhile ?P (rev ?m)" by (metis takeWhile_dropWhile_id)
    have "hd ?m = last (rev ?m)" using \<open>?m \<noteq> []\<close> by (simp add: last_rev)
    also have "\<dots> = last (dropWhile ?P (rev ?m))" using pre ne by (metis last_appendR)
    finally show ?thesis using ne by (simp add: t hd_rev)
  qed
  then have "dropWhile ?P (trim_quotes s) = trim_quotes s"
    using hd False by (cases "trim_quotes s") auto
  then show ?thesis unfolding trim_quotes_def [of "trim_quotes s"] by (simp add: t)
qed

text \<open>A tag of the request is never quoted, so a store that finds the version unchanged agrees with the comparison of tags.\<close>

lemma single_tag_hit:
  assumes "etags hs ''if-none-match'' = [v]" "v \<noteq> ''*''"
  shows "if_none_match_hit hs v"
proof -
  have "v \<in> set (etags hs ''if-none-match'')" using assms(1) by simp
  then obtain t where "v = trim_quotes t" unfolding etags_def by auto
  then show ?thesis using assms(1) by (simp add: if_none_match_hit_def)
qed

lemma prefixed_memory_get:
  "os_get (prefixed p memory_store) key opts s =
     (case ms_view s (p @ key) of
        None \<Rightarrow> (Inl (NotFound (p @ key)), s)
      | Some (v, d) \<Rightarrow>
          (if go_if_match opts \<noteq> None \<and> go_if_match opts \<noteq> Some v then (Inl (PreconditionFailed (p @ key) (Some v)), s)
           else if go_if_none_match opts = Some v then (Inr (NotModified v), s)
           else case go_range opts of
                  None \<Rightarrow> (Inr (GetObject (object_meta_of key (v, d)) [Inr d]), s)
                | Some (a, b) \<Rightarrow>
                    if min a (length d) > min b (length d)
                    then (Inl (InvalidArgument (''bad range '' @ show_nat a @ ''..'' @ show_nat b @ '' for size '' @
                           show_nat (length d))), s)
                    else (Inr (GetObject (object_meta_of key (v, d))
                           [Inr (take (min b (length d) - min a (length d)) (drop (min a (length d)) d))]), s)))"
  by (auto simp: prefixed_def prefixed_get_def memory_store_def memory_get_def full_def ms_view_def strip_meta_def
      strip_key_def object_meta_of_def Let_def split: option.splits)

lemma serve_whole_exact:
  "serve_whole env (prefixed p memory_store) key hs opts s =
     (case ms_view s (p @ key) of
        None \<Rightarrow> Inl (missing_object key)
      | Some (v, d) \<Rightarrow>
          Inr (if if_none_match_hit hs v then not_modified (sv_valid env) v opts
               else whole_response (sv_valid env) (object_meta_of key (v, d)) [Inr d] opts), s)"
proof -
  let ?cond = "case etags hs ''if-none-match'' of [t] \<Rightarrow> if t = ''*'' then None else Some t | _ \<Rightarrow> None"
  have "if_none_match_hit hs v" if "?cond = Some v" for v
    using that by (auto intro: single_tag_hit split: list.splits if_splits)
  then show ?thesis
    unfolding serve_whole_def Let_def prefixed_memory_get
    by (auto simp: default_get_def object_meta_of_def split: option.splits)
qed

text \<open>Whichever reads of the store are used, the answer is that of the whole object. Only the hand-over to an edge is apart.\<close>

lemma static_serve_response:
  assumes "\<not> (so_accel opts \<and> accel_requested hs \<and> so_peer_loopback opts = Some True)"
    and "\<And>vd. ms_view s (p @ key) = Some vd \<Longrightarrow> length (snd vd) \<le> u64_max"
  shows "static_serve env (prefixed p memory_store) key is_head hs opts s =
    (case ms_view s (p @ key) of
       None \<Rightarrow> Inl (missing_object key)
     | Some vd \<Rightarrow> Inr (response_for env key vd is_head hs opts), s)"
proof (cases "ms_view s (p @ key)")
  case None
  then show ?thesis
    using assms(1) pre.head_view [of p key s]
    by (auto simp: static_serve_def Let_def serve_whole_exact)
next
  case (Some vd)
  obtain v d where vd: "vd = (v, d)" by (cases vd)
  with Some assms(2) have view: "ms_view s (p @ key) = Some (v, d)" and len: "length d \<le> u64_max" by auto
  have headq: "os_head (prefixed p memory_store) key s = (Inr (Some (object_meta_of key (v, d))), s)"
    using pre.head_view [of p key s] view by simp
  have slice: "serve_range env (prefixed p memory_store) key (object_meta_of key (v, d)) (a, b) opts s =
      (Inr (partial_response (sv_valid env) (object_meta_of key (v, d)) (length d) (a, b)
         [Inr (take (b - a) (drop a d))] opts), s)"
    if "a < b" "b \<le> length d" for a b
    using that view unfolding serve_range_def prefixed_memory_get
    by (simp add: default_get_def object_meta_of_def)
  have "static_serve env (prefixed p memory_store) key is_head hs opts s = (Inr (response_for env key (v, d) is_head hs opts), s)"
  proof (cases "is_head \<or> parse_range (header_get hs ''range'') = None \<or> if_none_match_hit hs v
      \<or> \<not> if_range_allows (sv_valid env) hs v")
    case True
    then show ?thesis using assms(1) headq view
      by (auto simp: static_serve_def response_for_def Let_def serve_whole_exact object_meta_of_def split: option.splits)
  next
    case False
    then obtain spec where spec: "parse_range (header_get hs ''range'') = Some spec" by auto
    show ?thesis
    proof (cases "resolve_range spec (length d)")
      case None
      then show ?thesis using False spec headq assms(1)
        by (auto simp: static_serve_def response_for_def Let_def object_meta_of_def)
    next
      case r: (Some ab)
      obtain a b where ab: "ab = (a, b)" by (cases ab)
      note bnd = resolve_range_bounds [OF spec r [unfolded ab] len]
      show ?thesis using False spec headq assms(1) r ab slice [OF bnd]
        by (auto simp: static_serve_def response_for_def Let_def object_meta_of_def)
    qed
  qed
  then show ?thesis using view vd by simp
qed

section \<open>What a request asks for\<close>

text \<open>
  The answer to a conditional or ranged request, stated without the server's own parsing: a request
  as a client means it, its header fields, the positions of the object it asks for, and the status,
  header fields and body of the answer.
\<close>

datatype byte_range = Bytes_Between nat nat | Bytes_From nat | Bytes_Last nat

datatype entity_tag = Any_Tag | Entity_Tag bool string

record object_request =
  oq_head :: bool
  oq_range :: "byte_range option"
  oq_none_match :: "entity_tag list"
  oq_if_range :: "string option"

fun range_text :: "byte_range \<Rightarrow> string" where
  "range_text (Bytes_Between a e) = ''bytes='' @ show_nat a @ ''-'' @ show_nat e"
| "range_text (Bytes_From a) = ''bytes='' @ show_nat a @ ''-''"
| "range_text (Bytes_Last n) = ''bytes=-'' @ show_nat n"

text \<open>The flag of a tag tells that it is a weak one.\<close>

fun tag_text :: "entity_tag \<Rightarrow> string" where
  "tag_text Any_Tag = ''*''"
| "tag_text (Entity_Tag weak t) = (if weak then ''W/'' else []) @ [QUOTE] @ t @ [QUOTE]"

fun tag_list_text :: "entity_tag list \<Rightarrow> string" where
  "tag_list_text [] = []"
| "tag_list_text [t] = tag_text t"
| "tag_list_text (t # ts) = tag_text t @ '', '' @ tag_list_text ts"

definition request_fields :: "object_request \<Rightarrow> headers" where
  "request_fields q =
     (case oq_range q of None \<Rightarrow> [] | Some r \<Rightarrow> [(''range'', range_text r)]) @
     (if oq_none_match q = [] then [] else [(''if-none-match'', tag_list_text (oq_none_match q))]) @
     (case oq_if_range q of None \<Rightarrow> [] | Some x \<Rightarrow> [(''if-range'', x)])"

definition visible :: "char \<Rightarrow> bool" where
  "visible c = ((33 :: nat) \<le> of_char c \<and> of_char c < (127 :: nat))"

fun plain_tag :: "entity_tag \<Rightarrow> bool" where
  "plain_tag Any_Tag = True"
| "plain_tag (Entity_Tag weak t) = (t \<noteq> [] \<and> t \<noteq> ''*'' \<and> list_all (\<lambda>c. visible c \<and> c \<noteq> CHR '','' \<and> c \<noteq> QUOTE) t)"

fun plain_range :: "byte_range \<Rightarrow> bool" where
  "plain_range (Bytes_Between a e) = (a < 2 ^ 64 \<and> e < 2 ^ 64)"
| "plain_range (Bytes_From a) = (a < 2 ^ 64)"
| "plain_range (Bytes_Last n) = (n < 2 ^ 64)"

text \<open>
  Numbers are of 64 bits, a tag is visible characters without comma and quote, and \<open>If-Range\<close> is
  any text (a tag, a weak tag, a date) that does not start or end with a blank.
\<close>

definition plain_request :: "object_request \<Rightarrow> bool" where
  "plain_request q =
     ((case oq_range q of None \<Rightarrow> True | Some r \<Rightarrow> plain_range r) \<and> list_all plain_tag (oq_none_match q) \<and>
      (case oq_if_range q of
         None \<Rightarrow> True
       | Some x \<Rightarrow> x \<noteq> [] \<and> visible (hd x) \<and> visible (last x) \<and> list_all (\<lambda>c. visible c \<or> c = CHR '' '') x))"

fun sensible_range :: "byte_range \<Rightarrow> bool" where
  "sensible_range (Bytes_Between a e) = (a \<le> e)"
| "sensible_range (Bytes_From a) = True"
| "sensible_range (Bytes_Last n) = (n \<noteq> 0)"

text \<open>The positions of an object of \<open>len\<close> bytes that a range asks for.\<close>

fun asked :: "byte_range \<Rightarrow> nat \<Rightarrow> nat \<Rightarrow> bool" where
  "asked (Bytes_Between a e) len i = (a \<le> i \<and> i \<le> e)"
| "asked (Bytes_From a) len i = (a \<le> i)"
| "asked (Bytes_Last n) len i = (len \<le> i + n)"

definition cached_for :: "serve_env \<Rightarrow> serve_options \<Rightarrow> bytes" where
  "cached_for env opts =
     (case so_cache_control opts of
        Some cc \<Rightarrow> if sv_valid env cc then cc else ''public, max-age=31536000, immutable''
      | None \<Rightarrow> ''public, max-age=31536000, immutable'')"

definition validator_fields :: "serve_env \<Rightarrow> serve_options \<Rightarrow> version \<Rightarrow> string \<Rightarrow> bytes option" where
  "validator_fields env opts v =
     [''etag'' \<mapsto> [QUOTE] @ v @ [QUOTE], ''cache-control'' \<mapsto> cached_for env opts, ''vary'' \<mapsto> ''Accept-Encoding'']"

definition object_fields :: "serve_env \<Rightarrow> serve_options \<Rightarrow> version \<Rightarrow> string \<Rightarrow> bytes option" where
  "object_fields env opts v =
     (let fields =
        [''content-type'' \<mapsto> (if sv_valid env (so_content_type opts) then so_content_type opts
           else ''application/octet-stream''),
         ''etag'' \<mapsto> [QUOTE] @ v @ [QUOTE], ''cache-control'' \<mapsto> cached_for env opts,
         ''accept-ranges'' \<mapsto> ''bytes'', ''vary'' \<mapsto> ''Accept-Encoding'']
      in case so_filename opts of
           None \<Rightarrow> fields
         | Some name \<Rightarrow>
             (let x = ''attachment; filename='' @ [QUOTE] @ filter (\<lambda>c. c \<noteq> QUOTE) name @ [QUOTE]
              in if sv_valid env x then fields(''content-disposition'' \<mapsto> x) else fields))"

definition expected_response ::
  "serve_env \<Rightarrow> serve_options \<Rightarrow> version \<Rightarrow> bytes \<Rightarrow> object_request \<Rightarrow>
     nat \<times> (string \<Rightarrow> bytes option) \<times> byte_stream" where
  "expected_response env opts v d q =
     (let len = length d;
          current = Any_Tag \<in> set (oq_none_match q) \<or> Entity_Tag False v \<in> set (oq_none_match q)
            \<or> Entity_Tag True v \<in> set (oq_none_match q);
          ranged = (case oq_if_range q of None \<Rightarrow> True | Some x \<Rightarrow> x = [QUOTE] @ v @ [QUOTE]);
          full = (object_fields env opts v)(''content-length'' \<mapsto> show_nat len)
      in if current then (304, validator_fields env opts v, [])
         else if oq_head q then (200, full, [])
         else (case (oq_range q) of
                 None \<Rightarrow> (200, full, [Inr d])
               | Some r \<Rightarrow>
                   if \<not> (sensible_range r \<and> ranged) then (200, full, [Inr d])
                   else (case filter (asked r len) [0..<len] of
                           [] \<Rightarrow> (416, (object_fields env opts v)(''content-range'' \<mapsto> ''bytes */'' @ show_nat len,
                                  ''content-length'' \<mapsto> ''0''), [])
                         | i # is \<Rightarrow>
                             (206, (object_fields env opts v)
                                (''content-range'' \<mapsto> ''bytes '' @ show_nat i @ ''-'' @ show_nat (last (i # is)) @ ''/'' @ show_nat len,
                                 ''content-length'' \<mapsto> show_nat (length (i # is))),
                              [Inr (map (\<lambda>j. d ! j) (i # is))]))))"

section \<open>The header fields of a request are read back\<close>

lemma visible_white_space:
  "w \<in> set white_space \<Longrightarrow> w \<noteq> [] \<and> \<not> visible (hd w) \<and> \<not> visible (last w) \<and> (hd w = CHR '' '' \<longrightarrow> w = '' '')"
proof -
  have "list_all (\<lambda>w. w \<noteq> [] \<and> \<not> visible (hd w) \<and> \<not> visible (last w) \<and> (hd w = CHR '' '' \<longrightarrow> w = '' '')) white_space"
    by code_simp
  then show "w \<in> set white_space \<Longrightarrow> ?thesis" by (simp add: list_all_iff)
qed

lemma trim_start_visible:
  assumes "s \<noteq> []" "visible (hd s)"
  shows "trim_fuel white_space n s = s"
  using assms visible_white_space by (intro trim_fuel_id) metis+

lemma trim_visible:
  assumes "s \<noteq> []" "visible (hd s)" "visible (last s)"
  shows "trim s = s" "trim (CHR '' '' # s) = s"
proof -
  have "trim_fuel (map rev white_space) n (rev s) = rev s" for n
    using assms(1,3) visible_white_space by (intro trim_fuel_id) (simp_all add: hd_rev, metis)
  then have e: "trim_end s = s" by (simp add: trim_end_def)
  then show "trim s = s" using trim_start_visible [OF assms(1,2)] by (simp add: trim_def trim_start_def)
  have "w = '' ''" if "find (\<lambda>w. prefix w (CHR '' '' # s)) white_space = Some w" for w
  proof -
    have "w \<in> set white_space" "prefix w (CHR '' '' # s)" using that by (auto simp: find_Some_iff)
    with visible_white_space [of w] show ?thesis by (cases w) simp_all
  qed
  moreover have "'' '' \<in> set white_space" by code_simp
  then have "find (\<lambda>w. prefix w (CHR '' '' # s)) white_space \<noteq> None" by (auto simp: find_None_iff)
  ultimately have "find (\<lambda>w. prefix w (CHR '' '' # s)) white_space = Some '' ''" by blast
  then have "trim_start (CHR '' '' # s) = s"
    by (simp add: trim_start_def trim_start_visible [OF assms(1,2)])
  then show "trim (CHR '' '' # s) = s" using e by (simp add: trim_def)
qed

lemma show_nat_visible [simp]: "c \<in> set (show_nat n) \<Longrightarrow> visible c"
  "c \<in> set (show_nat n) \<Longrightarrow> c \<noteq> CHR '','' \<and> c \<noteq> CHR ''-''"
  using show_nat_digits [of c n] by (auto simp: visible_def ascii_defs)

lemma trim_show_nat [simp]: "trim (show_nat n) = show_nat n"
  by (rule trim_visible) (metis show_nat_nonempty show_nat_visible(1) hd_in_set last_in_set)+

lemma trim_Nil [simp]: "trim [] = []"
  by code_simp

lemma to_str_plain: "list_all (\<lambda>c. visible c \<or> c = CHR '' '') x \<Longrightarrow> to_str x = Some x"
proof -
  have "visible c \<or> c = CHR '' '' \<Longrightarrow> ((32 :: nat) \<le> of_char c \<and> of_char c < (127 :: nat)) \<or> of_char c = (9 :: nat)" for c
    by (elim disjE) (simp_all add: visible_def)
  then show "list_all (\<lambda>c. visible c \<or> c = CHR '' '') x \<Longrightarrow> ?thesis"
    unfolding to_str_def list_all_iff by simp
qed

fun spec_of :: "byte_range \<Rightarrow> range_spec" where
  "spec_of (Bytes_Between a e) = RangeFrom a (Some e)"
| "spec_of (Bytes_From a) = RangeFrom a None"
| "spec_of (Bytes_Last n) = RangeSuffix n"

lemma trim_range_text: "trim (range_text r) = range_text r"
proof (rule trim_visible)
  show "range_text r \<noteq> []" "visible (hd (range_text r))" by (cases r; simp add: visible_def)+
  show "visible (last (range_text r))"
    using show_nat_visible(1) [OF last_in_set] by (cases r) (simp_all, simp add: visible_def)
qed

lemma parse_range_text:
  assumes "plain_range r"
  shows "parse_range (Some (range_text r)) = (if sensible_range r then Some (spec_of r) else None)"
proof -
  obtain a b where ab: "(a, b) = (case r of Bytes_Between i j \<Rightarrow> (show_nat i, show_nat j) | Bytes_From i \<Rightarrow> (show_nat i, [])
      | Bytes_Last n \<Rightarrow> ([], show_nat n))" by (metis surj_pair)
  have shape: "range_text r = ''bytes='' @ a @ CHR ''-'' # b" using ab by (cases r) simp_all
  have n: "CHR ''-'' \<notin> set (show_nat k)" "CHR '','' \<notin> set (show_nat k)" for k by (auto dest: show_nat_visible(2))
  have ac: "CHR ''-'' \<notin> set a" "CHR '','' \<notin> set (a @ CHR ''-'' # b)" using ab n by (cases r; simp)+
  have "Option.bind (map_option trim (Some (range_text r))) (strip_prefix ''bytes='') = Some (a @ CHR ''-'' # b)"
    using trim_range_text [of r] by (simp only: shape option.map(2) Option.bind.bind_lunit strip_prefix_append)
  then have "parse_range (Some (range_text r)) =
      (if trim a = [] then (case u64_from_str (trim b) of None \<Rightarrow> None | Some n \<Rightarrow> if n > 0 then Some (RangeSuffix n) else None)
       else (case u64_from_str (trim a) of None \<Rightarrow> None
             | Some start \<Rightarrow> if trim b = [] then Some (RangeFrom start None)
                 else (case u64_from_str (trim b) of None \<Rightarrow> None
                       | Some e \<Rightarrow> if e < start then None else Some (RangeFrom start (Some e)))))"
    unfolding parse_range_def by (simp only: option.case if_False ac(2) split_once_append [OF ac(1)] prod.case Let_def)
  then show ?thesis using assms ab by (cases r) simp_all
qed

lemma filter_interval: "filter (\<lambda>i. a \<le> i \<and> i < b) [0..<len] = [a..<min b len]"
proof (induction len)
  case (Suc len)
  consider "b \<le> len" | "len < a" "len < b" | "a \<le> len" "len < b" by linarith
  then show ?case using Suc by cases (simp_all add: min_def le_Suc_eq less_Suc_eq)
qed simp

lemma asked_positions:
  assumes "sensible_range r" "len \<le> u64_max"
  shows "filter (asked r len) [0..<len] =
    (case resolve_range (spec_of r) len of None \<Rightarrow> [] | Some (a, b) \<Rightarrow> [a..<b])"
proof -
  define a b where "a = (case r of Bytes_Between x e \<Rightarrow> x | Bytes_From x \<Rightarrow> x | Bytes_Last n \<Rightarrow> len - n)"
    and "b = (case r of Bytes_Between x e \<Rightarrow> e + 1 | _ \<Rightarrow> len)"
  have "filter (asked r len) [0..<len] = filter (\<lambda>i. a \<le> i \<and> i < b) [0..<len]"
    by (rule filter_cong) (cases r; auto simp: a_def b_def)+
  then show ?thesis
    using assms unfolding filter_interval by (cases r) (auto simp: a_def b_def min_def)
qed

fun tag_core :: "entity_tag \<Rightarrow> string" where
  "tag_core Any_Tag = ''*''"
| "tag_core (Entity_Tag weak t) = t"

lemma trim_quotes_quoted:
  assumes "t \<noteq> []" "QUOTE \<notin> set t"
  shows "trim_quotes (QUOTE # t @ [QUOTE]) = t"
proof -
  have "dropWhile (\<lambda>c. c = QUOTE) (t @ u) = t @ u" if "t \<noteq> []" "QUOTE \<notin> set t" for t u
    using that by (cases t) auto
  from this [of t "[QUOTE]"] this [of "rev t" "[]"] show ?thesis using assms by (simp add: trim_quotes_def)
qed

lemma trim_quotes_id:
  assumes "QUOTE \<notin> set v"
  shows "trim_quotes v = v"
proof -
  have "dropWhile (\<lambda>c. c = QUOTE) u = u" if "QUOTE \<notin> set u" for u using that by (cases u) auto
  from this [of v] this [of "rev v"] show ?thesis using assms by (simp add: trim_quotes_def)
qed

lemma punctuation_visible: "list_all (\<lambda>c. visible c \<and> c \<noteq> CHR '','') (QUOTE # ''*W/'')"
  by code_simp

lemma tag_text_visible:
  assumes "plain_tag t"
  shows "tag_text t \<noteq> []" "c \<in> set (tag_text t) \<Longrightarrow> visible c \<and> c \<noteq> CHR '',''"
proof -
  show "tag_text t \<noteq> []" by (cases t) simp_all
  have "list_all (\<lambda>c. visible c \<and> c \<noteq> CHR '','') (tag_text t)"
    using assms punctuation_visible by (cases t) (auto simp: list_all_iff)
  then show "c \<in> set (tag_text t) \<Longrightarrow> visible c \<and> c \<noteq> CHR '',''" by (simp add: list_all_iff)
qed

lemma tag_text_read:
  assumes "plain_tag t"
  shows "trim (tag_text t) = tag_text t" "trim (CHR '' '' # tag_text t) = tag_text t"
    "trim_quotes (trim_weak (tag_text t)) = tag_core t"
proof -
  show "trim (tag_text t) = tag_text t" "trim (CHR '' '' # tag_text t) = tag_text t"
    using tag_text_visible [OF assms] by (intro trim_visible; simp)+
  show "trim_quotes (trim_weak (tag_text t)) = tag_core t"
  proof (cases t)
    case Any_Tag
    show ?thesis unfolding Any_Tag by code_simp
  next
    case (Entity_Tag weak x)
    then have "x \<noteq> []" "QUOTE \<notin> set x" using assms by (auto simp: list_all_iff)
    moreover from this have "trim_weak (QUOTE # x @ [QUOTE]) = QUOTE # x @ [QUOTE]"
      by (cases x) (simp_all add: QUOTE_def)
    ultimately show ?thesis using Entity_Tag trim_quotes_quoted by simp
  qed
qed

lemma tag_list_chars: "list_all plain_tag ts \<Longrightarrow> c \<in> set (tag_list_text ts) \<Longrightarrow> visible c \<or> c = CHR '' ''"
  by (induction ts rule: tag_list_text.induct) (auto simp: visible_def dest: tag_text_visible(2))

lemma split_tag_list:
  assumes "list_all plain_tag (t # ts)"
  shows "split_on (CHR '','') (tag_list_text (t # ts)) = tag_text t # map (\<lambda>t. CHR '' '' # tag_text t) ts"
  using assms
proof (induction ts arbitrary: t)
  case Nil
  then show ?case using tag_text_visible(2) by (auto intro!: split_on_none)
next
  case (Cons u us)
  then have c: "CHR '','' \<notin> set (tag_text t)" using tag_text_visible(2) [of t] by auto
  show ?case using Cons by (simp add: split_on_append [OF c])
qed

lemma tags_read:
  assumes "list_all plain_tag (t # ts)"
  shows "map (\<lambda>t. trim_quotes (trim_weak (trim t))) (split_on (CHR '','') (tag_list_text (t # ts))) = map tag_core (t # ts)"
  using assms by (simp add: split_tag_list tag_text_read list_all_iff)

lemma tag_core_ne: "plain_tag t \<Longrightarrow> tag_core t \<noteq> []"
  by (cases t) auto

text \<open>A request given by its fields and others that have no part in it.\<close>

abbreviation others :: "headers \<Rightarrow> bool" where
  "others rest \<equiv> list_all (\<lambda>(n, _). n \<noteq> ''range'' \<and> n \<noteq> ''if-none-match'' \<and> n \<noteq> ''if-range'') rest"

lemma others_none:
  assumes "others rest"
  shows "map_of rest ''range'' = None" "map_of rest ''if-range'' = None"
    "filter (\<lambda>(n, _). n = ''if-none-match'') rest = []"
  using assms by (auto simp: map_of_eq_None_iff list_all_iff filter_empty_conv)

lemma fields_range:
  assumes "plain_request q" "others rest"
  shows "parse_range (header_get (request_fields q @ rest) ''range'') =
    (case oq_range q of None \<Rightarrow> None | Some r \<Rightarrow> if sensible_range r then Some (spec_of r) else None)"
proof -
  have "to_str (range_text r) = Some (range_text r)" for r
    by (rule to_str_plain, cases r) (auto simp: list_all_iff visible_def dest: show_nat_visible(1) [unfolded visible_def])
  then have "header_get (request_fields q @ rest) ''range'' = map_option range_text (oq_range q)"
    using others_none(1) [OF assms(2)]
    by (simp add: header_get_def request_fields_def map_add_def split: option.splits)
  moreover have "parse_range None = None" by (simp add: parse_range_def)
  ultimately show ?thesis
    using assms(1) parse_range_text by (cases "oq_range q") (simp_all add: plain_request_def)
qed

lemma fields_tags:
  assumes "plain_request q" "others rest" "QUOTE \<notin> set v"
  shows "if_none_match_hit (request_fields q @ rest) v \<longleftrightarrow>
    Any_Tag \<in> set (oq_none_match q) \<or> Entity_Tag False v \<in> set (oq_none_match q) \<or> Entity_Tag True v \<in> set (oq_none_match q)"
proof -
  have tags: "list_all plain_tag (oq_none_match q)" using assms(1) by (simp add: plain_request_def)
  have "header_get_all (request_fields q @ rest) ''if-none-match'' =
      (if oq_none_match q = [] then [] else [tag_list_text (oq_none_match q)])"
    using others_none(3) [OF assms(2)] to_str_plain [of "tag_list_text (oq_none_match q)"] tag_list_chars [OF tags]
    by (auto simp: header_get_all_def request_fields_def map_filter_def list_all_iff split: option.splits)
  then have "etags (request_fields q @ rest) ''if-none-match'' = map tag_core (oq_none_match q)"
    using tags tags_read by (cases "oq_none_match q")
      (auto simp: etags_def list_all_iff tag_core_ne simp del: tag_list_text.simps intro!: filter_True)
  moreover note trim_quotes_id [OF assms(3)]
  moreover have "tag_core t = ''*'' \<longleftrightarrow> t = Any_Tag" if "t \<in> set (oq_none_match q)" for t
    using tags that by (cases t) (auto simp: list_all_iff)
  moreover have "tag_core t = v \<longleftrightarrow> t = Any_Tag \<and> v = ''*'' \<or> t = Entity_Tag False v \<or> t = Entity_Tag True v" for t
    by (cases t) auto
  ultimately show ?thesis by (auto simp: if_none_match_hit_def list_ex_iff)
qed

lemma fields_if_range:
  assumes "plain_request q" "others rest" "QUOTE \<notin> set v" "valid ([QUOTE] @ v @ [QUOTE])"
  shows "if_range_allows valid (request_fields q @ rest) v \<longleftrightarrow>
    (case oq_if_range q of None \<Rightarrow> True | Some x \<Rightarrow> x = [QUOTE] @ v @ [QUOTE])"
proof -
  have "map_of (request_fields q @ rest) ''if-range'' = oq_if_range q"
    using others_none(2) [OF assms(2)] by (simp add: request_fields_def map_add_def split: option.splits)
  moreover have "etag_of valid v = [QUOTE] @ v @ [QUOTE]"
    using assms(4) by (simp add: etag_of_def trim_quotes_id [OF assms(3)])
  moreover have "to_str x = Some x" "trim x = x" if "oq_if_range q = Some x" for x
    using assms(1) that to_str_plain trim_visible(1) by (simp_all add: plain_request_def)
  ultimately show ?thesis by (simp add: if_range_allows_def split: option.splits)
qed

section \<open>The fields of an answer\<close>

lemma set_header_fields [simp]:
  "map_of (rs_headers (set_header n v r)) = (map_of (rs_headers r))(n \<mapsto> v)"
  "rs_status (set_header n v r) = rs_status r" "rs_body (set_header n v r) = rs_body r"
proof -
  have "map_of (filter (\<lambda>(k, _). k \<noteq> n) xs @ [(n, v)]) k = ((map_of xs)(n \<mapsto> v)) k" for xs k
    by (induction xs) (auto simp: map_add_def split: option.splits)
  then have "map_of (filter (\<lambda>(k, _). k \<noteq> n) xs @ [(n, v)]) = (map_of xs)(n \<mapsto> v)" for xs by blast
  then show "map_of (rs_headers (set_header n v r)) = (map_of (rs_headers r))(n \<mapsto> v)"
    by (simp add: set_header_def)
qed (simp_all add: set_header_def)

lemma empty_response_fields [simp]:
  "rs_headers (empty_response st) = []" "rs_status (empty_response st) = st" "rs_body (empty_response st) = []"
  by (simp_all add: empty_response_def)

definition summary :: "http_response \<Rightarrow> nat \<times> (string \<Rightarrow> bytes option) \<times> byte_stream" where
  "summary r = (rs_status r, map_of (rs_headers r), rs_body r)"

lemma cache_control_cached: "cache_control (sv_valid env) opts = cached_for env opts"
  by (simp add: cache_control_def cached_for_def IMMUTABLE_def split: option.split)

lemma base_headers_fields:
  assumes "QUOTE \<notin> set v" "sv_valid env ([QUOTE] @ v @ [QUOTE])" "om_version meta = v" "rs_headers r = []"
  shows "map_of (rs_headers (base_headers (sv_valid env) meta opts r)) = object_fields env opts v"
    "rs_status (base_headers (sv_valid env) meta opts r) = rs_status r"
    "rs_body (base_headers (sv_valid env) meta opts r) = rs_body r"
proof -
  have "etag_of (sv_valid env) v = [QUOTE] @ v @ [QUOTE]"
    using assms(2) by (simp add: etag_of_def trim_quotes_id [OF assms(1)])
  then show "map_of (rs_headers (base_headers (sv_valid env) meta opts r)) = object_fields env opts v"
    by (simp add: base_headers_def object_fields_def Let_def assms(3,4) cache_control_cached split: option.split)
qed (simp_all add: base_headers_def Let_def split: option.splits)

lemma not_modified_summary:
  assumes "QUOTE \<notin> set v" "sv_valid env ([QUOTE] @ v @ [QUOTE])"
  shows "summary (not_modified (sv_valid env) v opts) = (304, validator_fields env opts v, [])"
proof -
  have "etag_of (sv_valid env) v = [QUOTE] @ v @ [QUOTE]"
    using assms(2) by (simp add: etag_of_def trim_quotes_id [OF assms(1)])
  moreover have "map_of (rs_headers (not_modified (sv_valid env) v opts)) = validator_fields env opts v"
    if "etag_of (sv_valid env) v = [QUOTE] @ v @ [QUOTE]"
    using that by (simp add: not_modified_def validator_fields_def cache_control_cached)
  ultimately show ?thesis by (simp add: summary_def not_modified_def)
qed

lemma response_for_expected:
  assumes "plain_request q" "others rest" "QUOTE \<notin> set v" "sv_valid env ([QUOTE] @ v @ [QUOTE])" "length d \<le> u64_max"
  shows "summary (response_for env key (v, d) (oq_head q) (request_fields q @ rest) opts) = expected_response env opts v d q"
proof -
  let ?hs = "request_fields q @ rest" and ?meta = "object_meta_of key (v, d)"
  note hit = fields_tags [OF assms(1-3)] and ir = fields_if_range [of q rest v "sv_valid env", OF assms(1-4)] and pr = fields_range [OF assms(1,2)]
  note base = base_headers_fields [OF assms(3,4), of ?meta]
  have meta: "om_version ?meta = v" "om_size ?meta = length d" by (simp_all add: object_meta_of_def)
  have whole: "summary (whole_response (sv_valid env) ?meta b opts) =
      (200, (object_fields env opts v)(''content-length'' \<mapsto> show_nat (length d)), b)" for b
    by (simp add: summary_def whole_response_def base meta)
  have unsat: "summary (range_not_satisfiable (sv_valid env) ?meta opts) =
      (416, (object_fields env opts v)(''content-range'' \<mapsto> ''bytes */'' @ show_nat (length d), ''content-length'' \<mapsto> ''0''), [])"
    by (simp add: summary_def range_not_satisfiable_def base meta)
  have part: "summary (partial_response (sv_valid env) ?meta (length d) (a, b) body opts) =
      (206, (object_fields env opts v)(''content-range'' \<mapsto> ''bytes '' @ show_nat a @ ''-'' @ show_nat (b - 1) @ ''/'' @ show_nat (length d),
         ''content-length'' \<mapsto> show_nat (b - a)), body)" for a b body
    by (simp add: summary_def partial_response_def base meta)
  have ranged: "(case resolve_range (spec_of r) (length d) of
        None \<Rightarrow> summary (range_not_satisfiable (sv_valid env) ?meta opts)
      | Some (a, b) \<Rightarrow> summary (partial_response (sv_valid env) ?meta (length d) (a, b) [Inr (take (b - a) (drop a d))] opts)) =
    (case filter (asked r (length d)) [0..<length d] of
       [] \<Rightarrow> (416, (object_fields env opts v)(''content-range'' \<mapsto> ''bytes */'' @ show_nat (length d), ''content-length'' \<mapsto> ''0''), [])
     | i # is \<Rightarrow> (206, (object_fields env opts v)
          (''content-range'' \<mapsto> ''bytes '' @ show_nat i @ ''-'' @ show_nat (last (i # is)) @ ''/'' @ show_nat (length d),
           ''content-length'' \<mapsto> show_nat (length (i # is))), [Inr (map (\<lambda>j. d ! j) (i # is))]))"
    if "sensible_range r" "plain_range r" for r
  proof (cases "resolve_range (spec_of r) (length d)")
    case None
    then show ?thesis by (simp add: asked_positions [OF that(1) assms(5)] unsat)
  next
    case (Some ab)
    obtain a b where ab: "ab = (a, b)" by (cases ab)
    have "parse_range (Some (range_text r)) = Some (spec_of r)" using that parse_range_text by simp
    note bnd = resolve_range_bounds [OF this Some [unfolded ab] assms(5)]
    then have "filter (asked r (length d)) [0..<length d] = [a..<b]"
      by (simp add: asked_positions [OF that(1) assms(5)] Some ab)
    moreover have "map (\<lambda>j. d ! j) [a..<b] = take (b - a) (drop a d)"
      using bnd by (intro nth_equalityI) auto
    moreover obtain i js where "[a..<b] = i # js" "i = a" "last (i # js) = b - 1" "length (i # js) = b - a"
      using bnd(1) by (metis upt_conv_Cons last_upt length_upt)
    ultimately show ?thesis by (simp add: Some ab part del: upt_Suc)
  qed
  show ?thesis
  proof (cases "oq_range q")
    case None
    then show ?thesis
      by (simp add: response_for_def expected_response_def Let_def hit pr whole not_modified_summary [OF assms(3,4)])
  next
    case (Some r)
    then have plain: "plain_range r" using assms(1) by (simp add: plain_request_def)
    have "summary (case resolve_range (spec_of r) (length d) of None \<Rightarrow> range_not_satisfiable (sv_valid env) ?meta opts
        | Some (a, b) \<Rightarrow> partial_response (sv_valid env) ?meta (length d) (a, b) [Inr (take (b - a) (drop a d))] opts) =
      (case resolve_range (spec_of r) (length d) of None \<Rightarrow> summary (range_not_satisfiable (sv_valid env) ?meta opts)
        | Some (a, b) \<Rightarrow> summary (partial_response (sv_valid env) ?meta (length d) (a, b) [Inr (take (b - a) (drop a d))] opts))"
      by (simp split: option.split prod.split)
    note served = trans [OF this ranged [OF _ plain]]
    show ?thesis
    proof (cases "sensible_range r")
      case True
      from served [OF this] show ?thesis 
        unfolding expected_response_def response_for_def Let_def hit [symmetric] ir [symmetric] pr Some option.case
        by (cases "if_none_match_hit ?hs v"; cases "oq_head q"; cases "if_range_allows (sv_valid env) ?hs v")
          (simp_all only: prod.case if_True if_False True not_modified_summary [OF assms(3,4)] whole option.case simp_thms)
    next
      case False
      then show ?thesis
        by (simp add: response_for_def expected_response_def Let_def hit pr Some whole not_modified_summary [OF assms(3,4)])
    qed
  qed
qed

section \<open>Properties\<close>

text \<open>
  C21. Serving an object gives exactly the answer its request means. A client asks with at most one
  byte range, any list of entity tags and an \<open>If-Range\<close> condition, written into header fields as
  usual, among other fields. Whichever of the store's conditional, ranged or metadata reads is used,
  a missing object is reported missing; \<open>304\<close> is sent exactly when a tag of the list, weak or
  strong, is the current one or the list has \<open>*\<close>; otherwise a range whose bounds make sense, under an
  \<open>If-Range\<close> that is absent or the current tag, gives \<open>206\<close> with the bytes at exactly the positions
  asked for (a last-\<open>n\<close> range those at the end) and fields that name them, or \<open>416\<close> when there are
  none; everything else gives the whole object, and a metadata request no body. All header fields are
  the expected ones, and the store is as before. Tags are nonempty, not a quoted \<open>*\<close> and without commas;
  the version has no quote; numbers are of 64 bits; the hand-over to an edge on the same host is apart.
\<close>

theorem static_serve_exact:
  assumes "plain_request q"
    and "list_all (\<lambda>(n, _). n \<noteq> ''range'' \<and> n \<noteq> ''if-none-match'' \<and> n \<noteq> ''if-range'') rest"
    and "\<not> (so_accel opts \<and> accel_requested (request_fields q @ rest) \<and> so_peer_loopback opts = Some True)"
    and "\<And>v d. ms_view s (p @ key) = Some (v, d) \<Longrightarrow>
      QUOTE \<notin> set v \<and> sv_valid env ([QUOTE] @ v @ [QUOTE]) \<and> length d < 2 ^ 64"
  shows "case ms_view s (p @ key) of
      None \<Rightarrow> static_serve env (prefixed p memory_store) key (oq_head q) (request_fields q @ rest) opts s =
        (Inl (ApiNotFound (key @ '' not found'')), s)
    | Some (v, d) \<Rightarrow>
        \<exists>r. static_serve env (prefixed p memory_store) key (oq_head q) (request_fields q @ rest) opts s = (Inr r, s) \<and>
          (rs_status r, map_of (rs_headers r), rs_body r) = expected_response env opts v d q"
proof -
  have "length (snd vd) \<le> u64_max" if "ms_view s (p @ key) = Some vd" for vd
    using that assms(4) [of "fst vd" "snd vd"] by (simp add: u64_max_def)
  from static_serve_response [of opts "request_fields q @ rest" s p key env "oq_head q", OF assms(3) this]
  have answer: "static_serve env (prefixed p memory_store) key (oq_head q) (request_fields q @ rest) opts s =
    (case ms_view s (p @ key) of None \<Rightarrow> Inl (missing_object key)
     | Some vd \<Rightarrow> Inr (response_for env key vd (oq_head q) (request_fields q @ rest) opts), s)" .
  show ?thesis
  proof (cases "ms_view s (p @ key)")
    case None
    then show ?thesis using answer by (simp add: missing_object_def)
  next
    case (Some vd)
    obtain v d where vd: "vd = (v, d)" by (cases vd)
    with Some assms(4) have v: "QUOTE \<notin> set v" "sv_valid env ([QUOTE] @ v @ [QUOTE])" "length d \<le> u64_max"
      by (auto simp: u64_max_def)
    show ?thesis
      using answer response_for_expected [OF assms(1,2) v, of key opts] by (simp add: Some vd summary_def)
  qed
qed

definition plain_options :: serve_options where
  "plain_options = \<lparr>so_content_type = ''application/octet-stream'', so_cache_control = None, so_filename = None,
     so_accel = False, so_peer_loopback = None\<rparr>"

definition plain_env :: serve_env where
  "plain_env = \<lparr>sv_valid = (\<lambda>_. True), sv_message = [], sv_accel = (\<lambda>_. None), sv_backend = ''memory'', sv_disp = (\<lambda>_. [])\<rparr>"

definition abc_store :: memory_state where
  "abc_store = \<lparr>ms_objects = [(''r/k'', (''1'', ''abc''))], ms_counter = 1\<rparr>"

text \<open>The last two bytes, if the object is still version 1 and not version 0.\<close>

definition tail_request :: object_request where
  "tail_request = \<lparr>oq_head = False, oq_range = Some (Bytes_Last 2), oq_none_match = [Entity_Tag True ''0''],
     oq_if_range = Some ([QUOTE] @ ''1'' @ [QUOTE])\<rparr>"

theorem static_serve_exact_witness:
  "\<exists>r. static_serve plain_env (prefixed ''r/'' memory_store) ''k'' False
      [(''range'', ''bytes=-2''), (''if-none-match'', ''W/'' @ [QUOTE] @ ''0'' @ [QUOTE]), (''if-range'', [QUOTE] @ ''1'' @ [QUOTE])]
      plain_options abc_store = (Inr r, abc_store) \<and>
    rs_status r = 206 \<and> rs_body r = [Inr ''bc''] \<and> map_of (rs_headers r) ''content-range'' = Some ''bytes 1-2/3''"
proof -
  let ?e = "expected_response plain_env plain_options ''1'' ''abc'' tail_request"
  have view: "ms_view abc_store (''r/'' @ ''k'') = Some (''1'', ''abc'')" by (simp add: ms_view_def abc_store_def)
  have fields: "request_fields tail_request =
      [(''range'', ''bytes=-2''), (''if-none-match'', ''W/'' @ [QUOTE] @ ''0'' @ [QUOTE]), (''if-range'', [QUOTE] @ ''1'' @ [QUOTE])]"
    "oq_head tail_request = False" by code_simp+
  have plain: "plain_request tail_request"
    by (simp add: plain_request_def tail_request_def visible_def QUOTE_def)
  have answer: "fst ?e = 206" "snd (snd ?e) = [Inr ''bc'']" "fst (snd ?e) ''content-range'' = Some ''bytes 1-2/3''" by code_simp+
  have quote: "QUOTE \<notin> set ''1''" by code_simp
  obtain r where "static_serve plain_env (prefixed ''r/'' memory_store) ''k'' (oq_head tail_request) (request_fields tail_request @ [])
      plain_options abc_store = (Inr r, abc_store)" "(rs_status r, map_of (rs_headers r), rs_body r) = ?e"
    using static_serve_exact [OF plain, of "[]" plain_options abc_store "''r/''" "''k''" plain_env] view quote
    by (auto simp: plain_options_def plain_env_def)
  then show ?thesis using answer fields by (intro exI [of _ r]) (auto simp: prod_eq_iff)
qed

end
