(* ===== verification/Spec2Isabelle.thy ===== *)
theory Spec2Isabelle
  imports Commit Protocol Checkpoint Receive Compaction Bridge Group_Roots Static_Object
begin

text \<open>
  \<^bold>\<open>walgit\<close> is a Git server that keeps no repository on its own disk for good: a repository is a
  prefix of an object store holding a manifest, a write-ahead log of segments, immutable packs and
  checkpoints, and every server process is a cache in front of it. This library models the parts
  of the program that decide what is in that store, who may change it and what a client is told,
  and proves what they promise each other.

  \<^bold>\<open>The program and its parts.\<close> A push enters at \<open>crates/walgit-server/src/smart.rs\<close>. The request
  is authenticated (\<open>auth.rs\<close>), authorised against the repository's access document and the user
  directory (server \<open>access.rs\<close>, wal \<open>access.rs\<close> and \<open>accounts.rs\<close>), parsed
  (\<open>walgit-git/src/pkt.rs\<close>, \<open>receive.rs\<close>), and filtered by the push policy (\<open>policy.rs\<close>). What is
  left goes to the publisher (\<open>walgit-wal/src/publish.rs\<close>), which verifies a batch of requests
  against the manifest it synced to, writes the entries as a log segment under the first free
  sequence number and commits by compare-and-swap of the manifest. Checkpoints
  (\<open>checkpoint.rs\<close>) shorten the log, and compaction (\<open>publish.rs\<close>, \<open>classification.rs\<close>,
  \<open>closure.rs\<close>) replaces packs by better ones under the ref policy of \<open>walgit-config\<close>. Issues, pull
  requests and accounts are folds of the same log (\<open>forge.rs\<close>, \<open>accounts.rs\<close>), and the events bridge
  (\<open>bridge.rs\<close>, \<open>events.rs\<close>) tells a webhook what the log did to the refs. Packs and large files are
  downloaded as static objects (\<open>static_object.rs\<close>). Everything durable passes through the \<open>ObjectStore\<close> trait of
  \<open>walgit-store\<close> and the formats of \<open>walgit-proto\<close>.

  \<^bold>\<open>Conventions.\<close> A Rust string or byte vector is a \<open>string\<close>, one \<open>char\<close> per byte; a \<open>Result\<close> is a
  sum with the error on the left; a \<open>BTreeMap\<close> is a strictly sorted association list; a \<open>u64\<close> is a
  \<open>nat\<close> except where the code can wrap around, where it is a word or the wrap is written out
  (version counter of the memory store, comment ids, timestamps, pkt-line lengths). Names are the
  source's, prefixed with the type or module where they would clash. Tracing, metrics, sleeping and
  progress messages have no effect on results and are left out throughout.

  Third-party code is an argument, with what is assumed of it as a hypothesis of the theorem that
  needs it: protobuf encoding (\<open>codec\<close>, hypothesis that decoding reads back what was encoded),
  varints, SHA-256, HMAC, base64, JSON, JWT verification, Unicode tables, formatted times, UUIDs,
  clocks, HTTP clients and header values, and the local repository behind \<open>gix\<close> and \<open>git\<close>. \<open>Codecs\<close> shows that codecs with the
  assumed property exist, and the witnesses use them.

  \<^bold>\<open>Theories, from the bottom.\<close>

  \<^item> \<open>Prelude\<close>: results, ordered maps, the string functions of the Rust library.
  \<^item> \<open>Proto\<close>: the messages of \<open>wal.proto\<close> and the timestamps of \<open>walgit-proto/src/lib.rs\<close>.
  \<^item> \<open>Keys\<close>: object keys and repository ids. Ids survive printing and parsing, the prefixes of two
    repositories are incomparable, log keys sort by sequence number.
  \<^item> \<open>Object_Store\<close>: the trait as a record of operations, the memory store, prefixed views. The
    locale \<open>versioned_store\<close> is the contract every other component relies on: reads return the
    current object, a conditional put succeeds exactly on the expected version, versions are not
    reused. It is interpreted on the memory store and on prefixed views of it. A prefixed store is
    the sub-store under its prefix; listings are exact.
  \<^item> \<open>Fault_Store\<close>: the faulty link to a store of \<open>fault.rs\<close>, with its dice on 64-bit words: errors before
    and after a write took effect, spurious failed preconditions, stale and truncated reads, denied
    keys. The locale \<open>lossy_store\<close> is the weaker contract such a link still meets; \<open>versioned_store\<close>
    gives it, and it is interpreted on the link over the memory store.
  \<^item> \<open>Coord\<close>: \<open>cas_update\<close>, message reads and leases (\<open>coord.rs\<close>, \<open>util.rs\<close>). The loop loses
    no change of another client between its store operations; two processes never both trust a lease
    under bounded clock skew.
  \<^item> \<open>Wal_Format\<close>: log frames, canonical ref snapshots, pack membership; round trips, and
    retirement keeps what is served.
  \<^item> \<open>Refs\<close>: ref validation, the publisher's view of the refs, transactions, and their replay from
    the log, which agree.
  \<^item> \<open>Access\<close>, \<open>Event_Fold\<close>, \<open>Forge\<close>, \<open>Forge_Fold\<close>, \<open>Accounts\<close>: roles, and the folds of issues,
    pull requests and accounts. The locale \<open>event_fold\<close> states what a fold with checkpointed
    history promises; both folds interpret it. Merged pull requests stay merged, a reader cannot
    edit others' items, account names are permanent, the indices stay consistent.
  \<^item> \<open>Wal_Store\<close>, \<open>Log_Slot\<close>, \<open>Publish\<close>, \<open>Commit\<close>, \<open>Protocol\<close>, \<open>Checkpoint\<close>: reading a
    repository, claiming a log slot, verifying and committing a batch, what an outcome tells about
    the store over a faulty link (an unknown commit included), many writers and crashes in any order, and the checkpoint writer.
  \<^item> \<open>Pkt\<close>, \<open>Policy\<close>, \<open>Auth\<close>, \<open>Authorize\<close>, \<open>Receive\<close>: the server's side of a push, from the bytes
    of the request to the report. The locale \<open>push_publisher\<close> is what the push handler needs of
    the publisher; \<open>Receive\<close> interprets it on \<open>process_batch\<close>.
  \<^item> \<open>Pack_Groups\<close>, \<open>Group_Roots\<close>, \<open>Inventory\<close>, \<open>Classification\<close>, \<open>Compaction\<close>: the ref policy and its
    identity, the roots of a pack group, the check of a replacement inventory, coverage
    certificates, and the writers that replace packs. Validation finds exactly the cyclic policies,
    equal identities mean equal packing, and a sealed replacement loses no object and keeps serving
    every pack that was served.
  \<^item> \<open>Events\<close>, \<open>Bridge\<close>: events of log entries, the run of the bridge, the webhook and the
    notifications. \<open>bridge_reach\<close> is a step relation of runs, commits, checkpoints (also within a
    run) and crashes for one bridge over a store whose operations do not fail; an event at or below
    the cursor was delivered, or lies in one of the cases the theorem names. One of them, a checkpoint
    within a run, is shown to lose events without a report. Applying the events gives the refs of the
    log, as long as no entry names a ref twice, which is shown to be possible and to diverge.
  \<^item> \<open>Static_Object\<close>: ranges and conditional requests. A request is stated as the client means it
    (a range as the positions it asks for, tags with their strength) and written into header fields;
    the answer's status, fields and body are stated without the server's parsing.

  \<^bold>\<open>Concurrency.\<close> Two devices are used. The store \<open>interleaved\<close> of \<open>Coord\<close> runs an arbitrary
  pending action of other clients before every operation of a loop; what the loop reports is stated
  against the actions it has consumed. \<open>lease_step\<close> and
  \<open>publish_step\<close> are step relations of several processes whose steps are the single store
  operations of the code, with crashes between any two; invariants are proved by induction over
  \<open>lease_reach\<close> and \<open>publish_reach\<close>. In \<open>lease_step\<close> an acquisition is the read \<open>acquire_read\<close>, whose
  result the process keeps as a pending attempt, and later the conditional write \<open>acquire_write\<close>;
  \<open>try_acquire\<close> is their composition. In \<open>publish_step\<close> the number of probes of an occupied slot is
  over-approximated.

  \<^bold>\<open>Failures of the store.\<close> The outcome of a batch (\<open>batch_outcome_tells_commit\<close>) and the commit
  functions below it are proved over the faulty link, so the path from an ambiguous error through the
  search for the landed segment to \<open>CommitUnknown\<close> is live. The claims about checkpoints,
  compaction, leases and the bridge are about stores whose errors are definite.

  \<^bold>\<open>Bounds and loops.\<close> Recursion over retries uses the source's own bounds: the attempts of
  \<open>cas_update\<close> and \<open>process_batch\<close>, the three probes of a slot, \<open>MAX_BURN\<close> burned sequence numbers,
  the 16 levels of tag peeling. \<open>claim_loop\<close> is a \<open>partial_function\<close>, because other writers can
  free the slot between its operations for ever; \<open>publishing_terminates\<close> and
  \<open>claim_skips_orphans\<close> show that it returns when nobody else writes meanwhile. \<open>RefView::get\<close> on
  \<open>HEAD\<close> pointing at itself does not return and is \<open>None\<close> in the model.

  \<^bold>\<open>Not modelled.\<close> The cloud stores (\<open>s3.rs\<close>, \<open>gcs.rs\<close>) are network clients; what is proved over
  \<open>versioned_store\<close> holds for them as far as they meet it. The local repository
  (\<open>walgit-git\<close>: ingestion, indexing, multi-pack indices, upload-pack through \<open>gix\<close>) consists of calls
  into third-party code on files. The handle, registry and sync of \<open>walgit-wal\<close> are tasks, locks and
  channels around the operations modelled here, and so are the maintenance loops, whose choice of
  work also compares floating-point ratios. The web interface, the command line, the HTTP side of
  settings, the LFS batch protocol, TLS and telemetry are left out.
\<close>

end
